(* ===== verification/Prelude.thy ===== *)
theory Prelude
  imports Main "HOL-Library.Word"
begin

text \<open>
  Shared vocabulary of the development: the C integer types as machine words, the outcome of a
  piece of kernel code (a value, or the fault that stops it), and the byte-addressed memory the
  kernel reads and writes, with its little-endian 16-, 32- and 64-bit views.  The lemmas at the
  end are the algebra of loads and stores every component uses; they live in the collections
  \<open>mem_simps\<close> (loads over stores) and \<open>bind_simps\<close> (outcomes).
\<close>

unbundle bit_operations_syntax

named_theorems mem_simps "loads over stores, stores over stores"
named_theorems bind_simps "sequencing of outcomes"

section \<open>Machine integers\<close>

type_synonym u8 = "8 word"
type_synonym u16 = "16 word"
type_synonym u32 = "32 word"
type_synonym u64 = "64 word"

section \<open>Outcomes of kernel code\<close>

text \<open>
  \<open>NullPointer\<close>: the code goes on with a null pointer where it needs an object.
  \<open>BadIndex\<close>: an array is indexed outside its bounds.
  \<open>BadAddress\<close>: a user address that no page table maps is accessed from the kernel.
  \<open>Hang\<close>: a loop or a recursion never ends.
  \<open>DivideError\<close>: a division by zero, which the processor turns into an exception.
  \<open>Panic\<close>: the code calls \<^verbatim>\<open>panic\<close>.
  \<open>WildReturn\<close>: a function returns with a stack and frame pointer that are not its own.
\<close>

datatype fault = NullPointer | BadIndex | BadAddress | Hang | DivideError | Panic | WildReturn

type_synonym 'a outcome = "fault + 'a"

definition bindE :: "'a outcome \<Rightarrow> ('a \<Rightarrow> 'b outcome) \<Rightarrow> 'b outcome" where
  "bindE m f = (case m of Inl e \<Rightarrow> Inl e | Inr x \<Rightarrow> f x)"

lemma bindE_Inl [simp, bind_simps]: "bindE (Inl e) f = Inl e"
  by (simp add: bindE_def)

lemma bindE_Inr [simp, bind_simps]: "bindE (Inr x) f = f x"
  by (simp add: bindE_def)

lemma bindE_eq_Inr: "bindE m f = Inr y \<longleftrightarrow> (\<exists>x. m = Inr x \<and> f x = Inr y)"
  by (cases m) auto

lemma bindE_InrE:
  assumes "bindE m f = Inr y"
  obtains x where "m = Inr x" and "f x = Inr y"
  using assms by (auto simp: bindE_eq_Inr)

lemma bindE_assoc: "bindE (bindE m f) g = bindE m (\<lambda>x. bindE (f x) g)"
  by (cases m) auto

section \<open>Little-endian bytes of a word\<close>

fun word_of_bytes :: "u8 list \<Rightarrow> 'a::len word" where
  "word_of_bytes [] = 0"
| "word_of_bytes (b # bs) = ucast b OR push_bit 8 (word_of_bytes bs)"

fun bytes_of_word :: "nat \<Rightarrow> 'a::len word \<Rightarrow> u8 list" where
  "bytes_of_word 0 w = []"
| "bytes_of_word (Suc n) w = ucast w # bytes_of_word n (drop_bit 8 w)"

lemma length_bytes_of_word [simp]: "length (bytes_of_word n w) = n"
  by (induction n arbitrary: w) auto

lemma word_of_bytes_of_word:
  "(word_of_bytes (bytes_of_word n w) :: 'a::len word) = take_bit (8 * n) w"
proof (induction n arbitrary: w)
  case 0
  then show ?case by simp
next
  case (Suc n)
  have "ucast (ucast w :: u8) OR push_bit 8 (take_bit (8 * n) (drop_bit 8 w)) = take_bit (8 * Suc n) w"
    by (rule bit_word_eqI) (auto simp: bit_simps not_less)
  then show ?case by (simp add: Suc.IH)
qed

lemma bytes_of_word_0 [simp]: "bytes_of_word n 0 = replicate n 0"
  by (induction n) auto

lemma word_of_bytes_replicate_0 [simp]: "word_of_bytes (replicate n 0) = 0"
  by (induction n) auto

section \<open>Memory\<close>

text \<open>
  Memory is a function from kernel virtual addresses to bytes.  A store of \<open>n\<close> bytes at \<open>a\<close>
  changes the \<open>n\<close> addresses \<open>a\<close>, \<open>a + 1\<close>, \dots, counted modulo \<open>2 ^ 64\<close> as the processor does.
\<close>

type_synonym mem = "u64 \<Rightarrow> u8"

definition load_bytes :: "mem \<Rightarrow> u64 \<Rightarrow> nat \<Rightarrow> u8 list" where
  "load_bytes m a n = map (\<lambda>i. m (a + of_nat i)) [0..<n]"

definition store_bytes :: "mem \<Rightarrow> u64 \<Rightarrow> u8 list \<Rightarrow> mem" where
  "store_bytes m a bs = (\<lambda>x. if unat (x - a) < length bs then bs ! unat (x - a) else m x)"

definition load16 :: "mem \<Rightarrow> u64 \<Rightarrow> u16" where
  "load16 m a = word_of_bytes (load_bytes m a 2)"

definition load32 :: "mem \<Rightarrow> u64 \<Rightarrow> u32" where
  "load32 m a = word_of_bytes (load_bytes m a 4)"

definition load64 :: "mem \<Rightarrow> u64 \<Rightarrow> u64" where
  "load64 m a = word_of_bytes (load_bytes m a 8)"

definition store16 :: "mem \<Rightarrow> u64 \<Rightarrow> u16 \<Rightarrow> mem" where
  "store16 m a v = store_bytes m a (bytes_of_word 2 v)"

definition store32 :: "mem \<Rightarrow> u64 \<Rightarrow> u32 \<Rightarrow> mem" where
  "store32 m a v = store_bytes m a (bytes_of_word 4 v)"

definition store64 :: "mem \<Rightarrow> u64 \<Rightarrow> u64 \<Rightarrow> mem" where
  "store64 m a v = store_bytes m a (bytes_of_word 8 v)"

text \<open>Two address ranges that share no byte.\<close>

definition apart :: "u64 \<Rightarrow> nat \<Rightarrow> u64 \<Rightarrow> nat \<Rightarrow> bool" where
  "apart a n b k \<longleftrightarrow> (\<forall>x. \<not> (unat (x - a) < n \<and> unat (x - b) < k))"

lemma apart_sym: "apart a n b k \<longleftrightarrow> apart b k a n"
  by (auto simp: apart_def)

lemma unat_of_nat_small: "i < 2 ^ LENGTH('a) \<Longrightarrow> unat (of_nat i :: 'a::len word) = i"
  by (simp add: unat_of_nat)

lemma ucast_of_nat_small:
  "i < 2 ^ LENGTH('a) \<Longrightarrow> (ucast (of_nat i :: 'a::len word) :: 'b::len word) = of_nat i"
  by (metis of_nat_unat unat_of_nat_small)

lemma ucast_u32_u64: "unat x < 2 ^ 32 \<Longrightarrow> ucast (ucast (x :: u64) :: u32) = x"
proof -
  assume "unat x < 2 ^ 32"
  then have "unat (ucast x :: u32) = unat x" by (simp add: unsigned_ucast_eq take_bit_nat_eq_self)
  moreover have "unat (ucast y :: u64) = unat y" for y :: u32
  proof -
    have "unat y < 2 ^ 32" using unsigned_less [of y] by simp
    then show ?thesis by (simp add: unsigned_ucast_eq take_bit_nat_eq_self)
  qed
  ultimately show ?thesis by (metis word_unat_eq_iff)
qed

lemma length_load_bytes [simp]: "length (load_bytes m a n) = n"
  by (simp add: load_bytes_def)

lemma load_store_bytes_same [mem_simps]:
  assumes "length bs \<le> 2 ^ 64"
  shows "load_bytes (store_bytes m a bs) a (length bs) = bs"
proof (rule nth_equalityI)
  fix i assume "i < length (load_bytes (store_bytes m a bs) a (length bs))"
  then have i: "i < length bs" by simp
  with assms have "unat (of_nat i :: u64) = i" by (simp add: unat_of_nat_small)
  with i show "load_bytes (store_bytes m a bs) a (length bs) ! i = bs ! i"
    by (simp add: load_bytes_def store_bytes_def)
qed simp

lemma load_store_bytes_disj:
  assumes "apart a (length bs) b n" and "n \<le> 2 ^ 64"
  shows "load_bytes (store_bytes m a bs) b n = load_bytes m b n"
proof (rule nth_equalityI)
  fix i assume "i < length (load_bytes (store_bytes m a bs) b n)"
  then have i: "i < n" by simp
  with assms(2) have "unat (of_nat i :: u64) = i" by (simp add: unat_of_nat_small)
  with assms(1) i have "\<not> unat (b + of_nat i - a) < length bs"
    unfolding apart_def by (metis add_diff_cancel_left')
  with i show "load_bytes (store_bytes m a bs) b n ! i = load_bytes m b n ! i"
    by (simp add: load_bytes_def store_bytes_def)
qed simp

lemma load64_store64_same [simp, mem_simps]: "load64 (store64 m a v) a = v"
  using load_store_bytes_same [of "bytes_of_word 8 v" m a] take_bit_length_eq [of v]
  by (simp add: load64_def store64_def word_of_bytes_of_word)

lemma load32_store32_same [simp, mem_simps]: "load32 (store32 m a v) a = v"
  using load_store_bytes_same [of "bytes_of_word 4 v" m a] take_bit_length_eq [of v]
  by (simp add: load32_def store32_def word_of_bytes_of_word)

lemma load16_store16_same [simp, mem_simps]: "load16 (store16 m a v) a = v"
  using load_store_bytes_same [of "bytes_of_word 2 v" m a] take_bit_length_eq [of v]
  by (simp add: load16_def store16_def word_of_bytes_of_word)

lemma load64_store_bytes_disj: "apart a (length bs) b 8 \<Longrightarrow> load64 (store_bytes m a bs) b = load64 m b"
  by (simp add: load64_def load_store_bytes_disj)

lemma load32_store_bytes_disj: "apart a (length bs) b 4 \<Longrightarrow> load32 (store_bytes m a bs) b = load32 m b"
  by (simp add: load32_def load_store_bytes_disj)

lemma load16_store_bytes_disj: "apart a (length bs) b 2 \<Longrightarrow> load16 (store_bytes m a bs) b = load16 m b"
  by (simp add: load16_def load_store_bytes_disj)

lemma load64_store64_disj: "apart a 8 b 8 \<Longrightarrow> load64 (store64 m a v) b = load64 m b"
  by (simp add: store64_def load64_store_bytes_disj)

lemma load32_store32_disj: "apart a 4 b 4 \<Longrightarrow> load32 (store32 m a v) b = load32 m b"
  by (simp add: store32_def load32_store_bytes_disj)

lemma load16_store16_disj: "apart a 2 b 2 \<Longrightarrow> load16 (store16 m a v) b = load16 m b"
  by (simp add: store16_def load16_store_bytes_disj)

text \<open>A load inside a stored range reads the stored bytes.\<close>

lemma load_bytes_inside:
  assumes "unat (b - a) + n \<le> length bs" and "length bs < 2 ^ 64"
  shows "load_bytes (store_bytes m a bs) b n = take n (drop (unat (b - a)) bs)"
proof (rule nth_equalityI)
  fix i assume "i < length (load_bytes (store_bytes m a bs) b n)"
  then have i: "i < n" by simp
  have "unat ((b - a) + of_nat i) = unat (b - a) + i"
    using assms i by (simp add: unat_word_ariths unat_of_nat)
  moreover have "b + of_nat i - a = (b - a) + of_nat i" by (simp add: algebra_simps)
  ultimately have "unat (b + of_nat i - a) = unat (b - a) + i" by metis
  with assms i show "load_bytes (store_bytes m a bs) b n ! i = take n (drop (unat (b - a)) bs) ! i"
    by (simp add: load_bytes_def store_bytes_def)
qed (use assms in simp)

text \<open>Ranges at distinct offsets from one base address.\<close>

lemma unat_diff_offset:
  assumes "x \<le> y" and "y < 2 ^ 64"
  shows "unat ((base + of_nat y) - (base + of_nat x) :: u64) = y - x"
proof -
  have "(base + of_nat y) - (base + of_nat x) = (of_nat (y - x) :: u64)"
    using assms by simp
  moreover have "y - x < 2 ^ LENGTH(64)" using assms by simp
  ultimately show ?thesis by (metis unat_of_nat_small)
qed

lemma apart_offset:
  assumes "x + n \<le> y \<or> y + k \<le> x" and "x + n \<le> 2 ^ 64" and "y + k \<le> 2 ^ 64"
  shows "apart (base + of_nat x) n (base + of_nat y) k"
proof -
  { fix z :: u64
    assume n: "unat (z - (base + of_nat x)) < n" and k: "unat (z - (base + of_nat y)) < k"
    let ?i = "unat (z - (base + of_nat x))" and ?j = "unat (z - (base + of_nat y))"
    have "of_nat ?i = z - (base + of_nat x)" "of_nat ?j = z - (base + of_nat y)"
      by simp_all
    then have "(of_nat (x + ?i) :: u64) = of_nat (y + ?j)"
      by (simp only: of_nat_add) (simp add: algebra_simps)
    moreover have "x + ?i < 2 ^ LENGTH(64)" "y + ?j < 2 ^ LENGTH(64)" using assms n k by simp_all
    ultimately have "x + ?i = y + ?j" by (metis unat_of_nat_small)
    with assms n k have False by linarith }
  then show ?thesis by (auto simp: apart_def)
qed

text \<open>The bytes of one range before and after a write into it.\<close>

lemma load_bytes_upd:
  assumes "n \<le> 2 ^ 64" and "i < n"
  shows "load_bytes (m(a + of_nat i := v)) a n = (load_bytes m a n)[i := v]"
proof (rule nth_equalityI)
  fix j assume "j < length (load_bytes (m(a + of_nat i := v)) a n)"
  then have j: "j < n" by simp
  with assms have "unat (of_nat i :: u64) = i" "unat (of_nat j :: u64) = j" by (simp_all add: unat_of_nat_small)
  then have "(of_nat j :: u64) = of_nat i \<longleftrightarrow> j = i" by metis
  then show "load_bytes (m(a + of_nat i := v)) a n ! j = (load_bytes m a n)[i := v] ! j"
    using j assms(2) by (simp add: load_bytes_def nth_list_update)
qed simp

lemma load_store_bytes_prefix:
  assumes "length bs \<le> n" and "n \<le> 2 ^ 64"
  shows "load_bytes (store_bytes m a bs) a n = bs @ drop (length bs) (load_bytes m a n)"
proof (rule nth_equalityI)
  fix j assume "j < length (load_bytes (store_bytes m a bs) a n)"
  then have j: "j < n" by simp
  with assms have "unat (of_nat j :: u64) = j" by (simp add: unat_of_nat_small)
  then show "load_bytes (store_bytes m a bs) a n ! j = (bs @ drop (length bs) (load_bytes m a n)) ! j"
    using j by (simp add: load_bytes_def store_bytes_def nth_append)
qed (use assms in simp)

lemma load_bytes_drop: "load_bytes m (a + of_nat k) n = drop k (load_bytes m a (k + n))"
  by (rule nth_equalityI) (simp_all add: load_bytes_def algebra_simps)

lemma store_bytes_cong: "store_bytes m a [] = m"
  by (simp add: store_bytes_def)


section \<open>What an outcome ensures\<close>

text \<open>\<open>Q\<close> holds of the result, if there is one: the way conditions are carried through a handler.\<close>

definition ensures :: "'a outcome \<Rightarrow> ('a \<Rightarrow> bool) \<Rightarrow> bool" where
  "ensures m Q \<longleftrightarrow> (\<forall>x. m = Inr x \<longrightarrow> Q x)"

lemma ensuresI: "(\<And>x. m = Inr x \<Longrightarrow> Q x) \<Longrightarrow> ensures m Q"
  and ensuresD: "ensures m Q \<Longrightarrow> m = Inr x \<Longrightarrow> Q x"
  by (simp_all add: ensures_def)

lemma ensures_simps [simp]: "ensures (Inl e) Q" "ensures (Inr x) Q \<longleftrightarrow> Q x"
  by (simp_all add: ensures_def)

lemma ensures_bind: "ensures m R \<Longrightarrow> (\<And>x. R x \<Longrightarrow> ensures (f x) Q) \<Longrightarrow> ensures (bindE m f) Q"
  by (auto simp: ensures_def bindE_eq_Inr)

lemma ensures_weaken: "ensures m R \<Longrightarrow> (\<And>x. R x \<Longrightarrow> Q x) \<Longrightarrow> ensures m Q"
  by (simp add: ensures_def)

lemma ensures_True: "ensures m (\<lambda>x. True)"
  by (simp add: ensures_def)


section \<open>Devices\<close>

text \<open>
  The instructions \<open>in\<close>, \<open>out\<close>, \<open>rep insw\<close> and \<open>rep outsw\<close> on the machine's devices, whose
  state is of type \<open>'d\<close>: the wrappers of \<^verbatim>\<open>include/amd64/x86.h\<close>.  They are a parameter of the
  model.
\<close>

record 'd ports =
  inb :: "u16 \<Rightarrow> 'd \<Rightarrow> u8 \<times> 'd"
  outb :: "u16 \<Rightarrow> u8 \<Rightarrow> 'd \<Rightarrow> 'd"
  insw :: "u16 \<Rightarrow> nat \<Rightarrow> 'd \<Rightarrow> u16 list \<times> 'd"
  outsw :: "u16 \<Rightarrow> u16 list \<Rightarrow> 'd \<Rightarrow> 'd"

end
