(* ===== verification/CLib.thy ===== *)
theory CLib
  imports Prelude
begin

text \<open>
  The kernel's own C library, \<^verbatim>\<open>lib/lib.c\<close>: \<open>memset\<close>, \<open>memcpy\<close> and \<open>strcmp\<close>, on the
  byte-addressed memory of the prelude.  The loops are recursions on the count; \<open>strcmp\<close>, which
  stops only at a NUL byte or a difference, is a partial function whose \<open>None\<close> is "does not
  return".  The closed forms proved here (a fill and a copy are one \<open>store_bytes\<close>) carry every
  later proof about pages and buffers.
\<close>

section \<open>The functions\<close>

fun memset_loop :: "mem \<Rightarrow> u64 \<Rightarrow> u8 \<Rightarrow> nat \<Rightarrow> mem" where
  "memset_loop m s c 0 = m"
| "memset_loop m s c (Suc n) = memset_loop (m(s := c)) (s + 1) c n"

definition memset :: "mem \<Rightarrow> u64 \<Rightarrow> u32 \<Rightarrow> u32 \<Rightarrow> mem" where
  "memset m s c n = memset_loop m s (ucast c) (unat n)"

fun memcpy_loop :: "mem \<Rightarrow> u64 \<Rightarrow> u64 \<Rightarrow> nat \<Rightarrow> mem" where
  "memcpy_loop m d s 0 = m"
| "memcpy_loop m d s (Suc n) = memcpy_loop (m(d := m s)) (d + 1) (s + 1) n"

definition memcpy :: "mem \<Rightarrow> u64 \<Rightarrow> u64 \<Rightarrow> u32 \<Rightarrow> mem" where
  "memcpy m d s n = memcpy_loop m d s (unat n)"

text \<open>
  \<open>strcmp\<close> is also applied to addresses of the current user program.  \<open>rd\<close> tells what a read of
  the byte at an address gives, or that it faults.
\<close>

partial_function (option) strcmp :: "(u64 \<Rightarrow> u8 option) \<Rightarrow> u64 \<Rightarrow> u64 \<Rightarrow> int outcome option" where
  "strcmp rd s1 s2 =
     (case rd s1 of None \<Rightarrow> Some (Inl BadAddress) | Some c1 \<Rightarrow>
     (case rd s2 of None \<Rightarrow> Some (Inl BadAddress) | Some c2 \<Rightarrow>
       if c1 \<noteq> 0 \<or> c2 \<noteq> 0 then
         (if c1 = c2 then strcmp rd (s1 + 1) (s2 + 1)
          else Some (Inr (if sint c1 - sint c2 \<noteq> 0 then 1 else - 1)))
       else if c1 = 0 \<and> c2 = 0 then Some (Inr 0)
       else if c1 = 0 then Some (Inr (- 1))
       else Some (Inr 1)))"

section \<open>Closed forms of the loops\<close>

lemma unat_diff_plus_1:
  fixes x s :: u64
  assumes "x \<noteq> s"
  shows "unat (x - s) = Suc (unat (x - (s + 1)))"
proof -
  have eq: "1 + (x - (s + 1)) = x - s" by simp
  have ne: "x - s \<noteq> 0" using assms by simp
  then show ?thesis using unatSuc [of "x - (s + 1)"] unfolding eq by blast
qed

lemma unat_minus_1_u64: "unat (- 1 :: u64) = 2 ^ 64 - 1"
  by (simp add: unsigned_minus_1_eq_mask mask_eq_exp_minus_1)

lemma store_bytes_Cons:
  assumes "length bs < 2 ^ 64"
  shows "store_bytes (m(s := b)) (s + 1) bs = store_bytes m s (b # bs)"
proof
  fix x
  show "store_bytes (m(s := b)) (s + 1) bs x = store_bytes m s (b # bs) x"
  proof (cases "x = s")
    case True
    then show ?thesis using assms by (simp add: store_bytes_def unat_minus_1_u64)
  next
    case False
    then show ?thesis by (simp add: store_bytes_def unat_diff_plus_1 [OF False])
  qed
qed

lemma memset_loop_store:
  "n < 2 ^ 64 \<Longrightarrow> memset_loop m s c n = store_bytes m s (replicate n c)"
  by (induction n arbitrary: m s) (simp_all add: store_bytes_cong store_bytes_Cons)

lemma unat_u32_less: "unat (n :: u32) < 2 ^ 64"
  by (rule less_trans [OF unsigned_less]) simp

lemma memset_store: "memset m s c n = store_bytes m s (replicate (unat n) (ucast c))"
  unfolding memset_def by (rule memset_loop_store [OF unat_u32_less])

lemma load_bytes_Suc: "load_bytes m s (Suc n) = m s # load_bytes m (s + 1) n"
  by (simp add: load_bytes_def upt_conv_Cons map_Suc_upt [symmetric] o_def algebra_simps del: upt_Suc)

lemma load_bytes_upd_outside:
  assumes "n \<le> unat (d - s)" and "n < 2 ^ 64"
  shows "load_bytes (m(d := v)) s n = load_bytes m s n"
proof -
  have "s + of_nat i \<noteq> d" if "i < n" for i
  proof
    assume "s + of_nat i = d"
    then have "unat (d - s) = unat (of_nat i :: u64)" by force
    also have "\<dots> = i" using that assms(2) by (simp add: unat_of_nat_small)
    finally show False using that assms(1) by simp
  qed
  then show ?thesis by (auto simp: load_bytes_def)
qed

text \<open>
  The copy runs upwards, so it is a correct move whenever the destination does not start inside
  the source after its first byte: for disjoint ranges, and for an overlap towards lower addresses.
\<close>

lemma memcpy_loop_store:
  "d = s \<or> n \<le> unat (d - s) \<Longrightarrow> n < 2 ^ 64 \<Longrightarrow>
   memcpy_loop m d s n = store_bytes m d (load_bytes m s n)"
proof (induction n arbitrary: m d s)
  case 0
  then show ?case by (simp add: load_bytes_def store_bytes_cong)
next
  case (Suc n)
  have out: "n \<le> unat (d - (s + 1))"
  proof (cases "d = s")
    case True
    then show ?thesis using Suc.prems(2) by (simp add: unat_minus_1_u64)
  next
    case False
    with Suc.prems show ?thesis using unat_diff_plus_1 [OF False] by auto
  qed
  have "memcpy_loop (m(d := m s)) (d + 1) (s + 1) n
      = store_bytes (m(d := m s)) (d + 1) (load_bytes (m(d := m s)) (s + 1) n)"
    using Suc.prems by (intro Suc.IH) auto
  also have "load_bytes (m(d := m s)) (s + 1) n = load_bytes m (s + 1) n"
    using out Suc.prems(2) by (intro load_bytes_upd_outside) auto
  also have "store_bytes (m(d := m s)) (d + 1) (load_bytes m (s + 1) n) = store_bytes m d (load_bytes m s (Suc n))"
    using Suc.prems(2) by (simp only: load_bytes_Suc) (rule store_bytes_Cons, simp)
  finally show ?case by (simp only: memcpy_loop.simps)
qed

lemma memcpy_store:
  "d = s \<or> unat n \<le> unat (d - s) \<Longrightarrow> memcpy m d s n = store_bytes m d (load_bytes m s (unat n))"
  unfolding memcpy_def by (rule memcpy_loop_store [OF _ unat_u32_less])

section \<open>C strings\<close>

text \<open>The bytes \<open>bs\<close>, none of them NUL, stand at \<open>a\<close> and are followed by a NUL.\<close>

fun cstring :: "(u64 \<Rightarrow> u8 option) \<Rightarrow> u64 \<Rightarrow> u8 list \<Rightarrow> bool" where
  "cstring rd a [] = (rd a = Some 0)"
| "cstring rd a (b # bs) = (b \<noteq> 0 \<and> rd a = Some b \<and> cstring rd (a + 1) bs)"

lemma cstring_unique: "cstring rd a xs \<Longrightarrow> cstring rd a ys \<Longrightarrow> xs = ys"
proof (induction xs arbitrary: a ys)
  case Nil
  then show ?case by (cases ys) auto
next
  case (Cons x xs)
  then show ?case by (cases ys) auto
qed

lemma sint_byte_eq: "sint (x :: u8) - sint y = 0 \<longleftrightarrow> x = y"
  by (auto intro: signed_word_eqI)

lemma sint_byte_inj: "sint (x :: u8) = sint y \<longleftrightarrow> x = y"
  by (auto intro: signed_word_eqI)

lemma sint_byte_0: "sint (x :: u8) = 0 \<longleftrightarrow> x = 0"
  using sint_byte_eq [of x 0] by simp

lemma strcmp_strings:
  "cstring rd a xs \<Longrightarrow> cstring rd b ys \<Longrightarrow> strcmp rd a b = Some (Inr (if xs = ys then 0 else 1))"
proof (induction xs arbitrary: a b ys)
  case Nil
  then show ?case by (cases ys) (auto simp: strcmp.simps [of rd a b] sint_byte_eq sint_byte_inj sint_byte_0)
next
  case (Cons x xs)
  show ?case
  proof (cases ys)
    case Nil
    with Cons.prems show ?thesis by (auto simp: strcmp.simps [of rd a b] sint_byte_eq sint_byte_inj sint_byte_0)
  next
    case (Cons y ys')
    with Cons.prems Cons.IH [of "a + 1" "b + 1" ys'] show ?thesis
      by (auto simp: strcmp.simps [of rd a b] sint_byte_eq sint_byte_inj sint_byte_0)
  qed
qed

section \<open>Properties of the library\<close>

text \<open>C39. \<open>memcpy\<close> is a correct move of \<open>n\<close> bytes whenever the destination does not start
  strictly inside the source: the destination range then holds what the source range held before
  the call, and every other byte is unchanged.\<close>

theorem memcpy_moves:
  assumes "d = s \<or> unat n \<le> unat (d - s)"
  shows "load_bytes (memcpy m d s n) d (unat n) = load_bytes m s (unat n)
    \<and> (\<forall>x. unat n \<le> unat (x - d) \<longrightarrow> memcpy m d s n x = m x)"
  using load_store_bytes_same [of "load_bytes m s (unat n)" m d] unat_u32_less [of n]
  by (simp add: memcpy_store [OF assms] store_bytes_def)

text \<open>C40. On two strings, \<open>strcmp\<close> returns, and returns 0 exactly when they are equal;
  otherwise it returns 1 whichever of them is the smaller.\<close>

theorem strcmp_decides_equality:
  assumes "cstring rd a xs" and "cstring rd b ys"
  shows "strcmp rd a b = Some (Inr (if xs = ys then 0 else 1))"
  using assms by (rule strcmp_strings)

theorem memcpy_moves_witness:
  "load_bytes (memcpy (\<lambda>a. ucast a) 0 2 4) 0 4 = [2, 3, 4, 5]"
proof -
  have "(0::u64) = 2 \<or> unat (4::u32) \<le> unat ((0::u64) - 2)" by (simp add: unat_arith_simps)
  from memcpy_moves [OF this, of "\<lambda>a. ucast a"] show ?thesis
    by (simp add: load_bytes_def upt_rec)
qed

theorem strcmp_decides_equality_witness:
  "strcmp (\<lambda>a. Some (if a = 3 \<or> a = 10 then 0 else ucast a)) 1 8 = Some (Inr 1)"
proof -
  have "cstring (\<lambda>a. Some (if a = 3 \<or> a = 10 then 0 else ucast a)) 1 [1, 2]"
    "cstring (\<lambda>a. Some (if a = 3 \<or> a = 10 then 0 else ucast a)) 8 [8, 9]" by simp_all
  from strcmp_decides_equality [OF this] show ?thesis by simp
qed

end
