(* ===== verification/Mm.thy ===== *)
theory Mm
  imports CLib
begin

text \<open>
  The physical page allocator of \<^verbatim>\<open>kernel/mm.c\<close>: the array \<open>pages\<close> of page descriptors, the
  free list threaded through it from \<open>phead\<close>, the boot-time layout of physical memory
  (\<open>init_mem\<close>, \<open>init_page\<close>) and \<open>alloc_page\<close>, \<open>free_page\<close>.  A pointer to a page
  descriptor is its index in \<open>pages\<close>, and NULL is \<open>None\<close>.  The diagnostics printed by
  \<open>free_page\<close> and \<open>init_page\<close> only write the screen and are left out here.
\<close>

named_theorems mm_simps "address arithmetic of page descriptors"

section \<open>State and address arithmetic\<close>

record page =
  link :: "nat option"
  count :: int

record kmm =
  npages :: u32
  pages :: "page list"
  phead :: "nat option"
  kused_mem :: u64
  kpgdir :: u64
  procs_at :: u64
  mem :: mem

definition KBASE :: u64 where
  "KBASE = 0xFFFFFFFF80000000"

definition KPA2VA :: "u64 \<Rightarrow> u64" where
  "KPA2VA pa = pa + KBASE"

definition PAGE2PA :: "nat \<Rightarrow> u64" where
  "PAGE2PA p = push_bit 12 (of_nat p)"

definition PAGE2VA :: "nat \<Rightarrow> u64" where
  "PAGE2VA p = KBASE + PAGE2PA p"

section \<open>Allocation and release\<close>

definition alloc_page :: "u32 \<Rightarrow> 'a kmm_scheme \<Rightarrow> nat option \<times> 'a kmm_scheme" where
  "alloc_page flags s =
     (case phead s of
        None \<Rightarrow> (None, s)
      | Some p \<Rightarrow>
          let s1 = s\<lparr>phead := link (pages s ! p)\<rparr>;
              s2 = (if flags AND 1 \<noteq> 0 then s1\<lparr>mem := memset (mem s1) (PAGE2VA p) 0 4096\<rparr> else s1);
              pg = pages s2 ! p
          in (Some p, s2\<lparr>pages := (pages s2)[p := pg\<lparr>count := count pg + 1\<rparr>]\<rparr>))"

definition free_page :: "nat option \<Rightarrow> 'a kmm_scheme \<Rightarrow> 'a kmm_scheme" where
  "free_page pp s =
     (case pp of
        None \<Rightarrow> s
      | Some p \<Rightarrow>
          let pg = (pages s ! p)\<lparr>count := count (pages s ! p) - 1\<rparr>
          in if count pg = 0
             then s\<lparr>pages := (pages s)[p := pg\<lparr>link := phead s\<rparr>], phead := Some p\<rparr>
             else s\<lparr>pages := (pages s)[p := pg]\<rparr>)"

section \<open>Boot: the size of memory and the first free list\<close>

text \<open>The two CMOS bytes read through ports 0x70 and 0x71.\<close>

definition detect_memsize :: "u8 \<Rightarrow> u8 \<Rightarrow> u16" where
  "detect_memsize lowmem highmem = ucast lowmem OR push_bit 8 (ucast highmem)"

text \<open>
  One of the three descending loops of \<open>init_page\<close>: while the condition \<open>c\<close> holds of the
  (signed) index, page \<open>i\<close> is put in front of the list built so far and its count cleared.
\<close>

function link_down :: "(int \<Rightarrow> bool) \<Rightarrow> int \<Rightarrow> nat option \<Rightarrow> page list \<Rightarrow> (nat option \<times> page list) outcome" where
  "link_down c i p pgs =
     (if c i then
        (if 0 \<le> i \<and> nat i < length pgs
         then link_down c (i - 1) (Some (nat i)) (pgs[nat i := \<lparr>link = p, count = 0\<rparr>])
         else Inl BadIndex)
      else Inr (p, pgs))"
  by pat_completeness auto
termination
  by (relation "measure (\<lambda>(c, i, p, pgs). nat (i + 1))") auto

declare link_down.simps [simp del]

definition TRAMPOLINE_BASE :: nat where
  "TRAMPOLINE_BASE = 0x8000"

definition init_page :: "'a kmm_scheme \<Rightarrow> 'a kmm_scheme outcome" where
  "init_page s =
     (let used = kused_mem s - KBASE;
          pgs0 = map (\<lambda>pg. \<lparr>link = None, count = count pg + 1\<rparr>) (pages s);
          bound = (used + 4096 - 1) div 4096
      in bindE (link_down (\<lambda>i. bound \<le> of_int i) (uint (npages s) - 1) None pgs0) (\<lambda>(p1, pgs1).
         bindE (link_down (\<lambda>i. 1 \<le> i) (int TRAMPOLINE_BASE div 4096 - 1) p1 pgs1) (\<lambda>(p2, pgs2).
         bindE (link_down (\<lambda>i. int TRAMPOLINE_BASE div 4096 < i) (0x000A0000 div 4096 - 1) p2 pgs2) (\<lambda>(p3, pgs3).
         Inr (s\<lparr>kused_mem := used, pages := pgs3, phead := p3\<rparr>)))))"

definition round_page :: "u64 \<Rightarrow> u64" where
  "round_page x = ((x + 4096 - 1) div 4096) * 4096"

text \<open>
  The constant array \<open>code\<close>: a guest program that loads the serial port's number into \<open>dx\<close>,
  then writes one character after the other (\<open>mov al, c\<close>; \<open>out dx, al\<close>), and halts.
\<close>

definition vm_code :: "u8 list" where
  "vm_code = [0xba, 0xf8, 0x03]
     @ concat (map (\<lambda>c. [0xb0, of_char c, 0xee]) (''Hello, world!'' @ [CHR 0x0A])) @ [0xf4]"

text \<open>
  \<open>init_mem\<close>.  The linker symbols \<open>_end\<close>, \<open>boot_pgkdir\<close>, \<open>vmxcode\<close> and \<open>trampoline_data\<close>, the
  address of the constant array \<open>code\<close>, the CMOS bytes and what memory holds at
  the place of the new \<open>pages\<close> array are the inputs.  \<open>sizeof(struct page)\<close> is 16 and
  \<open>sizeof(struct proc)\<close> is 464.
\<close>

record boot_env =
  end_addr :: u64
  boot_pgkdir :: u64
  vmxcode :: u64
  code_addr :: u64
  trampoline_data :: u64
  cmos_low :: u8
  cmos_high :: u8
  boot_pages :: "u32 \<Rightarrow> page list"

definition init_mem :: "boot_env \<Rightarrow> 'a kmm_scheme \<Rightarrow> 'a kmm_scheme outcome" where
  "init_mem b s0 =
     (let mem_size_kb = (ucast (detect_memsize (cmos_low b) (cmos_high b)) :: u32);
          np = push_bit 2 mem_size_kb;
          kpd = round_page (end_addr b);
          m1 = store64 (mem s0) (kpd + 8 * 511) (load64 (mem s0) (boot_pgkdir b + 8 * 511));
          m2 = memcpy m1 (vmxcode b) (code_addr b) (of_nat (length vm_code));
          m3 = memcpy m2 (KPA2VA (of_nat TRAMPOLINE_BASE)) (trampoline_data b) 4096;
          pgs_at = round_page (kpd + 4096);
          prs_at = round_page (pgs_at + 16 * ucast np);
          m4 = memset m3 prs_at 0 (464 * 1024)
      in init_page (s0\<lparr>npages := np, pages := boot_pages b np, kpgdir := kpd, procs_at := prs_at,
                     kused_mem := prs_at + 464 * 1024, mem := m4\<rparr>))"

section \<open>The free list as a list of page numbers\<close>

fun chain :: "(nat \<Rightarrow> nat option) \<Rightarrow> nat option \<Rightarrow> nat list \<Rightarrow> bool" where
  "chain nx p [] = (p = None)"
| "chain nx p (x # xs) = (p = Some x \<and> chain nx (nx x) xs)"

definition free_pages :: "'a kmm_scheme \<Rightarrow> nat set" where
  "free_pages s = {i. i < length (pages s) \<and> count (pages s ! i) = 0}"

definition page_link :: "'a kmm_scheme \<Rightarrow> nat \<Rightarrow> nat option" where
  "page_link s i = link (pages s ! i)"

text \<open>
  The allocator's invariant: the descriptors are those of \<open>npages\<close> pages (at most what the
  16-bit CMOS size allows), no count is negative, and the free list holds every page of count 0
  exactly once and nothing else.
\<close>

definition mm_inv :: "'a kmm_scheme \<Rightarrow> bool" where
  "mm_inv s \<longleftrightarrow> length (pages s) = unat (npages s) \<and> length (pages s) \<le> 2 ^ 18
     \<and> (\<forall>i < length (pages s). 0 \<le> count (pages s ! i))
     \<and> (\<exists>xs. chain (page_link s) (phead s) xs \<and> distinct xs \<and> set xs = free_pages s)"

lemma chain_cong: "(\<And>x. x \<in> set xs \<Longrightarrow> f x = g x) \<Longrightarrow> chain f p xs = chain g p xs"
  by (induction xs arbitrary: p) auto

lemma chain_unique: "chain f p xs \<Longrightarrow> chain f p ys \<Longrightarrow> xs = ys"
proof (induction xs arbitrary: p ys)
  case Nil
  then show ?case by (cases ys) auto
next
  case (Cons x xs)
  then show ?case by (cases ys) auto
qed

lemma mm_invE:
  assumes "mm_inv s"
  obtains xs where "chain (page_link s) (phead s) xs" "distinct xs" "set xs = free_pages s"
    "length (pages s) = unat (npages s)" "length (pages s) \<le> 2 ^ 18"
    "\<And>i. i < length (pages s) \<Longrightarrow> 0 \<le> count (pages s ! i)"
  using assms by (auto simp: mm_inv_def)

lemma free_pages_finite [simp]: "finite (free_pages s)"
  by (simp add: free_pages_def)

lemma free_pages_less: "p \<in> free_pages s \<Longrightarrow> p < length (pages s)"
  by (simp add: free_pages_def)

lemma alloc_page_None_iff: "mm_inv s \<Longrightarrow> fst (alloc_page fl s) = None \<longleftrightarrow> free_pages s = {}"
proof (elim mm_invE)
  fix xs assume xs: "chain (page_link s) (phead s) xs" "set xs = free_pages s"
  then have "phead s = None \<longleftrightarrow> xs = []" by (cases xs) auto
  with xs show ?thesis by (auto simp: alloc_page_def Let_def split: option.splits)
qed

text \<open>What a successful allocation does.\<close>

lemma alloc_page_Some:
  assumes inv: "mm_inv s" and al: "alloc_page fl s = (Some p, s')"
  shows "p \<in> free_pages s" and "mm_inv s'" and "free_pages s' = free_pages s - {p}"
    and "count (pages s' ! p) = 1"
    and "i \<noteq> p \<Longrightarrow> pages s' ! i = pages s ! i"
    and "mem s' = (if fl AND 1 \<noteq> 0 then store_bytes (mem s) (PAGE2VA p) (replicate 4096 0) else mem s)"
    and "length (pages s') = length (pages s)" and "npages s' = npages s"
    and "kmm.more s' = kmm.more s" and "kpgdir s' = kpgdir s"
proof -
  from inv obtain xs where xs: "chain (page_link s) (phead s) xs" "distinct xs" "set xs = free_pages s"
    and len: "length (pages s) = unat (npages s)" "length (pages s) \<le> 2 ^ 18"
    and cnt: "\<And>i. i < length (pages s) \<Longrightarrow> 0 \<le> count (pages s ! i)"
    by (rule mm_invE) (rule that)
  from al have ph: "phead s = Some p"
    by (auto simp: alloc_page_def Let_def split: option.splits)
  with xs obtain ys where ys: "xs = p # ys" "chain (page_link s) (page_link s p) ys"
    by (cases xs) auto
  from xs ys show p: "p \<in> free_pages s" by auto
  then have pl: "p < length (pages s)" "count (pages s ! p) = 0" by (auto simp: free_pages_def)
  from al ph have pgs: "pages s' = (pages s)[p := (pages s ! p)\<lparr>count := count (pages s ! p) + 1\<rparr>]"
    and hd: "phead s' = page_link s p"
    by (auto simp: alloc_page_def Let_def page_link_def split: if_splits)
  from al ph show "mem s' = (if fl AND 1 \<noteq> 0 then store_bytes (mem s) (PAGE2VA p) (replicate 4096 0) else mem s)"
    by (auto simp: alloc_page_def Let_def memset_store split: if_splits)
  from al ph show np: "npages s' = npages s" and "kmm.more s' = kmm.more s" and "kpgdir s' = kpgdir s"
    by (auto simp: alloc_page_def Let_def split: if_splits)
  from pgs show ln: "length (pages s') = length (pages s)" by simp
  from pgs pl show c1: "count (pages s' ! p) = 1" by simp
  from pgs show oth: "pages s' ! i = pages s ! i" if "i \<noteq> p" for i using that by simp
  show fp: "free_pages s' = free_pages s - {p}"
    using pl pgs by (auto simp: free_pages_def nth_list_update)
  have "page_link s' x = page_link s x" for x
    using pgs pl by (cases "x = p") (simp_all add: page_link_def)
  then have "chain (page_link s') (phead s') ys"
    using hd ys(2) by (metis chain_cong)
  moreover have "distinct ys" "set ys = free_pages s'"
    using xs ys fp by auto
  moreover have "0 \<le> count (pages s' ! i)" if "i < length (pages s')" for i
    using cnt that ln c1 oth by (cases "i = p") auto
  ultimately show "mm_inv s'"
    using len ln np by (auto simp: mm_inv_def)
qed

lemma alloc_page_None: "alloc_page fl s = (None, s') \<Longrightarrow> s' = s"
  by (auto simp: alloc_page_def Let_def split: option.splits)

lemma free_page_None [simp]: "free_page None s = s"
  by (simp add: free_page_def)

text \<open>Dropping one reference to a page in use.\<close>

lemma free_page_Some:
  assumes inv: "mm_inv s" and p: "p < length (pages s)" "0 < count (pages s ! p)"
    and s': "s' = free_page (Some p) s"
  shows "mm_inv s'"
    and "free_pages s' = (if count (pages s ! p) = 1 then insert p (free_pages s) else free_pages s)"
    and "count (pages s' ! p) = count (pages s ! p) - 1"
    and "i \<noteq> p \<Longrightarrow> pages s' ! i = pages s ! i"
    and "mem s' = mem s" and "length (pages s') = length (pages s)" and "npages s' = npages s"
    and "kmm.more s' = kmm.more s" and "kpgdir s' = kpgdir s"
proof -
  from inv obtain xs where xs: "chain (page_link s) (phead s) xs" "distinct xs" "set xs = free_pages s"
    and len: "length (pages s) = unat (npages s)" "length (pages s) \<le> 2 ^ 18"
    and cnt: "\<And>i. i < length (pages s) \<Longrightarrow> 0 \<le> count (pages s ! i)"
    by (rule mm_invE) (rule that)
  show m: "mem s' = mem s" and ln: "length (pages s') = length (pages s)" and np: "npages s' = npages s"
    and "kmm.more s' = kmm.more s" and "kpgdir s' = kpgdir s"
    by (auto simp: s' free_page_def Let_def)
  show c: "count (pages s' ! p) = count (pages s ! p) - 1"
    using p by (auto simp: s' free_page_def Let_def)
  show oth: "pages s' ! i = pages s ! i" if "i \<noteq> p" for i
    using that by (auto simp: s' free_page_def Let_def)
  show fp: "free_pages s' = (if count (pages s ! p) = 1 then insert p (free_pages s) else free_pages s)"
  proof (rule set_eqI)
    fix x
    show "x \<in> free_pages s' \<longleftrightarrow>
        x \<in> (if count (pages s ! p) = 1 then insert p (free_pages s) else free_pages s)"
      using c oth [of x] ln p by (cases "x = p") (auto simp: free_pages_def)
  qed
  have notin: "p \<notin> set xs" using xs p by (auto simp: free_pages_def)
  have lk: "page_link s' x = page_link s x" if "x \<noteq> p" for x
    using oth [OF that] by (simp add: page_link_def)
  have "chain (page_link s') p' xs = chain (page_link s) p' xs" for p'
    using notin by (intro chain_cong) (metis lk)
  note ch = this
  have "\<exists>xs. chain (page_link s') (phead s') xs \<and> distinct xs \<and> set xs = free_pages s'"
  proof (cases "count (pages s ! p) = 1")
    case True
    then have "phead s' = Some p" "page_link s' p = phead s"
      using p by (auto simp: s' free_page_def Let_def page_link_def)
    with ch xs notin fp True have "chain (page_link s') (phead s') (p # xs) \<and> distinct (p # xs)
        \<and> set (p # xs) = free_pages s'" by simp
    then show ?thesis by blast
  next
    case False
    then have "phead s' = phead s"
      using p by (auto simp: s' free_page_def Let_def)
    with ch xs fp False show ?thesis by auto
  qed
  moreover have "0 \<le> count (pages s' ! i)" if "i < length (pages s')" for i
    using cnt that ln c oth p by (cases "i = p") auto
  ultimately show "mm_inv s'"
    using len ln np by (auto simp: mm_inv_def)
qed

section \<open>The boot-time free list\<close>

text \<open>What one loop leaves: pages \<open>lo\<close> to \<open>hi - 1\<close> free, in ascending order, in front of the old list.\<close>

definition linked :: "nat \<Rightarrow> nat \<Rightarrow> nat option \<Rightarrow> page list \<Rightarrow> nat option \<Rightarrow> page list \<Rightarrow> bool" where
  "linked lo hi p pgs p' pgs' \<longleftrightarrow> length pgs' = length pgs
     \<and> (\<forall>j. j \<notin> {lo..<hi} \<longrightarrow> pgs' ! j = pgs ! j) \<and> (\<forall>j \<in> {lo..<hi}. count (pgs' ! j) = 0)
     \<and> (\<forall>xs. chain (\<lambda>i. link (pgs ! i)) p xs \<longrightarrow> set xs \<inter> {lo..<hi} = {} \<longrightarrow>
           chain (\<lambda>i. link (pgs' ! i)) p' ([lo..<hi] @ xs))"

lemma linked_step:
  assumes l: "linked lo k (Some k) (pgs[k := \<lparr>link = p, count = 0\<rparr>]) p' pgs'"
    and k: "lo \<le> k" "k < length pgs"
  shows "linked lo (Suc k) p pgs p' pgs'"
proof -
  let ?pgs = "pgs[k := \<lparr>link = p, count = 0\<rparr>]"
  have "pgs' ! k = ?pgs ! k" using l by (simp add: linked_def)
  then have kk: "count (pgs' ! k) = 0" using k by simp
  have "chain (\<lambda>i. link (pgs' ! i)) p' ([lo..<Suc k] @ xs)"
    if c: "chain (\<lambda>i. link (pgs ! i)) p xs" and d: "set xs \<inter> {lo..<Suc k} = {}" for xs
  proof -
    have "k \<notin> set xs" using d k by auto
    then have "chain (\<lambda>i. link (?pgs ! i)) p xs"
      using c by (subst chain_cong [where g = "\<lambda>i. link (pgs ! i)"]) (metis nth_list_update_neq, simp)
    then have "chain (\<lambda>i. link (?pgs ! i)) (Some k) (k # xs)" using k by simp
    moreover have "set (k # xs) \<inter> {lo..<k} = {}" using d by auto
    ultimately have "chain (\<lambda>i. link (pgs' ! i)) p' ([lo..<k] @ k # xs)" using l by (simp only: linked_def)
    then show ?thesis using k by simp
  qed
  moreover have "count (pgs' ! j) = 0" if "j \<in> {lo..<Suc k}" for j
    using that kk l by (cases "j = k") (auto simp: linked_def)
  moreover have "pgs' ! j = pgs ! j" if "j \<notin> {lo..<Suc k}" for j
    using that k l by (cases "j = k") (auto simp: linked_def)
  ultimately show ?thesis using l by (simp add: linked_def)
qed

lemma link_down_range:
  assumes "\<And>j. int lo - 1 \<le> j \<Longrightarrow> j < int hi \<Longrightarrow> c j \<longleftrightarrow> int lo \<le> j"
    and "lo \<le> hi" and "hi \<le> length pgs"
  shows "\<exists>p' pgs'. link_down c (int hi - 1) p pgs = Inr (p', pgs') \<and> linked lo hi p pgs p' pgs'"
  using assms
proof (induction "hi - lo" arbitrary: hi p pgs)
  case 0
  then have "hi = lo" by simp
  with "0.prems"(1) [of "int lo - 1"] show ?case
    by (simp add: link_down.simps [of c "int lo - 1"] linked_def)
next
  case (Suc n)
  from Suc.hyps(2) obtain k where k: "hi = Suc k" "lo \<le> k" by (cases hi) auto
  have kl: "k < length pgs" using Suc.prems k by simp
  let ?pgs = "pgs[k := \<lparr>link = p, count = 0\<rparr>]"
  have "\<exists>p' pgs'. link_down c (int k - 1) (Some k) ?pgs = Inr (p', pgs') \<and> linked lo k (Some k) ?pgs p' pgs'"
    by (rule Suc.hyps(1)) (use Suc.prems Suc.hyps(2) k in auto)
  then obtain p' pgs' where r: "link_down c (int k - 1) (Some k) ?pgs = Inr (p', pgs')"
    and l: "linked lo k (Some k) ?pgs p' pgs'" by blast
  have "link_down c (int hi - 1) p pgs = Inr (p', pgs')"
    using r Suc.prems(1) [of "int k"] kl k by (simp add: link_down.simps [of c "int k"])
  then show ?case using linked_step [OF l k(2) kl] k(1) by blast
qed

lemma unat_of_int_small: "0 \<le> i \<Longrightarrow> i < 2 ^ 64 \<Longrightarrow> unat (of_int i :: u64) = nat i"
  by (simp add: unat_eq_nat_uint uint_word_of_int take_bit_int_eq_self)

theorem init_page_list:
  assumes len: "length (pages s) = unat (npages s)" and small: "unat (npages s) \<le> 2 ^ 18"
    and used: "kused_mem s = KBASE + of_nat u" and k: "k = (u + 4095) div 4096"
    and k_ok: "160 \<le> k" "k \<le> unat (npages s)"
    and cnt: "\<And>pg. pg \<in> set (pages s) \<Longrightarrow> 0 \<le> count pg"
  obtains s' where "init_page s = Inr s'"
    and "chain (page_link s') (phead s') ([9..<160] @ [1..<8] @ [k..<unat (npages s)])"
    and "mm_inv s'" and "free_pages s' = {9..<160} \<union> {1..<8} \<union> {k..<unat (npages s)}"
    and "npages s' = npages s" and "length (pages s') = length (pages s)"
    and "mem s' = mem s" and "kmm.more s' = kmm.more s" and "kpgdir s' = kpgdir s" and "procs_at s' = procs_at s"
proof -
  let ?N = "unat (npages s)"
  define pgs0 where "pgs0 = map (\<lambda>pg. \<lparr>link = None, count = count pg + 1\<rparr>) (pages s)"
  define bound where "bound = (kused_mem s - KBASE + 4096 - 1) div 4096"
  have "u + 4095 < 4096 * (k + 1)"
    using dividend_less_times_div [of 4096 "u + 4095"] unfolding k by simp
  then have u_small: "u < 2 ^ 31" using k_ok small by simp
  have "kused_mem s - KBASE + 4096 - 1 = of_nat (u + 4095)"
    by (simp only: used add_diff_cancel_left' of_nat_add) simp
  then have "unat bound = unat (of_nat (u + 4095) :: u64) div unat (4096 :: u64)"
    unfolding bound_def by (simp only: unat_div)
  also have "unat (of_nat (u + 4095) :: u64) = u + 4095"
    using u_small by (intro unat_of_nat_small) simp
  finally have ub: "unat bound = k" unfolding k by simp
  have c1: "bound \<le> of_int j \<longleftrightarrow> int k \<le> j" if "int k - 1 \<le> j" "j < int ?N" for j
  proof -
    have "?N \<le> 262144" using small by simp
    then have "0 \<le> j" "j < 262144" using that k_ok by linarith+
    then have "0 \<le> j" "j < 2 ^ 64" by simp_all
    then have "unat (of_int j :: u64) = nat j" by (rule unat_of_int_small)
    then show ?thesis using \<open>0 \<le> j\<close> by (simp only: word_le_nat_alt ub) linarith
  qed
  have l0: "length pgs0 = ?N" by (simp add: pgs0_def len)
  obtain p1 pgs1 where r1: "link_down (\<lambda>i. bound \<le> of_int i) (int ?N - 1) None pgs0 = Inr (p1, pgs1)"
    and k1: "linked k ?N None pgs0 p1 pgs1"
    using link_down_range [of k ?N "\<lambda>i. bound \<le> of_int i" pgs0 None] c1 k_ok l0 by auto
  then have l1: "length pgs1 = ?N" using l0 by (simp add: linked_def)
  obtain p2 pgs2 where r2: "link_down (\<lambda>i. 1 \<le> i) (int 8 - 1) p1 pgs1 = Inr (p2, pgs2)"
    and k2: "linked 1 8 p1 pgs1 p2 pgs2"
    using link_down_range [of 1 8 "\<lambda>i. 1 \<le> i" pgs1 p1] k_ok l1 by auto
  then have l2: "length pgs2 = ?N" using l1 by (simp add: linked_def)
  obtain p3 pgs3 where r3: "link_down (\<lambda>i. 8 < i) (int 160 - 1) p2 pgs2 = Inr (p3, pgs3)"
    and k3: "linked 9 160 p2 pgs2 p3 pgs3"
    using link_down_range [of 9 160 "\<lambda>i. 8 < i" pgs2 p2] k_ok l2 by fastforce
  then have l3: "length pgs3 = ?N" using l2 by (simp add: linked_def)
  note o1 = k1 [unfolded linked_def, THEN conjunct2, THEN conjunct1, rule_format]
    and o2 = k2 [unfolded linked_def, THEN conjunct2, THEN conjunct1, rule_format]
    and o3 = k3 [unfolded linked_def, THEN conjunct2, THEN conjunct1, rule_format]
  note z1 = k1 [unfolded linked_def, THEN conjunct2, THEN conjunct2, THEN conjunct1, rule_format]
    and z2 = k2 [unfolded linked_def, THEN conjunct2, THEN conjunct2, THEN conjunct1, rule_format]
    and z3 = k3 [unfolded linked_def, THEN conjunct2, THEN conjunct2, THEN conjunct1, rule_format]
  note ch1 = k1 [unfolded linked_def, THEN conjunct2, THEN conjunct2, THEN conjunct2, rule_format]
    and ch2 = k2 [unfolded linked_def, THEN conjunct2, THEN conjunct2, THEN conjunct2, rule_format]
    and ch3 = k3 [unfolded linked_def, THEN conjunct2, THEN conjunct2, THEN conjunct2, rule_format]
  define s' where "s' = s\<lparr>kused_mem := kused_mem s - KBASE, pages := pgs3, phead := p3\<rparr>"
  have ps: "pages s' = pgs3" "phead s' = p3" "npages s' = npages s" by (simp_all add: s'_def)
  have pl: "page_link s' = (\<lambda>i. link (pgs3 ! i))" by (rule ext) (simp add: page_link_def ps)
  have "chain (\<lambda>i. link (pgs1 ! i)) p1 ([k..<?N] @ [])" by (rule ch1) simp_all
  then have "chain (\<lambda>i. link (pgs2 ! i)) p2 ([1..<8] @ [k..<?N])" using k_ok by (intro ch2) auto
  then have "chain (\<lambda>i. link (pgs3 ! i)) p3 ([9..<160] @ [1..<8] @ [k..<?N])" using k_ok by (intro ch3) auto
  then have chain: "chain (page_link s') (phead s') ([9..<160] @ [1..<8] @ [k..<?N])"
    by (simp only: pl ps)
  have init: "init_page s = Inr s'"
    using r1 r2 r3 unfolding init_page_def Let_def pgs0_def [symmetric] bound_def [symmetric]
    by (simp add: s'_def TRAMPOLINE_BASE_def)
  let ?F = "{9..<160} \<union> {1..<8} \<union> {k..<?N}"
  have zero: "count (pgs3 ! j) = 0" if jF: "j \<in> ?F" for j
  proof -
    consider "j \<in> {9..<160}" | "j \<in> {1..<8}" | "j \<in> {k..<?N}" "j \<notin> {1..<8}" "j \<notin> {9..<160}"
      using jF by blast
    then show ?thesis
    proof cases
      case 2
      then have "pgs3 ! j = pgs2 ! j" by (intro o3) simp
      with z2 [OF 2] show ?thesis by simp
    next
      case 3
      then have "pgs3 ! j = pgs1 ! j" using o3 [of j] o2 [of j] by (simp del: atLeastLessThan_iff)
      with z1 [OF 3(1)] show ?thesis by simp
    qed (rule z3)
  qed
  have pos: "0 < count (pgs3 ! j)" if "j < ?N" "j \<notin> ?F" for j
  proof -
    have "pgs3 ! j = pgs0 ! j"
      using that o1 [of j] o2 [of j] o3 [of j] by (simp del: atLeastLessThan_iff)
    moreover have "0 \<le> count (pages s ! j)" using that len cnt by simp
    ultimately show ?thesis using that by (simp add: pgs0_def len)
  qed
  have sub: "?F \<subseteq> {..<?N}" using k_ok by auto
  have fp: "free_pages s' = ?F"
  proof (rule set_eqI)
    fix j
    show "j \<in> free_pages s' \<longleftrightarrow> j \<in> ?F"
    proof (cases "j \<in> ?F")
      case True
      with sub have "j < ?N" by blast
      with zero [OF True] True show ?thesis by (simp only: free_pages_def ps l3 mem_Collect_eq simp_thms)
    next
      case False
      then have "j < ?N \<Longrightarrow> count (pgs3 ! j) \<noteq> 0" using pos [of j] by force
      with False show ?thesis unfolding free_pages_def ps l3 mem_Collect_eq by blast
    qed
  qed
  have "0 \<le> count (pgs3 ! j)" if "j < ?N" for j
    using zero [of j] pos [of j] that by (cases "j \<in> ?F") (simp only: order_refl, force)
  moreover have "set ([9..<160] @ [1..<8] @ [k..<?N]) = free_pages s'" by (simp only: fp set_append set_upt Un_assoc)
  moreover have "distinct ([9..<160] @ [1..<8] @ [k..<?N])" using k_ok by auto
  ultimately have "mm_inv s'" using small chain by (simp only: mm_inv_def ps l3) blast
  with that [of s'] init chain fp show thesis by (simp add: ps l3 len) (simp add: s'_def)
qed

section \<open>The memory layout of \<open>init_mem\<close>\<close>

text \<open>
  Physical addresses as numbers: \<open>page_ceil\<close> rounds up to a page, and \<open>boot_used e n\<close> is the end
  of what \<open>init_mem\<close> reserves when the kernel image ends at \<open>e\<close> and there are \<open>n\<close> pages: the page
  directory, the \<open>pages\<close> array and 1024 process slots.
\<close>

definition page_ceil :: "nat \<Rightarrow> nat" where
  "page_ceil x = (x + 4095) div 4096 * 4096"

definition boot_procs :: "nat \<Rightarrow> nat \<Rightarrow> nat" where
  "boot_procs e n = page_ceil (page_ceil e + 4096 + 16 * n)"

definition boot_used :: "nat \<Rightarrow> nat \<Rightarrow> nat" where
  "boot_used e n = boot_procs e n + 464 * 1024"

lemma page_ceil_ge: "x \<le> page_ceil x" and page_ceil_less: "page_ceil x < x + 4096"
  unfolding page_ceil_def
  using dividend_less_times_div [of 4096 "x + 4095"] div_times_less_eq_dividend [of "x + 4095" 4096]
  by linarith+

lemma page_ceil_page [simp]: "page_ceil (page_ceil x + 4096) = page_ceil x + 4096"
proof -
  have "(page_ceil x + 4096 + 4095) div 4096 = page_ceil x div 4096 + 1"
    unfolding page_ceil_def by simp
  then show ?thesis by (simp add: page_ceil_def)
qed

lemma unat_KBASE_plus: "x < 2 ^ 31 \<Longrightarrow> unat (KBASE + of_nat x) = 0xFFFFFFFF80000000 + x"
  by (simp add: KBASE_def unat_word_ariths unat_of_nat_small)

lemma round_page_KBASE:
  assumes "x + 4095 < 2 ^ 31"
  shows "round_page (KBASE + of_nat x) = KBASE + of_nat (page_ceil x)"
proof -
  have c: "page_ceil x < 2 ^ 31" using page_ceil_less [of x] assms page_ceil_def
    by (metis div_times_less_eq_dividend order_le_less_trans)
  have "KBASE + of_nat x + 4096 - 1 = KBASE + of_nat (x + 4095)" by simp
  then have "unat ((KBASE + of_nat x + 4096 - 1) div 4096) = (0xFFFFFFFF80000000 + (x + 4095)) div 4096"
    by (simp only: unat_div unat_KBASE_plus [OF assms]) simp
  also have "\<dots> = 0xFFFFFFFF80000 + (x + 4095) div 4096" by simp
  finally have "unat (round_page (KBASE + of_nat x))
      = (0xFFFFFFFF80000 + (x + 4095) div 4096) * 4096 mod 2 ^ 64"
    by (simp add: round_page_def unat_word_ariths)
  also have "(0xFFFFFFFF80000 + (x + 4095) div 4096) * 4096 = 0xFFFFFFFF80000000 + page_ceil x"
    by (simp add: page_ceil_def)
  also have "\<dots> mod 2 ^ 64 = unat (KBASE + of_nat (page_ceil x))"
    using c by (simp add: unat_KBASE_plus)
  finally show ?thesis by (simp only: word_unat_eq_iff)
qed

lemma detect_memsize_value: "unat (detect_memsize l h) = unat l + 256 * unat h"
proof -
  have "detect_memsize l h = ucast l + push_bit 8 (ucast h)"
    unfolding detect_memsize_def
    by (rule disjunctive_add_eq_or [symmetric], rule bit_word_eqI) (auto simp: bit_simps dest: bit_imp_le_length)
  moreover have "unat l < 256" "unat h < 256"
    using unsigned_less [of l] unsigned_less [of h] by simp_all
  ultimately show ?thesis
    by (simp add: unat_word_ariths push_bit_eq_mult unsigned_ucast_eq take_bit_nat_eq_self)
qed

definition cmos_kb :: "boot_env \<Rightarrow> nat" where
  "cmos_kb b = unat (cmos_low b) + 256 * unat (cmos_high b)"

lemma cmos_kb_less: "cmos_kb b < 2 ^ 16"
proof -
  have "unat (cmos_low b) < 256" "unat (cmos_high b) < 256"
    by (rule order_less_le_trans [OF unsigned_less], simp)+
  then show ?thesis by (simp add: cmos_kb_def)
qed

lemma boot_npages:
  "unat (push_bit 2 (ucast (detect_memsize (cmos_low b) (cmos_high b))) :: u32) = 4 * cmos_kb b"
  using cmos_kb_less [of b]
  by (simp add: push_bit_eq_mult unat_word_ariths unsigned_ucast_eq take_bit_nat_eq_self
      detect_memsize_value cmos_kb_def)

lemma init_mem_free_list:
  assumes e: "end_addr b = KBASE + of_nat e" "0xA0000 \<le> e"
    and fit: "boot_used e (4 * cmos_kb b) \<le> 4096 * (4 * cmos_kb b)"
    and pg: "\<And>n. length (boot_pages b n) = unat n"
    and cnt: "\<And>n q. q \<in> set (boot_pages b n) \<Longrightarrow> 0 \<le> count q"
  shows "\<exists>s'. init_mem b s = Inr s' \<and> mm_inv s' \<and> unat (npages s') = 4 * cmos_kb b
     \<and> procs_at s' = KBASE + of_nat (boot_procs e (4 * cmos_kb b))
     \<and> kpgdir s' = KBASE + of_nat (page_ceil e)
     \<and> free_pages s' = {9..<160} \<union> {1..<8} \<union> {(boot_used e (4 * cmos_kb b) + 4095) div 4096..<4 * cmos_kb b}"
proof -
  let ?n = "4 * cmos_kb b"
  let ?np = "push_bit 2 (ucast (detect_memsize (cmos_low b) (cmos_high b))) :: u32"
  have n: "unat ?np = ?n" by (rule boot_npages)
  have small: "?n \<le> 2 ^ 18" using cmos_kb_less [of b] by simp
  have used: "boot_used e ?n \<le> 2 ^ 30" using fit small by simp
  have b1: "page_ceil (page_ceil e + 4096 + 16 * ?n) + 464 * 1024 \<le> 2 ^ 30"
    using used by (simp only: boot_used_def boot_procs_def)
  have b2: "page_ceil e + 4096 + 16 * ?n \<le> 2 ^ 30"
    using b1 page_ceil_ge [of "page_ceil e + 4096 + 16 * ?n"] by linarith
  have "e \<le> 2 ^ 30" using b2 page_ceil_ge [of e] by linarith
  then have b3: "e + 4095 < 2 ^ 31" by simp
  have kp: "round_page (end_addr b) = KBASE + of_nat (page_ceil e)"
    using b3 by (simp only: e(1) round_page_KBASE)
  have pa: "round_page (KBASE + of_nat (page_ceil e) + 4096) = KBASE + of_nat (page_ceil e + 4096)"
    using round_page_KBASE [of "page_ceil e + 4096"] b2 by (simp add: add.assoc)
  have unp: "(ucast ?np :: u64) = of_nat ?n"
    by (simp only: n [symmetric] of_nat_unat)
  have pr: "round_page (KBASE + of_nat (page_ceil e + 4096) + 16 * ucast ?np) = KBASE + of_nat (boot_procs e ?n)"
    using round_page_KBASE [of "page_ceil e + 4096 + 16 * ?n"] b2
    by (simp add: unp boot_procs_def add.assoc)
  have ku: "KBASE + of_nat (boot_procs e ?n) + 464 * 1024 = KBASE + of_nat (boot_used e ?n)"
    by (simp add: boot_used_def)
  define s1 where "s1 = s\<lparr>npages := ?np, pages := boot_pages b ?np, kpgdir := KBASE + of_nat (page_ceil e),
     procs_at := KBASE + of_nat (boot_procs e ?n), kused_mem := KBASE + of_nat (boot_used e ?n),
     mem := memset (memcpy (memcpy (store64 (mem s) (KBASE + of_nat (page_ceil e) + 8 * 511)
        (load64 (mem s) (boot_pgkdir b + 8 * 511))) (vmxcode b) (code_addr b) (of_nat (length vm_code)))
        (KPA2VA (of_nat TRAMPOLINE_BASE)) (trampoline_data b) 4096) (KBASE + of_nat (boot_procs e ?n)) 0 (464 * 1024)\<rparr>"
  have init: "init_mem b s = init_page s1"
    unfolding init_mem_def Let_def kp pa pr ku s1_def by (rule refl)
  let ?k = "(boot_used e ?n + 4095) div 4096"
  have ge: "160 \<le> ?k"
    using e(2) page_ceil_ge [of e] page_ceil_ge [of "page_ceil e + 4096 + 16 * ?n"]
    by (simp add: boot_used_def boot_procs_def)
  have le: "?k \<le> unat (npages s1)" using fit by (simp add: s1_def n)
  obtain s' where s': "init_page s1 = Inr s'" "mm_inv s'" "npages s' = npages s1"
      "kpgdir s' = kpgdir s1" "procs_at s' = procs_at s1"
      "free_pages s' = {9..<160} \<union> {1..<8} \<union> {?k..<unat (npages s1)}"
    by (rule init_page_list [of s1 "boot_used e ?n" ?k]) (use ge le small n pg cnt in \<open>auto simp: s1_def\<close>)
  then show ?thesis using init by (simp add: s1_def n)
qed

section \<open>The allocator's contract\<close>

text \<open>
  What the rest of the kernel relies on: a pool of free pages, the reference count of each page,
  an allocation that takes a page out of the pool with count 1, and a release that drops one
  reference and returns the page to the pool with the last one.
\<close>

locale page_pool =
  fixes alloc :: "'s \<Rightarrow> nat option \<times> 's"
    and release :: "nat \<Rightarrow> 's \<Rightarrow> 's"
    and pool :: "'s \<Rightarrow> nat set"
    and refs :: "'s \<Rightarrow> nat \<Rightarrow> int"
    and inv :: "'s \<Rightarrow> bool"
  assumes finite_pool: "inv s \<Longrightarrow> finite (pool s)"
    and alloc_fails: "inv s \<Longrightarrow> fst (alloc s) = None \<longleftrightarrow> pool s = {}"
    and alloc_takes: "inv s \<Longrightarrow> alloc s = (Some p, s') \<Longrightarrow>
      p \<in> pool s \<and> pool s' = pool s - {p} \<and> refs s' = (refs s)(p := 1) \<and> inv s'"
    and pool_refs: "inv s \<Longrightarrow> p \<in> pool s \<Longrightarrow> refs s p = 0"
    and release_drops: "inv s \<Longrightarrow> 0 < refs s p \<Longrightarrow>
      refs (release p s) = (refs s)(p := refs s p - 1) \<and> inv (release p s) \<and>
      pool (release p s) = (if refs s p = 1 then insert p (pool s) else pool s)"

fun alloc_many :: "('s \<Rightarrow> nat option \<times> 's) \<Rightarrow> nat \<Rightarrow> 's \<Rightarrow> nat list \<times> 's" where
  "alloc_many al 0 s = ([], s)"
| "alloc_many al (Suc n) s =
     (case al s of (None, s') \<Rightarrow> ([], s')
      | (Some p, s') \<Rightarrow> (case alloc_many al n s' of (ps, s'') \<Rightarrow> (p # ps, s'')))"

context page_pool
begin

lemma alloc_succeeds: "inv s \<Longrightarrow> pool s \<noteq> {} \<Longrightarrow> \<exists>p s'. alloc s = (Some p, s')"
  using alloc_fails [of s] by (cases "alloc s") auto

lemma alloc_release:
  assumes "inv s" and "alloc s = (Some p, s')"
  shows "pool (release p s') = pool s \<and> refs (release p s') = refs s \<and> inv (release p s')"
proof -
  from alloc_takes [OF assms] have a: "p \<in> pool s" "pool s' = pool s - {p}" "refs s' = (refs s)(p := 1)" "inv s'"
    by blast+
  then have "0 < refs s' p" by simp
  from release_drops [OF a(4) this] a pool_refs [OF assms(1) a(1)] show ?thesis
    by (auto simp: fun_upd_idem)
qed

lemma alloc_many_distinct:
  "inv s \<Longrightarrow> n \<le> card (pool s) \<Longrightarrow>
   \<exists>ps s'. alloc_many alloc n s = (ps, s') \<and> length ps = n \<and> distinct ps \<and> set ps \<subseteq> pool s
     \<and> pool s' = pool s - set ps \<and> inv s' \<and> (\<forall>p. refs s' p = (if p \<in> set ps then 1 else refs s p))"
proof (induction n arbitrary: s)
  case 0
  then show ?case by simp
next
  case (Suc n)
  then have "pool s \<noteq> {}" by auto
  with alloc_succeeds Suc.prems(1) obtain p s1 where al: "alloc s = (Some p, s1)" by blast
  from alloc_takes [OF Suc.prems(1) al] have a: "p \<in> pool s" "pool s1 = pool s - {p}"
    "refs s1 = (refs s)(p := 1)" "inv s1" by blast+
  then have "n \<le> card (pool s1)" using Suc.prems finite_pool by simp
  from Suc.IH [OF a(4) this] obtain ps s' where ps: "alloc_many alloc n s1 = (ps, s')" "length ps = n"
    "distinct ps" "set ps \<subseteq> pool s1" "pool s' = pool s1 - set ps" "inv s'"
    "\<forall>p. refs s' p = (if p \<in> set ps then 1 else refs s1 p)" by blast
  from ps(4) a(2) have "p \<notin> set ps" by blast
  with ps a al show ?case by auto
qed

end

definition page_refs :: "'a kmm_scheme \<Rightarrow> nat \<Rightarrow> int" where
  "page_refs s p = (if p < length (pages s) then count (pages s ! p) else 0)"

text \<open>Writing memory leaves the allocator's state alone.\<close>

lemma page_refs_mem [simp]: "page_refs (s\<lparr>mem := m\<rparr>) = page_refs s"
  by (rule ext) (simp add: page_refs_def)

lemma free_pages_mem [simp]: "free_pages (s\<lparr>mem := m\<rparr>) = free_pages s"
  by (simp add: free_pages_def)

lemma page_link_mem [simp]: "page_link (s\<lparr>mem := m\<rparr>) = page_link s"
  by (rule ext) (simp add: page_link_def)

lemma mm_inv_mem [simp]: "mm_inv (s\<lparr>mem := m\<rparr>) = mm_inv s"
  by (simp add: mm_inv_def)

text \<open>The allocator's view of a state is its page array and the head of the list.\<close>

lemma mm_cong:
  assumes "pages s = pages t" "phead s = phead t" "npages s = npages t"
  shows "mm_inv s = mm_inv t" "free_pages s = free_pages t" "page_refs s = page_refs t"
proof -
  have "page_link s = page_link t" using assms(1) by (simp add: page_link_def fun_eq_iff)
  moreover show "free_pages s = free_pages t" "page_refs s = page_refs t"
    using assms by (simp_all add: free_pages_def page_refs_def fun_eq_iff)
  ultimately show "mm_inv s = mm_inv t"
    using assms by (simp add: mm_inv_def)
qed

lemma page_refs_alloc: "mm_inv s \<Longrightarrow> alloc_page fl s = (Some p, s') \<Longrightarrow> page_refs s' = (page_refs s)(p := 1)"
  using alloc_page_Some [of s fl p s'] free_pages_less [of p s]
  by (auto simp: page_refs_def fun_eq_iff)

lemma page_refs_free:
  "mm_inv s \<Longrightarrow> 0 < page_refs s p \<Longrightarrow> page_refs (free_page (Some p) s) = (page_refs s)(p := page_refs s p - 1)"
  using free_page_Some [of s p "free_page (Some p) s"]
  by (auto simp: page_refs_def fun_eq_iff split: if_splits)

interpretation mm: page_pool "alloc_page fl" "\<lambda>p. free_page (Some p)" free_pages page_refs mm_inv for fl
proof
  show "finite (free_pages s)" for s :: "'a kmm_scheme" by simp
  show "fst (alloc_page fl s) = None \<longleftrightarrow> free_pages s = {}" if "mm_inv s" for s :: "'a kmm_scheme"
    by (rule alloc_page_None_iff [OF that])
  show "p \<in> free_pages s \<and> free_pages s' = free_pages s - {p} \<and> page_refs s' = (page_refs s)(p := 1) \<and> mm_inv s'"
    if "mm_inv s" "alloc_page fl s = (Some p, s')" for s s' :: "'a kmm_scheme" and p
    using alloc_page_Some [OF that] page_refs_alloc [OF that] by blast
  show "page_refs s p = 0" if "p \<in> free_pages s" for s :: "'a kmm_scheme" and p
    using that by (simp add: free_pages_def page_refs_def)
  show "page_refs (free_page (Some p) s) = (page_refs s)(p := page_refs s p - 1) \<and>
      mm_inv (free_page (Some p) s) \<and>
      free_pages (free_page (Some p) s) = (if page_refs s p = 1 then insert p (free_pages s) else free_pages s)"
    if "mm_inv s" "0 < page_refs s p" for s :: "'a kmm_scheme" and p
    proof -
    from that(2) have p: "p < length (pages s)" "0 < count (pages s ! p)" "page_refs s p = count (pages s ! p)"
      by (auto simp: page_refs_def split: if_splits)
    with page_refs_free [OF that] free_page_Some(1,2) [OF that(1) p(1,2) refl] show ?thesis by simp
  qed
qed


section \<open>Properties of the allocator\<close>

text \<open>C28. Boot: with the kernel image ending at \<open>e\<close> bytes above the kernel base and room for the
  boot structures below the last page, \<open>init_mem\<close> never indexes outside \<open>pages\<close>, establishes the
  allocator's invariant, and puts on the free list exactly pages 1 to 7, 9 to 159 (below 640 KB
  without the trampoline page) and those above the page array and the process table.\<close>

theorem init_mem_layout:
  assumes e: "end_addr b = KBASE + of_nat e" "0xA0000 \<le> e"
    and fit: "boot_used e (4 * cmos_kb b) \<le> 4096 * (4 * cmos_kb b)"
    and pg: "\<forall>n. length (boot_pages b n) = unat n"
    and cnt: "\<forall>n. \<forall>q \<in> set (boot_pages b n). 0 \<le> count q"
  shows "\<exists>s'. init_mem b s = Inr s' \<and> mm_inv s' \<and> unat (npages s') = 4 * cmos_kb b
     \<and> procs_at s' = KBASE + of_nat (boot_procs e (4 * cmos_kb b))
     \<and> kpgdir s' = KBASE + of_nat (page_ceil e)
     \<and> free_pages s' = {9..<160} \<union> {1..<8} \<union> {(boot_used e (4 * cmos_kb b) + 4095) div 4096..<4 * cmos_kb b}"
  using init_mem_free_list [OF e fit] pg cnt by blast

text \<open>C29. Bounds: the page count is the size in KB shifted the wrong way.  The CMOS reports
  the extended memory, so the machine has \<open>cmos_kb + 1024\<close> KB; every free page from there on has no
  memory behind it, and such pages are on the free list whenever the machine has over 342 KB of
  extended memory: \<open>alloc_page\<close> may hand out an address where there is no memory.\<close>

theorem init_mem_absent_memory:
  assumes e: "end_addr b = KBASE + of_nat e" "0xA0000 \<le> e"
    and fit: "boot_used e (4 * cmos_kb b) \<le> 4096 * (4 * cmos_kb b - 1)"
    and pg: "\<forall>n. length (boot_pages b n) = unat n"
    and cnt: "\<forall>n. \<forall>q \<in> set (boot_pages b n). 0 \<le> count q"
    and kb: "342 \<le> cmos_kb b"
  shows "\<exists>s' p. init_mem b s = Inr s' \<and> p \<in> free_pages s' \<and> 1024 * (cmos_kb b + 1024) \<le> unat (PAGE2PA p)"
proof -
  let ?n = "4 * cmos_kb b"
  have fit': "boot_used e ?n \<le> 4096 * ?n" using fit by simp
  obtain s' where s': "init_mem b s = Inr s'"
      "free_pages s' = {9..<160} \<union> {1..<8} \<union> {(boot_used e ?n + 4095) div 4096..<?n}"
    using init_mem_free_list [OF e fit'] pg cnt by blast
  have "(boot_used e ?n + 4095) div 4096 \<le> ?n - 1" using fit by linarith
  then have p: "?n - 1 \<in> free_pages s'" using s'(2) kb by simp
  have n: "?n - 1 < 2 ^ 18" using cmos_kb_less [of b] kb by simp
  then have "unat (of_nat (?n - 1) :: u64) = ?n - 1" by (intro unat_of_nat_small) simp
  then have "unat (PAGE2PA (?n - 1)) = 4096 * (?n - 1)"
    using n by (simp add: PAGE2PA_def push_bit_eq_mult unat_word_ariths)
  moreover have "1024 * (cmos_kb b + 1024) \<le> 4096 * (?n - 1)" using kb by simp
  ultimately show ?thesis using s'(1) p by metis
qed

text \<open>Successive allocations: while the pool is large enough, \<open>n\<close> calls of \<open>alloc_page\<close>
  return \<open>n\<close> different free pages, each then with reference count 1, take exactly these out of the
  pool, change no other count and keep the free list well-formed.\<close>

theorem alloc_pages_distinct:
  assumes "mm_inv s" and "n \<le> card (free_pages s)"
  shows "\<exists>ps s'. alloc_many (alloc_page fl) n s = (ps, s') \<and> length ps = n \<and> distinct ps
     \<and> set ps \<subseteq> free_pages s \<and> free_pages s' = free_pages s - set ps \<and> mm_inv s'
     \<and> (\<forall>p. page_refs s' p = (if p \<in> set ps then 1 else page_refs s p))"
  using assms by (rule mm.alloc_many_distinct)

text \<open>Round trip: freeing a page just allocated restores the pool and every reference
  count, whatever the flags; the page comes back as the head of the list.\<close>

theorem alloc_free_restores:
  assumes "mm_inv s" and "alloc_page fl s = (Some p, s')"
  shows "free_pages (free_page (Some p) s') = free_pages s \<and> page_refs (free_page (Some p) s') = page_refs s
     \<and> mm_inv (free_page (Some p) s') \<and> phead (free_page (Some p) s') = Some p"
proof -
  have "phead s = Some p" using assms(2) by (auto simp: alloc_page_def Let_def split: option.splits)
  moreover have "p \<in> free_pages s" by (rule alloc_page_Some(1) [OF assms])
  ultimately have "phead (free_page (Some p) s') = Some p"
    using assms(2) by (auto simp: alloc_page_def free_page_def free_pages_def Let_def split: if_splits)
  with mm.alloc_release [OF assms] show ?thesis by blast
qed

section \<open>A small machine, for the witnesses\<close>

text \<open>Eight pages, of which pages 0 and 7 are in use; memory is all zero.\<close>

definition small_machine :: kmm where
  "small_machine = \<lparr>npages = 8,
     pages = [\<lparr>link = None, count = 1\<rparr>, \<lparr>link = Some 2, count = 0\<rparr>, \<lparr>link = Some 3, count = 0\<rparr>,
              \<lparr>link = Some 4, count = 0\<rparr>, \<lparr>link = Some 5, count = 0\<rparr>, \<lparr>link = Some 6, count = 0\<rparr>,
              \<lparr>link = None, count = 0\<rparr>, \<lparr>link = None, count = 1\<rparr>],
     phead = Some 1, kused_mem = 0, kpgdir = 0, procs_at = 0, mem = (\<lambda>a. 0)\<rparr>"

lemma free_small: "free_pages small_machine = {1, 2, 3, 4, 5, 6}"
  by (auto simp: free_pages_def small_machine_def less_Suc_eq nth_Cons' split: if_splits)

lemma mm_inv_small: "mm_inv small_machine"
  unfolding mm_inv_def free_small
  by (intro conjI exI [of _ "[1, 2, 3, 4, 5, 6]"])
    (auto simp: small_machine_def page_link_def less_Suc_eq nth_Cons')

text \<open>A machine of any size: \<open>n\<close> pages, of which the first \<open>u\<close> are in use.\<close>

definition machine :: "nat \<Rightarrow> nat \<Rightarrow> kmm" where
  "machine u n = \<lparr>npages = of_nat n,
     pages = map (\<lambda>i. \<lparr>link = (if u \<le> i \<and> Suc i < n then Some (Suc i) else None), count = (if i < u then 1 else 0)\<rparr>) [0..<n],
     phead = (if u < n then Some u else None), kused_mem = 0, kpgdir = 0, procs_at = 0, mem = (\<lambda>a. 0)\<rparr>"

lemma machine_chain:
  "k \<le> n \<Longrightarrow> u \<le> k \<Longrightarrow> chain (page_link (machine u n)) (if k < n then Some k else None) [k..<n]"
proof (induction "n - k" arbitrary: k)
  case (Suc d)
  then have k: "k < n" "[k..<n] = k # [Suc k..<n]" by (simp_all add: upt_conv_Cons)
  have "page_link (machine u n) k = (if Suc k < n then Some (Suc k) else None)"
    using k(1) Suc.prems by (simp add: page_link_def machine_def)
  with Suc.hyps(1) [of "Suc k"] Suc.hyps(2) Suc.prems k show ?case by simp
qed simp

lemma machine_facts:
  assumes "u \<le> n" and "n \<le> 2 ^ 18"
  shows "free_pages (machine u n) = {u..<n}" and "mm_inv (machine u n)"
proof -
  show f: "free_pages (machine u n) = {u..<n}" by (auto simp: free_pages_def machine_def split: if_splits)
  have "chain (page_link (machine u n)) (phead (machine u n)) [u..<n]"
    using machine_chain [OF assms(1) order_refl] by (simp add: machine_def)
  then show "mm_inv (machine u n)" using assms unfolding mm_inv_def f
    by (intro conjI exI [of _ "[u..<n]"]) (auto simp: machine_def unat_of_nat_small)
qed

theorem alloc_pages_distinct_witness:
  "\<exists>ps s'. alloc_many (alloc_page 1) 6 small_machine = (ps, s') \<and> length ps = 6 \<and> distinct ps
     \<and> free_pages s' = free_pages small_machine - set ps"
proof -
  have "6 \<le> card (free_pages small_machine)" by (simp add: free_small)
  from alloc_pages_distinct [OF mm_inv_small this, of 1] show ?thesis by blast
qed

theorem alloc_free_restores_witness:
  "free_pages (free_page (Some 1) (snd (alloc_page 0 small_machine))) = {1, 2, 3, 4, 5, 6}"
proof -
  have "alloc_page 0 small_machine = (Some 1, snd (alloc_page 0 small_machine))"
    by (simp add: alloc_page_def small_machine_def)
  from alloc_free_restores [OF mm_inv_small this] show ?thesis by (simp add: free_small)
qed

text \<open>A machine with 4 MB of extended memory whose kernel image ends at 2 MB.\<close>

definition small_boot :: boot_env where
  "small_boot = \<lparr>end_addr = KBASE + of_nat 0x200000, boot_pgkdir = KBASE + 0x100000, vmxcode = KBASE + 0x101000,
     code_addr = KBASE + 0x102000, trampoline_data = KBASE + 0x103000, cmos_low = 0, cmos_high = 16,
     boot_pages = (\<lambda>n. replicate (unat n) \<lparr>link = None, count = 0\<rparr>)\<rparr>"

lemma small_boot_facts:
  "end_addr small_boot = KBASE + of_nat 0x200000" "cmos_kb small_boot = 4096"
  "\<forall>n. length (boot_pages small_boot n) = unat n" "\<forall>n. \<forall>q \<in> set (boot_pages small_boot n). 0 \<le> count q"
  "boot_used 0x200000 (4 * 4096) = 2838528"
  by (auto simp: small_boot_def cmos_kb_def boot_used_def boot_procs_def page_ceil_def)

theorem init_mem_layout_witness:
  "\<exists>s'. init_mem small_boot small_machine = Inr s' \<and> mm_inv s'
     \<and> free_pages s' = {9..<160} \<union> {1..<8} \<union> {693..<16384}"
  using init_mem_layout [of small_boot "0x200000" small_machine] small_boot_facts by auto

theorem init_mem_absent_memory_witness:
  "\<exists>s' p. init_mem small_boot small_machine = Inr s' \<and> p \<in> free_pages s' \<and> 0x500000 \<le> unat (PAGE2PA p)"
  using init_mem_absent_memory [of small_boot "0x200000" small_machine] small_boot_facts by auto

end
