(* ===== verification/Paging.thy ===== *)
theory Paging
  imports Mm
begin

text \<open>
  The four-level page tables of \<^verbatim>\<open>kernel/mm.c\<close> (the amd64 branch): \<open>walk_dir\<close>, \<open>walk_page\<close>,
  \<open>insert_page\<close> and \<open>remove_page\<close>, reading and writing 64-bit entries in the kernel's memory.
  A pointer to an entry is its kernel virtual address; the out-parameter \<open>*pte\<close> is \<open>None\<close> where
  the code returns without assigning it.  Table pages come from the allocator of theory \<open>Mm\<close>; the
  code does not test the result of \<open>alloc_page\<close> there, and an exhausted pool is the fault
  \<open>NullPointer\<close>.  The TLB is not part of the state.

  The abstraction is the user half of an address space as a function from addresses to leaf
  entries (\<open>pte_of\<close>), 0 where no table exists.
\<close>

section \<open>The code\<close>

definition idx :: "nat \<Rightarrow> u64 \<Rightarrow> u64" where
  "idx sh va = drop_bit sh va AND 0x1ff"

definition PTE_FULL :: u64 where
  "PTE_FULL = 7"

definition table_of :: "u64 \<Rightarrow> u64" where
  "table_of e = KPA2VA ((e div 4096) * 4096)"

definition walk_dir :: "u64 \<Rightarrow> u64 \<Rightarrow> int \<Rightarrow> 'a kmm_scheme \<Rightarrow> (int \<times> u64 option \<times> 'a kmm_scheme) outcome" where
  "walk_dir pgdir va create s =
     (let at = pgdir + 8 * idx 21 va; e = load64 (mem s) at
      in if e AND 1 \<noteq> 0 then Inr (0, Some (table_of e + 8 * idx 12 va), s)
         else if create = 1 then
           (case alloc_page 1 s of
              (None, s1) \<Rightarrow> Inl NullPointer
            | (Some p, s1) \<Rightarrow>
                Inr (0, Some (PAGE2VA p + 8 * idx 12 va),
                     s1\<lparr>mem := store64 (mem s1) at (PAGE2PA p OR PTE_FULL)\<rparr>))
         else Inr (- 1, Some 0, s))"

definition walk_page :: "u64 \<Rightarrow> u64 \<Rightarrow> int \<Rightarrow> 'a kmm_scheme \<Rightarrow> (int \<times> u64 option \<times> 'a kmm_scheme) outcome" where
  "walk_page pgdir va create s =
     (let pml_at = pgdir + 8 * idx 39 va; e = load64 (mem s) pml_at
      in if e AND 1 \<noteq> 0 then
           (let pdp_at = table_of e + 8 * idx 30 va; e2 = load64 (mem s) pdp_at
            in if e2 AND 1 \<noteq> 0 then walk_dir (table_of e2) va create s
               else if create = 0 then Inr (- 1, None, s)
               else (case alloc_page 1 s of
                       (None, s1) \<Rightarrow> Inl NullPointer
                     | (Some p, s1) \<Rightarrow>
                         walk_dir (PAGE2VA p) va create
                           (s1\<lparr>mem := store64 (mem s1) pdp_at (PAGE2PA p OR PTE_FULL)\<rparr>)))
         else if create = 0 then Inr (- 1, None, s)
         else (case alloc_page 1 s of
                 (None, s1) \<Rightarrow> Inl NullPointer
               | (Some p, s1) \<Rightarrow>
                   (let s2 = s1\<lparr>mem := store64 (mem s1) pml_at (PAGE2PA p OR PTE_FULL)\<rparr>
                    in case alloc_page 1 s2 of
                         (None, s3) \<Rightarrow> Inl NullPointer
                       | (Some q, s3) \<Rightarrow>
                           walk_dir (PAGE2VA q) va create
                             (s3\<lparr>mem := store64 (mem s3) (PAGE2VA p + 8 * idx 30 va) (PAGE2PA q OR PTE_FULL)\<rparr>))))"

definition insert_page :: "u64 \<Rightarrow> u64 \<Rightarrow> nat option \<Rightarrow> u64 \<Rightarrow> 'a kmm_scheme \<Rightarrow> (int \<times> 'a kmm_scheme) outcome" where
  "insert_page pgdir va pp flag s =
     (case pp of
        None \<Rightarrow> Inr (- 1, s)
      | Some p \<Rightarrow>
          bindE (walk_page pgdir va 1 s) (\<lambda>(r, pte, s1).
            if r < 0 then Inr (r, s1)
            else (case pte of
                    None \<Rightarrow> Inl NullPointer
                  | Some a \<Rightarrow> Inr (0, s1\<lparr>mem := store64 (mem s1) a (PAGE2PA p OR flag)\<rparr>))))"

definition remove_page :: "u64 \<Rightarrow> u64 \<Rightarrow> 'a kmm_scheme \<Rightarrow> (int \<times> 'a kmm_scheme) outcome" where
  "remove_page pgdir va s =
     bindE (walk_page pgdir va 0 s) (\<lambda>(r, pte, s1).
       if r < 0 then Inr (r, s1)
       else (case pte of
               None \<Rightarrow> Inl NullPointer
             | Some a \<Rightarrow>
                 let e = load64 (mem s1) a; i = unat (drop_bit 12 e)
                 in if e AND 1 \<noteq> 0 then
                      (if i < length (pages s1)
                       then (let s2 = free_page (Some i) s1 in Inr (0, s2\<lparr>mem := store64 (mem s2) a 0\<rparr>))
                       else Inl BadIndex)
                    else Inr (0, s1\<lparr>mem := store64 (mem s1) a 0\<rparr>)))"

section \<open>Addresses of entries\<close>

lemma PAGE2VA_offset: "PAGE2VA f = KBASE + of_nat (4096 * f)"
  by (simp add: PAGE2VA_def PAGE2PA_def push_bit_eq_mult)

lemma entry_offset: "PAGE2VA f + 8 * i = KBASE + of_nat (4096 * f + 8 * unat i)"
  by (simp add: PAGE2VA_offset)

lemma idx_less [simp]: "idx sh va < 512"
proof -
  have "idx sh va \<le> 0x1ff" unfolding idx_def by (rule word_and_le1)
  then show ?thesis by (rule order_le_less_trans) simp
qed

lemma unat_less_512: "i < (512 :: u64) \<longleftrightarrow> unat i < 512"
  by (simp add: word_less_nat_alt)

text \<open>Page frames the allocator knows have numbers below \<open>2 ^ 18\<close>, so nothing wraps around.\<close>

lemma entry_disj:
  assumes "f < 2 ^ 18" "g < 2 ^ 18" "i < 512" "j < 512" and "f \<noteq> g \<or> i \<noteq> j"
  shows "apart (PAGE2VA f + 8 * i) 8 (PAGE2VA g + 8 * j) 8"
proof -
  have ij: "unat i < 512" "unat j < 512" using assms(3,4) by (simp_all only: unat_less_512)
  have "f \<noteq> g \<or> unat i \<noteq> unat j" using assms(5) by (simp add: word_unat_eq_iff)
  then have "4096 * f + 8 * unat i + 8 \<le> 4096 * g + 8 * unat j
      \<or> 4096 * g + 8 * unat j + 8 \<le> 4096 * f + 8 * unat i"
    using ij by (cases f g rule: linorder_cases; cases "unat i" "unat j" rule: linorder_cases) auto
  then show ?thesis
    unfolding entry_offset using assms(1,2) ij by (intro apart_offset) simp_all
qed

lemma page_entry_disj:
  assumes "f < 2 ^ 18" "g < 2 ^ 18" "j < 512" "f \<noteq> g"
  shows "apart (PAGE2VA f) 4096 (PAGE2VA g + 8 * j) 8"
proof -
  have j: "unat j < 512" using assms(3) by (simp only: unat_less_512)
  then have "4096 * f + 4096 \<le> 4096 * g + 8 * unat j \<or> 4096 * g + 8 * unat j + 8 \<le> 4096 * f"
    using assms(4) by linarith
  then show ?thesis
    unfolding entry_offset unfolding PAGE2VA_offset using assms(1,2) j by (intro apart_offset) simp_all
qed

lemma PAGE2VA_inj: "f < 2 ^ 18 \<Longrightarrow> g < 2 ^ 18 \<Longrightarrow> PAGE2VA f = PAGE2VA g \<longleftrightarrow> f = g"
proof
  assume b: "f < 2 ^ 18" "g < 2 ^ 18" and eq: "PAGE2VA f = PAGE2VA g"
  from eq have "(of_nat (4096 * f) :: u64) = of_nat (4096 * g)"
    by (simp only: PAGE2VA_offset add_left_cancel)
  moreover have "4096 * f < 2 ^ LENGTH(64)" "4096 * g < 2 ^ LENGTH(64)" using b by simp_all
  ultimately have "4096 * f = 4096 * g" by (metis unat_of_nat_small)
  then show "f = g" by simp
qed simp

lemma load64_zero_page:
  assumes "i < 512"
  shows "load64 (store_bytes m (PAGE2VA f) (replicate 4096 0)) (PAGE2VA f + 8 * i) = 0"
proof -
  have i: "unat i < 512" using assms by (simp only: unat_less_512)
  have "unat ((PAGE2VA f + 8 * i) - PAGE2VA f) = 8 * unat i"
    using i by (simp add: unat_word_ariths)
  with i show ?thesis
    by (simp add: load64_def load_bytes_inside min_def)
qed

text \<open>An entry built from a page number and flags below 4096 gives that page back.\<close>

lemma PAGE2PA_OR_drop: "fl < 4096 \<Longrightarrow> p < 2 ^ 52 \<Longrightarrow> drop_bit 12 (PAGE2PA p OR fl) = of_nat p"
proof -
  assume fl: "fl < 4096" and p: "p < 2 ^ 52"
  have "unat fl < 2 ^ 12" using fl by (simp add: word_less_nat_alt)
  then have "drop_bit 12 fl = 0" by (simp add: word_unat_eq_iff drop_bit_eq_div unat_div)
  moreover have "drop_bit 12 (push_bit 12 (of_nat p :: u64)) = of_nat p"
  proof -
    have "unat (drop_bit 12 (push_bit 12 (of_nat p :: u64))) = unat (of_nat p :: u64)"
      using p by (simp add: unat_drop_bit_eq push_bit_eq_mult drop_bit_eq_div unat_word_ariths unat_of_nat_small)
    then show ?thesis by (simp only: word_unat_eq_iff)
  qed
  ultimately show ?thesis by (simp add: PAGE2PA_def)
qed

lemma table_of_entry: "fl < 4096 \<Longrightarrow> p < 2 ^ 18 \<Longrightarrow> table_of (PAGE2PA p OR fl) = PAGE2VA p"
proof -
  assume fl: "fl < 4096" and p: "p < 2 ^ 18"
  have "(PAGE2PA p OR fl) div 4096 = drop_bit 12 (PAGE2PA p OR fl)"
    by (simp add: drop_bit_eq_div)
  also have "\<dots> = of_nat p" using fl p by (intro PAGE2PA_OR_drop) simp_all
  finally show ?thesis
    by (simp add: table_of_def KPA2VA_def PAGE2VA_offset)
qed

lemma entry_present: "(PAGE2PA p OR PTE_FULL) AND 1 \<noteq> 0"
proof -
  have b: "bit ((PAGE2PA p OR PTE_FULL) AND 1) 0" by (simp add: bit_simps PTE_FULL_def)
  show ?thesis
  proof
    assume "(PAGE2PA p OR PTE_FULL) AND 1 = 0"
    with b have "bit (0 :: u64) 0" by (simp only:)
    then show False by simp
  qed
qed

section \<open>Table pages as nodes of a tree\<close>

definition tbl :: "mem \<Rightarrow> u64 \<Rightarrow> u64 option" where
  "tbl m a = (let e = load64 m a in if e AND 1 \<noteq> 0 then Some (table_of e) else None)"

fun node :: "mem \<Rightarrow> u64 \<Rightarrow> u64 list \<Rightarrow> u64 option" where
  "node m b [] = Some b"
| "node m b (i # is) = (case tbl m (b + 8 * i) of None \<Rightarrow> None | Some b' \<Rightarrow> node m b' is)"

lemma node_snoc:
  "node m r (is @ [i]) = (case node m r is of None \<Rightarrow> None | Some b \<Rightarrow> tbl m (b + 8 * i))"
  by (induction "is" arbitrary: r) (auto split: option.splits)

text \<open>Paths of at most three indices; the first one stays in the user half.\<close>

definition upath :: "u64 list \<Rightarrow> bool" where
  "upath is \<longleftrightarrow> length is \<le> 3 \<and> (\<forall>i \<in> set is. i < 512) \<and> (is \<noteq> [] \<longrightarrow> hd is < 256)"

definition user_va :: "u64 \<Rightarrow> bool" where
  "user_va va \<longleftrightarrow> idx 39 va < 256"

definition vpath :: "u64 \<Rightarrow> u64 list" where
  "vpath va = [idx 39 va, idx 30 va, idx 21 va]"

definition pte_addr :: "mem \<Rightarrow> u64 \<Rightarrow> u64 \<Rightarrow> u64 option" where
  "pte_addr m r va = map_option (\<lambda>b. b + 8 * idx 12 va) (node m r (vpath va))"

definition pte_of :: "mem \<Rightarrow> u64 \<Rightarrow> u64 \<Rightarrow> u64" where
  "pte_of m r va = (case pte_addr m r va of None \<Rightarrow> 0 | Some a \<Rightarrow> load64 m a)"

text \<open>
  The invariant of one address space: the allocator's, and the table pages reached from the
  root along user paths are pages in use, a different one for every path.
\<close>

definition pt_inv :: "'a kmm_scheme \<Rightarrow> u64 \<Rightarrow> bool" where
  "pt_inv s r \<longleftrightarrow> mm_inv s
     \<and> (\<forall>is b. upath is \<longrightarrow> node (mem s) r is = Some b \<longrightarrow>
           (\<exists>f. f < length (pages s) \<and> f \<notin> free_pages s \<and> b = PAGE2VA f))
     \<and> (\<forall>is js b. upath is \<longrightarrow> upath js \<longrightarrow> node (mem s) r is = Some b \<longrightarrow> node (mem s) r js = Some b \<longrightarrow> is = js)"

definition tables :: "'a kmm_scheme \<Rightarrow> u64 \<Rightarrow> nat set" where
  "tables s r = {f. f < length (pages s) \<and> (\<exists>is. upath is \<and> node (mem s) r is = Some (PAGE2VA f))}"

lemma upath_Nil [simp]: "upath []"
  by (simp add: upath_def)

lemma upath_butlast: "upath (is @ [i]) \<Longrightarrow> upath is"
  by (cases "is") (auto simp: upath_def)

lemma upath_last: "upath (is @ [i]) \<Longrightarrow> i < 512"
  by (simp add: upath_def)

lemma upath_length: "upath is \<Longrightarrow> length is \<le> 3"
  by (simp add: upath_def)

lemma upath_vpath: "user_va va \<Longrightarrow> upath (vpath va)"
  by (simp add: upath_def vpath_def user_va_def)

lemma upath_prefixes:
  assumes "user_va va"
  shows "upath [idx 39 va]" "upath [idx 39 va, idx 30 va]"
  using assms by (simp_all add: upath_def user_va_def)

lemma pt_inv_mm: "pt_inv s r \<Longrightarrow> mm_inv s"
  by (simp add: pt_inv_def)

lemma pt_inv_node:
  assumes "pt_inv s r" "upath is" "node (mem s) r is = Some b"
  obtains f where "f < 2 ^ 18" "f < length (pages s)" "f \<notin> free_pages s" "b = PAGE2VA f"
proof -
  from assms obtain f where f: "f < length (pages s)" "f \<notin> free_pages s" "b = PAGE2VA f"
    unfolding pt_inv_def by blast
  moreover have "length (pages s) \<le> 2 ^ 18" using assms(1) by (simp add: pt_inv_def mm_inv_def)
  ultimately show thesis using that [of f] by linarith
qed

lemma pt_inv_unique:
  "pt_inv s r \<Longrightarrow> upath is \<Longrightarrow> upath js \<Longrightarrow> node (mem s) r is = Some b \<Longrightarrow> node (mem s) r js = Some b \<Longrightarrow> is = js"
  unfolding pt_inv_def by blast

text \<open>Entries of different nodes, or different entries of one node, do not overlap.\<close>

lemma node_entry_disj:
  assumes "pt_inv s r" "upath is" "upath js" "node (mem s) r is = Some b" "node (mem s) r js = Some c"
    and "i < 512" "j < 512" and "is \<noteq> js \<or> i \<noteq> j"
  shows "apart (b + 8 * i) 8 (c + 8 * j) 8"
proof -
  obtain f where f: "f < 2 ^ 18" "b = PAGE2VA f" by (rule pt_inv_node [OF assms(1,2,4)])
  obtain g where g: "g < 2 ^ 18" "c = PAGE2VA g" by (rule pt_inv_node [OF assms(1,3,5)])
  have "f \<noteq> g \<or> i \<noteq> j" using assms(8) pt_inv_unique [OF assms(1-3)] assms(4,5) f g by auto
  then show ?thesis unfolding f(2) g(2) using f g assms(6,7) by (intro entry_disj)
qed

section \<open>One level of the walk\<close>

text \<open>
  The step every level of the walk takes: follow the entry at \<open>a\<close>, or, if it is not present,
  put a fresh zeroed page there.
\<close>

definition enter :: "u64 \<Rightarrow> 'a kmm_scheme \<Rightarrow> (u64 \<times> 'a kmm_scheme) outcome" where
  "enter a s =
     (case tbl (mem s) a of
        Some b \<Rightarrow> Inr (b, s)
      | None \<Rightarrow>
          (case alloc_page 1 s of
             (None, s1) \<Rightarrow> Inl NullPointer
           | (Some p, s1) \<Rightarrow> Inr (PAGE2VA p, s1\<lparr>mem := store64 (mem s1) a (PAGE2PA p OR PTE_FULL)\<rparr>)))"

definition fresh_table :: "mem \<Rightarrow> u64 \<Rightarrow> nat \<Rightarrow> mem" where
  "fresh_table m a p = store64 (store_bytes m (PAGE2VA p) (replicate 4096 0)) a (PAGE2PA p OR PTE_FULL)"

lemma enter_cases:
  assumes "mm_inv s" and "enter a s = Inr (b', s')"
  obtains (present) "tbl (mem s) a = Some b'" "s' = s"
  | (fresh) p where "tbl (mem s) a = None" "p \<in> free_pages s" "b' = PAGE2VA p" "p < 2 ^ 18"
      "mem s' = fresh_table (mem s) a p" "free_pages s' = free_pages s - {p}"
      "page_refs s' = (page_refs s)(p := 1)" "mm_inv s'" "length (pages s') = length (pages s)"
      "npages s' = npages s" "kmm.more s' = kmm.more s" "kpgdir s' = kpgdir s"
proof (cases "tbl (mem s) a")
  case (Some b)
  with assms(2) show thesis by (intro present) (auto simp: enter_def)
next
  case None
  with assms(2) obtain p s1 where al: "alloc_page 1 s = (Some p, s1)"
    and b': "b' = PAGE2VA p" and s': "s' = s1\<lparr>mem := store64 (mem s1) a (PAGE2PA p OR PTE_FULL)\<rparr>"
    by (auto simp: enter_def split: prod.splits option.splits)
  note al_facts = alloc_page_Some [OF assms(1) al]
  have "p < 2 ^ 18" using al_facts(1) assms(1) by (auto simp: free_pages_def mm_inv_def)
  moreover have "mem s' = fresh_table (mem s) a p"
    using al_facts(6) by (simp add: s' fresh_table_def)
  moreover have "page_refs s' = (page_refs s)(p := 1)"
    using page_refs_alloc [OF assms(1) al] by (simp add: s')
  moreover have "mm_inv s'" using al_facts(2) by (simp add: s')
  moreover have "free_pages s' = free_pages s - {p}" using al_facts(3) by (simp add: s')
  ultimately show thesis
    using None al_facts(1,7,8,9,10) b' by (intro fresh [of p]) (simp_all add: s')
qed

lemma enter_succeeds: "mm_inv s \<Longrightarrow> free_pages s \<noteq> {} \<Longrightarrow> \<exists>b s'. enter a s = Inr (b, s')"
  using mm.alloc_succeeds [of s 1] by (auto simp: enter_def split: option.splits)

lemma table_of_full: "p < 2 ^ 18 \<Longrightarrow> table_of (PAGE2PA p OR PTE_FULL) = PAGE2VA p"
  by (rule table_of_entry) (simp_all add: PTE_FULL_def)

lemma fresh_table_here:
  assumes "p < 2 ^ 18"
  shows "tbl (fresh_table m a p) a = Some (PAGE2VA p)"
  using assms by (simp add: tbl_def fresh_table_def entry_present table_of_full)

lemma fresh_table_new:
  assumes "f < 2 ^ 18" "p < 2 ^ 18" "f \<noteq> p" "i < 512" "j < 512"
  shows "load64 (fresh_table m (PAGE2VA f + 8 * i) p) (PAGE2VA p + 8 * j) = 0"
  using assms by (simp add: fresh_table_def load64_store64_disj entry_disj load64_zero_page)

lemma fresh_table_other:
  assumes "apart a 8 b 8" and "apart (PAGE2VA p) 4096 b 8"
  shows "load64 (fresh_table m a p) b = load64 m b"
  using assms by (simp add: fresh_table_def load64_store64_disj load64_store_bytes_disj)

text \<open>The tree after a fresh table: one more node, nothing else changes.\<close>

lemma node_fresh:
  assumes inv: "pt_inv s r" and "is": "upath (is @ [i])" and b: "node (mem s) r is = Some b"
    and none: "tbl (mem s) (b + 8 * i) = None" and p: "p \<in> free_pages s" "p < 2 ^ 18"
    and js: "upath js"
  shows "node (fresh_table (mem s) (b + 8 * i) p) r js
       = (if js = is @ [i] then Some (PAGE2VA p) else node (mem s) r js)"
  using js
proof (induction js rule: rev_induct)
  case Nil
  then show ?case by simp
next
  case (snoc j js)
  let ?m' = "fresh_table (mem s) (b + 8 * i) p"
  obtain fb where fb: "fb < 2 ^ 18" "fb \<notin> free_pages s" "b = PAGE2VA fb"
    by (rule pt_inv_node [OF inv upath_butlast [OF "is"] b])
  then have "fb \<noteq> p" using p by blast
  note ujs = upath_butlast [OF snoc.prems] and j = upath_last [OF snoc.prems] and i = upath_last [OF "is"]
  note IH = snoc.IH [OF ujs]
  show ?case
  proof (cases "js = is @ [i]")
    case True
    have "load64 ?m' (PAGE2VA p + 8 * j) = 0"
      unfolding fb(3) using fb(1) p(2) \<open>fb \<noteq> p\<close> i j by (rule fresh_table_new)
    moreover have "node ?m' r js = Some (PAGE2VA p)" using IH True by simp
    ultimately have "node ?m' r (js @ [j]) = None" by (simp add: node_snoc tbl_def)
    moreover have "node (mem s) r js = None" unfolding True using b none by (simp add: node_snoc)
    then have "node (mem s) r (js @ [j]) = None" by (simp add: node_snoc)
    ultimately show ?thesis using True by simp
  next
    case False
    with IH have same: "node ?m' r js = node (mem s) r js" by simp
    show ?thesis
    proof (cases "node (mem s) r js")
      case None
      then show ?thesis using same b by (auto simp: node_snoc)
    next
      case (Some c)
      obtain fc where fc: "fc < 2 ^ 18" "fc \<notin> free_pages s" "c = PAGE2VA fc"
        by (rule pt_inv_node [OF inv ujs Some])
      show ?thesis
      proof (cases "js @ [j] = is @ [i]")
        case True
        then show ?thesis using same b Some p(2) by (simp add: node_snoc fresh_table_here)
      next
        case False
        then have "is \<noteq> js \<or> i \<noteq> j" by auto
        then have "apart (b + 8 * i) 8 (c + 8 * j) 8"
          by (rule node_entry_disj [OF inv upath_butlast [OF "is"] ujs b Some i j])
        moreover have "apart (PAGE2VA p) 4096 (c + 8 * j) 8"
          unfolding fc(3) using p fc j by (intro page_entry_disj) auto
        ultimately have "tbl ?m' (c + 8 * j) = tbl (mem s) (c + 8 * j)"
          by (simp add: tbl_def fresh_table_other)
        then have "node ?m' r (js @ [j]) = node (mem s) r (js @ [j])"
          using same Some by (simp add: node_snoc)
        then show ?thesis using False by (simp only: if_False)
      qed
    qed
  qed
qed

lemma pte_fresh:
  assumes inv: "pt_inv s r" and "is": "upath (is @ [i])" and b: "node (mem s) r is = Some b"
    and none: "tbl (mem s) (b + 8 * i) = None" and p: "p \<in> free_pages s" "p < 2 ^ 18"
    and va: "user_va va"
  shows "pte_of (fresh_table (mem s) (b + 8 * i) p) r va = pte_of (mem s) r va"
proof -
  let ?m' = "fresh_table (mem s) (b + 8 * i) p"
  obtain fb where fb: "fb < 2 ^ 18" "fb \<notin> free_pages s" "b = PAGE2VA fb"
    by (rule pt_inv_node [OF inv upath_butlast [OF "is"] b])
  note nf = node_fresh [OF inv "is" b none p upath_vpath [OF va]] and i = upath_last [OF "is"]
  show ?thesis
  proof (cases "vpath va = is @ [i]")
    case True
    moreover have "node (mem s) r (is @ [i]) = None" using b none by (simp add: node_snoc)
    moreover have "load64 ?m' (PAGE2VA p + 8 * idx 12 va) = 0"
      unfolding fb(3) using fb(1,2) p i by (intro fresh_table_new) auto
    ultimately show ?thesis using nf by (simp add: pte_of_def pte_addr_def)
  next
    case False
    with nf have same: "node ?m' r (vpath va) = node (mem s) r (vpath va)" by simp
    show ?thesis
    proof (cases "node (mem s) r (vpath va)")
      case None
      then show ?thesis using same by (simp add: pte_of_def pte_addr_def)
    next
      case (Some c)
      obtain fc where fc: "fc < 2 ^ 18" "fc \<notin> free_pages s" "c = PAGE2VA fc"
        by (rule pt_inv_node [OF inv upath_vpath [OF va] Some])
      have "length (vpath va) = 3" by (simp add: vpath_def)
      moreover have "length is < 3" using upath_length [OF "is"] by simp
      ultimately have "is \<noteq> vpath va \<or> i \<noteq> idx 12 va" by auto
      then have "apart (b + 8 * i) 8 (c + 8 * idx 12 va) 8"
        by (intro node_entry_disj [OF inv upath_butlast [OF "is"] upath_vpath [OF va] b Some i]) simp_all
      moreover have "apart (PAGE2VA p) 4096 (c + 8 * idx 12 va) 8"
        unfolding fc(3) using p fc by (intro page_entry_disj) auto
      ultimately show ?thesis using same Some by (simp add: pte_of_def pte_addr_def fresh_table_other)
    qed
  qed
qed

lemma pt_inv_fresh:
  assumes inv: "pt_inv s r" and "is": "upath (is @ [i])" and b: "node (mem s) r is = Some b"
    and none: "tbl (mem s) (b + 8 * i) = None" and p: "p \<in> free_pages s" "p < 2 ^ 18"
    and s': "mem s' = fresh_table (mem s) (b + 8 * i) p" "free_pages s' = free_pages s - {p}"
      "length (pages s') = length (pages s)" "mm_inv s'"
  shows "pt_inv s' r" and "tables s' r = insert p (tables s r)"
proof -
  note nf = node_fresh [OF inv "is" b none p]
  have pl: "p < length (pages s)" using p(1) by (rule free_pages_less)
  have notp: "node (mem s) r js \<noteq> Some (PAGE2VA p)" if js: "upath js" for js
  proof
    assume n: "node (mem s) r js = Some (PAGE2VA p)"
    obtain f where "f < 2 ^ 18" "f \<notin> free_pages s" "PAGE2VA p = PAGE2VA f"
      by (rule pt_inv_node [OF inv js n])
    then show False using p by (simp add: PAGE2VA_inj)
  qed
  show "pt_inv s' r"
    unfolding pt_inv_def
  proof (intro conjI allI impI)
    fix js c assume js: "upath js" and n: "node (mem s') r js = Some c"
    show "\<exists>f<length (pages s'). f \<notin> free_pages s' \<and> c = PAGE2VA f"
    proof (cases "js = is @ [i]")
      case True
      then show ?thesis using n nf [OF js] pl s' by auto
    next
      case False
      with n nf [OF js] s'(1) have "node (mem s) r js = Some c" by simp
      then obtain f where "f < length (pages s)" "f \<notin> free_pages s" "c = PAGE2VA f"
        using pt_inv_node [OF inv js] by metis
      then show ?thesis using s' by auto
    qed
  next
    fix js ks c assume js: "upath js" "upath ks"
      and n: "node (mem s') r js = Some c" "node (mem s') r ks = Some c"
    show "js = ks"
    proof (cases "js = is @ [i] \<or> ks = is @ [i]")
      case True
      then show ?thesis using n nf [OF js(1)] nf [OF js(2)] notp [OF js(1)] notp [OF js(2)] s'(1)
        by (auto split: if_splits)
    next
      case False
      with n nf [OF js(1)] nf [OF js(2)] s'(1)
      have "node (mem s) r js = Some c" "node (mem s) r ks = Some c" by simp_all
      then show ?thesis by (rule pt_inv_unique [OF inv js])
    qed
  qed (rule s'(4))
  show "tables s' r = insert p (tables s r)"
  proof (intro equalityI subsetI)
    fix f assume "f \<in> tables s' r"
    then obtain js where f: "f < length (pages s)" and js: "upath js" "node (mem s') r js = Some (PAGE2VA f)"
      by (auto simp: tables_def s')
    have "length (pages s) \<le> 2 ^ 18" using pt_inv_mm [OF inv] by (simp add: mm_inv_def)
    with f have "f < 2 ^ 18" by linarith
    with js nf [OF js(1)] s'(1) p(2) have "f = p \<or> node (mem s) r js = Some (PAGE2VA f)"
      by (auto simp: PAGE2VA_inj split: if_splits)
    then show "f \<in> insert p (tables s r)" using f js(1) by (auto simp: tables_def)
  next
    fix f assume "f \<in> insert p (tables s r)"
    then show "f \<in> tables s' r"
    proof
      assume "f = p"
      then show ?thesis using nf [OF "is"] "is" pl s' by (auto simp: tables_def)
    next
      assume "f \<in> tables s r"
      then obtain js where f: "f < length (pages s)" and js: "upath js" "node (mem s) r js = Some (PAGE2VA f)"
        by (auto simp: tables_def)
      have "js \<noteq> is @ [i]" using js b none by (auto simp: node_snoc)
      then show ?thesis using f js nf [OF js(1)] s' by (auto simp: tables_def)
    qed
  qed
qed

text \<open>
  One step of the walk, whether the table was there or not: the invariant stays, the node is
  there afterwards, no leaf entry of the user half changes, no other node appears.
\<close>

definition grows :: "'a kmm_scheme \<Rightarrow> 'a kmm_scheme \<Rightarrow> u64 \<Rightarrow> bool" where
  "grows s s' r \<longleftrightarrow> pt_inv s' r \<and> free_pages s' \<subseteq> free_pages s
     \<and> tables s' r = tables s r \<union> (free_pages s - free_pages s')
     \<and> (\<forall>va. user_va va \<longrightarrow> pte_of (mem s') r va = pte_of (mem s) r va)
     \<and> (\<forall>is b. upath is \<longrightarrow> node (mem s) r is = Some b \<longrightarrow> node (mem s') r is = Some b)
     \<and> (\<forall>p. page_refs s' p = (if p \<in> free_pages s - free_pages s' then 1 else page_refs s p))
     \<and> (\<forall>f i. f \<notin> free_pages s \<longrightarrow> f \<notin> tables s r \<longrightarrow> f < 2 ^ 18 \<longrightarrow> i < 512 \<longrightarrow>
          load64 (mem s') (PAGE2VA f + 8 * i) = load64 (mem s) (PAGE2VA f + 8 * i))
     \<and> length (pages s') = length (pages s) \<and> npages s' = npages s
     \<and> kmm.more s' = kmm.more s \<and> kpgdir s' = kpgdir s"

lemma grows_refl: "pt_inv s r \<Longrightarrow> grows s s r"
  by (simp add: grows_def)

lemma grows_trans: "grows s s1 r \<Longrightarrow> grows s1 s2 r \<Longrightarrow> grows s s2 r"
  unfolding grows_def by (intro conjI) (auto split: if_splits)

lemma grows_pte: "grows s s' r \<Longrightarrow> user_va va \<Longrightarrow> pte_of (mem s') r va = pte_of (mem s) r va"
  by (simp add: grows_def)

lemma grows_inv: "grows s s' r \<Longrightarrow> pt_inv s' r"
  by (simp add: grows_def)

lemma grows_node: "grows s s' r \<Longrightarrow> upath is \<Longrightarrow> node (mem s) r is = Some b \<Longrightarrow> node (mem s') r is = Some b"
  by (simp add: grows_def)

lemma enter_grows:
  assumes inv: "pt_inv s r" and "is": "upath (is @ [i])" and b: "node (mem s) r is = Some b"
    and e: "enter (b + 8 * i) s = Inr (b', s')"
  shows "grows s s' r" and "node (mem s') r (is @ [i]) = Some b'"
    and "card (free_pages s) \<le> Suc (card (free_pages s'))"
proof -
  note fin = free_pages_finite [of s]
  from pt_inv_mm [OF inv] e have "grows s s' r \<and> node (mem s') r (is @ [i]) = Some b'
      \<and> card (free_pages s) \<le> Suc (card (free_pages s'))"
  proof (cases rule: enter_cases)
    case present
    then show ?thesis using inv b by (simp add: grows_refl node_snoc)
  next
    case (fresh p)
    note nf = node_fresh [OF inv "is" b fresh(1,2,4)] and pf = pte_fresh [OF inv "is" b fresh(1,2,4)]
    note inv' = pt_inv_fresh [OF inv "is" b fresh(1,2,4,5,6) fresh(9) fresh(8)]
    have keep: "node (mem s') r js = Some c" if "upath js" "node (mem s) r js = Some c" for js c
      using that nf [OF that(1)] b fresh(1,5) by (auto simp: node_snoc)
    obtain fb where fb: "fb < 2 ^ 18" "fb < length (pages s)" "fb \<notin> free_pages s" "b = PAGE2VA fb"
      by (rule pt_inv_node [OF inv upath_butlast [OF "is"] b])
    have fbt: "fb \<in> tables s r" using fb b upath_butlast [OF "is"] by (auto simp: tables_def)
    have other: "load64 (mem s') (PAGE2VA f + 8 * j) = load64 (mem s) (PAGE2VA f + 8 * j)"
      if "f \<notin> free_pages s" "f \<notin> tables s r" "f < 2 ^ 18" "j < 512" for f j
    proof -
      have "fb \<noteq> f" "p \<noteq> f" using that fbt fresh(2) by auto
      then show ?thesis unfolding fresh(5) fb(4)
        using that fb fresh(4) upath_last [OF "is"]
        by (intro fresh_table_other entry_disj page_entry_disj) auto
    qed
    have d: "free_pages s - free_pages s' = {p}" using fresh(2,6) by blast
    have "grows s s' r"
      unfolding grows_def d
    proof (intro conjI)
      show "pt_inv s' r" by (rule inv'(1))
      show "tables s' r = tables s r \<union> {p}" using inv'(2) by simp
      show "\<forall>va. user_va va \<longrightarrow> pte_of (mem s') r va = pte_of (mem s) r va"
        using pf by (simp add: fresh(5))
      show "\<forall>is b. upath is \<longrightarrow> node (mem s) r is = Some b \<longrightarrow> node (mem s') r is = Some b"
        using keep by blast
      show "\<forall>q. page_refs s' q = (if q \<in> {p} then 1 else page_refs s q)" by (simp add: fresh(7))
      show "\<forall>f i. f \<notin> free_pages s \<longrightarrow> f \<notin> tables s r \<longrightarrow> f < 2 ^ 18 \<longrightarrow> i < 512 \<longrightarrow>
          load64 (mem s') (PAGE2VA f + 8 * i) = load64 (mem s) (PAGE2VA f + 8 * i)"
        using other by blast
    qed (use fresh(6,9-12) in auto)
    moreover have "node (mem s') r (is @ [i]) = Some b'" using nf [OF "is"] by (simp add: fresh(3,5))
    moreover have "card (free_pages s) = Suc (card (free_pages s'))"
      using card_Suc_Diff1 [OF fin fresh(2)] by (simp add: fresh(6))
    ultimately show ?thesis by simp
  qed
  then show "grows s s' r" "node (mem s') r (is @ [i]) = Some b'"
    "card (free_pages s) \<le> Suc (card (free_pages s'))" by blast+
qed

section \<open>The walk as three steps\<close>

lemma walk_dir_enter:
  "walk_dir b va 1 s = bindE (enter (b + 8 * idx 21 va) s) (\<lambda>(c, s'). Inr (0, Some (c + 8 * idx 12 va), s'))"
  by (auto simp: walk_dir_def enter_def tbl_def Let_def split: option.splits prod.splits)

definition walk_steps :: "u64 \<Rightarrow> u64 \<Rightarrow> 'a kmm_scheme \<Rightarrow> (int \<times> u64 option \<times> 'a kmm_scheme) outcome" where
  "walk_steps r va s =
     bindE (enter (r + 8 * idx 39 va) s) (\<lambda>(b1, s1).
     bindE (enter (b1 + 8 * idx 30 va) s1) (\<lambda>(b2, s2).
     bindE (enter (b2 + 8 * idx 21 va) s2) (\<lambda>(b3, s3).
     Inr (0, Some (b3 + 8 * idx 12 va), s3))))"

lemma walk_page_steps:
  assumes inv: "pt_inv s r"
  shows "walk_page r va 1 s = walk_steps r va s"
proof (cases "tbl (mem s) (r + 8 * idx 39 va)")
  case (Some b1)
  then have "enter (r + 8 * idx 39 va) s = Inr (b1, s)" by (simp add: enter_def)
  moreover from Some have "load64 (mem s) (r + 8 * idx 39 va) AND 1 \<noteq> 0"
    "b1 = table_of (load64 (mem s) (r + 8 * idx 39 va))"
    by (auto simp: tbl_def Let_def split: if_splits)
  ultimately show ?thesis
    by (auto simp: walk_page_def walk_steps_def Let_def tbl_def
        enter_def [of "table_of (load64 (mem s) (r + 8 * idx 39 va)) + 8 * idx 30 va"] walk_dir_enter split: option.splits prod.splits)
next
  case None
  then have absent: "\<not> load64 (mem s) (r + 8 * idx 39 va) AND 1 \<noteq> 0"
    by (auto simp: tbl_def Let_def split: if_splits)
  obtain fr where fr: "fr < 2 ^ 18" "fr \<notin> free_pages s" "r = PAGE2VA fr"
    using pt_inv_node [OF inv upath_Nil, of r] by auto
  show ?thesis
  proof (cases "alloc_page 1 s")
    case (Pair po s1)
    show ?thesis
    proof (cases po)
      case none: None
      then show ?thesis using None absent Pair
        by (simp add: walk_page_def walk_steps_def enter_def Let_def)
    next
      case (Some p)
      note al = alloc_page_Some [OF pt_inv_mm [OF inv] Pair [unfolded Some]]
      have p: "p < 2 ^ 18" "fr \<noteq> p" using al(1) fr(2) pt_inv_mm [OF inv]
        by (auto simp: free_pages_def mm_inv_def)
      let ?s2 = "s1\<lparr>mem := store64 (mem s1) (r + 8 * idx 39 va) (PAGE2PA p OR PTE_FULL)\<rparr>"
      have "mem ?s2 = fresh_table (mem s) (r + 8 * idx 39 va) p" using al(6) by (simp add: fresh_table_def)
      then have "load64 (mem ?s2) (PAGE2VA p + 8 * idx 30 va) = 0"
        using fr p fresh_table_new [of fr p "idx 39 va" "idx 30 va" "mem s"] by simp
      then have "tbl (mem ?s2) (PAGE2VA p + 8 * idx 30 va) = None" by (simp add: tbl_def)
      then show ?thesis using None absent Pair Some
        by (auto simp: walk_page_def walk_steps_def enter_def [of "r + 8 * idx 39 va"]
            enter_def [of "PAGE2VA p + 8 * idx 30 va"] Let_def walk_dir_enter
            split: option.splits prod.splits)
    qed
  qed
qed

text \<open>A lookup (\<open>create = 0\<close>) changes nothing and finds the address of the leaf entry.\<close>

lemma walk_page_lookup:
  "walk_page r va 0 s =
     (case pte_addr (mem s) r va of
        Some a \<Rightarrow> Inr (0, Some a, s)
      | None \<Rightarrow> Inr (- 1, if node (mem s) r [idx 39 va, idx 30 va] = None then None else Some 0, s))"
  by (auto simp: walk_page_def walk_dir_def pte_addr_def vpath_def tbl_def Let_def split: option.splits)

lemma walk_steps_spec:
  assumes inv: "pt_inv s r" and va: "user_va va" and room: "3 \<le> card (free_pages s)"
  shows "\<exists>a s'. walk_steps r va s = Inr (0, Some a, s') \<and> grows s s' r \<and> pte_addr (mem s') r va = Some a
    \<and> card (free_pages s) \<le> card (free_pages s') + 3"
proof -
  note up1 = upath_prefixes(1) [OF va] and up2 = upath_prefixes(2) [OF va] and up3 = upath_vpath [OF va]
  have ne: "free_pages x \<noteq> {}" if "1 \<le> card (free_pages x)" for x :: "'a kmm_scheme" using that by auto
  obtain b1 s1 where e1: "enter (r + 8 * idx 39 va) s = Inr (b1, s1)"
    using enter_succeeds [OF pt_inv_mm [OF inv] ne] room by (metis One_nat_def Suc_leI le_trans numeral_3_eq_3 zero_less_Suc)
  have g1: "grows s s1 r" "node (mem s1) r [idx 39 va] = Some b1" "2 \<le> card (free_pages s1)"
    using enter_grows [OF inv _ _ e1, of "[]"] up1 room by simp_all
  obtain b2 s2 where e2: "enter (b1 + 8 * idx 30 va) s1 = Inr (b2, s2)"
    using enter_succeeds [OF pt_inv_mm [OF grows_inv [OF g1(1)]] ne] g1(3) by (metis One_nat_def Suc_leD Suc_1)
  have g2: "grows s1 s2 r" "node (mem s2) r [idx 39 va, idx 30 va] = Some b2" "1 \<le> card (free_pages s2)"
    using enter_grows [OF grows_inv [OF g1(1)] _ g1(2) e2] up2 g1(3) by simp_all
  obtain b3 s3 where e3: "enter (b2 + 8 * idx 21 va) s2 = Inr (b3, s3)"
    using enter_succeeds [OF pt_inv_mm [OF grows_inv [OF g2(1)]] ne] g2(3) by metis
  have g3: "grows s2 s3 r" "node (mem s3) r (vpath va) = Some b3"
    using enter_grows [OF grows_inv [OF g2(1)] _ g2(2) e3] up3 by (simp_all add: vpath_def)
  have "grows s s3 r" using grows_trans [OF grows_trans [OF g1(1) g2(1)] g3(1)] .
  moreover have "card (free_pages s) \<le> card (free_pages s3) + 3"
    using enter_grows(3) [OF inv _ _ e1, of "[]"] enter_grows(3) [OF grows_inv [OF g1(1)] _ g1(2) e2]
      enter_grows(3) [OF grows_inv [OF g2(1)] _ g2(2) e3] up1 up2 up3 by (simp add: vpath_def)
  ultimately show ?thesis using e1 e2 e3 g3(2) by (simp add: walk_steps_def pte_addr_def)
qed

section \<open>Page numbers\<close>

definition vpn :: "u64 \<Rightarrow> u64" where
  "vpn va = take_bit 36 (drop_bit 12 va)"

lemma idx_take: "idx sh va = take_bit 9 (drop_bit sh va)"
proof -
  have "(0x1ff :: u64) = mask 9" by (simp add: mask_eq_exp_minus_1)
  then show ?thesis by (simp only: idx_def take_bit_eq_mask)
qed

lemma bit_idx: "bit (idx sh va) n \<longleftrightarrow> n < 9 \<and> bit va (sh + n)"
  by (auto simp: idx_take bit_simps)

lemma bit_vpn: "bit (vpn va) n \<longleftrightarrow> n < 36 \<and> bit va (12 + n)"
  by (auto simp: vpn_def bit_simps)

lemma vpn_eq_iff: "vpn va = vpn va' \<longleftrightarrow> vpath va = vpath va' \<and> idx 12 va = idx 12 va'"
proof
  assume "vpn va = vpn va'"
  then have b: "bit va (12 + n) = bit va' (12 + n)" if "n < 36" for n
    using that by (metis bit_vpn)
  have "idx sh va = idx sh va'" if "12 \<le> sh" "sh \<le> 39" for sh
  proof (rule bit_word_eqI)
    fix n
    show "bit (idx sh va) n = bit (idx sh va') n"
      using b [of "sh - 12 + n"] that by (auto simp: bit_idx)
  qed
  then show "vpath va = vpath va' \<and> idx 12 va = idx 12 va'" by (simp add: vpath_def)
next
  assume "vpath va = vpath va' \<and> idx 12 va = idx 12 va'"
  then have i: "idx 39 va = idx 39 va'" "idx 30 va = idx 30 va'" "idx 21 va = idx 21 va'" "idx 12 va = idx 12 va'"
    by (simp_all add: vpath_def)
  show "vpn va = vpn va'"
  proof (rule bit_word_eqI)
    fix n
    have "bit va (12 + n) = bit va' (12 + n)" if "n < 36"
    proof -
      consider "n < 9" | "9 \<le> n" "n < 18" | "18 \<le> n" "n < 27" | "27 \<le> n" using that by linarith
      then show ?thesis
      proof cases
        case 1
        then show ?thesis using i(4) by (metis bit_idx)
      next
        case 2
        then have "bit va (21 + (n - 9)) = bit va' (21 + (n - 9))"
          using i(3) by (metis bit_idx less_diff_conv2 numeral_plus_numeral add_num_simps)
        then show ?thesis using 2 by simp
      next
        case 3
        then have "n - 18 < 9" by linarith
        then have "bit va (30 + (n - 18)) = bit va' (30 + (n - 18))" using i(2) by (metis bit_idx)
        then show ?thesis using 3 by simp
      next
        case 4
        then have "n - 27 < 9" using that by linarith
        then have "bit va (39 + (n - 27)) = bit va' (39 + (n - 27))" using i(1) by (metis bit_idx)
        then show ?thesis using 4 by simp
      qed
    qed
    then show "bit (vpn va) n = bit (vpn va') n" by (auto simp: bit_vpn)
  qed
qed

section \<open>Writing a leaf entry\<close>

lemma node_leaf_store:
  assumes inv: "pt_inv s r" and va: "user_va va" and a: "pte_addr (mem s) r va = Some a" and js: "upath js"
  shows "node (store64 (mem s) a e) r js = node (mem s) r js"
  using js
proof (induction js rule: rev_induct)
  case Nil
  then show ?case by simp
next
  case (snoc j js)
  obtain b where b: "node (mem s) r (vpath va) = Some b" "a = b + 8 * idx 12 va"
    using a by (auto simp: pte_addr_def)
  note ujs = upath_butlast [OF snoc.prems]
  show ?case
  proof (cases "node (mem s) r js")
    case None
    then show ?thesis using snoc.IH [OF ujs] by (simp add: node_snoc)
  next
    case (Some c)
    have "length js < 3" using upath_length [OF snoc.prems] by simp
    then have "vpath va \<noteq> js" by (auto simp: vpath_def)
    then have "apart a 8 (c + 8 * j) 8"
      unfolding b(2)
      by (intro node_entry_disj [OF inv upath_vpath [OF va] ujs b(1) Some _ upath_last [OF snoc.prems]]) simp_all
    then show ?thesis using snoc.IH [OF ujs] Some by (simp add: node_snoc tbl_def load64_store64_disj)
  qed
qed

lemma pte_leaf_store:
  assumes inv: "pt_inv s r" and va: "user_va va" and a: "pte_addr (mem s) r va = Some a" and va': "user_va va'"
  shows "pte_of (store64 (mem s) a e) r va' = (if vpn va' = vpn va then e else pte_of (mem s) r va')"
proof -
  obtain b where b: "node (mem s) r (vpath va) = Some b" "a = b + 8 * idx 12 va"
    using a by (auto simp: pte_addr_def)
  note n = node_leaf_store [OF inv va a upath_vpath [OF va']]
  show ?thesis
  proof (cases "vpn va' = vpn va")
    case True
    then show ?thesis using b n by (simp add: vpn_eq_iff pte_of_def pte_addr_def)
  next
    case False
    show ?thesis
    proof (cases "node (mem s) r (vpath va')")
      case None
      then show ?thesis using n False by (simp add: pte_of_def pte_addr_def)
    next
      case (Some c)
      from False have "vpath va \<noteq> vpath va' \<or> idx 12 va \<noteq> idx 12 va'" by (auto simp: vpn_eq_iff)
      then have "apart a 8 (c + 8 * idx 12 va') 8"
        unfolding b(2)
        by (intro node_entry_disj [OF inv upath_vpath [OF va] upath_vpath [OF va'] b(1) Some]) simp_all
      then show ?thesis using n Some False by (simp add: pte_of_def pte_addr_def load64_store64_disj)
    qed
  qed
qed

lemma pt_inv_cong:
  assumes inv: "pt_inv s r" and n: "\<And>js. upath js \<Longrightarrow> node (mem s') r js = node (mem s) r js"
    and mm: "mm_inv s'" "length (pages s') = length (pages s)" "tables s r \<inter> free_pages s' = {}"
  shows "pt_inv s' r" and "tables s' r = tables s r"
proof -
  show "pt_inv s' r"
    unfolding pt_inv_def
  proof (intro conjI allI impI)
    fix js c assume js: "upath js" and c: "node (mem s') r js = Some c"
    with n have c': "node (mem s) r js = Some c" by simp
    then obtain f where f: "f < length (pages s)" "c = PAGE2VA f"
      using pt_inv_node [OF inv js] by metis
    with js c' have "f \<in> tables s r" by (auto simp: tables_def)
    with f mm show "\<exists>f<length (pages s'). f \<notin> free_pages s' \<and> c = PAGE2VA f" by auto
  next
    fix js ks c assume "upath js" "upath ks" "node (mem s') r js = Some c" "node (mem s') r ks = Some c"
    then show "js = ks" using n pt_inv_unique [OF inv] by metis
  qed (rule mm(1))
  show "tables s' r = tables s r" using n mm(2) by (auto simp: tables_def)
qed

lemma tables_not_free: "pt_inv s r \<Longrightarrow> tables s r \<inter> free_pages s = {}"
proof -
  assume inv: "pt_inv s r"
  have "f \<notin> free_pages s" if f: "f \<in> tables s r" for f
  proof -
    from f obtain js where js: "upath js" "node (mem s) r js = Some (PAGE2VA f)" "f < length (pages s)"
      by (auto simp: tables_def)
    obtain g where g: "g < 2 ^ 18" "g \<notin> free_pages s" "PAGE2VA f = PAGE2VA g"
      by (rule pt_inv_node [OF inv js(1,2)])
    have "f < 2 ^ 18" using js(3) pt_inv_mm [OF inv] by (auto simp: mm_inv_def)
    with g show ?thesis by (simp add: PAGE2VA_inj)
  qed
  then show ?thesis by blast
qed

lemma leaf_page:
  assumes "pt_inv s r" "user_va va" "pte_addr (mem s) r va = Some a"
  obtains f where "f \<in> tables s r" "f < 2 ^ 18" "a = PAGE2VA f + 8 * idx 12 va"
proof -
  obtain b where b: "node (mem s) r (vpath va) = Some b" "a = b + 8 * idx 12 va"
    using assms(3) by (auto simp: pte_addr_def)
  obtain f where f: "f < 2 ^ 18" "f < length (pages s)" "b = PAGE2VA f"
    by (rule pt_inv_node [OF assms(1) upath_vpath [OF assms(2)] b(1)])
  moreover from f b have "f \<in> tables s r" using upath_vpath [OF assms(2)] by (auto simp: tables_def)
  ultimately show thesis using that b(2) by blast
qed

section \<open>Inserting and removing a mapping\<close>

lemma insert_page_steps:
  assumes inv: "pt_inv s r" and va: "user_va va" and room: "3 \<le> card (free_pages s)"
  obtains a s1 where "grows s s1 r" "pte_addr (mem s1) r va = Some a"
    "card (free_pages s) \<le> card (free_pages s1) + 3"
    "insert_page r va (Some p) fl s = Inr (0, s1\<lparr>mem := store64 (mem s1) a (PAGE2PA p OR fl)\<rparr>)"
  using walk_steps_spec [OF assms] that by (auto simp: insert_page_def walk_page_steps [OF inv])

lemma pt_inv_leaf_store:
  assumes inv: "pt_inv s r" and va: "user_va va" and a: "pte_addr (mem s) r va = Some a"
  shows "pt_inv (s\<lparr>mem := store64 (mem s) a e\<rparr>) r" "tables (s\<lparr>mem := store64 (mem s) a e\<rparr>) r = tables s r"
  using pt_inv_cong [OF inv, of "s\<lparr>mem := store64 (mem s) a e\<rparr>"] node_leaf_store [OF inv va a]
    pt_inv_mm [OF inv] tables_not_free [OF inv] by simp_all

lemma pt_frame:
  assumes inv: "pt_inv s r" and f: "\<And>f i. f \<in> tables s r \<Longrightarrow> i < 512 \<Longrightarrow>
      load64 m' (PAGE2VA f + 8 * i) = load64 (mem s) (PAGE2VA f + 8 * i)"
  shows "upath js \<Longrightarrow> node m' r js = node (mem s) r js"
    and "user_va va \<Longrightarrow> pte_of m' r va = pte_of (mem s) r va"
proof -
  have look: "load64 m' (b + 8 * i) = load64 (mem s) (b + 8 * i)"
    if b: "upath is" "node (mem s) r is = Some b" and i: "i < 512" for "is" b i
  proof -
    obtain f where "f < length (pages s)" "b = PAGE2VA f" by (rule pt_inv_node [OF inv b])
    with b f i show ?thesis by (auto simp: tables_def)
  qed
  show n: "node m' r js = node (mem s) r js" if "upath js" for js
    using that
  proof (induction js rule: rev_induct)
    case (snoc j js)
    note IH = snoc.IH [OF upath_butlast [OF snoc.prems]]
    show ?case
      using IH look [OF upath_butlast [OF snoc.prems] _ upath_last [OF snoc.prems]]
      by (auto simp: node_snoc tbl_def split: option.splits)
  qed simp
  show "pte_of m' r va = pte_of (mem s) r va" if va: "user_va va"
    using n [OF upath_vpath [OF va]] look [OF upath_vpath [OF va], of _ "idx 12 va"]
    by (auto simp: pte_of_def pte_addr_def split: option.splits)
qed

lemma insert_page_present:
  assumes inv: "pt_inv s r" and a: "pte_addr (mem s) r va = Some a"
  shows "insert_page r va (Some p) fl s = Inr (0, s\<lparr>mem := store64 (mem s) a (PAGE2PA p OR fl)\<rparr>)"
proof -
  obtain b1 b2 b3 where "tbl (mem s) (r + 8 * idx 39 va) = Some b1" "tbl (mem s) (b1 + 8 * idx 30 va) = Some b2"
    "tbl (mem s) (b2 + 8 * idx 21 va) = Some b3" "a = b3 + 8 * idx 12 va"
    using a by (auto simp: pte_addr_def vpath_def split: option.splits)
  then show ?thesis
    using walk_page_steps [OF inv, of va] by (simp add: insert_page_def walk_steps_def enter_def)
qed

lemma remove_page_full:
  assumes inv: "pt_inv s r" and va: "user_va va" and a: "pte_addr (mem s) r va = Some a"
    and e: "load64 (mem s) a AND 1 \<noteq> 0" and i: "i = unat (drop_bit 12 (load64 (mem s) a))"
    and refs: "0 < page_refs s i" and nt: "i \<notin> tables s r"
  defines "s' \<equiv> (free_page (Some i) s)\<lparr>mem := store64 (mem s) a 0\<rparr>"
  shows "remove_page r va s = Inr (0, s')" and "pt_inv s' r" and "tables s' r = tables s r"
    and "user_va va' \<Longrightarrow> pte_of (mem s') r va' = (if vpn va' = vpn va then 0 else pte_of (mem s) r va')"
    and "page_refs s' = (page_refs s)(i := page_refs s i - 1)"
    and "free_pages s' = (if page_refs s i = 1 then insert i (free_pages s) else free_pages s)"
    and "pte_addr (mem s') r va = Some a" and "kmm.more s' = kmm.more s"
proof -
  have il: "i < length (pages s)" "0 < count (pages s ! i)"
    using refs by (auto simp: page_refs_def split: if_splits)
  note fp = free_page_Some [OF pt_inv_mm [OF inv] il refl]
  show "remove_page r va s = Inr (0, s')"
    using e il fp(5) by (simp add: remove_page_def walk_page_lookup a Let_def i [symmetric] s'_def)
  have n: "node (mem s') r js = node (mem s) r js" if "upath js" for js
    using node_leaf_store [OF inv va a that, of 0] by (simp add: s'_def)
  show "user_va va' \<Longrightarrow> pte_of (mem s') r va' = (if vpn va' = vpn va then 0 else pte_of (mem s) r va')"
    using pte_leaf_store [OF inv va a, of va' 0] by (simp add: s'_def)
  show "pt_inv s' r" "tables s' r = tables s r"
    using pt_inv_cong [OF inv n] fp nt tables_not_free [OF inv] by (simp_all add: s'_def)
  show "page_refs s' = (page_refs s)(i := page_refs s i - 1)"
    using page_refs_free [OF pt_inv_mm [OF inv] refs] by (simp add: s'_def)
  have "page_refs s i = count (pages s ! i)" using il by (simp add: page_refs_def)
  then show "free_pages s' = (if page_refs s i = 1 then insert i (free_pages s) else free_pages s)"
    using fp(2) by (simp add: s'_def)
  show "pte_addr (mem s') r va = Some a" using n [OF upath_vpath [OF va]] a by (simp add: pte_addr_def)
  show "kmm.more s' = kmm.more s" using fp(8) by (simp add: s'_def)
qed

lemma insert_page_full:
  assumes inv: "pt_inv s r" and va: "user_va va" and room: "3 \<le> card (free_pages s)"
  obtains s' where "insert_page r va (Some p) fl s = Inr (0, s')" "pt_inv s' r"
    "tables s' r = tables s r \<union> (free_pages s - free_pages s')"
    "\<And>va'. user_va va' \<Longrightarrow> pte_of (mem s') r va' = (if vpn va' = vpn va then PAGE2PA p OR fl else pte_of (mem s) r va')"
    "free_pages s' \<subseteq> free_pages s" "card (free_pages s) \<le> card (free_pages s') + 3"
    "\<And>q. page_refs s' q = (if q \<in> free_pages s - free_pages s' then 1 else page_refs s q)"
    "\<And>f i. f \<notin> free_pages s \<Longrightarrow> f \<notin> tables s r \<Longrightarrow> f < 2 ^ 18 \<Longrightarrow> i < 512 \<Longrightarrow>
      load64 (mem s') (PAGE2VA f + 8 * i) = load64 (mem s) (PAGE2VA f + 8 * i)"
    "length (pages s') = length (pages s)" "kmm.more s' = kmm.more s" "kpgdir s' = kpgdir s"
proof -
  obtain a s1 where g: "grows s s1 r" and a: "pte_addr (mem s1) r va = Some a"
    and c: "card (free_pages s) \<le> card (free_pages s1) + 3"
    and ins: "insert_page r va (Some p) fl s = Inr (0, s1\<lparr>mem := store64 (mem s1) a (PAGE2PA p OR fl)\<rparr>)"
    by (rule insert_page_steps [OF inv va room])
  let ?s' = "s1\<lparr>mem := store64 (mem s1) a (PAGE2PA p OR fl)\<rparr>"
  note inv1 = grows_inv [OF g]
  have t1: "tables s1 r = tables s r \<union> (free_pages s - free_pages s1)" using g by (simp add: grows_def)
  obtain f3 where f3: "f3 \<in> tables s1 r" "f3 < 2 ^ 18" "a = PAGE2VA f3 + 8 * idx 12 va"
    by (rule leaf_page [OF inv1 va a])
  show thesis
  proof (rule that [OF ins pt_inv_leaf_store(1) [OF inv1 va a]])
    show "tables ?s' r = tables s r \<union> (free_pages s - free_pages ?s')"
      using pt_inv_leaf_store(2) [OF inv1 va a] t1 by simp
    show "pte_of (mem ?s') r va' = (if vpn va' = vpn va then PAGE2PA p OR fl else pte_of (mem s) r va')"
      if "user_va va'" for va'
      using pte_leaf_store [OF inv1 va a that] grows_pte [OF g that] by simp
    show "load64 (mem ?s') (PAGE2VA f + 8 * i) = load64 (mem s) (PAGE2VA f + 8 * i)"
      if f: "f \<notin> free_pages s" "f \<notin> tables s r" "f < 2 ^ 18" "i < 512" for f i
    proof -
      have "f3 \<noteq> f" using f3(1) t1 f by auto
      then have "apart a 8 (PAGE2VA f + 8 * i) 8" unfolding f3(3) using f3(2) f by (intro entry_disj) auto
      moreover have "load64 (mem s1) (PAGE2VA f + 8 * i) = load64 (mem s) (PAGE2VA f + 8 * i)"
        using g f by (simp add: grows_def)
      ultimately show ?thesis by (simp add: load64_store64_disj)
    qed
  qed (use g c in \<open>simp_all add: grows_def\<close>)
qed

text \<open>Taking a page out of the pool leaves every address space as it is.\<close>

lemma alloc_page_space:
  assumes inv: "pt_inv s r" and al: "alloc_page fl s = (Some p, s1)"
  shows "pt_inv s1 r" and "tables s1 r = tables s r" and "p \<notin> tables s r" and "p < 2 ^ 18"
    and "user_va va \<Longrightarrow> pte_of (mem s1) r va = pte_of (mem s) r va"
    and "f < 2 ^ 18 \<Longrightarrow> f \<noteq> p \<Longrightarrow> i < 512 \<Longrightarrow>
      load64 (mem s1) (PAGE2VA f + 8 * i) = load64 (mem s) (PAGE2VA f + 8 * i)"
proof -
  note a = alloc_page_Some [OF pt_inv_mm [OF inv] al]
  have len: "length (pages s) \<le> 2 ^ 18" using pt_inv_mm [OF inv] by (simp add: mm_inv_def)
  show p: "p < 2 ^ 18" using free_pages_less [OF a(1)] len by simp
  show nt: "p \<notin> tables s r" using tables_not_free [OF inv] a(1) by auto
  have keep: "load64 (mem s1) (PAGE2VA f + 8 * i) = load64 (mem s) (PAGE2VA f + 8 * i)"
    if "f < 2 ^ 18" "f \<noteq> p" "i < 512" for f i
    using that p page_entry_disj [of p f i] by (simp add: a(6) load64_store_bytes_disj)
  have old: "load64 (mem s1) (PAGE2VA f + 8 * i) = load64 (mem s) (PAGE2VA f + 8 * i)"
    if "f \<in> tables s r" "i < 512" for f i
    using that len nt by (intro keep) (auto simp: tables_def)
  note fr = pt_frame [OF inv, of "mem s1", OF old]
  have "tables s r \<inter> free_pages s1 = {}" using tables_not_free [OF inv] a(3) by auto
  then show "pt_inv s1 r" "tables s1 r = tables s r"
    using pt_inv_cong [OF inv fr(1) a(2) a(7)] by simp_all
  show "user_va va \<Longrightarrow> pte_of (mem s1) r va = pte_of (mem s) r va" by (rule fr(2))
  show "f < 2 ^ 18 \<Longrightarrow> f \<noteq> p \<Longrightarrow> i < 512 \<Longrightarrow>
      load64 (mem s1) (PAGE2VA f + 8 * i) = load64 (mem s) (PAGE2VA f + 8 * i)" by (rule keep)
qed

text \<open>From \<open>s\<close> to \<open>s'\<close>, the page of \<open>va\<close> has been mapped to the frame \<open>p\<close>, taken from the pool, with the flags \<open>fl\<close>.\<close>

definition new_page :: "'a kmm_scheme \<Rightarrow> 'a kmm_scheme \<Rightarrow> u64 \<Rightarrow> u64 \<Rightarrow> nat \<Rightarrow> u64 \<Rightarrow> bool" where
  "new_page s s' r va p fl \<longleftrightarrow> pt_inv s' r \<and> p \<in> free_pages s - free_pages s' \<and> p \<notin> tables s' r
     \<and> (\<forall>va'. user_va va' \<longrightarrow>
          pte_of (mem s') r va' = (if vpn va' = vpn va then PAGE2PA p OR fl else pte_of (mem s) r va'))
     \<and> free_pages s' \<subseteq> free_pages s \<and> card (free_pages s) \<le> card (free_pages s') + 4
     \<and> tables s' r \<subseteq> tables s r \<union> (free_pages s - free_pages s')
     \<and> (\<forall>q. page_refs s' q = (if q \<in> free_pages s - free_pages s' then 1 else page_refs s q))
     \<and> (\<forall>f i. f \<notin> free_pages s \<longrightarrow> f \<notin> tables s r \<longrightarrow> f < 2 ^ 18 \<longrightarrow> i < 512 \<longrightarrow>
          load64 (mem s') (PAGE2VA f + 8 * i) = load64 (mem s) (PAGE2VA f + 8 * i))
     \<and> length (pages s') = length (pages s) \<and> kmm.more s' = kmm.more s \<and> kpgdir s' = kpgdir s"

lemma map_new_page:
  assumes inv: "pt_inv s r" and va: "user_va va" and room: "4 \<le> card (free_pages s)"
  obtains p s1 s' where "alloc_page 1 s = (Some p, s1)" "insert_page r va (Some p) fl s1 = Inr (0, s')"
    "new_page s s' r va p fl" "\<And>i. i < 512 \<Longrightarrow> load64 (mem s') (PAGE2VA p + 8 * i) = 0"
proof -
  have "free_pages s \<noteq> {}" using room by auto
  then obtain p s1 where al: "alloc_page 1 s = (Some p, s1)" using mm.alloc_succeeds [OF pt_inv_mm [OF inv]] by blast
  note a = alloc_page_Some [OF pt_inv_mm [OF inv] al] and b = alloc_page_space [OF inv al]
  have c1: "card (free_pages s) = Suc (card (free_pages s1))" using a(1) room unfolding a(3) by (simp add: card_Suc_Diff1 del: card_Diff_insert)
  have room1: "3 \<le> card (free_pages s1)" using c1 room by simp
  obtain s' where s': "insert_page r va (Some p) fl s1 = Inr (0, s')" "pt_inv s' r"
    "tables s' r = tables s1 r \<union> (free_pages s1 - free_pages s')"
    "\<And>va'. user_va va' \<Longrightarrow> pte_of (mem s') r va' = (if vpn va' = vpn va then PAGE2PA p OR fl else pte_of (mem s1) r va')"
    "free_pages s' \<subseteq> free_pages s1" "card (free_pages s1) \<le> card (free_pages s') + 3"
    "\<And>q. page_refs s' q = (if q \<in> free_pages s1 - free_pages s' then 1 else page_refs s1 q)"
    "\<And>f i. f \<notin> free_pages s1 \<Longrightarrow> f \<notin> tables s1 r \<Longrightarrow> f < 2 ^ 18 \<Longrightarrow> i < 512 \<Longrightarrow>
      load64 (mem s') (PAGE2VA f + 8 * i) = load64 (mem s1) (PAGE2VA f + 8 * i)"
    "length (pages s') = length (pages s1)" "kmm.more s' = kmm.more s1" "kpgdir s' = kpgdir s1"
    by (rule insert_page_full [OF b(1) va room1]) (rule that; assumption)
  have zero: "load64 (mem s') (PAGE2VA p + 8 * i) = 0" if i: "i < 512" for i
    using s'(8) [of p i] a(3) b(2,3,4) i load64_zero_page [OF i, of "mem s" p] by (simp add: a(6))
  have "new_page s s' r va p fl"
    unfolding new_page_def
  proof (intro conjI)
    show "\<forall>q. page_refs s' q = (if q \<in> free_pages s - free_pages s' then 1 else page_refs s q)"
      using s'(5,7) a(1,3) page_refs_alloc [OF pt_inv_mm [OF inv] al] by auto
    show "\<forall>f i. f \<notin> free_pages s \<longrightarrow> f \<notin> tables s r \<longrightarrow> f < 2 ^ 18 \<longrightarrow> i < 512 \<longrightarrow>
          load64 (mem s') (PAGE2VA f + 8 * i) = load64 (mem s) (PAGE2VA f + 8 * i)"
    proof (intro allI impI)
      fix f i assume f: "f \<notin> free_pages s" "f \<notin> tables s r" "f < 2 ^ 18" "i < (512 :: u64)"
      then have "f \<notin> free_pages s1" "f \<notin> tables s1 r" "f \<noteq> p" using a(1,3) b(2) by auto
      then show "load64 (mem s') (PAGE2VA f + 8 * i) = load64 (mem s) (PAGE2VA f + 8 * i)"
        using s'(8) b(6) f(3,4) by simp
    qed
    show "p \<in> free_pages s - free_pages s'" "free_pages s' \<subseteq> free_pages s" using a(1,3) s'(5) by auto
    show "p \<notin> tables s' r" "tables s' r \<subseteq> tables s r \<union> (free_pages s - free_pages s')"
      using s'(3) a(1,3) b(2,3) by auto
    show "\<forall>va'. user_va va' \<longrightarrow>
        pte_of (mem s') r va' = (if vpn va' = vpn va then PAGE2PA p OR fl else pte_of (mem s) r va')"
      using s'(4) b(5) by simp
    show "card (free_pages s) \<le> card (free_pages s') + 4" using c1 s'(6) by linarith
    show "pt_inv s' r" by (rule s'(2))
    show "length (pages s') = length (pages s)" "kmm.more s' = kmm.more s" "kpgdir s' = kpgdir s"
      by (simp_all only: s'(9-11) a(7,9,10))
  qed
  then show thesis by (rule that [OF al s'(1) _ zero])
qed

text \<open>C15. Functional refinement of \<open>insert_page\<close>: with three free pages at hand the call
  succeeds, and on the user half of the address space it is the update of one entry: the page's
  entry becomes its physical address with the flags, every other user address keeps its entry,
  whatever intermediate tables had to be created.  The page-table invariant is kept, and every
  page taken from the pool for a table has reference count 1 while all other counts stay.\<close>

theorem insert_page_refines:
  assumes inv: "pt_inv s r" and va: "user_va va" and room: "3 \<le> card (free_pages s)"
  shows "\<exists>s'. insert_page r va (Some p) fl s = Inr (0, s') \<and> pt_inv s' r
    \<and> (\<forall>va'. user_va va' \<longrightarrow>
          pte_of (mem s') r va' = (if vpn va' = vpn va then PAGE2PA p OR fl else pte_of (mem s) r va'))
    \<and> free_pages s' \<subseteq> free_pages s
    \<and> (\<forall>q. page_refs s' q = (if q \<in> free_pages s - free_pages s' then 1 else page_refs s q))"
  by (rule insert_page_full [OF assms]) blast

lemma insert_page_frame:
  assumes inv: "pt_inv s r" and inv2: "pt_inv s r2" and apart: "tables s r \<inter> tables s r2 = {}"
    and va: "user_va va" and room: "3 \<le> card (free_pages s)"
  shows "\<exists>s'. insert_page r va (Some p) fl s = Inr (0, s') \<and> pt_inv s' r2
    \<and> tables s' r \<inter> tables s' r2 = {}
    \<and> (\<forall>va'. user_va va' \<longrightarrow> pte_of (mem s') r2 va' = pte_of (mem s) r2 va')
    \<and> (\<forall>js. upath js \<longrightarrow> node (mem s') r2 js = node (mem s) r2 js)
    \<and> pt_inv s' r \<and> (\<forall>va'. user_va va' \<longrightarrow>
         pte_of (mem s') r va' = (if vpn va' = vpn va then PAGE2PA p OR fl else pte_of (mem s) r va'))
    \<and> free_pages s' \<subseteq> free_pages s \<and> card (free_pages s) \<le> card (free_pages s') + 3
    \<and> (\<forall>q. page_refs s' q = (if q \<in> free_pages s - free_pages s' then 1 else page_refs s q))
    \<and> length (pages s') = length (pages s) \<and> kmm.more s' = kmm.more s \<and> kpgdir s' = kpgdir s"
proof -
  obtain s' where s': "insert_page r va (Some p) fl s = Inr (0, s')" "pt_inv s' r"
    "tables s' r = tables s r \<union> (free_pages s - free_pages s')"
    "\<And>va'. user_va va' \<Longrightarrow> pte_of (mem s') r va' = (if vpn va' = vpn va then PAGE2PA p OR fl else pte_of (mem s) r va')"
    "free_pages s' \<subseteq> free_pages s" "card (free_pages s) \<le> card (free_pages s') + 3"
    "\<And>q. page_refs s' q = (if q \<in> free_pages s - free_pages s' then 1 else page_refs s q)"
    "\<And>f i. f \<notin> free_pages s \<Longrightarrow> f \<notin> tables s r \<Longrightarrow> f < 2 ^ 18 \<Longrightarrow> i < 512 \<Longrightarrow>
      load64 (mem s') (PAGE2VA f + 8 * i) = load64 (mem s) (PAGE2VA f + 8 * i)"
    "length (pages s') = length (pages s)" "kmm.more s' = kmm.more s" "kpgdir s' = kpgdir s"
    by (rule insert_page_full [OF inv va room]) (rule that; assumption)
  have keep: "load64 (mem s') (PAGE2VA f + 8 * i) = load64 (mem s) (PAGE2VA f + 8 * i)"
    if f: "f \<in> tables s r2" "i < 512" for f i
    using f apart tables_not_free [OF inv2] pt_inv_mm [OF inv] by (intro s'(8)) (auto simp: tables_def mm_inv_def)
  note fr = pt_frame [OF inv2, of "mem s'", OF keep]
  have "tables s r2 \<inter> free_pages s' = {}" using tables_not_free [OF inv2] s'(5) by auto
  note inv2' = pt_inv_cong [OF inv2 fr(1) pt_inv_mm [OF s'(2)] s'(9) this]
  have "tables s' r \<inter> tables s' r2 = {}" using s'(3) inv2'(2) apart tables_not_free [OF inv2] by auto
  with s' fr inv2'(1) show ?thesis by (intro exI [of _ s']) blast
qed

text \<open>Isolation: inserting a page into one address space leaves every user entry of
  another address space as it was, provided the two share no table page, and they share none
  afterwards.\<close>

theorem insert_page_isolated:
  assumes inv: "pt_inv s r" and inv2: "pt_inv s r2" and apart: "tables s r \<inter> tables s r2 = {}"
    and va: "user_va va" and room: "3 \<le> card (free_pages s)"
  shows "\<exists>s'. insert_page r va (Some p) fl s = Inr (0, s') \<and> pt_inv s' r2
    \<and> tables s' r \<inter> tables s' r2 = {}
    \<and> (\<forall>va'. user_va va' \<longrightarrow> pte_of (mem s') r2 va' = pte_of (mem s) r2 va')"
  using insert_page_frame [OF assms] by blast

text \<open>C21. \<open>remove_page\<close> on a mapped user page whose frame is an allocated page and not a
  table of this address space: the entry becomes 0, every other user entry stays, the frame loses
  one reference and returns to the pool exactly when it was the last one; the invariant is kept.\<close>

theorem remove_page_refines:
  assumes inv: "pt_inv s r" and va: "user_va va" and a: "pte_addr (mem s) r va = Some a"
    and e: "load64 (mem s) a AND 1 \<noteq> 0" and i: "i = unat (drop_bit 12 (load64 (mem s) a))"
    and refs: "0 < page_refs s i" and nt: "i \<notin> tables s r"
  shows "\<exists>s'. remove_page r va s = Inr (0, s') \<and> pt_inv s' r
    \<and> (\<forall>va'. user_va va' \<longrightarrow> pte_of (mem s') r va' = (if vpn va' = vpn va then 0 else pte_of (mem s) r va'))
    \<and> page_refs s' = (page_refs s)(i := page_refs s i - 1)
    \<and> free_pages s' = (if page_refs s i = 1 then insert i (free_pages s) else free_pages s)"
  by (intro exI conjI allI impI) (rule remove_page_full [OF assms]; assumption?)+

text \<open>Equivalence: the nested branches of \<open>walk_page\<close> with \<open>create = 1\<close> are three equal
  steps, each following a present entry or linking a fresh zeroed page, one per level.\<close>

theorem walk_page_is_three_steps:
  assumes "pt_inv s r"
  shows "walk_page r va 1 s = walk_steps r va s"
  using assms by (rule walk_page_steps)

text \<open>With \<open>create = 0\<close> the walk never changes the state and never faults; it returns 0
  and the address of the leaf entry when all three tables are present, and -1 otherwise.\<close>

theorem walk_page_lookup_pure:
  "\<exists>ret pte. walk_page r va 0 s = Inr (ret, pte, s)
     \<and> (case pte_addr (mem s) r va of Some a \<Rightarrow> ret = 0 \<and> pte = Some a | None \<Rightarrow> ret = - 1)"
  by (simp add: walk_page_lookup split: option.split)

section \<open>Witnesses\<close>

lemma load64_zero: "load64 (\<lambda>a. 0) b = 0"
  by (simp add: load64_def load_bytes_def map_replicate_const)

lemma node_zero: "node (\<lambda>a. 0) r js = (if js = [] then Some r else None)"
  by (cases js) (simp_all add: tbl_def load64_zero)

lemma pt_inv_zero: "mm_inv s \<Longrightarrow> mem s = (\<lambda>a. 0) \<Longrightarrow> f < length (pages s) \<Longrightarrow> f \<notin> free_pages s \<Longrightarrow> pt_inv s (PAGE2VA f)"
  by (auto simp: pt_inv_def node_zero split: if_splits)

lemma mem_small: "mem small_machine = (\<lambda>a. 0)" "length (pages small_machine) = 8"
  by (simp_all add: small_machine_def)

lemma pt_inv_small: "pt_inv small_machine (PAGE2VA 0)" and pt_inv_small7: "pt_inv small_machine (PAGE2VA 7)"
  by (rule pt_inv_zero; simp add: mm_inv_small mem_small free_small)+

lemma user_va_UTEXT: "user_va 0x80000000"
  by (simp add: user_va_def idx_def)

theorem insert_page_refines_witness:
  "\<exists>s'. insert_page (PAGE2VA 0) 0x80000000 (Some 5) 7 small_machine = Inr (0, s')
     \<and> pte_of (mem s') (PAGE2VA 0) 0x80000123 = PAGE2PA 5 OR 7"
proof -
  have "3 \<le> card (free_pages small_machine)" by (simp add: free_small)
  from insert_page_refines [OF pt_inv_small user_va_UTEXT this, of 5 7]
  obtain s' where s': "insert_page (PAGE2VA 0) 0x80000000 (Some 5) 7 small_machine = Inr (0, s')"
    "\<And>va'. user_va va' \<Longrightarrow> pte_of (mem s') (PAGE2VA 0) va'
        = (if vpn va' = vpn 0x80000000 then PAGE2PA 5 OR 7 else pte_of (mem small_machine) (PAGE2VA 0) va')"
    by blast
  moreover have "user_va 0x80000123" "vpn 0x80000123 = vpn 0x80000000"
    by (simp_all add: user_va_def idx_def vpn_def)
  ultimately show ?thesis by auto
qed

theorem walk_page_is_three_steps_witness:
  "walk_page (PAGE2VA 0) 0x80000000 1 small_machine = walk_steps (PAGE2VA 0) 0x80000000 small_machine"
  by (rule walk_page_is_three_steps [OF pt_inv_small])

lemma tables_small: "f < 8 \<Longrightarrow> tables small_machine (PAGE2VA f) = {f}"
  by (auto simp: tables_def mem_small node_zero PAGE2VA_inj upath_def split: if_splits)

theorem insert_page_isolated_witness:
  "\<exists>s'. insert_page (PAGE2VA 0) 0x80000000 (Some 5) 7 small_machine = Inr (0, s')
     \<and> pte_of (mem s') (PAGE2VA 7) 0x80000000 = 0"
proof -
  have "3 \<le> card (free_pages small_machine)" by (simp add: free_small)
  moreover have "tables small_machine (PAGE2VA 0) \<inter> tables small_machine (PAGE2VA 7) = {}"
    by (simp add: tables_small)
  moreover have "pte_of (mem small_machine) (PAGE2VA 7) 0x80000000 = 0"
    by (simp add: pte_of_def pte_addr_def mem_small node_zero vpath_def)
  ultimately show ?thesis
    using insert_page_isolated [OF pt_inv_small pt_inv_small7 _ user_va_UTEXT] user_va_UTEXT by metis
qed

text \<open>Page 7 mapped at \<open>UTEXT\<close>, then unmapped.\<close>

definition mapped_machine :: kmm where
  "mapped_machine = (case insert_page (PAGE2VA 0) 0x80000000 (Some 7) 7 small_machine of
     Inr (_, s') \<Rightarrow> s' | Inl _ \<Rightarrow> small_machine)"

lemma mapped_machine_facts:
  "pt_inv mapped_machine (PAGE2VA 0)" "pte_of (mem mapped_machine) (PAGE2VA 0) 0x80000000 = 0x7007"
  "page_refs mapped_machine 7 = 1" "7 \<notin> tables mapped_machine (PAGE2VA 0)"
proof -
  have room: "3 \<le> card (free_pages small_machine)" by (simp add: free_small)
  obtain a s1 where g: "grows small_machine s1 (PAGE2VA 0)" and a: "pte_addr (mem s1) (PAGE2VA 0) 0x80000000 = Some a"
    and ins: "insert_page (PAGE2VA 0) 0x80000000 (Some 7) 7 small_machine
        = Inr (0, s1\<lparr>mem := store64 (mem s1) a (PAGE2PA 7 OR 7)\<rparr>)"
    by (rule insert_page_steps [OF pt_inv_small user_va_UTEXT room])
  note inv1 = grows_inv [OF g]
  from ins have m: "mapped_machine = s1\<lparr>mem := store64 (mem s1) a (PAGE2PA 7 OR 7)\<rparr>"
    by (simp add: mapped_machine_def)
  note leaf = pt_inv_leaf_store [OF inv1 user_va_UTEXT a]
  show "pt_inv mapped_machine (PAGE2VA 0)" by (simp only: m leaf(1))
  have "(PAGE2PA 7 OR 7 :: u64) = 0x7007" by (simp add: PAGE2PA_def)
  then show "pte_of (mem mapped_machine) (PAGE2VA 0) 0x80000000 = 0x7007"
    using pte_leaf_store [OF inv1 user_va_UTEXT a user_va_UTEXT] by (simp add: m)
  have "tables s1 (PAGE2VA 0) \<subseteq> {0} \<union> free_pages small_machine"
    using g tables_small [of 0] by (auto simp: grows_def)
  then show "7 \<notin> tables mapped_machine (PAGE2VA 0)" using leaf(2) by (auto simp: m free_small)
  have "page_refs s1 7 = page_refs small_machine 7" using g by (simp add: grows_def free_small)
  then show "page_refs mapped_machine 7 = 1" by (simp add: m page_refs_def small_machine_def)
qed

theorem remove_page_refines_witness:
  "\<exists>s'. remove_page (PAGE2VA 0) 0x80000000 mapped_machine = Inr (0, s') \<and> pt_inv s' (PAGE2VA 0)
     \<and> pte_of (mem s') (PAGE2VA 0) 0x80000000 = 0 \<and> 7 \<in> free_pages s'"
proof -
  note f = mapped_machine_facts
  obtain a where a: "pte_addr (mem mapped_machine) (PAGE2VA 0) 0x80000000 = Some a"
    "load64 (mem mapped_machine) a = 0x7007"
    using f(2) by (auto simp: pte_of_def split: option.splits)
  then have "load64 (mem mapped_machine) a AND 1 \<noteq> 0"
    "7 = unat (drop_bit 12 (load64 (mem mapped_machine) a))" by (simp_all add: drop_bit_eq_div)
  from remove_page_refines [OF f(1) user_va_UTEXT a(1) this _ f(4)] f(3) user_va_UTEXT show ?thesis
    by auto
qed

end
