(* ===== verification/Mmu.thy ===== *)
theory Mmu
  imports Paging
begin

text \<open>
  Kernel code that follows a pointer of the current user program goes through the page tables of
  that program.  Memory is indexed by kernel addresses, so an access to a kernel address is an
  access to that byte (the direct map set up by \<^verbatim>\<open>kernel/amd64/head.S\<close>, taken to cover all memory),
  and an access to any other address is translated by the tables below the root in CR3.  The kernel
  leaves CR0.WP clear, so its own writes do not look at the write bit of an entry.
\<close>

section \<open>Translation\<close>

definition mmu :: "mem \<Rightarrow> u64 \<Rightarrow> u64 \<Rightarrow> u64 option" where
  "mmu m root va =
     (if KBASE \<le> va then Some va
      else case pte_addr m root va of
             None \<Rightarrow> None
           | Some a \<Rightarrow> if load64 m a AND 1 \<noteq> 0 then Some (table_of (load64 m a) + (va AND 0xFFF)) else None)"

definition vread :: "u64 \<Rightarrow> mem \<Rightarrow> u64 \<Rightarrow> u8 option" where
  "vread root m va = map_option m (mmu m root va)"

definition vwrite :: "u64 \<Rightarrow> u64 \<Rightarrow> u8 \<Rightarrow> mem \<Rightarrow> mem outcome" where
  "vwrite root va b m = (case mmu m root va of None \<Rightarrow> Inl BadAddress | Some a \<Rightarrow> Inr (m(a := b)))"

text \<open>\<open>memcpy\<close> and \<open>memset\<close> of \<^verbatim>\<open>lib/lib.c\<close> on such addresses, byte by byte.\<close>

fun vmemcpy_loop :: "u64 \<Rightarrow> u64 \<Rightarrow> u64 \<Rightarrow> nat \<Rightarrow> mem \<Rightarrow> mem outcome" where
  "vmemcpy_loop root d s 0 m = Inr m"
| "vmemcpy_loop root d s (Suc n) m =
     (case vread root m s of None \<Rightarrow> Inl BadAddress
      | Some b \<Rightarrow> bindE (vwrite root d b m) (vmemcpy_loop root (d + 1) (s + 1) n))"

definition vmemcpy :: "u64 \<Rightarrow> u64 \<Rightarrow> u64 \<Rightarrow> u32 \<Rightarrow> mem \<Rightarrow> mem outcome" where
  "vmemcpy root d s n m = vmemcpy_loop root d s (unat n) m"

fun vmemset_loop :: "u64 \<Rightarrow> u64 \<Rightarrow> u8 \<Rightarrow> nat \<Rightarrow> mem \<Rightarrow> mem outcome" where
  "vmemset_loop root s c 0 m = Inr m"
| "vmemset_loop root s c (Suc n) m = bindE (vwrite root s c m) (vmemset_loop root (s + 1) c n)"

definition vmemset :: "u64 \<Rightarrow> u64 \<Rightarrow> u32 \<Rightarrow> u32 \<Rightarrow> mem \<Rightarrow> mem outcome" where
  "vmemset root s c n m = vmemset_loop root s (ucast c) (unat n) m"

section \<open>Kernel addresses\<close>

text \<open>\<open>n\<close> bytes from \<open>a\<close> on lie above the kernel base and do not wrap.\<close>

definition kernel_range :: "u64 \<Rightarrow> nat \<Rightarrow> bool" where
  "kernel_range a n \<longleftrightarrow> KBASE \<le> a \<and> unat a + n < 2 ^ 64"

lemma kernel_range_step: "kernel_range a (Suc n) \<Longrightarrow> KBASE \<le> a \<and> kernel_range (a + 1) n"
proof -
  assume k: "kernel_range a (Suc n)"
  then have "unat (a + 1) = unat a + 1" by (simp add: kernel_range_def unat_word_ariths)
  with k show ?thesis by (auto simp: kernel_range_def word_le_nat_alt)
qed

lemma vread_mmu: "mmu m root va = Some a \<Longrightarrow> vread root m va = Some (m a)"
  by (simp add: vread_def)

lemma vwrite_mmu: "mmu m root va = Some a \<Longrightarrow> vwrite root va b m = Inr (m(a := b))"
  by (simp add: vwrite_def)

lemma mmu_kernel: "KBASE \<le> va \<Longrightarrow> mmu m root va = Some va"
  by (simp add: mmu_def)

lemma vmemcpy_step:
  "mmu m root s = Some a \<Longrightarrow> mmu m root d = Some b \<Longrightarrow>
   vmemcpy_loop root d s (Suc n) m = vmemcpy_loop root (d + 1) (s + 1) n (m(b := m a))"
  by (simp only: vmemcpy_loop.simps vread_mmu vwrite_mmu option.case bindE_Inr)

lemma vmemset_step:
  "mmu m root s = Some a \<Longrightarrow> vmemset_loop root s c (Suc n) m = vmemset_loop root (s + 1) c n (m(a := c))"
  by (simp only: vmemset_loop.simps vwrite_mmu bindE_Inr)

lemma vmemcpy_loop_kernel:
  "kernel_range d n \<Longrightarrow> kernel_range s n \<Longrightarrow> vmemcpy_loop root d s n m = Inr (memcpy_loop m d s n)"
proof (induction n arbitrary: d s m)
  case (Suc n)
  from kernel_range_step [OF Suc.prems(1)] kernel_range_step [OF Suc.prems(2)] show ?case
    by (simp only: vmemcpy_step [OF mmu_kernel mmu_kernel] Suc.IH memcpy_loop.simps)
qed simp

lemma vmemcpy_kernel:
  "kernel_range d (unat n) \<Longrightarrow> kernel_range s (unat n) \<Longrightarrow> vmemcpy root d s n m = Inr (memcpy m d s n)"
  by (simp add: vmemcpy_def memcpy_def vmemcpy_loop_kernel)

lemma vmemset_loop_kernel:
  "kernel_range s n \<Longrightarrow> vmemset_loop root s c n m = Inr (memset_loop m s c n)"
proof (induction n arbitrary: s m)
  case (Suc n)
  from kernel_range_step [OF Suc.prems] show ?case
    by (simp only: vmemset_step [OF mmu_kernel] Suc.IH memset_loop.simps)
qed simp

section \<open>User addresses\<close>

text \<open>
  While destination and source translate to the ranges at \<open>da\<close> and \<open>sa\<close>, whatever has been copied
  so far, a copy between virtual addresses is a \<open>memcpy\<close> between those ranges.  \<open>P\<close> is what keeps
  the translation: the page-table entries are not among the bytes written.
\<close>

lemma vmemcpy_loop_translated:
  assumes dst: "\<And>m i. P m \<Longrightarrow> i < n \<Longrightarrow> mmu m root (d + of_nat i) = Some (da + of_nat i)"
    and src: "\<And>m i. P m \<Longrightarrow> i < n \<Longrightarrow> mmu m root (s + of_nat i) = Some (sa + of_nat i)"
    and keep: "\<And>m i b. P m \<Longrightarrow> i < n \<Longrightarrow> P (m(da + of_nat i := b))"
  shows "k \<le> n \<Longrightarrow> P m \<Longrightarrow>
    vmemcpy_loop root (d + of_nat (n - k)) (s + of_nat (n - k)) k m
      = Inr (memcpy_loop m (da + of_nat (n - k)) (sa + of_nat (n - k)) k)"
proof (induction k arbitrary: m)
  case (Suc k)
  have i: "n - Suc k < n" using Suc.prems(1) by simp
  have e: "(of_nat (n - k) :: u64) = of_nat (n - Suc k) + 1"
    using Suc.prems(1) by (metis Suc_diff_Suc Suc_le_lessD of_nat_Suc add.commute)
  have "k \<le> n" using Suc.prems(1) by simp
  from Suc.IH [OF this keep [OF Suc.prems(2) i]]
  show ?case
    by (simp only: vmemcpy_step [OF src [OF Suc.prems(2) i] dst [OF Suc.prems(2) i]] memcpy_loop.simps e add.assoc)
qed simp

lemma vmemcpy_translated:
  assumes "\<And>m i. P m \<Longrightarrow> i < unat n \<Longrightarrow> mmu m root (d + of_nat i) = Some (da + of_nat i)"
    and "\<And>m i. P m \<Longrightarrow> i < unat n \<Longrightarrow> mmu m root (s + of_nat i) = Some (sa + of_nat i)"
    and "\<And>m i b. P m \<Longrightarrow> i < unat n \<Longrightarrow> P (m(da + of_nat i := b))" and "P m"
  shows "vmemcpy root d s n m = Inr (memcpy m da sa n)"
  using vmemcpy_loop_translated [where P = P, OF assms(1-3) order_refl assms(4)] by (simp add: vmemcpy_def memcpy_def)

lemma mmu_user:
  "pte_of m root va = e \<Longrightarrow> e AND 1 \<noteq> 0 \<Longrightarrow> va < KBASE \<Longrightarrow> mmu m root va = Some (table_of e + (va AND 0xFFF))"
  by (auto simp: mmu_def pte_of_def split: option.splits)

end
