(* ===== verification/Ide.thy ===== *)
theory Ide
  imports CLib
begin

text \<open>
  The disk driver, \<^verbatim>\<open>kernel/ide.c\<close>: polling the status register and moving sectors through the
  data port, with the drive as a parameter of the model.  \<open>ata\<close> states the documented behaviour
  of the drive the driver relies on; under it \<open>readblk\<close> and \<open>writeblk\<close> end and move exactly the
  sectors asked for.
\<close>

section \<open>The driver\<close>

partial_function (option) wait :: "'d ports \<Rightarrow> 'd \<Rightarrow> 'd option" where
  "wait io d =
     (case inb io 0x1F7 d of (st, d') \<Rightarrow> if st AND 0x80 \<noteq> 0 then wait io d' else Some d')"

text \<open>Waiting as a step of the driver: a wait that never ends is a hang.\<close>

definition waitE :: "'d ports \<Rightarrow> 'd \<Rightarrow> 'd outcome" where
  "waitE io d = (case wait io d of None \<Rightarrow> Inl Hang | Some d' \<Rightarrow> Inr d')"

text \<open>The four \<open>inb(0x1f0)\<close> behind a sector.\<close>

definition delay :: "'d ports \<Rightarrow> 'd \<Rightarrow> 'd" where
  "delay io d = snd (inb io 0x1F0 (snd (inb io 0x1F0 (snd (inb io 0x1F0 (snd (inb io 0x1F0 d)))))))"

fun readblk_loop :: "'d ports \<Rightarrow> nat \<Rightarrow> u64 \<Rightarrow> mem \<Rightarrow> 'd \<Rightarrow> (mem \<times> 'd) outcome" where
  "readblk_loop io 0 dest m d = Inr (m, d)"
| "readblk_loop io (Suc n) dest m d =
     bindE (waitE io d) (\<lambda>d1.
       case insw io 0x1F0 256 d1 of (ws, d2) \<Rightarrow>
       bindE (waitE io (delay io d2)) (\<lambda>d3.
         readblk_loop io n (dest + 512) (store_bytes m dest (concat (map (bytes_of_word 2) ws))) d3))"

definition readblk :: "'d ports \<Rightarrow> u64 \<Rightarrow> u32 \<Rightarrow> u32 \<Rightarrow> mem \<Rightarrow> 'd \<Rightarrow> (mem \<times> 'd) outcome" where
  "readblk io dest lba count m d =
     (let d1 = outb io 0x1F1 0x00 d;
          d2 = outb io 0x1F2 (ucast count) d1;
          d3 = outb io 0x1F3 (ucast lba) d2;
          d4 = outb io 0x1F4 (ucast (drop_bit 8 lba)) d3;
          d5 = outb io 0x1F5 (ucast (drop_bit 16 lba)) d4;
          d6 = outb io 0x1F6 (ucast (0xF0 OR (drop_bit 24 lba AND 0x0F))) d5;
          d7 = outb io 0x1F7 0x20 d6
      in readblk_loop io (unat count) dest m d7)"

text \<open>The 256 words at an address.\<close>

definition words_at :: "mem \<Rightarrow> u64 \<Rightarrow> u16 list" where
  "words_at m a = map (\<lambda>i. load16 m (a + of_nat (2 * i))) [0..<256]"

fun writeblk_loop :: "'d ports \<Rightarrow> nat \<Rightarrow> u64 \<Rightarrow> mem \<Rightarrow> 'd \<Rightarrow> 'd outcome" where
  "writeblk_loop io 0 b m d = Inr d"
| "writeblk_loop io (Suc n) b m d =
     bindE (waitE io d) (\<lambda>d1.
       let d2 = outsw io 0x1F0 (words_at m b) d1
       in bindE (waitE io (delay io d2)) (\<lambda>d3. writeblk_loop io n (b + 512) m d3))"

definition writeblk :: "'d ports \<Rightarrow> u64 \<Rightarrow> u32 \<Rightarrow> u32 \<Rightarrow> mem \<Rightarrow> 'd \<Rightarrow> 'd outcome" where
  "writeblk io b lba count m d =
     (let d1 = outb io 0x1F6 (ucast (0xF0 OR (drop_bit 24 lba AND 0x0F))) d;
          d2 = outb io 0x1F1 0x00 d1;
          d3 = outb io 0x1F2 (ucast count) d2;
          d4 = outb io 0x1F3 (ucast lba) d3;
          d5 = outb io 0x1F4 (ucast (drop_bit 8 lba)) d4;
          d6 = outb io 0x1F5 (ucast (drop_bit 16 lba)) d5;
          d7 = outb io 0x1F7 0x30 d6
      in writeblk_loop io (unat count) b m d7)"

section \<open>The drive\<close>

text \<open>
  What can be observed of a drive: the task-file registers last written, how many more status
  reads will find it busy, the transfer in progress (a write or a read, the next sector and the
  number of sectors left), whether a sector has just been moved, and the sectors themselves.
\<close>

record 'd drive =
  regs :: "'d \<Rightarrow> u16 \<Rightarrow> u8"
  busy :: "'d \<Rightarrow> nat"
  xfer :: "'d \<Rightarrow> (bool \<times> nat \<times> nat) option"
  settled :: "'d \<Rightarrow> bool"
  sectors :: "'d \<Rightarrow> nat \<Rightarrow> u8 list"

definition reg_lba :: "(u16 \<Rightarrow> u8) \<Rightarrow> nat" where
  "reg_lba r = unat (r 0x1F3) + 2 ^ 8 * unat (r 0x1F4) + 2 ^ 16 * unat (r 0x1F5) + 2 ^ 24 * unat (r 0x1F6 AND 0x0F)"

text \<open>
  The documented behaviour of a drive in LBA mode.  A write to one of the task-file registers
  keeps its value; a command to the command register starts a transfer of the count in 0x1F2 at
  the sector number in 0x1F3 to 0x1F6; a status read reports busy finitely often; 256 words
  through the data port, when the drive is not busy, move one sector; and reading the data port
  when a sector has just been moved changes nothing.
\<close>

definition ata :: "'d ports \<Rightarrow> 'd drive \<Rightarrow> bool" where
  "ata io a \<longleftrightarrow>
     (\<forall>d l. length (sectors a d l) = 512)
   \<and> (\<forall>d p v. p \<in> {0x1F1, 0x1F2, 0x1F3, 0x1F4, 0x1F5, 0x1F6} \<longrightarrow>
        regs a (outb io p v d) = (regs a d)(p := v) \<and> sectors a (outb io p v d) = sectors a d)
   \<and> (\<forall>d c. c \<in> {0x20, 0x30} \<longrightarrow>
        sectors a (outb io 0x1F7 c d) = sectors a d
        \<and> xfer a (outb io 0x1F7 c d) = Some (c = 0x30, reg_lba (regs a d), unat (regs a d 0x1F2)))
   \<and> (\<forall>d st d'. inb io 0x1F7 d = (st, d') \<longrightarrow>
        sectors a d' = sectors a d \<and> xfer a d' = xfer a d
        \<and> (if busy a d = 0 then st AND 0x80 = 0 \<and> busy a d' = 0 else st AND 0x80 \<noteq> 0 \<and> busy a d' < busy a d))
   \<and> (\<forall>d ws d' l n. busy a d = 0 \<longrightarrow> xfer a d = Some (False, l, Suc n) \<longrightarrow> insw io 0x1F0 256 d = (ws, d') \<longrightarrow>
        concat (map (bytes_of_word 2) ws) = sectors a d l \<and> sectors a d' = sectors a d
        \<and> xfer a d' = Some (False, Suc l, n) \<and> settled a d')
   \<and> (\<forall>d ws l n. busy a d = 0 \<longrightarrow> xfer a d = Some (True, l, Suc n) \<longrightarrow> length ws = 256 \<longrightarrow>
        sectors a (outsw io 0x1F0 ws d) = (sectors a d)(l := concat (map (bytes_of_word 2) ws))
        \<and> xfer a (outsw io 0x1F0 ws d) = Some (True, Suc l, n) \<and> settled a (outsw io 0x1F0 ws d))
   \<and> (\<forall>d. settled a d \<longrightarrow> settled a (snd (inb io 0x1F0 d))
        \<and> xfer a (snd (inb io 0x1F0 d)) = xfer a d \<and> sectors a (snd (inb io 0x1F0 d)) = sectors a d)"

lemma ata_length: "ata io a \<Longrightarrow> length (sectors a d l) = 512"
  by (simp add: ata_def)

lemma ata_reg:
  "ata io a \<Longrightarrow> p \<in> {0x1F1, 0x1F2, 0x1F3, 0x1F4, 0x1F5, 0x1F6} \<Longrightarrow>
   regs a (outb io p v d) = (regs a d)(p := v) \<and> sectors a (outb io p v d) = sectors a d"
  unfolding ata_def by blast

lemma ata_command:
  "ata io a \<Longrightarrow> c \<in> {0x20, 0x30} \<Longrightarrow> sectors a (outb io 0x1F7 c d) = sectors a d
   \<and> xfer a (outb io 0x1F7 c d) = Some (c = 0x30, reg_lba (regs a d), unat (regs a d 0x1F2))"
  unfolding ata_def by blast

lemma ata_status:
  "ata io a \<Longrightarrow> inb io 0x1F7 d = (st, d') \<Longrightarrow> sectors a d' = sectors a d \<and> xfer a d' = xfer a d
   \<and> (if busy a d = 0 then st AND 0x80 = 0 \<and> busy a d' = 0 else st AND 0x80 \<noteq> 0 \<and> busy a d' < busy a d)"
  unfolding ata_def by blast

lemma ata_in:
  "ata io a \<Longrightarrow> busy a d = 0 \<Longrightarrow> xfer a d = Some (False, l, Suc n) \<Longrightarrow> insw io 0x1F0 256 d = (ws, d') \<Longrightarrow>
   concat (map (bytes_of_word 2) ws) = sectors a d l \<and> sectors a d' = sectors a d
   \<and> xfer a d' = Some (False, Suc l, n) \<and> settled a d'"
  unfolding ata_def by blast

lemma ata_out:
  "ata io a \<Longrightarrow> busy a d = 0 \<Longrightarrow> xfer a d = Some (True, l, Suc n) \<Longrightarrow> length ws = 256 \<Longrightarrow>
   sectors a (outsw io 0x1F0 ws d) = (sectors a d)(l := concat (map (bytes_of_word 2) ws))
   \<and> xfer a (outsw io 0x1F0 ws d) = Some (True, Suc l, n) \<and> settled a (outsw io 0x1F0 ws d)"
  unfolding ata_def by blast

lemma ata_data:
  "ata io a \<Longrightarrow> settled a d \<Longrightarrow> settled a (snd (inb io 0x1F0 d))
   \<and> xfer a (snd (inb io 0x1F0 d)) = xfer a d \<and> sectors a (snd (inb io 0x1F0 d)) = sectors a d"
  unfolding ata_def by blast

section \<open>The driver on such a drive\<close>

lemma wait_ends:
  assumes "ata io a"
  shows "\<exists>d'. waitE io d = Inr d' \<and> busy a d' = 0 \<and> xfer a d' = xfer a d \<and> sectors a d' = sectors a d"
proof (induction "busy a d" arbitrary: d rule: less_induct)
  case less
  obtain st d1 where d1: "inb io 0x1F7 d = (st, d1)" by fastforce
  note s = ata_status [OF assms d1]
  show ?case
  proof (cases "busy a d = 0")
    case True
    with s d1 show ?thesis by (simp add: waitE_def wait.simps [of io d])
  next
    case False
    with s less [of d1] obtain d' where "waitE io d1 = Inr d'" "busy a d' = 0" "xfer a d' = xfer a d"
      "sectors a d' = sectors a d" by auto
    with s d1 False show ?thesis by (simp add: waitE_def wait.simps [of io d])
  qed
qed

lemma delay_settled:
  assumes "ata io a" "settled a d"
  shows "xfer a (delay io d) = xfer a d" "sectors a (delay io d) = sectors a d"
  using ata_data [OF assms(1)] assms(2) by (simp_all add: delay_def)

lemma unat_sub_wrap: "y < c \<Longrightarrow> unat (y - c :: u64) = 2 ^ 64 + unat y - unat c"
  by (simp add: unat_sub_if' word_less_nat_alt)

lemma store_bytes_append:
  assumes "length xs + length ys < 2 ^ 64"
  shows "store_bytes (store_bytes m a xs) (a + of_nat (length xs)) ys = store_bytes m a (xs @ ys)"
proof
  fix x
  let ?i = "unat (x - a)"
  let ?l = "length xs"
  have l: "unat (of_nat ?l :: u64) = ?l" using assms by (simp add: unat_of_nat_small)
  have e: "x - (a + of_nat ?l) = (x - a) - of_nat ?l" by simp
  show "store_bytes (store_bytes m a xs) (a + of_nat ?l) ys x = store_bytes m a (xs @ ys) x"
  proof (cases "?l \<le> ?i")
    case True
    then have "unat (x - (a + of_nat ?l)) = ?i - ?l"
      unfolding e by (subst unat_sub) (simp_all add: l word_le_nat_alt)
    with True show ?thesis by (auto simp: store_bytes_def nth_append)
  next
    case False
    then have "x - a < of_nat ?l" by (simp add: word_less_nat_alt l)
    then have "unat (x - (a + of_nat ?l)) = 2 ^ 64 + ?i - ?l"
      unfolding e by (simp only: unat_sub_wrap l)
    with False assms show ?thesis by (auto simp: store_bytes_def nth_append)
  qed
qed

lemma readblk_loop_reads:
  assumes ata: "ata io a"
  shows "xfer a d = Some (False, l, n) \<Longrightarrow> 512 * n < 2 ^ 64 \<Longrightarrow>
    \<exists>d'. readblk_loop io n dest m d = Inr (store_bytes m dest (concat (map (sectors a d) [l..<l + n])), d')
      \<and> sectors a d' = sectors a d"
proof (induction n arbitrary: dest m d l)
  case 0
  then show ?case by (simp add: store_bytes_cong)
next
  case (Suc n)
  obtain d1 where d1: "waitE io d = Inr d1" "busy a d1 = 0" "xfer a d1 = xfer a d" "sectors a d1 = sectors a d"
    using wait_ends [OF ata] by blast
  obtain ws d2 where d2: "insw io 0x1F0 256 d1 = (ws, d2)" by fastforce
  from ata_in [OF ata d1(2) _ d2] d1(3,4) Suc.prems(1) have i:
    "concat (map (bytes_of_word 2) ws) = sectors a d l" "sectors a d2 = sectors a d"
    "xfer a d2 = Some (False, Suc l, n)" "settled a d2" by simp_all
  obtain d3 where d3: "waitE io (delay io d2) = Inr d3" "xfer a d3 = Some (False, Suc l, n)" "sectors a d3 = sectors a d"
    using wait_ends [OF ata, of "delay io d2"] delay_settled [OF ata i(4)] i by auto
  obtain d' where d': "readblk_loop io n (dest + 512) (store_bytes m dest (sectors a d l)) d3
      = Inr (store_bytes (store_bytes m dest (sectors a d l)) (dest + 512)
          (concat (map (sectors a d) [Suc l..<Suc l + n])), d')" "sectors a d' = sectors a d"
    using Suc.IH [OF d3(2)] Suc.prems(2) d3(3) by auto
  have len: "length (concat (map (sectors a d) xs)) = 512 * length xs" for xs
    by (induction xs) (simp_all add: ata_length [OF ata])
  have "store_bytes (store_bytes m dest (sectors a d l)) (dest + of_nat (length (sectors a d l)))
      (concat (map (sectors a d) [Suc l..<Suc l + n]))
      = store_bytes m dest (sectors a d l @ concat (map (sectors a d) [Suc l..<Suc l + n]))"
    using Suc.prems(2) by (intro store_bytes_append) (simp add: ata_length [OF ata] len)
  then have "store_bytes (store_bytes m dest (sectors a d l)) (dest + 512)
      (concat (map (sectors a d) [Suc l..<Suc l + n]))
      = store_bytes m dest (concat (map (sectors a d) [l..<l + Suc n]))"
    by (simp add: ata_length [OF ata] upt_conv_Cons del: upt_Suc)
  with d1 d2 d3 i d' show ?case by simp
qed

lemma unat_byte_of: "unat (ucast (drop_bit k (x :: u32)) :: u8) = unat x div 2 ^ k mod 256"
  by (simp only: unsigned_ucast_eq unat_drop_bit_eq) (simp add: drop_bit_eq_div take_bit_eq_mod)

lemma select_bits: "(ucast (0xF0 OR (y AND 0x0F) :: u32) AND 0x0F :: u8) = ucast y AND 0x0F"
proof -
  have m: "(0x0F :: u8) = mask 4" "(0x0F :: u32) = mask 4" "(0xF0 :: u32) = push_bit 4 (mask 4)"
    by (simp_all add: mask_eq_exp_minus_1)
  show ?thesis
    unfolding m by (rule bit_word_eqI) (auto simp: bit_simps)
qed

lemma readblk_regs:
  assumes "lba < 2 ^ 28"
  shows "unat (ucast (lba :: u32) :: u8) + 2 ^ 8 * unat (ucast (drop_bit 8 lba) :: u8)
    + 2 ^ 16 * unat (ucast (drop_bit 16 lba) :: u8)
    + 2 ^ 24 * unat (ucast (0xF0 OR (drop_bit 24 lba AND 0x0F)) AND 0x0F :: u8) = unat lba"
proof -
  let ?n = "unat lba"
  have n: "?n < 2 ^ 28" using assms by (simp add: word_less_nat_alt)
  have "(ucast (drop_bit 24 lba) AND 0x0F :: u8) = take_bit 4 (ucast (drop_bit 24 lba))"
    by (simp add: take_bit_eq_mask mask_eq_exp_minus_1)
  then have "unat (ucast (drop_bit 24 lba) AND 0x0F :: u8) = ?n div 2 ^ 24 mod 256 mod 2 ^ 4"
    by (simp only: unsigned_take_bit_eq unat_byte_of) (simp only: take_bit_eq_mod)
  then have top: "unat (ucast (drop_bit 24 lba) AND 0x0F :: u8) = ?n div 2 ^ 24"
    using n by simp
  have "?n mod 65536 = 256 * (?n div 256 mod 256) + ?n mod 256"
    "?n mod 16777216 = 65536 * (?n div 65536 mod 256) + ?n mod 65536"
    using mod_mult2_eq [of ?n 256 256] mod_mult2_eq [of ?n 65536 256] by simp_all
  then have "?n = ?n mod 2 ^ 8 + 2 ^ 8 * (?n div 2 ^ 8 mod 256) + 2 ^ 16 * (?n div 2 ^ 16 mod 256) + 2 ^ 24 * (?n div 2 ^ 24)"
    using mult_div_mod_eq [of 16777216 ?n] by simp
  then show ?thesis
    unfolding select_bits top unat_byte_of using unat_byte_of [of 0 lba] by simp
qed


lemma reg_values:
  assumes "ata io a"
  shows "regs a (outb io 0x1F1 v d) = (regs a d)(0x1F1 := v)" "regs a (outb io 0x1F2 v d) = (regs a d)(0x1F2 := v)"
    "regs a (outb io 0x1F3 v d) = (regs a d)(0x1F3 := v)" "regs a (outb io 0x1F4 v d) = (regs a d)(0x1F4 := v)"
    "regs a (outb io 0x1F5 v d) = (regs a d)(0x1F5 := v)" "regs a (outb io 0x1F6 v d) = (regs a d)(0x1F6 := v)"
    "sectors a (outb io 0x1F1 v d) = sectors a d" "sectors a (outb io 0x1F2 v d) = sectors a d"
    "sectors a (outb io 0x1F3 v d) = sectors a d" "sectors a (outb io 0x1F4 v d) = sectors a d"
    "sectors a (outb io 0x1F5 v d) = sectors a d" "sectors a (outb io 0x1F6 v d) = sectors a d"
  using ata_reg [OF assms] by simp_all

lemma unat_count: "0 < count \<Longrightarrow> count < 256 \<Longrightarrow> unat (ucast (count :: u32) :: u8) = unat count"
  by (simp add: unsigned_ucast_eq word_less_nat_alt take_bit_nat_eq_self)

lemma readblk_sectors:
  assumes ata: "ata io a" and lba: "lba < 2 ^ 28" and count: "0 < count" "count < 256"
  shows "\<exists>d'. readblk io dest lba count m d
      = Inr (store_bytes m dest (concat (map (sectors a d) [unat lba..<unat lba + unat count])), d')
    \<and> sectors a d' = sectors a d"
proof -
  define d6 where "d6 = outb io 0x1F6 (ucast (0xF0 OR (drop_bit 24 lba AND 0x0F)))
    (outb io 0x1F5 (ucast (drop_bit 16 lba)) (outb io 0x1F4 (ucast (drop_bit 8 lba))
      (outb io 0x1F3 (ucast lba) (outb io 0x1F2 (ucast count) (outb io 0x1F1 0x00 d)))))"
  have s6: "sectors a d6 = sectors a d" by (simp add: d6_def reg_values [OF ata])
  have r6: "reg_lba (regs a d6) = unat lba"
    unfolding reg_lba_def d6_def reg_values [OF ata] using readblk_regs [OF lba] by simp
  have c6: "unat (regs a d6 0x1F2) = unat count"
    unfolding d6_def reg_values [OF ata] using unat_count [OF count] by simp
  have x: "xfer a (outb io 0x1F7 0x20 d6) = Some (False, unat lba, unat count)"
    "sectors a (outb io 0x1F7 0x20 d6) = sectors a d" using ata_command [OF ata] by (simp_all add: s6 r6 c6)
  have "unat count < 2 ^ 32" using unsigned_less [of count] by simp
  then have "512 * unat count < 2 ^ 64" by simp
  from readblk_loop_reads [OF ata x(1) this] show ?thesis
    by (simp add: readblk_def Let_def d6_def [symmetric] x(2))
qed

lemma bytes_of_load16: "bytes_of_word 2 (load16 m a) = load_bytes m a 2"
proof -
  have l: "load16 m a = ucast (m a) OR push_bit 8 (ucast (m (a + 1)))"
    by (simp add: load16_def load_bytes_def upt_rec)
  have "(ucast (load16 m a) :: u8) = m a"
    unfolding l by (rule bit_word_eqI) (auto simp: bit_simps)
  moreover have "(ucast (drop_bit 8 (load16 m a)) :: u8) = m (a + 1)"
    unfolding l by (rule bit_word_eqI) (auto simp: bit_simps dest: bit_imp_le_length)
  ultimately show ?thesis by (simp add: numeral_2_eq_2 load_bytes_def)
qed

lemma load_bytes_append: "load_bytes m a (i + j) = load_bytes m a i @ load_bytes m (a + of_nat i) j"
  by (rule nth_equalityI) (auto simp: load_bytes_def nth_append algebra_simps)

lemma concat_words: "concat (map (bytes_of_word 2) (map (\<lambda>i. load16 m (a + of_nat (2 * i))) [0..<n])) = load_bytes m a (2 * n)"
proof (induction n)
  case 0
  then show ?case by (simp add: load_bytes_def)
next
  case (Suc n)
  have "load_bytes m a (2 * Suc n) = load_bytes m a (2 * n) @ load_bytes m (a + of_nat (2 * n)) 2"
    using load_bytes_append [of m a "2 * n" 2] by simp
  with Suc show ?case by (simp add: bytes_of_load16)
qed

lemma words_at_bytes: "concat (map (bytes_of_word 2) (words_at m a)) = load_bytes m a 512"
  using concat_words [of m a 256] by (simp add: words_at_def)

lemma writeblk_loop_writes:
  assumes ata: "ata io a"
  shows "xfer a d = Some (True, l, n) \<Longrightarrow>
    \<exists>d'. writeblk_loop io n b m d = Inr d' \<and> (\<forall>k. sectors a d' k =
      (if l \<le> k \<and> k < l + n then load_bytes m (b + 512 * of_nat (k - l)) 512 else sectors a d k))"
proof (induction n arbitrary: b d l)
  case 0
  then show ?case by auto
next
  case (Suc n)
  obtain d1 where d1: "waitE io d = Inr d1" "busy a d1 = 0" "xfer a d1 = xfer a d" "sectors a d1 = sectors a d"
    using wait_ends [OF ata] by blast
  define d2 where "d2 = outsw io 0x1F0 (words_at m b) d1"
  have "length (words_at m b) = 256" by (simp add: words_at_def)
  from ata_out [OF ata d1(2) _ this] d1(3,4) Suc.prems have o:
    "sectors a d2 = (sectors a d)(l := load_bytes m b 512)" "xfer a d2 = Some (True, Suc l, n)" "settled a d2"
    by (simp_all add: d2_def words_at_bytes)
  obtain d3 where d3: "waitE io (delay io d2) = Inr d3" "xfer a d3 = Some (True, Suc l, n)" "sectors a d3 = sectors a d2"
    using wait_ends [OF ata, of "delay io d2"] delay_settled [OF ata o(3)] o by auto
  obtain d' where d': "writeblk_loop io n (b + 512) m d3 = Inr d'" "\<And>k. sectors a d' k =
      (if Suc l \<le> k \<and> k < Suc l + n then load_bytes m (b + 512 + 512 * of_nat (k - Suc l)) 512 else sectors a d3 k)"
    using Suc.IH [OF d3(2), of "b + 512"] by blast
  have sh: "b + 512 + 512 * of_nat (k - Suc l) = b + 512 * of_nat (k - l)" if "Suc l \<le> k" for k
  proof -
    have "k - l = Suc (k - Suc l)" using that by simp
    then show ?thesis by (simp add: algebra_simps)
  qed
  have "sectors a d' k = (if l \<le> k \<and> k < l + Suc n then load_bytes m (b + 512 * of_nat (k - l)) 512 else sectors a d k)" for k
    using d'(2) [of k] sh [of k] o(1) d3(3) by (cases "k = l") auto
  then show ?case using d1(1) d3(1) d'(1) by (simp add: d2_def Let_def)
qed

lemma writeblk_sectors:
  assumes ata: "ata io a" and lba: "lba < 2 ^ 28" and count: "0 < count" "count < 256"
  shows "\<exists>d'. writeblk io b lba count m d = Inr d' \<and> (\<forall>k. sectors a d' k =
    (if unat lba \<le> k \<and> k < unat lba + unat count then load_bytes m (b + 512 * of_nat (k - unat lba)) 512
     else sectors a d k))"
proof -
  define d6 where "d6 = outb io 0x1F5 (ucast (drop_bit 16 lba)) (outb io 0x1F4 (ucast (drop_bit 8 lba))
      (outb io 0x1F3 (ucast lba) (outb io 0x1F2 (ucast count) (outb io 0x1F1 0x00
      (outb io 0x1F6 (ucast (0xF0 OR (drop_bit 24 lba AND 0x0F))) d)))))"
  have s6: "sectors a d6 = sectors a d" by (simp add: d6_def reg_values [OF ata])
  have r6: "reg_lba (regs a d6) = unat lba"
    unfolding reg_lba_def d6_def reg_values [OF ata] using readblk_regs [OF lba] by simp
  have c6: "unat (regs a d6 0x1F2) = unat count"
    unfolding d6_def reg_values [OF ata] using unat_count [OF count] by simp
  have x: "xfer a (outb io 0x1F7 0x30 d6) = Some (True, unat lba, unat count)"
    "sectors a (outb io 0x1F7 0x30 d6) = sectors a d" using ata_command [OF ata] by (simp_all add: s6 r6 c6)
  from writeblk_loop_writes [OF ata x(1), of b m] show ?thesis
    unfolding writeblk_def Let_def d6_def [symmetric] x(2) .
qed

section \<open>Properties of the driver\<close>

text \<open>On a drive that behaves as documented, reading \<open>count\<close> sectors from \<open>lba\<close> ends, stores
  exactly these sectors one after the other at the destination, and changes no sector.\<close>

theorem readblk_reads:
  assumes "ata io a" and "lba < 2 ^ 28" and "0 < count" and "count < 256"
  shows "\<exists>d'. readblk io dest lba count m d
      = Inr (store_bytes m dest (concat (map (sectors a d) [unat lba..<unat lba + unat count])), d')
    \<and> sectors a d' = sectors a d"
  using assms by (rule readblk_sectors)

text \<open>C33. Round trip: what \<open>writeblk\<close> puts on the disk from a buffer, \<open>readblk\<close> of the same sectors
  brings back, into whatever buffer.\<close>

theorem write_then_read:
  assumes "ata io a" and "lba < 2 ^ 28" and "0 < count" and "count < 256"
  shows "\<exists>d' d''. writeblk io b lba count m d = Inr d'
    \<and> readblk io dest lba count m' d' = Inr (store_bytes m' dest (load_bytes m b (512 * unat count)), d'')"
proof -
  obtain d' where w: "writeblk io b lba count m d = Inr d'" "\<And>k. sectors a d' k =
      (if unat lba \<le> k \<and> k < unat lba + unat count then load_bytes m (b + 512 * of_nat (k - unat lba)) 512
       else sectors a d k)"
    using writeblk_sectors [OF assms] by blast
  have "concat (map (sectors a d') [unat lba..<unat lba + n]) = load_bytes m b (512 * n)" if "n \<le> unat count" for n
    using that
  proof (induction n)
    case 0
    then show ?case by (simp add: load_bytes_def)
  next
    case (Suc n)
    then show ?case using load_bytes_append [of m b "512 * n" 512] w(2) [of "unat lba + n"]
      by (simp add: add.commute)
  qed
  with readblk_sectors [OF assms, of dest m' d'] w(1) show ?thesis by auto
qed


section \<open>A drive, for the witnesses\<close>

text \<open>A drive that is never busy, whose sectors are the first 512 bytes of memories.\<close>

record ready_drive =
  rregs :: "u16 \<Rightarrow> u8"
  rxfer :: "(bool \<times> nat \<times> nat) option"
  rsectors :: "nat \<Rightarrow> mem"

definition ready_outb :: "u16 \<Rightarrow> u8 \<Rightarrow> ready_drive \<Rightarrow> ready_drive" where
  "ready_outb p v d =
     (if p = 0x1F7 then d\<lparr>rxfer := Some (v = 0x30, reg_lba (rregs d), unat (rregs d 0x1F2))\<rparr>
      else d\<lparr>rregs := (rregs d)(p := v)\<rparr>)"

definition ready_insw :: "u16 \<Rightarrow> nat \<Rightarrow> ready_drive \<Rightarrow> u16 list \<times> ready_drive" where
  "ready_insw p n d =
     (case rxfer d of Some (False, l, Suc k) \<Rightarrow> (words_at (rsectors d l) 0, d\<lparr>rxfer := Some (False, Suc l, k)\<rparr>)
      | _ \<Rightarrow> ([], d))"

definition ready_outsw :: "u16 \<Rightarrow> u16 list \<Rightarrow> ready_drive \<Rightarrow> ready_drive" where
  "ready_outsw p ws d =
     (case rxfer d of Some (True, l, Suc k) \<Rightarrow>
        d\<lparr>rxfer := Some (True, Suc l, k),
          rsectors := (rsectors d)(l := store_bytes (rsectors d l) 0 (concat (map (bytes_of_word 2) ws)))\<rparr>
      | _ \<Rightarrow> d)"

definition ready_ports :: "ready_drive ports" where
  "ready_ports = \<lparr>inb = (\<lambda>p d. (0x40, d)), outb = ready_outb, insw = ready_insw, outsw = ready_outsw\<rparr>"

definition ready :: "ready_drive drive" where
  "ready = \<lparr>regs = rregs, busy = (\<lambda>d. 0), xfer = rxfer, settled = (\<lambda>d. True),
     sectors = (\<lambda>d l. load_bytes (rsectors d l) 0 512)\<rparr>"

lemma ata_ready: "ata ready_ports ready"
proof -
  have "length (concat (map (bytes_of_word 2) ws)) = 512" if "length ws = 256" for ws :: "u16 list"
    using that by (simp add: length_concat o_def sum_list_triv)
  then have st: "load_bytes (store_bytes m 0 (concat (map (bytes_of_word 2) ws))) 0 512 = concat (map (bytes_of_word 2) ws)"
    if "length ws = 256" for ws :: "u16 list" and m
    using load_store_bytes_same [of "concat (map (bytes_of_word 2) ws)" m 0] that by simp
  show ?thesis
    unfolding ata_def
    by (intro conjI)
      (auto simp: ready_ports_def ready_def ready_outb_def ready_insw_def ready_outsw_def words_at_bytes st fun_eq_iff)
qed

theorem readblk_reads_witness:
  "\<exists>d'. readblk ready_ports 0x1000 72 8 (\<lambda>a. 0) \<lparr>rregs = (\<lambda>p. 0), rxfer = None, rsectors = (\<lambda>l a. 1)\<rparr>
     = Inr (store_bytes (\<lambda>a. 0) 0x1000 (replicate 4096 1), d')"
proof -
  let ?d = "\<lparr>rregs = (\<lambda>p. 0), rxfer = None, rsectors = (\<lambda>l a. 1)\<rparr>"
  have s: "sectors ready ?d = (\<lambda>l. replicate 512 1)" by (simp add: ready_def load_bytes_def map_replicate_const)
  have "concat (map (sectors ready ?d) [unat (72 :: u32)..<unat (72 :: u32) + unat (8 :: u32)]) = replicate 4096 1"
    unfolding s by (simp add: upt_rec replicate_add [symmetric])
  with readblk_reads [OF ata_ready, of 72 8 "0x1000" "\<lambda>a. 0" ?d] show ?thesis by auto
qed

theorem write_then_read_witness:
  "\<exists>d' d''. writeblk ready_ports 0 72 8 (\<lambda>a. ucast a) \<lparr>rregs = (\<lambda>p. 0), rxfer = None, rsectors = (\<lambda>l a. 1)\<rparr> = Inr d'
    \<and> readblk ready_ports 0x1000 72 8 (\<lambda>a. 0) d' = Inr (store_bytes (\<lambda>a. 0) 0x1000 (load_bytes (\<lambda>a. ucast a) 0 4096), d'')"
  using write_then_read [OF ata_ready, of 72 8 0 "\<lambda>a. ucast a"] by simp

end
