(* ===== verification/Fs.thy ===== *)
theory Fs
  imports Mmu Ide
begin

text \<open>
  The file system of \<^verbatim>\<open>kernel/fs.c\<close>: the bitmaps of free blocks and inodes, the superblock, the
  block map of an inode (\<open>walk_block\<close>) and the lookup of a name in the root directory
  (\<open>walk_path\<close>).  The static pointers of the file are fields of the state; they point into the
  page memory of \<open>Mm\<close>, where the inode table (32 bytes an inode: the size at 0, the block numbers
  from 10 on) and directory entries (an inode number and 14 characters) are laid out as the
  compiler does.  Diagnostic output is left out.
\<close>

section \<open>State\<close>

record 'd kfs = kmm +
  dev :: 'd
  sb :: u64
  blk_bitmap :: u64
  ino_bitmap :: u64
  ino_table :: u64

section \<open>Bitmaps\<close>

definition is_blkempty :: "mem \<Rightarrow> u64 \<Rightarrow> u32 \<Rightarrow> u32" where
  "is_blkempty m bitmap no = load32 m (bitmap + 4 * ucast (no div 32)) AND push_bit (unat (no mod 32)) 1"

definition get_free_no :: "mem \<Rightarrow> u64 \<Rightarrow> int" where
  "get_free_no m bitmap =
     (case find (\<lambda>blkno. is_blkempty m bitmap (of_nat blkno) \<noteq> 0) [0..<4096 * 8] of
        Some blkno \<Rightarrow> int blkno
      | None \<Rightarrow> - 1)"

definition set_bitmap :: "u64 \<Rightarrow> u32 \<Rightarrow> mem \<Rightarrow> mem" where
  "set_bitmap bitmap no m =
     (let a = bitmap + 4 * ucast (no div 32)
      in store32 m a (load32 m a AND NOT (push_bit (unat (no mod 32)) 1)))"

definition get_blk :: "('d, 'a) kfs_scheme \<Rightarrow> int \<times> ('d, 'a) kfs_scheme" where
  "get_blk s =
     (let bno = get_free_no (mem s) (blk_bitmap s)
      in if bno < 0 then (- 1, s)
         else (bno, s\<lparr>mem := set_bitmap (blk_bitmap s) (word_of_int bno) (mem s)\<rparr>))"

section \<open>Blocks\<close>

text \<open>\<open>alloc_page(0)\<close> and the eight sectors of a block read into it; the page is the result.\<close>

definition read_into_page :: "'d ports \<Rightarrow> u32 \<Rightarrow> ('d, 'a) kfs_scheme \<Rightarrow> (u64 \<times> ('d, 'a) kfs_scheme) outcome" where
  "read_into_page io lba s =
     (case alloc_page 0 s of
        (None, s1) \<Rightarrow> Inl NullPointer
      | (Some pp, s1) \<Rightarrow>
          bindE (readblk io (PAGE2VA pp) lba 8 (mem s1) (dev s1)) (\<lambda>(m, d).
            Inr (PAGE2VA pp, s1\<lparr>mem := m, dev := d\<rparr>)))"

definition bread :: "'d ports \<Rightarrow> u32 \<Rightarrow> ('d, 'a) kfs_scheme \<Rightarrow> (u64 \<times> ('d, 'a) kfs_scheme) outcome" where
  "bread io block s = read_into_page io (8 * block) s"

definition read_superblock :: "'d ports \<Rightarrow> ('d, 'a) kfs_scheme \<Rightarrow> ('d, 'a) kfs_scheme outcome" where
  "read_superblock io s =
     bindE (read_into_page io (8 * 1) s) (\<lambda>(b1, s1).
     bindE (read_into_page io (8 * 2) (s1\<lparr>sb := b1\<rparr>)) (\<lambda>(b2, s2).
     bindE (read_into_page io (8 * 3) (s2\<lparr>blk_bitmap := b2\<rparr>)) (\<lambda>(b3, s3).
     bindE (read_into_page io (8 * 4) (s3\<lparr>ino_bitmap := b3\<rparr>)) (\<lambda>(b4, s4).
     Inr (s4\<lparr>ino_table := b4\<rparr>)))))"

section \<open>Walking an inode and the root directory\<close>

text \<open>
  \<open>walk_block\<close> returns a code and, through \<open>diskno\<close>, the address of the block number; where the
  code assigns nothing to \<open>*diskno\<close> the caller's variable keeps its value \<open>old\<close>, \<open>None\<close> while it
  is uninitialised.
\<close>

definition walk_block :: "'d ports \<Rightarrow> u64 \<Rightarrow> u32 \<Rightarrow> u64 option \<Rightarrow> int \<Rightarrow> ('d, 'a) kfs_scheme
    \<Rightarrow> (int \<times> u64 option \<times> ('d, 'a) kfs_scheme) outcome" where
  "walk_block io p fileno old alloc s =
     (if fileno < 10 then Inr (0, Some (p + 10 + 2 * ucast fileno), s)
      else if fileno < 1024 * 2 + 10 then
        (let level = (fileno - 10) div 2048 + 10;
             a = p + 10 + 2 * ucast level;
             found = (\<lambda>s1. bindE (bread io (ucast (load16 (mem s1) a)) s1) (\<lambda>(blk, s2).
                        let level1 = (fileno - 10) mod 2048
                        in Inr (0, Some (blk + 2 * ucast level1), s2)))
         in if load16 (mem s) a = 0 then
              (if alloc = 1 then
                 (let bno = get_free_no (mem s) (blk_bitmap s)
                  in if bno < 0 then Inr (- 1, old, s)
                     else found (s\<lparr>mem := set_bitmap (blk_bitmap s) (word_of_int bno)
                                           (store16 (mem s) a (word_of_int bno))\<rparr>))
               else Inr (- 1, Some 0, s))
            else found s)
      else Inr (0, old, s))"

text \<open>
  The search of one directory block, from entry \<open>j\<close> on: the entry found, or \<open>j\<close> as the loop
  leaves it.  \<open>strcmp\<close> that never returns is a hang.
\<close>

definition strcmpE :: "(u64 \<Rightarrow> u8 option) \<Rightarrow> u64 \<Rightarrow> u64 \<Rightarrow> int outcome" where
  "strcmpE rd s1 s2 = (case strcmp rd s1 s2 of None \<Rightarrow> Inl Hang | Some r \<Rightarrow> r)"

function dir_search :: "(u64 \<Rightarrow> u8 option) \<Rightarrow> u64 \<Rightarrow> u64 \<Rightarrow> nat \<Rightarrow> (u64 option \<times> nat) outcome" where
  "dir_search rd fname pdir j =
     (if j < 4096 div 16 then
        bindE (strcmpE rd (pdir + 2) fname) (\<lambda>r.
          if r = 0 then Inr (Some pdir, j) else dir_search rd fname (pdir + 16) (j + 1))
      else Inr (None, j))"
  by pat_completeness auto
termination
  by (relation "measure (\<lambda>(rd, fname, pdir, j). 256 - j)") auto

declare dir_search.simps [simp del]

text \<open>
  The loop over the blocks of the root directory.  The entry counter \<open>j\<close> is set to 0 before this
  loop, not inside it.
\<close>

function walk_path_loop :: "'d ports \<Rightarrow> u64 \<Rightarrow> u64 \<Rightarrow> u64 \<Rightarrow> nat \<Rightarrow> nat \<Rightarrow> nat \<Rightarrow> u64 option \<Rightarrow> ('d, 'a) kfs_scheme
    \<Rightarrow> (int \<times> u64 option \<times> ('d, 'a) kfs_scheme) outcome" where
  "walk_path_loop io root fname p fileno i j diskno s =
     (if i < fileno then
        bindE (walk_block io p (of_nat i) diskno 0 s) (\<lambda>(r, diskno', s1).
          if r < 0 then Inr (- 2, None, s1)
          else case diskno' of None \<Rightarrow> Inl NullPointer
          | Some a \<Rightarrow>
              if load16 (mem s1) a \<noteq> 0 then
                bindE (bread io (ucast (load16 (mem s1) a)) s1) (\<lambda>(pdir, s2).
                bindE (dir_search (vread root (mem s2)) fname pdir j) (\<lambda>(hit, j').
                  case hit of
                    Some e \<Rightarrow> Inr (0, Some (ino_table s2 + 32 * ucast (load16 (mem s2) e)), s2)
                  | None \<Rightarrow> walk_path_loop io root fname p fileno (i + 1) j' diskno' s2))
              else walk_path_loop io root fname p fileno (i + 1) j diskno' s1)
      else Inr (- 1, None, s))"
  by pat_completeness auto
termination
  by (relation "measure (\<lambda>(io, root, fname, p, fileno, i, j, diskno, s). fileno - i)") auto

declare walk_path_loop.simps [simp del]

definition walk_path :: "'d ports \<Rightarrow> u64 \<Rightarrow> u64 \<Rightarrow> ('d, 'a) kfs_scheme
    \<Rightarrow> (int \<times> u64 option \<times> ('d, 'a) kfs_scheme) outcome" where
  "walk_path io root fname s =
     (let p = ino_table s + 32 * 0;
          fileno = load32 (mem s) p div 4096
      in walk_path_loop io root fname p (unat fileno) 0 0 None s)"


section \<open>The bitmaps as sets\<close>

definition free_nos :: "u64 \<Rightarrow> mem \<Rightarrow> nat set" where
  "free_nos bitmap m = {i. i < 4096 * 8 \<and> is_blkempty m bitmap (of_nat i) \<noteq> 0}"

lemma unat_no: "i < 4096 * 8 \<Longrightarrow> unat (of_nat i div 32 :: u32) = i div 32 \<and> unat (of_nat i mod 32 :: u32) = i mod 32"
  by (simp add: unat_div unat_mod unat_of_nat_small)

lemma bitmap_word: "i < 4096 * 8 \<Longrightarrow> bitmap + 4 * ucast (of_nat i div 32 :: u32) = (bitmap :: u64) + of_nat (4 * (i div 32))"
proof -
  assume "i < 4096 * 8"
  then have "(ucast (of_nat i div 32 :: u32) :: u64) = of_nat (i div 32)"
    by (metis of_nat_unat unat_no)
  then show ?thesis by (simp only: of_nat_mult of_nat_numeral)
qed

lemma is_blkempty_bit:
  "i < 4096 * 8 \<Longrightarrow> is_blkempty m bitmap (of_nat i) \<noteq> 0 \<longleftrightarrow> bit (load32 m (bitmap + of_nat (4 * (i div 32)))) (i mod 32)"
  by (simp only: is_blkempty_def bitmap_word unat_no bit_iff_and_push_bit_not_eq_0)

lemma set_bitmap_word:
  "i < 4096 * 8 \<Longrightarrow> set_bitmap bitmap (of_nat i) m
     = store32 m (bitmap + of_nat (4 * (i div 32)))
         (load32 m (bitmap + of_nat (4 * (i div 32))) AND NOT (push_bit (i mod 32) 1))"
  by (simp only: set_bitmap_def bitmap_word unat_no Let_def)

lemma bitmap_words_apart:
  assumes "i < 1024" "j < 1024" "i \<noteq> j"
  shows "apart (bitmap + of_nat (4 * i)) 4 (bitmap + of_nat (4 * j)) 4"
proof (rule apart_offset)
  show "4 * i + 4 \<le> 4 * j \<or> 4 * j + 4 \<le> 4 * i" using assms(3) by linarith
qed (use assms in simp_all)

lemma set_bitmap_free:
  assumes i: "i < 4096 * 8"
  shows "free_nos bitmap (set_bitmap bitmap (of_nat i) m) = free_nos bitmap m - {i}"
proof -
  let ?a = "\<lambda>k. bitmap + of_nat (4 * k)"
  have "bit (load32 (set_bitmap bitmap (of_nat i) m) (?a (j div 32))) (j mod 32)
      \<longleftrightarrow> bit (load32 m (?a (j div 32))) (j mod 32) \<and> j \<noteq> i" if j: "j < 4096 * 8" for j
  proof (cases "j div 32 = i div 32")
    case True
    then have "j = i \<longleftrightarrow> j mod 32 = i mod 32" by (metis mult_div_mod_eq)
    then show ?thesis
      by (auto simp: set_bitmap_word [OF i] True bit_simps)
  next
    case False
    then have "apart (?a (i div 32)) 4 (?a (j div 32)) 4" using i j by (intro bitmap_words_apart) auto
    then have "load32 (set_bitmap bitmap (of_nat i) m) (?a (j div 32)) = load32 m (?a (j div 32))"
      by (simp only: set_bitmap_word [OF i] load32_store32_disj)
    then show ?thesis using False by auto
  qed
  then show ?thesis
    unfolding free_nos_def using is_blkempty_bit by blast
qed

text \<open>The contract of an allocator of numbers: the least free number is taken, -1 when there is none.\<close>

locale number_map =
  fixes pick :: "'s \<Rightarrow> int"
    and claim :: "int \<Rightarrow> 's \<Rightarrow> 's"
    and free :: "'s \<Rightarrow> nat set"
  assumes finite_free: "finite (free s)"
    and pick_none: "free s = {} \<Longrightarrow> pick s = - 1"
    and pick_least: "free s \<noteq> {} \<Longrightarrow> pick s = int (Min (free s))"
    and claim_free: "i \<in> free s \<Longrightarrow> free (claim (int i) s) = free s - {i}"

fun claim_many :: "('s \<Rightarrow> int) \<Rightarrow> (int \<Rightarrow> 's \<Rightarrow> 's) \<Rightarrow> nat \<Rightarrow> 's \<Rightarrow> int list \<times> 's" where
  "claim_many pick claim 0 s = ([], s)"
| "claim_many pick claim (Suc n) s =
     (if pick s < 0 then ([], s)
      else case claim_many pick claim n (claim (pick s) s) of (is, s') \<Rightarrow> (pick s # is, s'))"

context number_map
begin

lemma pick_free: "free s \<noteq> {} \<Longrightarrow> \<exists>i. pick s = int i \<and> i \<in> free s \<and> (\<forall>j \<in> free s. i \<le> j)"
  using pick_least finite_free Min_in Min_le by metis

lemma pick_negative: "pick s < 0 \<longleftrightarrow> free s = {}"
  using pick_none pick_free by fastforce

text \<open>Successive claims hand out strictly ascending numbers, each free before, until none is left.\<close>

lemma claims:
  "claim_many pick claim n s = (is, s') \<Longrightarrow>
   length is = min n (card (free s)) \<and> sorted_wrt (<) is \<and> set is \<subseteq> int ` free s
     \<and> free s' = free s - nat ` set is"
proof (induction n arbitrary: s "is" s')
  case 0
  then show ?case by simp
next
  case (Suc n)
  show ?case
  proof (cases "free s = {}")
    case True
    with Suc.prems pick_negative show ?thesis by auto
  next
    case False
    then obtain i where i: "pick s = int i" "i \<in> free s" "\<forall>j \<in> free s. i \<le> j" using pick_free by blast
    obtain js s1 where js: "claim_many pick claim n (claim (int i) s) = (js, s1)" by fastforce
    with Suc.prems i have e: "is = int i # js" "s' = s1" by auto
    note IH = Suc.IH [OF js]
    have f: "free (claim (int i) s) = free s - {i}" using claim_free i(2) by blast
    have "card (free s) = Suc (card (free s - {i}))" by (rule card_Suc_Diff1 [OF finite_free i(2), symmetric])
    moreover have "\<forall>j \<in> set js. int i < j"
    proof
      fix j assume "j \<in> set js"
      then have "j \<in> int ` (free s - {i})" using IH f by blast
      then obtain k where "j = int k" "k \<in> free s" "k \<noteq> i" by blast
      then show "int i < j" using i(3) by (simp add: order_less_le)
    qed
    ultimately have "length is = min (Suc n) (card (free s))" "sorted_wrt (<) is"
      using IH f e by simp_all
    moreover have "set is \<subseteq> int ` free s" using IH f e i(2) by auto
    moreover have "free s' = free s - nat ` set is" using IH f e by auto
    ultimately show ?thesis by blast
  qed
qed

end

lemma get_free_no_none: "free_nos bitmap m = {} \<Longrightarrow> get_free_no m bitmap = - 1"
proof -
  assume "free_nos bitmap m = {}"
  then have "find (\<lambda>blkno. is_blkempty m bitmap (of_nat blkno) \<noteq> 0) [0..<4096 * 8] = None"
    by (auto simp: find_None_iff free_nos_def)
  then show ?thesis by (simp add: get_free_no_def del: upt_Suc)
qed

lemma free_nos_finite [simp]: "finite (free_nos bitmap m)"
  by (simp add: free_nos_def)

lemma get_free_no_least: "free_nos bitmap m \<noteq> {} \<Longrightarrow> get_free_no m bitmap = int (Min (free_nos bitmap m))"
proof -
  let ?P = "\<lambda>blkno. is_blkempty m bitmap (of_nat blkno) \<noteq> 0"
  assume ne: "free_nos bitmap m \<noteq> {}"
  then have "find ?P [0..<4096 * 8] \<noteq> None"
    by (auto simp: find_None_iff free_nos_def)
  then obtain b where f: "find ?P [0..<4096 * 8] = Some b" by blast
  then obtain i where i: "i < length [0..<4096 * 8]" "?P ([0..<4096 * 8] ! i)" "b = [0..<4096 * 8] ! i"
    "\<forall>j<i. \<not> ?P ([0..<4096 * 8] ! j)"
    by (auto simp: find_Some_iff simp del: upt_Suc)
  then have b: "b < 4096 * 8" "?P b" "\<forall>j<b. \<not> ?P j" by auto
  then have "Min (free_nos bitmap m) = b"
    by (intro Min_eqI) (auto simp: free_nos_def not_less [symmetric])
  with f show ?thesis by (simp add: get_free_no_def del: upt_Suc)
qed

interpretation blocks: number_map "\<lambda>m. get_free_no m bitmap" "\<lambda>i. set_bitmap bitmap (word_of_int i)" "free_nos bitmap"
  for bitmap
proof
  show "free_nos bitmap (set_bitmap bitmap (word_of_int (int i)) m) = free_nos bitmap m - {i}"
    if "i \<in> free_nos bitmap m" for i m
    using that set_bitmap_free [of i] by (simp add: free_nos_def)
qed (rule free_nos_finite get_free_no_none get_free_no_least; assumption?)+


section \<open>Reading a block\<close>

lemma kfs_fields [simp]:
  fixes s :: "('d, 'a) kfs_scheme"
  shows "mm_inv (s\<lparr>dev := d\<rparr>) = mm_inv s" "free_pages (s\<lparr>dev := d\<rparr>) = free_pages s"
    "page_refs (s\<lparr>dev := d\<rparr>) = page_refs s"
  by (rule mm_cong; simp)+

definition block_bytes :: "'d drive \<Rightarrow> 'd \<Rightarrow> nat \<Rightarrow> u8 list" where
  "block_bytes a d b = concat (map (sectors a d) [8 * b..<8 * b + 8])"

lemma length_block_bytes: "ata io a \<Longrightarrow> length (block_bytes a d b) = 4096"
proof -
  assume a: "ata io a"
  have "length (concat (map (sectors a d) xs)) = 512 * length xs" for xs
    by (induction xs) (simp_all add: ata_length [OF a])
  then show ?thesis by (simp add: block_bytes_def)
qed

text \<open>The fields of the file system other than memory, pool and drive.\<close>

definition fs_ptrs :: "('d, 'a) kfs_scheme \<Rightarrow> u64 \<times> u64 \<times> u64 \<times> u64" where
  "fs_ptrs s = (sb s, blk_bitmap s, ino_bitmap s, ino_table s)"

lemma alloc_page_kfs:
  fixes s :: "('d, 'a) kfs_scheme"
  assumes "alloc_page fl s = (q, s')"
  shows "dev s' = dev s" "fs_ptrs s' = fs_ptrs s" "kfs.more s' = kfs.more s"
  using assms by (auto simp: alloc_page_def Let_def fs_ptrs_def split: option.splits if_splits)

text \<open>
  What a successful \<open>bread\<close> does: it takes the page at the head of the pool, fills it with the
  block, and changes no other byte and no sector.
\<close>

definition breads :: "'d drive \<Rightarrow> nat \<Rightarrow> ('d, 'a) kfs_scheme \<Rightarrow> nat \<Rightarrow> ('d, 'a) kfs_scheme \<Rightarrow> bool" where
  "breads a b s p s' \<longleftrightarrow> p \<in> free_pages s \<and> free_pages s' = free_pages s - {p} \<and> mm_inv s'
     \<and> page_refs s' = (page_refs s)(p := 1) \<and> length (pages s') = length (pages s)
     \<and> mem s' = store_bytes (mem s) (PAGE2VA p) (block_bytes a (dev s) b)
     \<and> sectors a (dev s') = sectors a (dev s) \<and> fs_ptrs s' = fs_ptrs s \<and> kfs.more s' = kfs.more s"

lemma bread_breads:
  assumes ata: "ata io a" and inv: "mm_inv s" and ne: "free_pages s \<noteq> {}" and b: "b < 2 ^ 25"
  shows "\<exists>p s'. bread io b s = Inr (PAGE2VA p, s') \<and> breads a (unat b) s p s'"
proof -
  obtain p s1 where al: "alloc_page 0 s = (Some p, s1)" using mm.alloc_succeeds [OF inv ne] by blast
  note f = alloc_page_Some [OF inv al] and r = page_refs_alloc [OF inv al] and k = alloc_page_kfs [OF al]
  have nb: "unat b < 2 ^ 25" using b by (simp add: word_less_nat_alt)
  then have lba: "unat (8 * b) = 8 * unat b" by (simp add: unat_word_ariths)
  have "8 * b < 2 ^ 28" using nb by (simp add: word_less_nat_alt lba)
  from readblk_sectors [OF ata this, of 8 "PAGE2VA p" "mem s1" "dev s1"] obtain d where
    "readblk io (PAGE2VA p) (8 * b) 8 (mem s1) (dev s1)
       = Inr (store_bytes (mem s) (PAGE2VA p) (block_bytes a (dev s) (unat b)), d)"
    "sectors a d = sectors a (dev s)"
    using f(6) k(1) by (auto simp: lba block_bytes_def)
  with al f r k show ?thesis
    by (intro exI [of _ p]) (simp add: bread_def read_into_page_def breads_def fs_ptrs_def)
qed

lemma breads_card: "breads a b s p s' \<Longrightarrow> card (free_pages s) = Suc (card (free_pages s'))"
  unfolding breads_def using card_Suc_Diff1 [of "free_pages s" p] by simp

lemma page_byte_apart:
  assumes "f < 2 ^ 18" "g < 2 ^ 18" "f \<noteq> g" "i + n \<le> 4096"
  shows "apart (PAGE2VA f) 4096 (PAGE2VA g + of_nat i) n"
proof -
  have o: "PAGE2VA g + of_nat i = KBASE + of_nat (4096 * g + i)" by (simp add: PAGE2VA_offset)
  have "4096 * f + 4096 \<le> 4096 * g + i \<or> 4096 * g + i + n \<le> 4096 * f"
    using assms(3,4) by linarith
  then show ?thesis unfolding o unfolding PAGE2VA_offset using assms by (intro apart_offset) simp_all
qed

lemma load16_inside:
  assumes "length bs = 4096" "i + 2 \<le> 4096"
  shows "load16 (store_bytes m (PAGE2VA p) bs) (PAGE2VA p + of_nat i) = word_of_bytes (take 2 (drop i bs))"
proof -
  have "unat (of_nat i :: u64) = i" using assms by (intro unat_of_nat_small) simp
  then show ?thesis
    using assms load_bytes_inside [of "PAGE2VA p + of_nat i" "PAGE2VA p" 2 bs m] by (simp add: load16_def)
qed

lemma breads_other_page:
  assumes ata: "ata io a" and inv: "mm_inv s" and br: "breads a b s p s'"
    and g: "g < length (pages s)" "g \<notin> free_pages s" and i: "i + 2 \<le> 4096"
  shows "load16 (mem s') (PAGE2VA g + of_nat i) = load16 (mem s) (PAGE2VA g + of_nat i)"
proof -
  have l: "length (pages s) \<le> 2 ^ 18" using inv by (simp add: mm_inv_def)
  have p: "p < 2 ^ 18" "g < 2 ^ 18" "p \<noteq> g"
    using br g l free_pages_less [of p s] by (auto simp: breads_def)
  have "apart (PAGE2VA p) (length (block_bytes a (dev s) b)) (PAGE2VA g + of_nat i) 2"
    unfolding length_block_bytes [OF ata] using p i by (intro page_byte_apart) auto
  then show ?thesis using br by (simp add: breads_def load16_store_bytes_disj)
qed

section \<open>The block map of an inode\<close>

text \<open>An inode that lies inside an allocated page \<open>g\<close>, at offset \<open>o'\<close>.\<close>

definition inode_at :: "('d, 'a) kfs_scheme \<Rightarrow> u64 \<Rightarrow> nat \<Rightarrow> nat \<Rightarrow> bool" where
  "inode_at s p g o' \<longleftrightarrow> p = PAGE2VA g + of_nat o' \<and> o' + 32 \<le> 4096 \<and> g < length (pages s) \<and> g \<notin> free_pages s"

lemma inode_block_addr:
  "inode_at s p g o' \<Longrightarrow> k \<le> 10 \<Longrightarrow> p + 10 + 2 * of_nat k = PAGE2VA g + of_nat (o' + 10 + 2 * k) \<and> o' + 10 + 2 * k + 2 \<le> 4096"
  by (simp add: inode_at_def)

lemma u32_less_10: "(fileno :: u32) < 10 \<longleftrightarrow> unat fileno < 10"
  and u32_less_2058: "(fileno :: u32) < 1024 * 2 + 10 \<longleftrightarrow> unat fileno < 2058"
  by (simp_all add: word_less_nat_alt)

lemma walk_block_direct:
  "unat fileno < 10 \<Longrightarrow> walk_block io p fileno old al s = Inr (0, Some (p + 10 + 2 * of_nat (unat fileno)), s)"
  by (simp add: walk_block_def u32_less_10)

lemma walk_block_level:
  fixes fileno :: u32
  assumes "10 \<le> unat fileno" "unat fileno < 2058"
  shows "(fileno - 10) div 2048 + 10 = 10" and "(fileno - 10) mod 2048 = of_nat (unat fileno - 10)"
proof -
  have u: "unat (fileno - 10) = unat fileno - 10" using assms(1)
    by (subst unat_sub) (simp_all add: word_le_nat_alt)
  then have "unat ((fileno - 10) div 2048) = 0" using assms(2) by (simp add: unat_div)
  then show "(fileno - 10) div 2048 + 10 = 10" by (simp add: unat_eq_0)
  have "unat ((fileno - 10) mod 2048) = unat fileno - 10" using assms(2) by (simp add: unat_mod u)
  then show "(fileno - 10) mod 2048 = of_nat (unat fileno - 10)" by (metis of_nat_unat word_unat_eq_iff ucast_id)
qed


definition entry16 :: "u8 list \<Rightarrow> nat \<Rightarrow> u16" where
  "entry16 bs i = word_of_bytes (take 2 (drop i bs))"

definition inode_block :: "('d, 'a) kfs_scheme \<Rightarrow> u64 \<Rightarrow> nat \<Rightarrow> u16" where
  "inode_block s p k = load16 (mem s) (p + 10 + 2 * of_nat k)"

lemma breads_inode:
  assumes "ata io a" "mm_inv s" "breads a b s q s'" "inode_at s p g o'" "k \<le> 10"
  shows "inode_block s' p k = inode_block s p k" and "inode_at s' p g o'"
proof -
  note i = inode_block_addr [OF assms(4,5)]
  have g: "g < length (pages s)" "g \<notin> free_pages s" using assms(4) by (simp_all add: inode_at_def)
  show "inode_block s' p k = inode_block s p k"
    unfolding inode_block_def i [THEN conjunct1] using i by (intro breads_other_page [OF assms(1,2,3) g]) simp
  show "inode_at s' p g o'" using assms(3,4) by (auto simp: inode_at_def breads_def)
qed

text \<open>The part behind the allocation of the indirect block: reading it and taking the entry.\<close>

lemma bread_entry:
  assumes ata: "ata io a" and inv: "mm_inv s" and ne: "free_pages s \<noteq> {}"
    and k: "k < 2048"
  shows "\<exists>q s'. bread io (ucast (b :: u16)) s = Inr (PAGE2VA q, s') \<and> breads a (unat b) s q s'
    \<and> load16 (mem s') (PAGE2VA q + 2 * of_nat k) = entry16 (block_bytes a (dev s) (unat b)) (2 * k)"
proof -
  have bl: "unat b < 2 ^ 16" by (rule order_less_le_trans [OF unsigned_less]) simp
  then have ub: "unat (ucast b :: u32) = unat b"
    by (simp add: unsigned_ucast_eq take_bit_nat_eq_self)
  from bl have "(ucast b :: u32) < 2 ^ 25" by (simp add: word_less_nat_alt ub)
  from bread_breads [OF ata inv ne this] obtain q s' where
    q: "bread io (ucast b) s = Inr (PAGE2VA q, s')" "breads a (unat b) s q s'" unfolding ub by blast
  have "load16 (mem s') (PAGE2VA q + of_nat (2 * k)) = entry16 (block_bytes a (dev s) (unat b)) (2 * k)"
    using q(2) k load16_inside [of "block_bytes a (dev s) (unat b)" "2 * k" "mem s" q]
    by (simp add: breads_def entry16_def length_block_bytes [OF ata])
  with q show ?thesis by (intro exI [of _ q]) auto
qed

lemma walk_block_indirect:
  assumes f: "10 \<le> unat fileno" "unat fileno < 2058" and b: "inode_block s p 10 \<noteq> 0"
  shows "walk_block io p fileno old al s = bindE (bread io (ucast (inode_block s p 10)) s) (\<lambda>(blk, s2).
     Inr (0, Some (blk + 2 * of_nat (unat fileno - 10)), s2))"
proof -
  have "\<not> fileno < 10" "fileno < 1024 * 2 + 10" using f by (simp_all add: u32_less_10 u32_less_2058 del: arith_simps)
  moreover have "(ucast (of_nat (unat fileno - 10) :: u32) :: u64) = of_nat (unat fileno - 10)"
    using f by (intro ucast_of_nat_small) simp
  ultimately show ?thesis
    using b unfolding walk_block_def Let_def walk_block_level [OF f] inode_block_def by simp
qed


section \<open>The root directory\<close>

text \<open>The name in entry \<open>k\<close> of a directory block, and blocks all of whose names end within their
  14 characters.\<close>

definition dir_name :: "u8 list \<Rightarrow> nat \<Rightarrow> u8 list" where
  "dir_name bs k = takeWhile (\<lambda>b. b \<noteq> 0) (take 14 (drop (16 * k + 2) bs))"

definition dir_ok :: "u8 list \<Rightarrow> bool" where
  "dir_ok bs \<longleftrightarrow> length bs = 4096 \<and> (\<forall>k < 256. length (dir_name bs k) < 14)"

lemma cstring_bytes:
  "(\<And>i. i < length xs \<Longrightarrow> xs ! i \<noteq> 0 \<and> rd (a + of_nat i) = Some (xs ! i)) \<Longrightarrow>
   rd (a + of_nat (length xs)) = Some 0 \<Longrightarrow> cstring rd a xs"
proof (induction xs arbitrary: a)
  case (Cons x xs)
  have "cstring rd (a + 1) xs"
  proof (rule Cons.IH)
    show "xs ! i \<noteq> 0 \<and> rd (a + 1 + of_nat i) = Some (xs ! i)" if "i < length xs" for i
      using Cons.prems(1) [of "Suc i"] that by (simp add: algebra_simps)
    show "rd (a + 1 + of_nat (length xs)) = Some 0" using Cons.prems(2) by (simp add: algebra_simps)
  qed
  then show ?case using Cons.prems(1) [of 0] by simp
qed simp

lemma kernel_page_byte: "q < 2 ^ 18 \<Longrightarrow> i < 4096 \<Longrightarrow> KBASE \<le> PAGE2VA q + of_nat i"
proof -
  assume "q < 2 ^ 18" "i < 4096"
  then have "4096 * q + i < 2 ^ 31" by simp
  from unat_KBASE_plus [OF this] show ?thesis
    by (simp add: PAGE2VA_offset word_le_nat_alt add.assoc) (simp add: KBASE_def)
qed

lemma dir_name_string:
  assumes ok: "dir_ok bs" and k: "k < 256" and q: "q < 2 ^ 18"
  shows "cstring (vread root (store_bytes m (PAGE2VA q) bs)) (PAGE2VA q + of_nat (16 * k) + 2) (dir_name bs k)"
proof -
  let ?l = "length (dir_name bs k)" and ?e = "take 14 (drop (16 * k + 2) bs)"
  have len: "length bs = 4096" "?l < 14" using ok k by (auto simp: dir_ok_def)
  then have el: "length ?e = 14" using k by simp
  have rd: "vread root (store_bytes m (PAGE2VA q) bs) (PAGE2VA q + of_nat (16 * k) + 2 + of_nat i) = Some (?e ! i)"
    if i: "i < 14" for i
  proof -
    have j: "16 * k + 2 + i < 4096" using i k by simp
    then have "unat (of_nat (16 * k + 2 + i) :: u64) = 16 * k + 2 + i" by (intro unat_of_nat_small) simp
    then have "store_bytes m (PAGE2VA q) bs (PAGE2VA q + of_nat (16 * k + 2 + i)) = ?e ! i"
      using len j i by (simp add: store_bytes_def)
    moreover have "PAGE2VA q + of_nat (16 * k) + 2 + of_nat i = PAGE2VA q + of_nat (16 * k + 2 + i)" by simp
    ultimately show ?thesis using vread_mmu [OF mmu_kernel [OF kernel_page_byte [OF q j]]] by metis
  qed
  show ?thesis
  proof (rule cstring_bytes)
    show "dir_name bs k ! i \<noteq> 0
        \<and> vread root (store_bytes m (PAGE2VA q) bs) (PAGE2VA q + of_nat (16 * k) + 2 + of_nat i) = Some (dir_name bs k ! i)"
      if "i < ?l" for i
    proof -
      have "dir_name bs k ! i = ?e ! i" using that unfolding dir_name_def by (simp only: takeWhile_nth)
      moreover have "dir_name bs k ! i \<in> set (dir_name bs k)" using that by simp
      ultimately show ?thesis using rd [of i] that len(2) set_takeWhileD unfolding dir_name_def by fastforce
    qed
    have "?e ! ?l = 0" using nth_length_takeWhile [of "\<lambda>b. b \<noteq> 0" ?e] len(2) el unfolding dir_name_def by simp
    then show "vread root (store_bytes m (PAGE2VA q) bs) (PAGE2VA q + of_nat (16 * k) + 2 + of_nat ?l) = Some 0"
      using rd [of ?l] len(2) by simp
  qed
qed

text \<open>Once the entry counter has reached 256, no further block is searched.\<close>

lemma dir_search_exhausted: "dir_search rd fname pdir 256 = Inr (None, 256)"
  by (simp add: dir_search.simps)

lemma dir_search_find:
  assumes f: "cstring rd fname name" and n: "\<And>k. k < 256 \<Longrightarrow> cstring rd (base + of_nat (16 * k) + 2) (names k)"
  shows "j \<le> 256 \<Longrightarrow> dir_search rd fname (base + of_nat (16 * j)) j =
    Inr (case find (\<lambda>k. names k = name) [j..<256] of Some k \<Rightarrow> (Some (base + of_nat (16 * k)), k) | None \<Rightarrow> (None, 256))"
proof (induction "256 - j" arbitrary: j)
  case 0
  then have "j = 256" by simp
  then show ?case by (simp add: dir_search_exhausted)
next
  case (Suc d)
  then have j: "j < 256" by simp
  have e: "[j..<256] = j # [Suc j..<256]" using j by (rule upt_conv_Cons)
  have st: "strcmpE rd (base + of_nat (16 * j) + 2) fname = Inr (if names j = name then 0 else 1)"
    using strcmp_strings [OF n [OF j] f] by (simp add: strcmpE_def)
  have nx: "base + of_nat (16 * j) + 16 = base + of_nat (16 * Suc j)" by (simp add: algebra_simps)
  show ?case
  proof (cases "names j = name")
    case True
    then show ?thesis using j st by (simp add: dir_search.simps [of rd fname _ j] e)
  next
    case False
    then show ?thesis using j st Suc.hyps(1) [of "Suc j"] Suc.hyps(2) nx
      by (simp only: dir_search.simps [of rd fname _ j] e) simp
  qed
qed

lemma walk_block_small: "k < 10 \<Longrightarrow> walk_block io p (of_nat k) old al s = Inr (0, Some (p + 10 + 2 * of_nat k), s)"
  using walk_block_direct [of "of_nat k :: u32" io p old al s] by (simp add: unat_of_nat_small)

lemma walk_path_rest:
  assumes ata: "ata io a"
  shows "mm_inv s \<Longrightarrow> inode_at s p g o' \<Longrightarrow> n \<le> 10 \<Longrightarrow> (\<forall>k. i \<le> k \<and> k < n \<longrightarrow> inode_block s p k \<noteq> 0) \<Longrightarrow>
    n - i \<le> card (free_pages s) \<Longrightarrow>
    \<exists>s'. walk_path_loop io root fname p n i 256 dn s = Inr (- 1, None, s') \<and> mm_inv s' \<and> free_pages s' \<subseteq> free_pages s"
proof (induction "n - i" arbitrary: i dn s)
  case 0
  then show ?case by (simp add: walk_path_loop.simps [of io root fname p n i])
next
  case (Suc d)
  then have i: "i < n" "i < 10" and d: "d = n - Suc i" by linarith+
  then have ne: "free_pages s \<noteq> {}" using Suc.prems(5) by auto
  have b: "inode_block s p i \<noteq> 0" using Suc.prems(4) i by simp
  obtain q s1 where q: "bread io (ucast (inode_block s p i)) s = Inr (PAGE2VA q, s1)"
      "breads a (unat (inode_block s p i)) s q s1"
    using bread_entry [OF ata Suc.prems(1) ne, of 0 "inode_block s p i"] by auto
  note k = breads_inode [OF ata Suc.prems(1) q(2) Suc.prems(2)]
  have "\<forall>k. Suc i \<le> k \<and> k < n \<longrightarrow> inode_block s1 p k \<noteq> 0"
    using k(1) Suc.prems(3,4) by simp
  moreover have "n - Suc i \<le> card (free_pages s1)" using breads_card [OF q(2)] Suc.prems(5) by simp
  moreover have "mm_inv s1" "free_pages s1 \<subseteq> free_pages s" using q(2) by (auto simp: breads_def)
  ultimately obtain s' where "walk_path_loop io root fname p n (Suc i) 256 (Some (p + 10 + 2 * of_nat i)) s1 = Inr (- 1, None, s')"
      "mm_inv s'" "free_pages s' \<subseteq> free_pages s1"
    using Suc.hyps(1) [of "Suc i" s1 "Some (p + 10 + 2 * of_nat i)"] d k(2) [of 0] Suc.prems(3) by blast
  with \<open>free_pages s1 \<subseteq> free_pages s\<close> show ?case
    using i b q(1)
    by (auto simp: walk_path_loop.simps [of io root fname p n i] walk_block_small inode_block_def dir_search_exhausted)
qed


text \<open>Memories that agree outside the pages of a set.\<close>

definition same_outside :: "nat set \<Rightarrow> mem \<Rightarrow> mem \<Rightarrow> bool" where
  "same_outside F m m' \<longleftrightarrow> (\<forall>x. (\<forall>f \<in> F. 4096 \<le> unat (x - PAGE2VA f)) \<longrightarrow> m' x = m x)"

lemma breads_same_outside: "ata io a \<Longrightarrow> breads a b s q s' \<Longrightarrow> same_outside (free_pages s) (mem s) (mem s')"
  by (auto simp: same_outside_def breads_def store_bytes_def length_block_bytes)

lemma walk_path_first:
  assumes ata: "ata io a" and inv: "mm_inv s" and tbl: "inode_at s (ino_table s) g o'"
    and size: "unat (load32 (mem s) (ino_table s)) div 4096 = n" and n: "1 \<le> n" "n \<le> 10"
    and room: "n \<le> card (free_pages s)" and blk: "\<forall>k < n. inode_block s (ino_table s) k \<noteq> 0"
    and ok: "dir_ok (block_bytes a (dev s) (unat (inode_block s (ino_table s) 0)))"
    and name: "\<And>m'. same_outside (free_pages s) (mem s) m' \<Longrightarrow> cstring (vread root m') fname name"
  shows "\<exists>s'. walk_path io root fname s = Inr
     (case find (\<lambda>k. dir_name (block_bytes a (dev s) (unat (inode_block s (ino_table s) 0))) k = name) [0..<256] of
        Some k \<Rightarrow> (0, Some (ino_table s
           + 32 * ucast (entry16 (block_bytes a (dev s) (unat (inode_block s (ino_table s) 0))) (16 * k))), s')
      | None \<Rightarrow> (- 1, None, s')) \<and> mm_inv s' \<and> free_pages s' \<subseteq> free_pages s"
proof -
  let ?p = "ino_table s" let ?b = "inode_block s ?p 0" let ?bs = "block_bytes a (dev s) (unat ?b)"
  have ne: "free_pages s \<noteq> {}" using room n(1) by auto
  have b0: "?b \<noteq> 0" using blk n(1) by simp
  obtain q s1 where q: "bread io (ucast ?b) s = Inr (PAGE2VA q, s1)" "breads a (unat ?b) s q s1"
    using bread_entry [OF ata inv ne, of 0 ?b] by auto
  have ql: "q < 2 ^ 18" using q(2) inv free_pages_less [of q s] by (auto simp: breads_def mm_inv_def)
  have m1: "mem s1 = store_bytes (mem s) (PAGE2VA q) ?bs" and tb: "ino_table s1 = ?p"
    using q(2) by (simp_all add: breads_def fs_ptrs_def)
  have f: "cstring (vread root (mem s1)) fname name"
    by (rule name [OF breads_same_outside [OF ata q(2)]])
  have ds: "dir_search (vread root (mem s1)) fname (PAGE2VA q) 0 =
      Inr (case find (\<lambda>k. dir_name ?bs k = name) [0..<256] of
        Some k \<Rightarrow> (Some (PAGE2VA q + of_nat (16 * k)), k) | None \<Rightarrow> (None, 256))"
    using dir_search_find [OF f, of "PAGE2VA q" "dir_name ?bs" 0] dir_name_string [OF ok _ ql] m1 by simp
  have un: "unat (load32 (mem s) ?p div 4096) = n" using size by (simp add: unat_div)
  have wb: "walk_block io ?p 0 None 0 s = Inr (0, Some (?p + 10), s)"
    using walk_block_small [of 0] by simp
  have b0': "load16 (mem s) (?p + 10) = ?b" by (simp add: inode_block_def)
  have step: "walk_path io root fname s =
      (case find (\<lambda>k. dir_name ?bs k = name) [0..<256] of
         Some k \<Rightarrow> Inr (0, Some (?p + 32 * ucast (load16 (mem s1) (PAGE2VA q + of_nat (16 * k)))), s1)
       | None \<Rightarrow> walk_path_loop io root fname ?p n 1 256 (Some (?p + 10)) s1)"
    using n(1) b0 q(1) ds tb
    by (simp add: walk_path_def Let_def un walk_path_loop.simps [of io root fname ?p n 0] wb b0' split: option.split)
  have inv1: "mm_inv s1" "free_pages s1 \<subseteq> free_pages s" using q(2) by (auto simp: breads_def)
  show ?thesis
  proof (cases "find (\<lambda>k. dir_name ?bs k = name) [0..<256]")
    case None
    note k = breads_inode [OF ata inv q(2) tbl]
    have "\<forall>k. 1 \<le> k \<and> k < n \<longrightarrow> inode_block s1 ?p k \<noteq> 0" using k(1) blk n(2) by simp
    moreover have "n - 1 \<le> card (free_pages s1)" using breads_card [OF q(2)] room by simp
    ultimately obtain s' where
      "walk_path_loop io root fname ?p n 1 256 (Some (?p + 10)) s1 = Inr (- 1, None, s')" "mm_inv s'"
      "free_pages s' \<subseteq> free_pages s1"
      using walk_path_rest [OF ata inv1(1) k(2) [of 0] n(2), of 1] by blast
    with step None inv1(2) show ?thesis by auto
  next
    case (Some k)
    then have k: "k < 256" by (auto simp: find_Some_iff)
    have "load16 (mem s1) (PAGE2VA q + of_nat (16 * k)) = entry16 ?bs (16 * k)"
      using m1 load16_inside [of ?bs "16 * k" "mem s" q] k by (simp add: entry16_def length_block_bytes [OF ata])
    with step Some inv1 show ?thesis by auto
  qed
qed

section \<open>Properties of the file system\<close>

text \<open>C32. Successive allocations from a bitmap: \<open>n\<close> times \<open>get_free_no\<close> followed by
  \<open>set_bitmap\<close> hand out \<open>n\<close> strictly ascending numbers that were free, as long as there are that
  many, clear exactly these in the bitmap, and stop when it is empty.\<close>

theorem bitmap_allocation:
  "\<exists>nos m'. claim_many (\<lambda>m. get_free_no m bitmap) (\<lambda>i. set_bitmap bitmap (word_of_int i)) n m = (nos, m')
     \<and> length nos = min n (card (free_nos bitmap m)) \<and> sorted_wrt (<) nos \<and> set nos \<subseteq> int ` free_nos bitmap m
     \<and> free_nos bitmap m' = free_nos bitmap m - nat ` set nos"
proof -
  obtain nos m' where "claim_many (\<lambda>m. get_free_no m bitmap) (\<lambda>i. set_bitmap bitmap (word_of_int i)) n m = (nos, m')"
    by fastforce
  with blocks.claims [OF this] show ?thesis by blast
qed

text \<open>C31. The block map of an inode in an allocated page, without allocation: the ten direct
  numbers are read in place; the 2048 next ones come from the block the eleventh number names,
  read into a fresh page, and give an error when there is none; a file block from 2058 on is
  reported as a success although no address is returned.\<close>

theorem walk_block_lookup:
  assumes ata: "ata io a" and inv: "mm_inv s" and ne: "free_pages s \<noteq> {}" and p: "inode_at s p g o'"
  shows "\<exists>r dn s'. walk_block io p fileno old 0 s = Inr (r, dn, s')
    \<and> (if fileno < 10 then r = 0 \<and> dn = Some (p + 10 + 2 * ucast fileno) \<and> s' = s
       else if fileno < 2058 then
         (if inode_block s p 10 = 0 then r = - 1 \<and> dn = Some 0 \<and> s' = s
          else \<exists>q x. breads a (unat (inode_block s p 10)) s q s' \<and> r = 0 \<and> dn = Some x
             \<and> load16 (mem s') x = entry16 (block_bytes a (dev s) (unat (inode_block s p 10))) (2 * (unat fileno - 10)))
       else r = 0 \<and> dn = old \<and> s' = s)"
proof -
  have l: "fileno < 10 \<longleftrightarrow> unat fileno < 10" "fileno < 2058 \<longleftrightarrow> unat fileno < 2058"
    by (simp_all add: word_less_nat_alt)
  consider "fileno < 10" | "\<not> fileno < 10" "fileno < 2058" "inode_block s p 10 = 0"
    | "\<not> fileno < 10" "fileno < 2058" "inode_block s p 10 \<noteq> 0" | "\<not> fileno < 10" "\<not> fileno < 2058" by blast
  then show ?thesis
  proof cases
    case 2
    then have f: "10 \<le> unat fileno" "unat fileno < 2058" by (simp_all add: l)
    from 2 show ?thesis unfolding walk_block_def Let_def walk_block_level [OF f] by (simp add: inode_block_def)
  next
    case 3
    then have f: "10 \<le> unat fileno" "unat fileno < 2058" by (simp_all add: l)
    then have "unat fileno - 10 < 2048" by linarith
    from bread_entry [OF ata inv ne this, of "inode_block s p 10"] obtain q s1 where
      "bread io (ucast (inode_block s p 10)) s = Inr (PAGE2VA q, s1)" "breads a (unat (inode_block s p 10)) s q s1"
      "load16 (mem s1) (PAGE2VA q + 2 * of_nat (unat fileno - 10))
         = entry16 (block_bytes a (dev s) (unat (inode_block s p 10))) (2 * (unat fileno - 10))" by blast
    with 3 walk_block_indirect [OF f 3(3)] show ?thesis by auto
  qed (simp_all add: walk_block_def)
qed

text \<open>C30. Looking a name up: with a root directory of one to ten blocks, \<open>walk_path\<close> returns
  the inode of the first entry of the first block with that name, and -1 when the first block has
  none, since the later blocks are read but not searched.  The name may lie in user memory, in
  pages that are not free.\<close>

theorem walk_path_first_block:
  assumes ata: "ata io a" and inv: "mm_inv s" and tbl: "inode_at s (ino_table s) g o'"
    and size: "unat (load32 (mem s) (ino_table s)) div 4096 = n" and n: "1 \<le> n" "n \<le> 10"
    and room: "n \<le> card (free_pages s)" and blk: "\<forall>k < n. inode_block s (ino_table s) k \<noteq> 0"
    and bs: "bs = block_bytes a (dev s) (unat (inode_block s (ino_table s) 0))" and ok: "dir_ok bs"
    and name: "\<And>m'. same_outside (free_pages s) (mem s) m' \<Longrightarrow> cstring (vread root m') fname name"
  shows "\<exists>s'. walk_path io root fname s = Inr
     (case find (\<lambda>k. dir_name bs k = name) [0..<256] of
        Some k \<Rightarrow> (0, Some (ino_table s + 32 * ucast (entry16 bs (16 * k))), s')
      | None \<Rightarrow> (- 1, None, s')) \<and> mm_inv s' \<and> free_pages s' \<subseteq> free_pages s"
  using walk_path_first [OF ata inv tbl size n room blk ok [unfolded bs] name] unfolding bs .


section \<open>A small file system, for the witnesses\<close>

text \<open>
  The small machine with the inode table in page 7, whose root directory is the one block 5 of the
  drive; it has an entry \<^verbatim>\<open>init\<close> for inode 1.  The string \<^verbatim>\<open>init\<close> also stands at the start of page 0.
\<close>

definition init_name :: "u8 list" where
  "init_name = [0x69, 0x6E, 0x69, 0x74]"

definition small_drive :: ready_drive where
  "small_drive = \<lparr>rregs = (\<lambda>p. 0), rxfer = None,
     rsectors = (\<lambda>l. if l = 40 then store_bytes (\<lambda>a. 0) 0 ([1, 0] @ init_name) else (\<lambda>a. 0))\<rparr>"

definition small_fs_mem :: mem where
  "small_fs_mem = store_bytes (store_bytes (\<lambda>a. 0) (PAGE2VA 7) [0, 16, 0, 0, 0, 0, 0, 0, 0, 0, 5, 0]) (PAGE2VA 0) init_name"

definition small_fs :: "ready_drive kfs" where
  "small_fs = \<lparr>npages = 8, pages = pages small_machine, phead = Some 1, kused_mem = 0, kpgdir = 0, procs_at = 0,
     mem = small_fs_mem, dev = small_drive, sb = 0, blk_bitmap = PAGE2VA 0, ino_bitmap = PAGE2VA 0,
     ino_table = PAGE2VA 7\<rparr>"

lemma small_fs_mm: "mm_inv small_fs" "free_pages small_fs = {1, 2, 3, 4, 5, 6}" "length (pages small_fs) = 8"
proof -
  have e: "pages small_fs = pages small_machine" "phead small_fs = phead small_machine" "npages small_fs = npages small_machine"
    by (simp_all add: small_fs_def small_machine_def)
  show "mm_inv small_fs" using mm_cong(1) [OF e] mm_inv_small by simp
  show "free_pages small_fs = {1, 2, 3, 4, 5, 6}" using mm_cong(2) [OF e] free_small by simp
  show "length (pages small_fs) = 8" using e(1) mem_small(2) by simp
qed

lemma small_fs_inode: "inode_at small_fs (ino_table small_fs) 7 0"
  by (simp add: inode_at_def small_fs_mm) (simp add: small_fs_def)

lemma small_fs_table:
  "load32 (mem small_fs) (ino_table small_fs) = 4096" "inode_block small_fs (ino_table small_fs) 0 = 5"
  "inode_block small_fs (ino_table small_fs) 10 = 0"
  by (simp_all add: inode_block_def small_fs_def small_fs_mem_def init_name_def load32_def load16_def load_bytes_def upt_rec
      store_bytes_def PAGE2VA_def PAGE2PA_def KBASE_def push_bit_eq_mult)

lemma small_fs_block: "block_bytes ready small_drive 5 = [1, 0] @ init_name @ replicate 4090 0"
proof -
  have z: "load_bytes (\<lambda>a. 0) a n = replicate n 0" for a n by (simp add: load_bytes_def map_replicate_const)
  have "sectors ready small_drive 40 = [1, 0] @ init_name @ replicate 506 0"
    using load_store_bytes_prefix [of "[1, 0] @ init_name" 512 "\<lambda>a. 0" 0]
    by (simp add: ready_def small_drive_def z init_name_def)
  moreover have "sectors ready small_drive l = replicate 512 0" if "l \<noteq> 40" for l
    using that by (simp add: ready_def small_drive_def z)
  moreover have "[8 * 5..<8 * 5 + 8] = [40, 41, 42, 43, 44, 45, 46, 47 :: nat]" by (simp add: upt_rec)
  ultimately show ?thesis
    unfolding block_bytes_def by (simp only:) (simp add: replicate_add [symmetric])
qed

lemma small_fs_names:
  "dir_name ([1, 0] @ init_name @ replicate 4090 0) k = (if k = 0 then init_name else [])"
proof (cases k)
  case 0
  then show ?thesis by (simp add: dir_name_def init_name_def)
next
  case (Suc j)
  then have "drop (16 * k + 2) ([1, 0] @ init_name @ replicate 4090 (0 :: u8)) = replicate (4090 - 12 - 16 * j) 0"
  proof -
    have "16 * k + 2 = (12 + 16 * j) + 6" using Suc by simp
    then have "drop (16 * k + 2) xs = drop (12 + 16 * j) (drop 6 xs)" for xs :: "u8 list" by (simp only: drop_drop)
    moreover have "drop 6 ([1, 0] @ init_name @ replicate 4090 (0 :: u8)) = replicate 4090 0"
      by (simp add: init_name_def)
    ultimately have "drop (16 * k + 2) ([1, 0] @ init_name @ replicate 4090 (0 :: u8)) = drop (12 + 16 * j) (replicate 4090 0)"
      by (simp only:)
    then show ?thesis by (simp only: drop_replicate diff_diff_left)
  qed
  then show ?thesis using Suc by (simp add: dir_name_def takeWhile_eq_Nil_iff)
qed

lemma small_fs_string:
  assumes "same_outside (free_pages small_fs) (mem small_fs) m'"
  shows "cstring (vread root m') (PAGE2VA 0) init_name"
proof -
  have m: "vread root m' (PAGE2VA 0 + of_nat i) = Some (mem small_fs (PAGE2VA 0 + of_nat i))" if i: "i \<in> {0, 1, 2, 3, 4}" for i
  proof -
    have "\<forall>f \<in> free_pages small_fs. 4096 \<le> unat (PAGE2VA 0 + of_nat i - PAGE2VA f)"
      unfolding small_fs_mm using i
      by (auto simp: PAGE2VA_def PAGE2PA_def KBASE_def push_bit_eq_mult)
    then have "m' (PAGE2VA 0 + of_nat i) = mem small_fs (PAGE2VA 0 + of_nat i)" using assms by (simp add: same_outside_def)
    moreover have "KBASE \<le> PAGE2VA 0 + of_nat i" using i by (intro kernel_page_byte) auto
    ultimately show ?thesis using vread_mmu [OF mmu_kernel] by metis
  qed
  show ?thesis
    using m [of 0] m [of 1] m [of 2] m [of 3] m [of 4]
    by (simp add: init_name_def small_fs_def small_fs_mem_def store_bytes_def PAGE2VA_def PAGE2PA_def KBASE_def)
qed

theorem walk_path_first_block_witness:
  "\<exists>s'. walk_path ready_ports 0 (PAGE2VA 0) small_fs = Inr (0, Some (PAGE2VA 7 + 32), s')"
proof -
  let ?bs = "[1, 0] @ init_name @ replicate 4090 (0 :: u8)"
  have bs: "?bs = block_bytes ready (dev small_fs) (unat (inode_block small_fs (ino_table small_fs) 0))"
  proof -
    have "dev small_fs = small_drive" by (simp add: small_fs_def)
    then show ?thesis using small_fs_block by (simp add: small_fs_table)
  qed
  have ok: "dir_ok ?bs" unfolding dir_ok_def small_fs_names by (simp add: init_name_def)
  have e: "entry16 ?bs (16 * 0) = 1" by (simp add: entry16_def init_name_def)
  have f: "find (\<lambda>k. dir_name ?bs k = init_name) [0..<256] = Some 0"
    unfolding small_fs_names by (simp add: upt_rec)
  have "\<exists>s'. walk_path ready_ports 0 (PAGE2VA 0) small_fs = Inr
     (case find (\<lambda>k. dir_name ?bs k = init_name) [0..<256] of
        Some k \<Rightarrow> (0, Some (ino_table small_fs + 32 * ucast (entry16 ?bs (16 * k))), s')
      | None \<Rightarrow> (- 1, None, s')) \<and> mm_inv s' \<and> free_pages s' \<subseteq> free_pages small_fs"
    by (rule walk_path_first_block [OF ata_ready small_fs_mm(1) small_fs_inode _ _ _ _ _ bs ok small_fs_string, of 1])
      (simp_all add: small_fs_table small_fs_mm(2))
  then show ?thesis unfolding f option.case e by (auto simp: small_fs_def)
qed

theorem walk_block_lookup_witness:
  "walk_block ready_ports (PAGE2VA 7) 10 None 0 small_fs = Inr (- 1, Some 0, small_fs)"
proof -
  have p: "ino_table small_fs = PAGE2VA 7" by (simp add: small_fs_def)
  have "free_pages small_fs \<noteq> {}" by (simp add: small_fs_mm)
  from walk_block_lookup [OF ata_ready small_fs_mm(1) this small_fs_inode, of 10 None] show ?thesis
    using small_fs_table(3) by (auto simp: p)
qed

end
