(* ===== verification/Cache.thy ===== *)
theory Cache
  imports Fs
begin

text \<open>
  The page cache of \<^verbatim>\<open>kernel/cache.c\<close>: 32 entries in a circular doubly linked list around
  \<open>pcachehead\<close>.  A pointer to an entry is its index, 32 that of the head.  The kernel fills the
  cache at boot and then, since the calls in \<open>bread\<close> are commented out, does not use it.  The
  list walks follow the links until they meet the head again, so they are partial functions whose
  \<open>None\<close> is a walk that never ends.
\<close>

section \<open>State and operations\<close>

datatype cache_status = DIRTY | UPTODATE

record pagecache =
  blockno :: int
  refcount :: int
  status :: cache_status
  pp :: "nat option"
  nxt :: nat
  prv :: nat

record 'd kcache = "'d kfs" +
  pcaches :: "pagecache list"

partial_function (option) free_cache_loop :: "int \<Rightarrow> nat \<Rightarrow> pagecache list \<Rightarrow> pagecache list option" where
  "free_cache_loop b pc ps =
     (if pc = 32 then Some ps
      else let ps' = (if blockno (ps ! pc) = b then ps[pc := (ps ! pc)\<lparr>refcount := refcount (ps ! pc) - 1\<rparr>] else ps)
           in free_cache_loop b (nxt (ps' ! pc)) ps')"

definition free_cache_page :: "int \<Rightarrow> ('d, 'a) kcache_scheme \<Rightarrow> ('d, 'a) kcache_scheme outcome" where
  "free_cache_page b s =
     (case free_cache_loop b (nxt (pcaches s ! 32)) (pcaches s) of
        None \<Rightarrow> Inl Hang | Some ps \<Rightarrow> Inr (s\<lparr>pcaches := ps\<rparr>))"

partial_function (option) read_cache_loop :: "int \<Rightarrow> nat \<Rightarrow> pagecache list \<Rightarrow> (nat option \<times> pagecache list) option" where
  "read_cache_loop b pc ps =
     (if pc = 32 then Some (None, ps)
      else if refcount (ps ! pc) = 0
           then Some (pp (ps ! pc), ps[pc := (ps ! pc)\<lparr>blockno := b, refcount := refcount (ps ! pc) + 1\<rparr>])
           else read_cache_loop b (prv (ps ! pc)) ps)"

definition read_cache_page :: "int \<Rightarrow> ('d, 'a) kcache_scheme \<Rightarrow> (nat option \<times> ('d, 'a) kcache_scheme) outcome" where
  "read_cache_page b s =
     (case read_cache_loop b (prv (pcaches s ! 32)) (pcaches s) of
        None \<Rightarrow> Inl Hang | Some (p, ps) \<Rightarrow> Inr (p, s\<lparr>pcaches := ps\<rparr>))"

text \<open>The loop of \<open>find_cache_page\<close> starts at the head, where its condition is already false.\<close>

partial_function (option) find_cache_loop :: "int \<Rightarrow> nat \<Rightarrow> pagecache list \<Rightarrow> nat option option" where
  "find_cache_loop b pc ps =
     (if pc = 32 then Some None
      else if blockno (ps ! pc) = b then Some (pp (ps ! pc))
      else find_cache_loop b (nxt (ps ! pc)) ps)"

definition find_cache_page :: "int \<Rightarrow> ('d, 'a) kcache_scheme \<Rightarrow> nat option outcome" where
  "find_cache_page b s =
     (case find_cache_loop b 32 (pcaches s) of None \<Rightarrow> Inl Hang | Some p \<Rightarrow> Inr p)"

text \<open>One round of the loop of \<open>init_cache_page\<close>, for entry \<open>pc\<close>.\<close>

definition init_cache_entry :: "nat \<Rightarrow> ('d, 'a) kcache_scheme \<Rightarrow> ('d, 'a) kcache_scheme" where
  "init_cache_entry pc s =
     (let ps = pcaches s;
          first = nxt (ps ! 32)
      in case alloc_page 0 s of (p, s1) \<Rightarrow>
         let ps1 = ps[pc := \<lparr>blockno = - 1, refcount = 0, status = UPTODATE, pp = p, nxt = first, prv = 32\<rparr>];
             ps2 = ps1[first := (ps1 ! first)\<lparr>prv := pc\<rparr>];
             ps3 = ps2[32 := (ps2 ! 32)\<lparr>nxt := pc\<rparr>]
         in s1\<lparr>pcaches := ps3\<rparr>)"

fun init_cache_loop :: "nat \<Rightarrow> nat \<Rightarrow> ('d, 'a) kcache_scheme \<Rightarrow> ('d, 'a) kcache_scheme" where
  "init_cache_loop pc 0 s = s"
| "init_cache_loop pc (Suc n) s = init_cache_loop (pc + 1) n (init_cache_entry pc s)"

definition init_cache_page :: "('d, 'a) kcache_scheme \<Rightarrow> ('d, 'a) kcache_scheme" where
  "init_cache_page s =
     (let ps = pcaches s
      in init_cache_loop 0 32 (s\<lparr>pcaches := ps[32 := (ps ! 32)\<lparr>nxt := 32, prv := 32\<rparr>]\<rparr>))"

definition init_fs :: "'d ports \<Rightarrow> ('d, 'a) kcache_scheme \<Rightarrow> ('d, 'a) kcache_scheme outcome" where
  "init_fs io s = read_superblock io (init_cache_page s)"

section \<open>The ring\<close>

text \<open>The list after \<open>k\<close> rounds: forwards from the head \<open>k - 1\<close> down to 0, backwards 0 up to \<open>k - 1\<close>.\<close>

definition ring :: "nat \<Rightarrow> pagecache list \<Rightarrow> bool" where
  "ring k ps \<longleftrightarrow> length ps = 33
     \<and> nxt (ps ! 32) = (if k = 0 then 32 else k - 1) \<and> prv (ps ! 32) = (if k = 0 then 32 else 0)
     \<and> (\<forall>i < k. nxt (ps ! i) = (if i = 0 then 32 else i - 1) \<and> prv (ps ! i) = (if Suc i = k then 32 else Suc i))"

lemma ring_next_entry:
  assumes r: "ring k ps" and k: "k < 32"
  shows "ring (Suc k) (let ps1 = ps[k := e\<lparr>nxt := nxt (ps ! 32), prv := 32\<rparr>];
      ps2 = ps1[nxt (ps ! 32) := (ps1 ! nxt (ps ! 32))\<lparr>prv := k\<rparr>] in ps2[32 := (ps2 ! 32)\<lparr>nxt := k\<rparr>])"
  using assms by (auto simp: ring_def Let_def nth_list_update less_Suc_eq)


lemma alloc_page_kcache:
  fixes s :: "('d, 'a) kcache_scheme"
  shows "alloc_page fl s = (q, s') \<Longrightarrow> pcaches s' = pcaches s"
  by (auto simp: alloc_page_def Let_def split: option.splits if_splits)

lemma kcache_fields [simp]:
  fixes s :: "('d, 'a) kcache_scheme"
  shows "mm_inv (s\<lparr>pcaches := ps\<rparr>) = mm_inv s" "free_pages (s\<lparr>pcaches := ps\<rparr>) = free_pages s"
    "page_refs (s\<lparr>pcaches := ps\<rparr>) = page_refs s"
  by (rule mm_cong; simp)+

text \<open>An entry as it is set up, with page \<open>p\<close>.\<close>

definition fresh_entry :: "nat \<Rightarrow> pagecache \<Rightarrow> bool" where
  "fresh_entry p e \<longleftrightarrow> blockno e = - 1 \<and> refcount e = 0 \<and> status e = UPTODATE \<and> pp e = Some p"

lemma init_cache_entry_step:
  fixes s :: "('d, 'a) kcache_scheme"
  assumes inv: "mm_inv s" and ne: "free_pages s \<noteq> {}" and r: "ring k (pcaches s)" and k: "k < 32"
  shows "\<exists>p. p \<in> free_pages s \<and> mm_inv (init_cache_entry k s) \<and> ring (Suc k) (pcaches (init_cache_entry k s))
    \<and> free_pages (init_cache_entry k s) = free_pages s - {p}
    \<and> fresh_entry p (pcaches (init_cache_entry k s) ! k)
    \<and> (\<forall>i < k. \<forall>q. fresh_entry q (pcaches s ! i) \<longrightarrow> fresh_entry q (pcaches (init_cache_entry k s) ! i))"
proof -
  obtain p s1 where al: "alloc_page 0 s = (Some p, s1)" using mm.alloc_succeeds [OF inv ne] by blast
  note a = alloc_page_Some [OF inv al]
  let ?ps = "pcaches s"
  let ?ps1 = "?ps[k := \<lparr>blockno = - 1, refcount = 0, status = UPTODATE, pp = Some p, nxt = nxt (?ps ! 32), prv = 32\<rparr>]"
  let ?ps2 = "?ps1[nxt (?ps ! 32) := (?ps1 ! nxt (?ps ! 32))\<lparr>prv := k\<rparr>]"
  let ?ps3 = "?ps2[32 := (?ps2 ! 32)\<lparr>nxt := k\<rparr>]"
  have e: "init_cache_entry k s = s1\<lparr>pcaches := ?ps3\<rparr>"
    by (simp add: init_cache_entry_def Let_def al)
  have len: "length ?ps = 33" and f: "nxt (?ps ! 32) \<noteq> k" "nxt (?ps ! 32) < 33"
    using r k by (auto simp: ring_def)
  have "ring (Suc k) ?ps3"
    using ring_next_entry [OF r k, of "\<lparr>blockno = - 1, refcount = 0, status = UPTODATE, pp = Some p, nxt = 0, prv = 0\<rparr>"]
    by (simp add: Let_def)
  moreover have "fresh_entry p (?ps3 ! k)" using len f k by (simp add: fresh_entry_def)
  moreover have "fresh_entry q (?ps3 ! i)" if "i < k" "fresh_entry q (?ps ! i)" for i q
    using that len k f by (cases "i = nxt (?ps ! 32)") (simp_all add: fresh_entry_def)
  ultimately show ?thesis using a(1,2,3) by (intro exI [of _ p]) (simp add: e)
qed

lemma init_cache_loop_ring:
  fixes s :: "('d, 'a) kcache_scheme"
  shows "mm_inv s \<Longrightarrow> n \<le> card (free_pages s) \<Longrightarrow> ring k (pcaches s) \<Longrightarrow> k + n \<le> 32 \<Longrightarrow>
    \<exists>xs. length xs = n \<and> distinct xs \<and> set xs \<subseteq> free_pages s
      \<and> mm_inv (init_cache_loop k n s) \<and> free_pages (init_cache_loop k n s) = free_pages s - set xs
      \<and> ring (k + n) (pcaches (init_cache_loop k n s))
      \<and> (\<forall>j < n. fresh_entry (xs ! j) (pcaches (init_cache_loop k n s) ! (k + j)))
      \<and> (\<forall>i < k. \<forall>q. fresh_entry q (pcaches s ! i) \<longrightarrow> fresh_entry q (pcaches (init_cache_loop k n s) ! i))"
proof (induction n arbitrary: k s)
  case 0
  then show ?case by simp
next
  case (Suc n)
  let ?s = "init_cache_entry k s"
  have ne: "free_pages s \<noteq> {}" "k < 32" using Suc.prems by auto
  from init_cache_entry_step [OF Suc.prems(1) ne(1) Suc.prems(3) ne(2)] obtain p where
    p: "p \<in> free_pages s" "mm_inv ?s" "ring (Suc k) (pcaches ?s)" "free_pages ?s = free_pages s - {p}"
      "fresh_entry p (pcaches ?s ! k)"
      "\<And>i q. i < k \<Longrightarrow> fresh_entry q (pcaches s ! i) \<Longrightarrow> fresh_entry q (pcaches ?s ! i)"
    by blast
  have "n \<le> card (free_pages ?s)" using Suc.prems(2) p(1,4) by simp
  from Suc.IH [OF p(2) this p(3)] Suc.prems(4) obtain xs where
    x: "length xs = n" "distinct xs" "set xs \<subseteq> free_pages ?s" "mm_inv (init_cache_loop (Suc k) n ?s)"
      "free_pages (init_cache_loop (Suc k) n ?s) = free_pages ?s - set xs"
      "ring (Suc k + n) (pcaches (init_cache_loop (Suc k) n ?s))"
      "\<And>j. j < n \<Longrightarrow> fresh_entry (xs ! j) (pcaches (init_cache_loop (Suc k) n ?s) ! (Suc k + j))"
      "\<And>i q. i < Suc k \<Longrightarrow> fresh_entry q (pcaches ?s ! i) \<Longrightarrow> fresh_entry q (pcaches (init_cache_loop (Suc k) n ?s) ! i)"
    by auto
  have "p \<notin> set xs" using x(3) p(4) by blast
  moreover have "fresh_entry ((p # xs) ! j) (pcaches (init_cache_loop (Suc k) n ?s) ! (k + j))" if "j < Suc n" for j
    using that x(7) [of "j - 1"] x(8) [of k p] p(5) by (cases j) auto
  moreover have "fresh_entry q (pcaches (init_cache_loop (Suc k) n ?s) ! i)"
    if "i < k" "fresh_entry q (pcaches s ! i)" for i q
    using x(8) p(6) that by simp
  ultimately show ?case using x(1-6) p(1,4)
    by (intro exI [of _ "p # xs"]) auto
qed

section \<open>Properties of the cache\<close>

text \<open>The entries met when following \<open>f\<close> from \<open>i\<close> for \<open>n\<close> steps.\<close>

fun walk :: "(nat \<Rightarrow> nat) \<Rightarrow> nat \<Rightarrow> nat \<Rightarrow> nat list" where
  "walk f 0 i = []"
| "walk f (Suc n) i = i # walk f n (f i)"

lemma walk_down: "(\<And>i. i < k \<Longrightarrow> f i = (if i = 0 then e else i - 1)) \<Longrightarrow> n < k \<Longrightarrow> walk f (Suc (Suc n)) n = rev [0..<Suc n] @ [e]"
proof (induction n)
  case (Suc n)
  then have "f (Suc n) = n" by simp
  with Suc show ?case by (simp only: walk.simps) simp
qed simp

lemma walk_up: "(\<And>i. i < k \<Longrightarrow> f i = (if Suc i = k then e else Suc i)) \<Longrightarrow> j < k \<Longrightarrow> walk f (Suc (k - j)) j = [j..<k] @ [e]"
proof (induction "k - j" arbitrary: j)
  case (Suc d)
  have e: "[j..<k] = j # [Suc j..<k]" "Suc (k - j) = Suc (Suc d)" "k - Suc j = d"
    using Suc.prems Suc.hyps(2) by (auto simp: upt_conv_Cons)
  show ?case
  proof (cases "Suc j = k")
    case True
    then have "k - j = Suc 0" "f j = e" "[j..<k] = [j]" using Suc.prems by auto
    then show ?thesis by simp
  next
    case False
    with Suc.prems have n: "Suc j < k" "f j = Suc j" by simp_all
    have "walk f (Suc d) (Suc j) = [Suc j..<k] @ [e]" using Suc.hyps(1) [of "Suc j"] Suc.prems(1) n(1) e(3) by simp
    then show ?thesis using n(2) by (simp add: e)
  qed
qed simp

text \<open>C27. \<open>init_cache_page\<close> with 32 free pages builds the ring: from the head the next links
  meet the entries 31 down to 0 and then the head again, the previous links the same in the other
  order; every entry is idle and owns a page of its own taken from the pool.\<close>

theorem init_cache_page_ring:
  fixes s :: "('d, 'a) kcache_scheme"
  assumes inv: "mm_inv s" and room: "32 \<le> card (free_pages s)" and len: "length (pcaches s) = 33"
  shows "walk (\<lambda>i. nxt (pcaches (init_cache_page s) ! i)) 34 32 = 32 # rev [0..<32] @ [32]
    \<and> walk (\<lambda>i. prv (pcaches (init_cache_page s) ! i)) 34 32 = 32 # [0..<32] @ [32]
    \<and> (\<exists>ps. length ps = 32 \<and> distinct ps \<and> set ps \<subseteq> free_pages s
         \<and> free_pages (init_cache_page s) = free_pages s - set ps \<and> mm_inv (init_cache_page s)
         \<and> map pp (take 32 (pcaches (init_cache_page s))) = map Some ps
         \<and> (\<forall>i < 32. refcount (pcaches (init_cache_page s) ! i) = 0))"
proof -
  let ?s = "s\<lparr>pcaches := (pcaches s)[32 := (pcaches s ! 32)\<lparr>nxt := 32, prv := 32\<rparr>]\<rparr>"
  have e: "init_cache_page s = init_cache_loop 0 32 ?s" by (simp add: init_cache_page_def Let_def)
  have "ring 0 (pcaches ?s)" using len by (simp add: ring_def)
  then obtain xs where x: "length xs = 32" "distinct xs" "set xs \<subseteq> free_pages s"
    "mm_inv (init_cache_page s)" "free_pages (init_cache_page s) = free_pages s - set xs"
    "ring 32 (pcaches (init_cache_page s))" "\<And>j. j < 32 \<Longrightarrow> fresh_entry (xs ! j) (pcaches (init_cache_page s) ! j)"
    using init_cache_loop_ring [of ?s 32 0] inv room unfolding e by auto
  have l: "length (pcaches (init_cache_page s)) = 33" using x(6) by (simp add: ring_def)
  have "walk (\<lambda>i. nxt (pcaches (init_cache_page s) ! i)) (Suc (Suc 31)) 31 = rev [0..<Suc 31] @ [32]"
    by (rule walk_down [of 32]) (use x(6) in \<open>auto simp: ring_def\<close>)
  then have "walk (\<lambda>i. nxt (pcaches (init_cache_page s) ! i)) 34 32 = 32 # rev [0..<32] @ [32]"
    using x(6) by (simp add: eval_nat_numeral ring_def)
  moreover have "walk (\<lambda>i. prv (pcaches (init_cache_page s) ! i)) (Suc (32 - 0)) 0 = [0..<32] @ [32]"
    by (rule walk_up) (use x(6) in \<open>auto simp: ring_def\<close>)
  then have "walk (\<lambda>i. prv (pcaches (init_cache_page s) ! i)) 34 32 = 32 # [0..<32] @ [32]"
    using x(6) by (simp add: eval_nat_numeral ring_def)
  moreover have "map pp (take 32 (pcaches (init_cache_page s))) = map Some xs"
    using x(1,7) l by (intro nth_equalityI) (auto simp: fresh_entry_def)
  moreover have "\<forall>i < 32. refcount (pcaches (init_cache_page s) ! i) = 0" using x(7) by (auto simp: fresh_entry_def)
  ultimately show ?thesis using x by blast
qed

section \<open>Witness\<close>

definition cache_machine :: "ready_drive kcache" where
  "cache_machine = \<lparr>npages = npages (machine 8 50), pages = pages (machine 8 50), phead = phead (machine 8 50),
     kused_mem = 0, kpgdir = 0, procs_at = 0, mem = (\<lambda>a. 0), dev = small_drive, sb = 0, blk_bitmap = 0,
     ino_bitmap = 0, ino_table = 0,
     pcaches = replicate 33 \<lparr>blockno = 0, refcount = 0, status = DIRTY, pp = None, nxt = 0, prv = 0\<rparr>\<rparr>"

lemma cache_machine_facts:
  "mm_inv cache_machine" "free_pages cache_machine = {8..<50}" "length (pcaches cache_machine) = 33"
proof -
  have e: "pages cache_machine = pages (machine 8 50)" "phead cache_machine = phead (machine 8 50)"
    "npages cache_machine = npages (machine 8 50)"
    by (simp_all add: cache_machine_def)
  show "mm_inv cache_machine" using mm_cong(1) [OF e] machine_facts(2) [of 8 50] by simp
  show "free_pages cache_machine = {8..<50}" using mm_cong(2) [OF e] machine_facts(1) [of 8 50] by simp
  show "length (pcaches cache_machine) = 33" by (simp add: cache_machine_def)
qed

theorem init_cache_page_ring_witness:
  "walk (\<lambda>i. nxt (pcaches (init_cache_page cache_machine) ! i)) 34 32 = 32 # rev [0..<32] @ [32]"
proof -
  have "32 \<le> card (free_pages cache_machine)" by (simp add: cache_machine_facts)
  from init_cache_page_ring [OF cache_machine_facts(1) this cache_machine_facts(3)] show ?thesis by blast
qed

end
