(* ===== verification/Console.thy ===== *)
theory Console
  imports CLib
begin

text \<open>
  The console of \<^verbatim>\<open>kernel/console.c\<close>: the VGA text screen (\<open>cls\<close>, \<open>myputchar\<close> with its
  scrolling), formatted output (\<open>unsigned_recursion\<close>, \<open>print\<close>, \<open>itoa\<close>) and the keyboard
  (the ring buffer \<open>kbs\<close>, the scancode tables, \<open>kbd_handler\<close>).  The static variables of the file
  are the fields of the record \<open>con\<close>; the screen is part of memory at \<open>VIDEO\<close>.  Port reads and
  writes are a parameter of the model.
\<close>

named_theorems con_simps "the console's fields after an operation"

section \<open>State\<close>

definition VIDEO :: u64 where
  "VIDEO = 0xFFFFFFFF800B8000"

record kbstate =
  buf :: "u8 list"
  rpos :: u32
  wpos :: u32

record con =
  xpos :: int
  ypos :: int
  video :: u64
  vmem :: mem
  kbs :: kbstate

section \<open>The screen\<close>

text \<open>The loop \<open>for (i = lo; i < hi; i++) *(video + i) = 0\<close>.\<close>

definition clear_video :: "nat \<Rightarrow> nat \<Rightarrow> u64 \<Rightarrow> mem \<Rightarrow> mem" where
  "clear_video lo hi v m = fold (\<lambda>i m. m(v + of_nat i := 0)) [lo..<hi] m"

definition cls :: "con \<Rightarrow> con" where
  "cls s = s\<lparr>video := VIDEO, vmem := clear_video 0 (80 * 24 * 2) VIDEO (vmem s), xpos := 0, ypos := 0\<rparr>"

definition init_vga :: "con \<Rightarrow> con" where
  "init_vga s = s\<lparr>video := VIDEO, vmem := clear_video 0 (80 * 24 * 2) VIDEO (vmem s), xpos := 0, ypos := 0\<rparr>"

text \<open>The code at the label \<open>newline\<close>.\<close>

definition newline :: "con \<Rightarrow> con" where
  "newline s =
     (let s1 = s\<lparr>xpos := 0, ypos := ypos s + 1\<rparr>
      in if 24 \<le> ypos s1
         then let m = memcpy (vmem s1) (video s1) (video s1 + 80 * 2) ((80 * 24 - 80) * 2);
                  m' = clear_video ((80 * 24 - 80) * 2) (80 * 24 * 2) (video s1) m
              in s1\<lparr>vmem := m', xpos := 0, ypos := ypos s1 - 1\<rparr>
         else s1)"

definition myputchar :: "int \<Rightarrow> con \<Rightarrow> con" where
  "myputchar c s =
     (if c = 10 \<or> c = 13 then newline s
      else let m = (vmem s)(video s + of_int ((xpos s + ypos s * 80) * 2) := word_of_int c AND 0xFF);
               m' = m(video s + of_int ((xpos s + ypos s * 80) * 2 + 1) := 7);
               s1 = s\<lparr>vmem := m', xpos := xpos s + 1\<rparr>
           in if 80 \<le> xpos s1 then newline s1 else s1)"

text \<open>\<open>write_string\<close> moves \<open>video\<close> itself and so displaces everything printed after it.\<close>

fun write_string :: "u8 list \<Rightarrow> con \<Rightarrow> con" where
  "write_string [] s = s"
| "write_string (b # bs) s =
     (let s1 = s\<lparr>vmem := (vmem s)(video s := b), video := video s + 1\<rparr>;
          s2 = s1\<lparr>vmem := (vmem s1)(video s1 := 7), video := video s1 + 1\<rparr>
      in write_string bs s2)"

section \<open>Numbers and formats\<close>

definition strtab :: string where
  "strtab = ''0123456789abcdef''"

text \<open>Reading \<open>strtab[i]\<close>: the sixteen digits, the terminating NUL, and nothing behind it.\<close>

definition strtab_at :: "nat \<Rightarrow> u8 outcome" where
  "strtab_at i = (if i < 16 then Inr (of_char (strtab ! i)) else if i = 16 then Inr 0 else Inl BadIndex)"

lemma div_word_less: "\<not> v < b \<Longrightarrow> b \<noteq> 0 \<Longrightarrow> b \<noteq> 1 \<Longrightarrow> unat (v div b) < unat (v :: u64)"
proof -
  assume b: "\<not> v < b" "b \<noteq> 0" "b \<noteq> 1"
  have "unat b \<noteq> 0" "unat b \<noteq> 1" "unat b \<le> unat v"
    using b by (simp_all add: word_unat_eq_iff [of b] word_less_nat_alt)
  then show ?thesis by (simp add: unat_div)
qed

text \<open>
  The base is an \<open>int\<close>, widened to \<open>unsigned long\<close> by the comparison and the division.  With base
  0 the division faults; with base 1 the value never gets smaller and the recursion never ends.
\<close>

function unsigned_recursion :: "u64 \<Rightarrow> u32 \<Rightarrow> con \<Rightarrow> (int \<times> con) outcome" where
  "unsigned_recursion val base s =
     (if val < scast base
      then bindE (strtab_at (unat (val mod scast base))) (\<lambda>t. Inr (1, myputchar (sint t) s))
      else if scast base = (0 :: u64) then Inl DivideError
      else if scast base = (1 :: u64) then Inl Hang
      else bindE (strtab_at (unat (val mod scast base))) (\<lambda>t.
           bindE (unsigned_recursion (val div scast base) base s) (\<lambda>(n, s').
           Inr (1 + n, myputchar (sint t) s'))))"
  by pat_completeness auto

termination
  by (relation "measure (\<lambda>(v, b, s). unat v)") (auto intro: div_word_less)

declare unsigned_recursion.simps [simp del]

text \<open>
  The variable arguments: a machine word (an integer argument occupies an eight-byte slot, of
  which \<open>int\<close> reads the low half) or a string.  Reading past the arguments given, or a word
  where a string is expected, has no defined result.
\<close>

datatype arg = AWord u64 | AStr string

fun va_word :: "arg list \<Rightarrow> (u64 \<times> arg list) outcome" where
  "va_word (AWord w # as) = Inr (w, as)"
| "va_word _ = Inl BadIndex"

fun va_string :: "arg list \<Rightarrow> (string \<times> arg list) outcome" where
  "va_string (AStr t # as) = Inr (t, as)"
| "va_string _ = Inl BadIndex"

definition putc :: "char \<Rightarrow> con \<Rightarrow> con" where
  "putc c s = myputchar (sint (of_char c :: u8)) s"

definition print_d :: "int \<Rightarrow> arg list \<Rightarrow> con \<Rightarrow> (arg list \<times> int \<times> con) outcome" where
  "print_d lflags args s =
     bindE (va_word args) (\<lambda>(w, args').
       if lflags = 0 then
         (let val = (ucast w :: u32)
          in if sint val < 0
             then bindE (unsigned_recursion (scast (- val)) 10 (putc (CHR ''-'') s)) (\<lambda>(n, s'). Inr (args', 1 + n, s'))
             else bindE (unsigned_recursion (scast val) 10 s) (\<lambda>(n, s'). Inr (args', n, s')))
       else
         (if sint w < 0
          then bindE (unsigned_recursion (- w) 10 (putc (CHR ''-'') s)) (\<lambda>(n, s'). Inr (args', 1 + n, s'))
          else bindE (unsigned_recursion w 10 s) (\<lambda>(n, s'). Inr (args', n, s'))))"

definition print_u :: "u32 \<Rightarrow> int \<Rightarrow> arg list \<Rightarrow> con \<Rightarrow> (arg list \<times> int \<times> con) outcome" where
  "print_u base lflags args s =
     bindE (va_word args) (\<lambda>(w, args').
       bindE (unsigned_recursion (if lflags = 0 then ucast (ucast w :: u32) else w) base s) (\<lambda>(n, s').
       Inr (args', n, s')))"

definition print_s :: "arg list \<Rightarrow> con \<Rightarrow> (arg list \<times> int \<times> con) outcome" where
  "print_s args s = bindE (va_string args) (\<lambda>(t, args'). Inr (args', int (length t), fold putc t s))"

text \<open>The loop over the format, with the counters \<open>lflags\<close> and \<open>pflags\<close> and the result \<open>num\<close>.\<close>

fun print_loop :: "string \<Rightarrow> arg list \<Rightarrow> int \<Rightarrow> int \<Rightarrow> int \<Rightarrow> con \<Rightarrow> (int \<times> con) outcome" where
  "print_loop [] args l p num s = Inr (num, s)"
| "print_loop (c # fmt) args l p num s =
     (if c = CHR ''%'' then print_loop fmt args l (p + 1) num s
      else if c = CHR ''l'' \<and> p \<noteq> 0 then print_loop fmt args (l + 1) p num s
      else if c = CHR ''d'' \<and> p \<noteq> 0 then
        bindE (print_d l args s) (\<lambda>(args', n, s'). print_loop fmt args' l 0 (num + n) s')
      else if c = CHR ''x'' \<and> p \<noteq> 0 then
        bindE (print_u 16 l args s) (\<lambda>(args', n, s'). print_loop fmt args' l 0 (num + n) s')
      else if c = CHR ''o'' \<and> p \<noteq> 0 then
        bindE (print_u 8 l args s) (\<lambda>(args', n, s'). print_loop fmt args' l 0 (num + n) s')
      else if c = CHR ''s'' \<and> p \<noteq> 0 then
        bindE (print_s args s) (\<lambda>(args', n, s'). print_loop fmt args' l 0 (num + n) s')
      else print_loop fmt args l p (num + 1) (putc c s))"

definition print :: "string \<Rightarrow> arg list \<Rightarrow> con \<Rightarrow> (int \<times> con) outcome" where
  "print format args s = print_loop format args 0 0 0 s"

text \<open>\<open>panic\<close> prints and halts the processor until the next interrupt, after which it returns.\<close>

definition panic :: "string \<Rightarrow> con \<Rightarrow> con outcome" where
  "panic fmt s = bindE (print ''%s'' [AStr fmt] s) (\<lambda>(n, s'). Inr s')"

text \<open>
  \<open>itoa\<close> fills its static 32-byte buffer from index 30 downwards and returns the index of the
  first digit.  The index cannot go below 1, so at most thirty digits are written.
\<close>

fun itoa_loop :: "nat \<Rightarrow> u32 \<Rightarrow> u32 \<Rightarrow> u8 list \<Rightarrow> (nat \<times> u8 list) outcome" where
  "itoa_loop 0 val base b = Inr (1, b)"
| "itoa_loop (Suc i) val base b =
     (if val = 0 then Inr (Suc i + 1, b)
      else if base = 0 then Inl DivideError
      else bindE (strtab_at (unat (val mod base))) (\<lambda>t. itoa_loop i (val div base) base (b[Suc i := t])))"

definition itoa :: "u32 \<Rightarrow> u32 \<Rightarrow> (nat \<times> u8 list) outcome" where
  "itoa val base =
     (let b = replicate 32 0
      in if val = 0 then Inr (30, b[30 := 0x30]) else itoa_loop 30 val base b)"

section \<open>The keyboard\<close>

definition init_kbdata :: "kbstate \<Rightarrow> kbstate" where
  "init_kbdata k = k\<lparr>rpos := 0, wpos := 0\<rparr>"

definition get_kbdata :: "kbstate \<Rightarrow> int \<times> kbstate" where
  "get_kbdata k =
     (if rpos k \<noteq> wpos k
      then (uint (buf k ! unat (rpos k)), k\<lparr>rpos := (rpos k + 1) mod 1024\<rparr>)
      else (- 1, k))"

definition add_kbdata :: "u8 \<Rightarrow> kbstate \<Rightarrow> kbstate" where
  "add_kbdata data k =
     k\<lparr>buf := (buf k)[unat (wpos k) := data], wpos := (wpos k + 1) mod 1024\<rparr>"

definition ascii_map :: "u8 list" where
  "ascii_map = map of_char
     ('' !'' @ [CHR 0x22] @ ''#$%&'' @ [CHR 0x27] @ ''()*+,-./0123456789:;<=>?''
      @ ''@ABCDEFGHIJKLMNOPQRSTUVWXYZ['' @ [CHR 0x5C] @ '']^_'' @ [CHR 0x60]
      @ ''abcdefghijklmnopqrstuvwxyz{|}~'')"

definition plain_map :: "u8 list" where
  "plain_map =
    [0x00, 0x1b, 0x31, 0x32, 0x33, 0x34, 0x35, 0x36,
     0x37, 0x38, 0x39, 0x30, 0x2d, 0x3d, 0x7f, 0x09,
     0x71, 0x77, 0x65, 0x72, 0x74, 0x79, 0x75, 0x69,
     0x6f, 0x70, 0x5b, 0x5d, 0x0a, 0x02, 0x61, 0x73,
     0x64, 0x66, 0x67, 0x68, 0x6a, 0x6b, 0x6c, 0x3b,
     0x27, 0x60, 0x00, 0x5c, 0x7a, 0x78, 0x63, 0x76,
     0x62, 0x6e, 0x6d, 0x2c, 0x2e, 0x2f, 0x00, 0x0c,
     0x03, 0x20, 0x07, 0x00, 0x01, 0x02, 0x03, 0x04,
     0x05, 0x06, 0x07, 0x08, 0x09, 0x08, 0x09, 0x07,
     0x08, 0x09, 0x0b, 0x04, 0x05, 0x06, 0x0a, 0x01,
     0x02, 0x03, 0x00, 0x10, 0x06, 0x00, 0x3c, 0x0a,
     0x0b, 0x00, 0x00, 0x00, 0x00, 0x00, 0x00, 0x00,
     0x0e, 0x02, 0x0d, 0x1c, 0x01, 0x05, 0x14, 0x03,
     0x18, 0x01, 0x02, 0x17, 0x00, 0x19, 0x15, 0x16,
     0x1a, 0x0c, 0x0d, 0x1b, 0x1c, 0x10, 0x11, 0x1d,
     0x00, 0x00, 0x00, 0x00, 0x00, 0x00, 0x00, 0x00]"

definition handle_scancode :: "u8 \<Rightarrow> con \<Rightarrow> con outcome" where
  "handle_scancode scancode s =
     (if unat scancode < length plain_map
      then let i = plain_map ! unat scancode
           in if 31 < i \<and> i < 127
              then let c = ascii_map ! unat (i - 32)
                   in Inr (myputchar (sint c) (s\<lparr>kbs := add_kbdata c (kbs s)\<rparr>))
              else Inr (s\<lparr>kbs := add_kbdata i (kbs s)\<rparr>)
      else Inl BadIndex)"

text \<open>
  The interrupt handler's loop, once round: \<open>Inr\<close> with the next status, or the end of the loop.
  As the loop is driven by the device, whether it ends depends on the device.
\<close>

definition kbd_byte :: "u8 \<Rightarrow> u8 \<Rightarrow> con \<Rightarrow> con outcome" where
  "kbd_byte status scancode s =
     (if status AND 0x20 \<noteq> 0 then Inr s
      else if scancode < 0x7F then handle_scancode scancode s else Inr s)"

partial_function (option) kbd_loop :: "'d ports \<Rightarrow> u8 \<Rightarrow> 'd \<Rightarrow> con \<Rightarrow> (con \<times> 'd) outcome option" where
  "kbd_loop io status d s =
     (if status AND 1 \<noteq> 0 then
        (case inb io 0x60 d of (scancode, d1) \<Rightarrow>
         (case kbd_byte status scancode s of
            Inl e \<Rightarrow> Some (Inl e)
          | Inr s1 \<Rightarrow> (case inb io 0x64 d1 of (status', d2) \<Rightarrow> kbd_loop io status' d2 s1)))
      else Some (Inr (s, d)))"

definition kbd_handler :: "'d ports \<Rightarrow> 'd \<Rightarrow> con \<Rightarrow> (con \<times> 'd) outcome option" where
  "kbd_handler io d s = (case inb io 0x64 d of (status, d1) \<Rightarrow> kbd_loop io status d1 s)"

definition init_kbd :: "'d ports \<Rightarrow> 'd \<Rightarrow> con \<Rightarrow> (con \<times> 'd) outcome" where
  "init_kbd io d s =
     (let s1 = s\<lparr>kbs := init_kbdata (kbs s)\<rparr>;
          d1 = outb io 0x64 0xAE d;
          d2 = outb io 0x64 0x20 d1
      in case inb io 0x60 d2 of (status, d3) \<Rightarrow>
         bindE (print ''kdb status:%x\<newline>'' [AWord (ucast status)] s1) (\<lambda>(n, s2).
         Inr (s2, outb io 0x60 (status OR 0x01) (outb io 0x64 0x60 d3))))"

definition init_console :: "'d ports \<Rightarrow> 'd \<Rightarrow> con \<Rightarrow> (con \<times> 'd) outcome" where
  "init_console io d s = init_kbd io d (init_vga s)"


section \<open>The screen as a list of bytes\<close>

text \<open>
  The abstract screen: the 3840 bytes of 24 rows of 80 cells (a character and its attribute), and
  the cursor.
\<close>

record display =
  cells :: "u8 list"
  col :: nat
  row :: nat

definition display_of :: "con \<Rightarrow> display" where
  "display_of s = \<lparr>cells = load_bytes (vmem s) VIDEO 3840, col = nat (xpos s), row = nat (ypos s)\<rparr>"

definition con_inv :: "con \<Rightarrow> bool" where
  "con_inv s \<longleftrightarrow> video s = VIDEO \<and> 0 \<le> xpos s \<and> xpos s < 80 \<and> 0 \<le> ypos s \<and> ypos s < 24"

text \<open>A new line: the cursor goes to the start of the next row; behind the last row, all rows move
  up by one and the last one is blank.\<close>

definition line_feed :: "display \<Rightarrow> display" where
  "line_feed t =
     (if row t = 23 then t\<lparr>cells := drop 160 (cells t) @ replicate 160 0, col := 0\<rparr>
      else t\<lparr>col := 0, row := row t + 1\<rparr>)"

definition put_cell :: "u8 \<Rightarrow> display \<Rightarrow> display" where
  "put_cell b t =
     (let k = 2 * (row t * 80 + col t);
          t' = t\<lparr>cells := (cells t)[k := b, k + 1 := 7], col := col t + 1\<rparr>
      in if col t' = 80 then line_feed t' else t')"

definition put_display :: "int \<Rightarrow> display \<Rightarrow> display" where
  "put_display c t = (if c = 10 \<or> c = 13 then line_feed t else put_cell (word_of_int c) t)"

lemma clear_video_bytes:
  "lo \<le> hi \<Longrightarrow> hi \<le> n \<Longrightarrow> n \<le> 2 ^ 64 \<Longrightarrow>
   load_bytes (clear_video lo hi v m) v n = take lo (load_bytes m v n) @ replicate (hi - lo) 0 @ drop hi (load_bytes m v n)"
proof (induction "hi - lo" arbitrary: hi)
  case 0
  then show ?case by (simp add: clear_video_def)
next
  case (Suc k)
  then obtain h where h: "hi = Suc h" "lo \<le> h" by (cases hi) auto
  have "clear_video lo hi v m = (clear_video lo h v m)(v + of_nat h := 0)"
    using h by (simp add: clear_video_def)
  then have "load_bytes (clear_video lo hi v m) v n = (load_bytes (clear_video lo h v m) v n)[h := 0]"
    using load_bytes_upd [of n h] Suc.prems h by simp
  also have "load_bytes (clear_video lo h v m) v n
      = take lo (load_bytes m v n) @ replicate (h - lo) 0 @ drop h (load_bytes m v n)"
    using Suc h by (intro Suc.hyps(1)) auto
  also have "drop h (load_bytes m v n) = load_bytes m v n ! h # drop hi (load_bytes m v n)"
    using Suc.prems h by (simp add: Cons_nth_drop_Suc)
  finally show ?case using h Suc.prems
    by (simp add: list_update_append Suc_diff_le replicate_append_same [symmetric])
qed

lemma clear_video_frame:
  "hi \<le> 2 ^ 64 \<Longrightarrow> hi \<le> unat (a - v) \<Longrightarrow> clear_video lo hi v m a = m a"
proof (induction "hi - lo" arbitrary: hi)
  case 0
  then show ?case by (simp add: clear_video_def)
next
  case (Suc k)
  then obtain h where h: "hi = Suc h" "lo \<le> h" by (cases hi) auto
  have "unat (of_nat h :: u64) = h" using Suc.prems h by (simp add: unat_of_nat_small)
  then have "a \<noteq> v + of_nat h" using Suc.prems h by auto
  then show ?case using Suc h by (auto simp: clear_video_def)
qed

lemma newline_display:
  assumes inv: "con_inv s"
  shows "display_of (newline s) = line_feed (display_of s)"
    and "con_inv (newline s)"
    and "\<forall>a. 3840 \<le> unat (a - VIDEO) \<longrightarrow> vmem (newline s) a = vmem s a"
    and "kbs (newline s) = kbs s"
proof -
  have v: "video s = VIDEO" using inv by (simp add: con_inv_def)
  let ?L = "load_bytes (vmem s) VIDEO 3840"
  have "unat (VIDEO - (VIDEO + 160)) = 2 ^ 64 - 160" by (simp add: VIDEO_def)
  then have "memcpy (vmem s) VIDEO (VIDEO + 80 * 2) 3680
      = store_bytes (vmem s) VIDEO (load_bytes (vmem s) (VIDEO + 160) 3680)"
    using memcpy_store [of VIDEO "VIDEO + 160" 3680 "vmem s"] by simp
  also have "load_bytes (vmem s) (VIDEO + 160) 3680 = drop 160 ?L"
    using load_bytes_drop [of "vmem s" VIDEO 160 3680] by simp
  finally have mc: "memcpy (vmem s) VIDEO (VIDEO + 80 * 2) 3680 = store_bytes (vmem s) VIDEO (drop 160 ?L)" .
  have cl: "load_bytes (clear_video 3680 3840 VIDEO (store_bytes (vmem s) VIDEO (drop 160 ?L))) VIDEO 3840
      = drop 160 ?L @ replicate 160 0"
    by (simp add: clear_video_bytes load_store_bytes_prefix)
  have out: "clear_video 3680 3840 VIDEO (store_bytes (vmem s) VIDEO (drop 160 ?L)) a = vmem s a"
    if "3840 \<le> unat (a - VIDEO)" for a
    using that by (simp add: clear_video_frame store_bytes_def)
  have mc': "memcpy (vmem s) (video s) (video s + 80 * 2) ((80 * 24 - 80) * 2) = store_bytes (vmem s) VIDEO (drop 160 ?L)"
    using mc v by simp
  show "display_of (newline s) = line_feed (display_of s)"
    using inv v mc' cl by (auto simp: newline_def Let_def line_feed_def display_of_def con_inv_def)
  show "con_inv (newline s)" using inv by (auto simp: newline_def Let_def con_inv_def)
  show "\<forall>a. 3840 \<le> unat (a - VIDEO) \<longrightarrow> vmem (newline s) a = vmem s a"
    using v mc' out by (auto simp: newline_def Let_def)
  show "kbs (newline s) = kbs s" by (simp add: newline_def Let_def)
qed

lemma put_frame: "i < 3840 \<Longrightarrow> 3840 \<le> unat (a - VIDEO) \<Longrightarrow> a \<noteq> VIDEO + of_nat i"
  using unat_of_nat_small [of i, where ?'a = 64] by auto

lemma myputchar_display:
  assumes inv: "con_inv s"
  shows "display_of (myputchar c s) = put_display c (display_of s)"
    and "con_inv (myputchar c s)"
    and "\<forall>a. 3840 \<le> unat (a - VIDEO) \<longrightarrow> vmem (myputchar c s) a = vmem s a"
    and "kbs (myputchar c s) = kbs s"
proof -
  define k where "k = 2 * (nat (ypos s) * 80 + nat (xpos s))"
  have xy: "0 \<le> xpos s" "xpos s < 80" "0 \<le> ypos s" "ypos s < 24" and v: "video s = VIDEO"
    using inv by (simp_all add: con_inv_def)
  have k: "(xpos s + ypos s * 80) * 2 = int k" using xy by (simp add: k_def algebra_simps)
  have kl: "Suc k < 3840"
  proof -
    have "nat (xpos s) \<le> 79" "nat (ypos s) \<le> 23" using xy by linarith+
    then show ?thesis by (simp add: k_def)
  qed
  let ?m = "(vmem s)(VIDEO + of_nat k := word_of_int c AND 0xFF, VIDEO + of_nat (Suc k) := 7)"
  let ?s = "s\<lparr>vmem := ?m, xpos := xpos s + 1\<rparr>"
  have ff: "(word_of_int c :: u8) AND 0xFF = word_of_int c"
  proof -
    have "(0xFF :: u8) = - 1" by simp
    then show ?thesis by (simp only: bit.conj_one_right)
  qed
  have addr: "VIDEO + of_int ((xpos s + ypos s * 80) * 2) = VIDEO + of_nat k"
    "VIDEO + of_int ((xpos s + ypos s * 80) * 2 + 1) = VIDEO + of_nat (Suc k)"
    unfolding k by simp_all
  have p: "myputchar c s = (if c = 10 \<or> c = 13 then newline s else if 80 \<le> xpos s + 1 then newline ?s else ?s)"
    unfolding myputchar_def Let_def v addr by simp
  have b: "load_bytes ?m VIDEO 3840 = (load_bytes (vmem s) VIDEO 3840)[k := word_of_int c, Suc k := 7]"
    using load_bytes_upd [of 3840 "Suc k"] load_bytes_upd [of 3840 k] kl ff by simp
  have fr: "?m a = vmem s a" if "3840 \<le> unat (a - VIDEO)" for a
    using put_frame [OF _ that, of k] put_frame [OF _ that, of "Suc k"] kl by simp
  have nl: "newline ?s = newline (?s\<lparr>xpos := 0\<rparr>)" by (simp add: newline_def)
  have inv0: "con_inv (?s\<lparr>xpos := 0\<rparr>)" using inv by (simp add: con_inv_def)
  note n = newline_display [OF inv] newline_display [OF inv0]
  have d: "display_of ?s = (display_of s)\<lparr>cells := (cells (display_of s))[k := word_of_int c, Suc k := 7],
      col := col (display_of s) + 1\<rparr>"
    using b xy by (simp add: display_of_def nat_add_distrib)
  have d0: "display_of (?s\<lparr>xpos := 0\<rparr>) = (display_of ?s)\<lparr>col := 0\<rparr>"
    by (simp add: display_of_def)
  have d1: "line_feed (display_of (?s\<lparr>xpos := 0\<rparr>)) = line_feed (display_of ?s)"
    by (simp only: d0) (simp add: line_feed_def)
  have full: "col (display_of s) + 1 = 80 \<longleftrightarrow> 80 \<le> xpos s + 1" using xy by (auto simp: display_of_def)
  have kk: "2 * (row (display_of s) * 80 + col (display_of s)) = k" by (simp add: k_def display_of_def)
  have cell: "put_cell (word_of_int c) (display_of s)
      = (if 80 \<le> xpos s + 1 then line_feed (display_of ?s) else display_of ?s)"
    unfolding put_cell_def Let_def kk d Suc_eq_plus1 [symmetric] using full by simp
  have "display_of (if 80 \<le> xpos s + 1 then newline ?s else ?s) = put_cell (word_of_int c) (display_of s)"
    unfolding cell using n(5) nl d1 by (simp only: split: if_split) simp
  then show "display_of (myputchar c s) = put_display c (display_of s)"
    unfolding p put_display_def using n(1) by (simp only: split: if_split) simp
  show "con_inv (myputchar c s)"
    unfolding p using n(2,6) nl inv by (auto simp: con_inv_def)
  show "\<forall>a. 3840 \<le> unat (a - VIDEO) \<longrightarrow> vmem (myputchar c s) a = vmem s a"
    unfolding p using n(3,7) nl fr by auto
  show "kbs (myputchar c s) = kbs s"
    unfolding p using n(4,8) nl by auto
qed


section \<open>What is printed\<close>

definition puts :: "int list \<Rightarrow> con \<Rightarrow> con" where
  "puts cs s = fold myputchar cs s"

lemma puts_simps [simp, con_simps]: "puts [] s = s" "puts (c # cs) s = puts cs (myputchar c s)"
  "puts (xs @ ys) s = puts ys (puts xs s)"
  by (simp_all add: puts_def)

definition code_of :: "char \<Rightarrow> int" where
  "code_of c = sint (of_char c :: u8)"

lemma putc_puts: "putc c s = puts [code_of c] s"
  by (simp add: putc_def code_of_def)

lemma fold_putc: "fold putc t s = puts (map code_of t) s"
  by (induction t arbitrary: s) (simp_all add: putc_puts)

text \<open>Output that depends on the arguments only: what is written, and how many characters, are
  the same whatever the state of the screen.\<close>

definition out_of :: "(fault + 'x \<times> int list) \<Rightarrow> con \<Rightarrow> ('x \<times> int \<times> con) outcome" where
  "out_of r s = (case r of Inl e \<Rightarrow> Inl e | Inr (x, cs) \<Rightarrow> Inr (x, int (length cs), puts cs s))"

lemma out_of_simps [simp]: "out_of (Inl e) s = Inl e" "out_of (Inr (x, cs)) s = Inr (x, int (length cs), puts cs s)"
  by (simp_all add: out_of_def)

definition loop_out :: "(fault + int list) \<Rightarrow> int \<Rightarrow> con \<Rightarrow> (int \<times> con) outcome" where
  "loop_out r num s = (case r of Inl e \<Rightarrow> Inl e | Inr cs \<Rightarrow> Inr (num + int (length cs), puts cs s))"

lemma loop_out_simps [simp]: "loop_out (Inl e) num s = Inl e"
  "loop_out (Inr cs) num s = Inr (num + int (length cs), puts cs s)"
  by (simp_all add: loop_out_def)

lemma unsigned_recursion_out:
  "\<exists>r. \<forall>s. unsigned_recursion v base s = loop_out r 0 s"
proof (induction "unat v" arbitrary: v rule: less_induct)
  case less
  let ?b = "scast base :: u64"
  consider "v < ?b" | "\<not> v < ?b" "?b = 0" | "\<not> v < ?b" "?b = 1" | "\<not> v < ?b" "?b \<noteq> 0" "?b \<noteq> 1" by blast
  then show ?case
  proof cases
    case 1
    show ?thesis
    proof (cases "strtab_at (unat (v mod ?b))")
      case (Inl e)
      with 1 show ?thesis by (intro exI [of _ "Inl e"]) (simp add: unsigned_recursion.simps [of v])
    next
      case (Inr t)
      with 1 show ?thesis by (intro exI [of _ "Inr [sint t]"]) (simp add: unsigned_recursion.simps [of v])
    qed
  next
    case 2
    then show ?thesis by (intro exI [of _ "Inl DivideError"]) (simp add: unsigned_recursion.simps [of v])
  next
    case 3
    then show ?thesis by (intro exI [of _ "Inl Hang"]) (simp add: unsigned_recursion.simps [of v])
  next
    case 4
    from less [of "v div ?b"] div_word_less [OF 4] obtain r where
      r: "\<And>s. unsigned_recursion (v div ?b) base s = loop_out r 0 s" by blast
    show ?thesis
    proof (cases "strtab_at (unat (v mod ?b))")
      case (Inl e)
      with 4 show ?thesis by (intro exI [of _ "Inl e"]) (simp add: unsigned_recursion.simps [of v])
    next
      case (Inr t)
      show ?thesis
      proof (cases r)
        case (Inl e)
        with 4 Inr r show ?thesis by (intro exI [of _ "Inl e"]) (simp add: unsigned_recursion.simps [of v])
      next
        case Rr: (Inr cs)
        with 4 Inr r show ?thesis
          by (intro exI [of _ "Inr (cs @ [sint t])"]) (simp add: unsigned_recursion.simps [of v])
      qed
    qed
  qed
qed

lemma out_cases:
  obtains e where "r = Inl e" | x cs where "r = Inr (x, cs)"
  by (cases r) auto

lemma print_d_out: "\<exists>r. \<forall>s. print_d l args s = out_of r s"
proof (cases "va_word args")
  case (Inl e)
  then show ?thesis by (intro exI [of _ "Inl e"]) (simp add: print_d_def)
next
  case (Inr wa)
  then obtain w as where w: "va_word args = Inr (w, as)" by (cases wa) simp
  define v where "v = (if l = 0 then (if sint (ucast w :: u32) < 0 then scast (- (ucast w :: u32)) else scast (ucast w :: u32))
     else if sint w < 0 then - w else w :: u64)"
  define neg where "neg \<longleftrightarrow> (if l = 0 then sint (ucast w :: u32) < 0 else sint w < 0)"
  obtain r where r: "\<And>s. unsigned_recursion v 10 s = loop_out r 0 s"
    using unsigned_recursion_out by blast
  have p: "print_d l args s = (if neg then bindE (unsigned_recursion v 10 (putc (CHR ''-'') s)) (\<lambda>(n, s'). Inr (as, 1 + n, s'))
      else bindE (unsigned_recursion v 10 s) (\<lambda>(n, s'). Inr (as, n, s')))" for s
    by (simp add: print_d_def w v_def neg_def Let_def)
  show ?thesis
  proof (cases r)
    case (Inl e)
    then show ?thesis by (intro exI [of _ "Inl e"]) (simp add: p r)
  next
    case (Inr cs)
    then show ?thesis
      by (intro exI [of _ "Inr (as, (if neg then [code_of (CHR ''-'')] else []) @ cs)"]) (simp add: p r putc_puts)
  qed
qed

lemma print_u_out: "\<exists>r. \<forall>s. print_u base l args s = out_of r s"
proof (cases "va_word args")
  case (Inl e)
  then show ?thesis by (intro exI [of _ "Inl e"]) (simp add: print_u_def)
next
  case (Inr wa)
  then obtain w as where w: "va_word args = Inr (w, as)" by (cases wa) simp
  obtain r where r: "\<And>s. unsigned_recursion (if l = 0 then ucast (ucast w :: u32) else w) base s
      = loop_out r 0 s"
    using unsigned_recursion_out by blast
  show ?thesis
  proof (cases r)
    case (Inl e)
    then show ?thesis by (intro exI [of _ "Inl e"]) (simp add: print_u_def w r)
  next
    case (Inr cs)
    then show ?thesis by (intro exI [of _ "Inr (as, cs)"]) (simp add: print_u_def w r)
  qed
qed

lemma print_s_out: "\<exists>r. \<forall>s. print_s args s = out_of r s"
proof (cases "va_string args")
  case (Inl e)
  then show ?thesis by (intro exI [of _ "Inl e"]) (simp add: print_s_def)
next
  case (Inr ta)
  then obtain t as where "va_string args = Inr (t, as)" by (cases ta) simp
  then show ?thesis by (intro exI [of _ "Inr (as, map code_of t)"]) (simp add: print_s_def fold_putc)
qed

lemma loop_out_step:
  assumes f: "\<exists>r. \<forall>s. f s = out_of r s" and IH: "\<And>args'. \<exists>r. \<forall>num s. g args' num s = loop_out r num s"
  shows "\<exists>r. \<forall>num s. bindE (f s) (\<lambda>(args', n, s'). g args' (num + n) s') = loop_out r num s"
proof -
  obtain r where r: "\<And>s. f s = out_of r s" using f by blast
  show ?thesis
  proof (cases r rule: out_cases)
    case (1 e)
    then show ?thesis by (intro exI [of _ "Inl e"]) (simp add: r loop_out_def)
  next
    case (2 x cs)
    obtain r' where r': "\<And>num s. g x num s = loop_out r' num s" using IH by blast
    show ?thesis
      by (intro exI [of _ "case r' of Inl e \<Rightarrow> Inl e | Inr cs' \<Rightarrow> Inr (cs @ cs')"])
        (simp add: r 2 r' loop_out_def split: sum.split)
  qed
qed

lemma if_out:
  assumes "\<exists>r. \<forall>num s. f num s = loop_out r num s" and "\<exists>r. \<forall>num s. g num s = loop_out r num s"
  shows "\<exists>r. \<forall>num s. (if b then f num s else g num s) = loop_out r num s"
  using assms by (cases b) simp_all

lemma print_loop_out: "\<exists>r. \<forall>num s. print_loop fmt args l p num s = loop_out r num s"
proof (induction fmt arbitrary: args l p)
  case Nil
  show ?case by (rule exI [of _ "Inr []"]) (simp add: loop_out_def)
next
  case (Cons c fmt)
  have plain: "\<exists>r. \<forall>num s. print_loop fmt args l p (num + 1) (putc c s) = loop_out r num s"
  proof -
    obtain r where "\<And>num s. print_loop fmt args l p num s = loop_out r num s" using Cons by blast
    then show ?thesis
      by (intro exI [of _ "case r of Inl e \<Rightarrow> Inl e | Inr cs \<Rightarrow> Inr (code_of c # cs)"])
        (simp add: loop_out_def putc_puts split: sum.split)
  qed
  show ?case
    unfolding print_loop.simps
    by (intro if_out Cons plain loop_out_step [OF print_d_out Cons] loop_out_step [OF print_u_out Cons]
      loop_out_step [OF print_s_out Cons])
qed

section \<open>Numbers\<close>

text \<open>The canonical digit string of a number: digits below the base, most significant first, and
  no leading zero except for 0 itself.\<close>

definition numeral_of :: "nat \<Rightarrow> nat \<Rightarrow> nat list \<Rightarrow> bool" where
  "numeral_of b n ds \<longleftrightarrow> ds \<noteq> [] \<and> (\<forall>d \<in> set ds. d < b) \<and> foldl (\<lambda>a d. a * b + d) 0 ds = n
     \<and> (hd ds = 0 \<longrightarrow> ds = [0])"

lemma numeral_of_snoc: "numeral_of b (n div b) ds \<Longrightarrow> b \<le> n \<Longrightarrow> 0 < b \<Longrightarrow> numeral_of b n (ds @ [n mod b])"
proof -
  assume n: "numeral_of b (n div b) ds" "b \<le> n" "0 < b"
  have "n div b \<noteq> 0" using n by (simp add: div_greater_zero_iff)
  with n show ?thesis by (auto simp: numeral_of_def)
qed

definition digit :: "nat \<Rightarrow> int" where
  "digit d = code_of (strtab ! d)"

lemma scast_base: "k \<le> 16 \<Longrightarrow> unat (scast (of_nat k :: u32) :: u64) = k"
proof -
  assume "k \<le> 16"
  then have "k \<in> set [0..<17]" by simp
  then show ?thesis by (simp add: upt_rec [of _ 17] del: set_upt) (elim disjE; simp)
qed

lemma unsigned_recursion_digits:
  assumes b: "2 \<le> b" "b \<le> 16"
  shows "\<exists>ds. numeral_of b (unat v) ds
     \<and> (\<forall>s. unsigned_recursion v (of_nat b) s = Inr (int (length ds), puts (map digit ds) s))"
proof (induction "unat v" arbitrary: v rule: less_induct)
  case less
  let ?b = "scast (of_nat b :: u32) :: u64"
  have ub: "unat ?b = b" using scast_base b by simp
  have "unat v mod b < b" using b by simp
  then have "unat v mod b < 16" using b by linarith
  then have st: "strtab_at (unat (v mod ?b)) = Inr (of_char (strtab ! (unat v mod b)))"
    using ub b by (simp add: strtab_at_def unat_mod)
  show ?case
  proof (cases "v < ?b")
    case True
    then have "unat v < b" by (simp add: word_less_nat_alt ub)
    then show ?thesis using st True
      by (intro exI [of _ "[unat v]"]) (simp add: numeral_of_def unsigned_recursion.simps [of v] digit_def code_of_def)
  next
    case False
    have nz: "?b \<noteq> 0" "?b \<noteq> 1" using ub b by auto
    have le: "b \<le> unat v" using False by (simp add: word_less_nat_alt ub)
    from less [OF div_word_less [OF False nz]] obtain ds where
      ds: "numeral_of b (unat v div b) ds"
        "\<And>s. unsigned_recursion (v div ?b) (of_nat b) s = Inr (int (length ds), puts (map digit ds) s)"
      by (auto simp: unat_div ub)
    then show ?thesis using st False nz le b numeral_of_snoc [OF ds(1) le]
      by (intro exI [of _ "ds @ [unat v mod b]"])
        (simp add: unsigned_recursion.simps [of v] digit_def code_of_def)
  qed
qed


section \<open>The keyboard buffer as a queue\<close>

text \<open>
  The contract of a bounded first-in first-out buffer: what an element adds to the contents while
  there is room, and what a read takes away.
\<close>

locale bounded_fifo =
  fixes put :: "'e \<Rightarrow> 's \<Rightarrow> 's"
    and get :: "'s \<Rightarrow> 'r \<times> 's"
    and held :: "'s \<Rightarrow> 'e list"
    and inv :: "'s \<Rightarrow> bool"
    and cap :: nat
    and reading :: "'e \<Rightarrow> 'r"
    and nothing :: 'r
  assumes put_held: "inv s \<Longrightarrow> length (held s) < cap \<Longrightarrow> inv (put x s) \<and> held (put x s) = held s @ [x]"
    and get_nothing: "inv s \<Longrightarrow> held s = [] \<Longrightarrow> get s = (nothing, s)"
    and get_held: "inv s \<Longrightarrow> held s = x # xs \<Longrightarrow> \<exists>s'. get s = (reading x, s') \<and> inv s' \<and> held s' = xs"

fun get_times :: "('s \<Rightarrow> 'r \<times> 's) \<Rightarrow> nat \<Rightarrow> 's \<Rightarrow> 'r list \<times> 's" where
  "get_times get 0 s = ([], s)"
| "get_times get (Suc n) s =
     (case get s of (r, s') \<Rightarrow> (case get_times get n s' of (rs, s'') \<Rightarrow> (r # rs, s'')))"

context bounded_fifo
begin

lemma put_all:
  "inv s \<Longrightarrow> length (held s) + length xs \<le> cap \<Longrightarrow> inv (fold put xs s) \<and> held (fold put xs s) = held s @ xs"
proof (induction xs arbitrary: s)
  case (Cons x xs)
  then show ?case using put_held [of s x] Cons.IH [of "put x s"] by simp
qed simp

lemma get_all:
  "inv s \<Longrightarrow> held s = xs \<Longrightarrow>
   \<exists>s'. get_times get (length xs + n) s = (map reading xs @ replicate n nothing, s') \<and> inv s' \<and> held s' = []"
proof (induction xs arbitrary: s)
  case Nil
  have "get_times get n s = (replicate n nothing, s)"
    by (induction n) (simp_all add: get_nothing [OF Nil])
  then show ?case using Nil by simp
next
  case (Cons x xs)
  from get_held [OF Cons.prems] obtain s1 where s1: "get s = (reading x, s1)" "inv s1" "held s1 = xs" by blast
  from Cons.IH [OF s1(2,3)] s1(1) show ?case by auto
qed

lemma through_the_buffer:
  assumes "inv s" "held s = []" "length xs \<le> cap"
  shows "fst (get_times get (length xs + n) (fold put xs s)) = map reading xs @ replicate n nothing"
  using put_all [OF assms(1), of xs] get_all [of "fold put xs s" xs n] assms by auto

end

definition kb_inv :: "kbstate \<Rightarrow> bool" where
  "kb_inv k \<longleftrightarrow> length (buf k) = 1024 \<and> unat (rpos k) < 1024 \<and> unat (wpos k) < 1024"

definition kb_size :: "kbstate \<Rightarrow> nat" where
  "kb_size k = (unat (wpos k) + 1024 - unat (rpos k)) mod 1024"

definition kb_contents :: "kbstate \<Rightarrow> u8 list" where
  "kb_contents k = map (\<lambda>i. buf k ! ((unat (rpos k) + i) mod 1024)) [0..<kb_size k]"

lemma unat_next: "unat (x :: u32) < 1024 \<Longrightarrow> unat ((x + 1) mod 1024) = (unat x + 1) mod 1024"
  by (simp add: unat_mod unat_word_ariths)

lemma length_kb_contents [simp]: "length (kb_contents k) = kb_size k"
  by (simp add: kb_contents_def)

lemma kb_size_less: "kb_size k < 1024"
  by (simp add: kb_size_def)

lemma kb_wpos: "kb_inv k \<Longrightarrow> (unat (rpos k) + kb_size k) mod 1024 = unat (wpos k)"
  by (simp add: kb_inv_def kb_size_def mod_add_right_eq)

lemma wrap_1024: "x < 2048 \<Longrightarrow> x mod 1024 = (if x < 1024 then x else x - (1024 :: nat))"
  by (simp add: le_mod_geq)

lemma wrap_inj:
  assumes "r < 1024" "i < 1024" "j < 1024" and "(r + i) mod 1024 = (r + j) mod (1024 :: nat)"
  shows "i = j"
proof -
  have "r + i < 2048" "r + j < 2048" using assms by auto
  then show ?thesis using assms by (auto simp: wrap_1024 split: if_splits)
qed

text \<open>Positions counted from the read position: the next write position, and one step of the read.\<close>

lemma ring_size:
  assumes "r < 1024" "w < (1024 :: nat)"
  shows "(w + 1024 - r) mod 1024 = (if r \<le> w then w - r else w + 1024 - r)"
proof (cases "r \<le> w")
  case True
  then have "w + 1024 - r = (w - r) + 1024" by simp
  then show ?thesis using True assms by (simp only: mod_add_self2) simp
next
  case False
  then show ?thesis using assms by simp
qed

lemma ring_next: "x < 1024 \<Longrightarrow> (x + 1) mod 1024 = (if x = (1023 :: nat) then 0 else x + 1)"
  by auto

lemma kb_ring_write:
  assumes "r < 1024" "w < 1024" "(w + 1024 - r) mod 1024 < (1023 :: nat)"
  shows "((w + 1) mod 1024 + 1024 - r) mod 1024 = Suc ((w + 1024 - r) mod 1024)"
proof (cases "w = 1023")
  case True
  then have "(w + 1) mod 1024 = 0" by simp
  then show ?thesis using assms True ring_size [OF assms(1), of 0] ring_size [OF assms(1,2)]
    by (cases "r = 0") simp_all
next
  case False
  then have "w + 1 < 1024" "(w + 1) mod 1024 = w + 1" using assms(2) by simp_all
  then show ?thesis
    using assms(1,3) ring_size [OF assms(1), of "w + 1"] ring_size [OF assms(1,2)]
    by (cases "r \<le> w"; cases "r = w + 1") simp_all
qed

lemma kb_ring_read:
  assumes "r < 1024" "w < 1024" "r \<noteq> (w :: nat)"
  shows "(w + 1024 - r) mod 1024 = Suc ((w + 1024 - (r + 1) mod 1024) mod 1024)"
proof (cases "r = 1023")
  case True
  then have "(r + 1) mod 1024 = 0" by simp
  then show ?thesis using assms True ring_size [OF _ assms(2), of 0] ring_size [OF assms(1,2)] by simp
next
  case False
  then have "r + 1 < 1024" "(r + 1) mod 1024 = r + 1" using assms(1) by simp_all
  then show ?thesis
    using assms(3) ring_size [OF _ assms(2), of "r + 1"] ring_size [OF assms(1,2)]
    by (cases "r \<le> w") simp_all
qed

lemma add_kbdata_fields:
  assumes "kb_inv k"
  shows "unat (wpos (add_kbdata x k)) = (unat (wpos k) + 1) mod 1024" "rpos (add_kbdata x k) = rpos k"
    "buf (add_kbdata x k) = (buf k)[unat (wpos k) := x]" "kb_inv (add_kbdata x k)"
  using assms by (simp_all add: add_kbdata_def unat_next kb_inv_def)

lemma add_kbdata_room:
  assumes inv: "kb_inv k" and room: "kb_size k < 1023"
  shows "kb_contents (add_kbdata x k) = kb_contents k @ [x]"
proof -
  let ?r = "unat (rpos k)" and ?w = "unat (wpos k)"
  have b: "?r < 1024" "?w < 1024" "length (buf k) = 1024" using inv by (simp_all add: kb_inv_def)
  note w = add_kbdata_fields [OF inv, of x]
  have sz: "kb_size (add_kbdata x k) = Suc (kb_size k)"
    using kb_ring_write [OF b(1,2)] room unfolding kb_size_def w(1,2) by simp
  have other: "(?r + i) mod 1024 \<noteq> ?w" if "i < kb_size k" for i
  proof
    assume "(?r + i) mod 1024 = ?w"
    then have "(?r + i) mod 1024 = (?r + kb_size k) mod 1024" using kb_wpos [OF inv] by simp
    then show False using wrap_inj [OF b(1), of i "kb_size k"] that room by simp
  qed
  have upd: "(buf k)[?w := x] ! ((?r + i) mod 1024) = buf k ! ((?r + i) mod 1024)" if "i < kb_size k" for i
    using other [OF that] by (metis nth_list_update_neq)
  show ?thesis
    unfolding kb_contents_def sz w(2,3) using b kb_wpos [OF inv] upd by simp
qed

lemma get_kbdata_empty: "kb_inv k \<Longrightarrow> kb_contents k = [] \<Longrightarrow> get_kbdata k = (- 1, k)"
proof -
  assume "kb_inv k" "kb_contents k = []"
  then have "unat (rpos k) < 1024" "kb_size k = 0" by (simp_all add: kb_inv_def kb_contents_def)
  then have "unat (wpos k) = unat (rpos k)" using kb_wpos [OF \<open>kb_inv k\<close>] by simp
  then show ?thesis by (simp add: get_kbdata_def word_unat_eq_iff)
qed

lemma get_kbdata_held:
  assumes inv: "kb_inv k" and c: "kb_contents k = x # xs"
  shows "\<exists>k'. get_kbdata k = (uint x, k') \<and> kb_inv k' \<and> kb_contents k' = xs"
proof -
  let ?r = "unat (rpos k)" and ?w = "unat (wpos k)" and ?k = "k\<lparr>rpos := (rpos k + 1) mod 1024\<rparr>"
  have b: "?r < 1024" "?w < 1024" using inv by (simp_all add: kb_inv_def)
  have "kb_size k \<noteq> 0" using c by (metis length_kb_contents list.size(3) list.distinct(1) length_0_conv)
  then have ne: "?r \<noteq> ?w" using b by (auto simp: kb_size_def)
  have r: "unat ((rpos k + 1) mod 1024) = (?r + 1) mod 1024" using b by (simp add: unat_next)
  have sz: "kb_size k = Suc (kb_size ?k)"
    using kb_ring_read [OF b ne] by (simp add: kb_size_def r)
  have shift: "Suc (?r + i) mod 1024 = (Suc ?r mod 1024 + i) mod 1024" for i
    by (simp add: mod_simps)
  have "kb_contents k = buf k ! ?r # kb_contents ?k"
    unfolding kb_contents_def sz using b
    by (simp add: upt_conv_Cons map_Suc_upt [symmetric] r shift o_def del: upt_Suc)
  moreover have "rpos k \<noteq> wpos k" using ne by auto
  ultimately show ?thesis using c inv r by (auto simp: get_kbdata_def kb_inv_def)
qed

interpretation kb: bounded_fifo add_kbdata get_kbdata kb_contents kb_inv 1023 uint "- 1"
proof
  show "kb_inv (add_kbdata x s) \<and> kb_contents (add_kbdata x s) = kb_contents s @ [x]"
    if "kb_inv s" "length (kb_contents s) < 1023" for s x
    using add_kbdata_fields(4) add_kbdata_room that by simp
qed (rule get_kbdata_empty get_kbdata_held; assumption)+


text \<open>Signed values: what \<open>%d\<close> hands to \<open>unsigned_recursion\<close>.\<close>

lemma unat_scast_nonneg: "0 \<le> sint (v :: u32) \<Longrightarrow> unat (scast v :: u64) = nat (sint v)"
proof -
  assume v: "0 \<le> sint v"
  have "sint v < 2 ^ 31" using sint_lt [of v] by simp
  then have "sint v mod 2 ^ LENGTH(64) = sint v" using v by simp
  then have "uint (word_of_int (sint v) :: u64) = sint v" by (simp only: uint_word_of_int)
  then show ?thesis by (simp only: scast_eq unat_eq_nat_uint)
qed

lemma sint_uminus: "sint (v :: u32) \<noteq> - (2 ^ 31) \<Longrightarrow> sint (- v) = - sint v"
proof -
  assume v: "sint v \<noteq> - (2 ^ 31)"
  have "- (2 ^ 31) \<le> sint v" "sint v < 2 ^ 31" using sint_ge [of v] sint_lt [of v] by simp_all
  with v have "signed_take_bit 31 (- sint v) = - sint v" by (intro signed_take_bit_int_eq_self) auto
  then show ?thesis by (simp add: sint_word_ariths)
qed

lemma sint_smallest: "sint (v :: u32) = - (2 ^ 31) \<Longrightarrow> v = 0x80000000"
proof -
  assume "sint v = - (2 ^ 31)"
  then have "word_of_int (sint v) = (word_of_int (- (2 ^ 31)) :: u32)" by simp
  then show ?thesis by simp
qed

lemma itoa_loop_0 [simp]: "itoa_loop i 0 base b = Inr (i + 1, b)"
  by (cases i) simp_all

lemma itoa_loop_digits:
  assumes B: "2 \<le> B" "B \<le> 16"
  shows "unat v < B ^ i \<Longrightarrow> i \<le> 30 \<Longrightarrow> length bs = 32 \<Longrightarrow> v \<noteq> 0 \<Longrightarrow>
    \<exists>ds bs'. itoa_loop i v (of_nat B) bs = Inr (i + 1 - length ds, bs') \<and> numeral_of B (unat v) ds
      \<and> length ds \<le> i \<and> drop (i + 1 - length ds) bs' = map (\<lambda>d. of_char (strtab ! d)) ds @ drop (i + 1) bs"
proof (induction i arbitrary: v bs)
  case 0
  then show ?case by (simp add: unat_eq_0)
next
  case (Suc i)
  let ?t = "of_char (strtab ! (unat v mod B)) :: u8"
  have ub: "unat (of_nat B :: u32) = B" using B by (simp add: unat_of_nat_small)
  then have nz: "(of_nat B :: u32) \<noteq> 0" using B by auto
  have m: "unat v mod B < B" using B by simp
  then have "unat v mod B < 16" using B by linarith
  then have step: "itoa_loop (Suc i) v (of_nat B) bs = itoa_loop i (v div of_nat B) (of_nat B) (bs[Suc i := ?t])"
    using Suc.prems(4) nz by (simp add: strtab_at_def unat_mod ub)
  have dr: "drop (i + 1) (bs[Suc i := ?t]) = ?t # drop (Suc i + 1) bs"
    using Suc.prems(2,3) by (simp add: drop_update_swap Cons_nth_drop_Suc [symmetric])
  have q: "unat (v div of_nat B) = unat v div B" by (simp add: unat_div ub)
  show ?case
  proof (cases "v div of_nat B = 0")
    case True
    then have z: "unat v div B = 0" using q by simp
    then have "numeral_of B (unat v) [unat v mod B]"
      using m B Suc.prems(4) by (auto simp: numeral_of_def div_eq_0_iff unat_eq_0)
    then show ?thesis using step True dr by (intro exI [of _ "[unat v mod B]"]) simp
  next
    case False
    have "unat v div B < B ^ i" using Suc.prems(1) by (simp add: less_mult_imp_div_less mult.commute)
    then obtain ds bs' where ih:
      "itoa_loop i (v div of_nat B) (of_nat B) (bs[Suc i := ?t]) = Inr (i + 1 - length ds, bs')"
      "numeral_of B (unat v div B) ds" "length ds \<le> i"
      "drop (i + 1 - length ds) bs' = map (\<lambda>d. of_char (strtab ! d)) ds @ drop (i + 1) (bs[Suc i := ?t])"
      using Suc.IH [of "v div of_nat B" "bs[Suc i := ?t]"] Suc.prems False q by auto
    have "unat v div B \<noteq> 0" using False q by (metis unat_eq_0)
    then have "B \<le> unat v" by (metis div_less not_le)
    with numeral_of_snoc [OF ih(2)] B have "numeral_of B (unat v) (ds @ [unat v mod B])" by simp
    with ih step dr show ?thesis
      by (intro exI [of _ "ds @ [unat v mod B]"] exI [of _ bs']) (simp add: Suc_diff_le)
  qed
qed

section \<open>Scancodes\<close>

lemma ascii_map_id: "31 < i \<Longrightarrow> i < 127 \<Longrightarrow> ascii_map ! unat (i - 32) = (i :: u8)"
proof -
  assume i: "31 < i" "i < 127"
  have all: "\<forall>n \<in> set [0..<95]. ascii_map ! n = of_nat (n + 32)" unfolding ascii_map_def by code_simp
  have l: "31 < unat i" "unat i < 127" using i by (simp_all add: word_less_nat_alt)
  then have "unat (i - 32) = unat i - 32" by (subst unat_sub) (simp_all add: word_le_nat_alt)
  moreover have "ascii_map ! (unat i - 32) = of_nat (unat i - 32 + 32)" using all l by (simp del: set_upt) auto
  ultimately show ?thesis using l by simp
qed

lemma length_plain_map [simp]: "length plain_map = 128"
  by (simp add: plain_map_def)

definition key_of :: "u8 \<Rightarrow> u8" where
  "key_of sc = plain_map ! unat sc"

definition echo :: "u8 \<Rightarrow> con \<Rightarrow> con" where
  "echo i s = (if 31 < i \<and> i < 127 then myputchar (sint i) s else s)"

lemma handle_scancode_key:
  "unat sc < 128 \<Longrightarrow> handle_scancode sc s = Inr (echo (key_of sc) (s\<lparr>kbs := add_kbdata (key_of sc) (kbs s)\<rparr>))"
  by (simp add: handle_scancode_def Let_def echo_def key_of_def ascii_map_id)

lemma myputchar_kbs [simp]: "kbs (myputchar c s) = kbs s"
  by (simp add: myputchar_def newline_def Let_def)

lemma echo_kbs [simp]: "kbs (echo i s) = kbs s"
  by (simp add: echo_def)

text \<open>
  The documented behaviour of the keyboard controller: bit 0 of the status port says whether a
  byte is waiting, bit 5 whether it comes from the auxiliary device, and reading the data port
  takes that byte.  \<open>pending\<close> lists the bytes that wait, each with its source.
\<close>

definition i8042 :: "'d ports \<Rightarrow> ('d \<Rightarrow> (bool \<times> u8) list) \<Rightarrow> bool" where
  "i8042 io pending \<longleftrightarrow>
     (\<forall>d st d'. inb io 0x64 d = (st, d') \<longrightarrow> pending d' = pending d
        \<and> (st AND 1 \<noteq> 0 \<longleftrightarrow> pending d \<noteq> [])
        \<and> (pending d \<noteq> [] \<longrightarrow> (st AND 0x20 \<noteq> 0 \<longleftrightarrow> fst (hd (pending d)))))
     \<and> (\<forall>d p ps. pending d = p # ps \<longrightarrow> fst (inb io 0x60 d) = snd p \<and> pending (snd (inb io 0x60 d)) = ps)"

lemma i8042_status:
  assumes "i8042 io pending" and "inb io 0x64 d = (st, d')"
  shows "pending d' = pending d" and "(st AND 1 \<noteq> 0) = (pending d \<noteq> [])"
    and "pending d \<noteq> [] \<Longrightarrow> (st AND 0x20 \<noteq> 0) = fst (hd (pending d))"
  using assms by (simp_all add: i8042_def)

lemma i8042_data:
  assumes "i8042 io pending" and "pending d = p # ps"
  shows "fst (inb io 0x60 d) = snd p" and "pending (snd (inb io 0x60 d)) = ps"
  using assms unfolding i8042_def by blast+

text \<open>The keys among the waiting bytes: those of the keyboard that are key presses.\<close>

definition keys :: "(bool \<times> u8) list \<Rightarrow> u8 list" where
  "keys ps = map (key_of \<circ> snd) (filter (\<lambda>p. \<not> fst p \<and> snd p < 0x7F) ps)"

lemma kbd_byte_key:
  "(st AND 0x20 \<noteq> 0) = aux \<Longrightarrow>
   \<exists>s'. kbd_byte st sc s = Inr s' \<and> kbs s' = fold add_kbdata (keys [(aux, sc)]) (kbs s)"
  by (auto simp: kbd_byte_def keys_def handle_scancode_key word_less_nat_alt)

lemma keys_Cons: "keys (p # ps) = keys [p] @ keys ps"
  by (simp add: keys_def)

lemma kbd_loop_keys:
  assumes io: "i8042 io pending"
  shows "pending d = ps \<Longrightarrow> (st AND 1 \<noteq> 0) = (ps \<noteq> []) \<Longrightarrow>
    (ps \<noteq> [] \<Longrightarrow> (st AND 0x20 \<noteq> 0) = fst (hd ps)) \<Longrightarrow>
    \<exists>s' d'. kbd_loop io st d s = Some (Inr (s', d')) \<and> pending d' = []
      \<and> kbs s' = fold add_kbdata (keys ps) (kbs s)"
proof (induction ps arbitrary: st d s)
  case Nil
  then show ?case by (simp add: kbd_loop.simps [of io st] keys_def)
next
  case (Cons p ps)
  obtain sc d1 where d1: "inb io 0x60 d = (sc, d1)" by fastforce
  with i8042_data [OF io Cons.prems(1)] have sc: "sc = snd p" "pending d1 = ps" by simp_all
  obtain st' d2 where d2: "inb io 0x64 d1 = (st', d2)" by fastforce
  from i8042_status [OF io this] have st': "pending d2 = ps" "(st' AND 1 \<noteq> 0) = (ps \<noteq> [])"
    "ps \<noteq> [] \<Longrightarrow> (st' AND 0x20 \<noteq> 0) = fst (hd ps)"
    by (simp_all add: sc(2))
  obtain s1 where s1: "kbd_byte st sc s = Inr s1" "kbs s1 = fold add_kbdata (keys [p]) (kbs s)"
    using kbd_byte_key [of st "fst p" sc s] Cons.prems(3) sc(1) by auto
  from Cons.IH [OF st'] obtain s' d' where
    "kbd_loop io st' d2 s1 = Some (Inr (s', d'))" "pending d' = []" "kbs s' = fold add_kbdata (keys ps) (kbs s1)"
    by blast
  then show ?case using Cons.prems(2) d1 d2 s1
    by (simp add: kbd_loop.simps [of io st] keys_Cons [of p ps])
qed

section \<open>Properties of the console\<close>

text \<open>C34. Refinement: on a console whose cursor is on the screen, \<open>myputchar\<close> is one step of
  the abstract display (write the cell at the cursor, wrap at column 80, scroll behind row 24),
  keeps the cursor on the screen, and writes no byte outside the 3840 bytes of video memory.\<close>

theorem myputchar_refines:
  assumes "con_inv s"
  shows "display_of (myputchar c s) = put_display c (display_of s) \<and> con_inv (myputchar c s)
    \<and> (\<forall>a. 3840 \<le> unat (a - VIDEO) \<longrightarrow> vmem (myputchar c s) a = vmem s a)"
  using myputchar_display [OF assms] by blast

text \<open>What \<open>print\<close> does depends on its format and arguments only: either it
  fails the same way on every console, or it puts the same characters through \<open>myputchar\<close> on every
  console and returns their number.\<close>

theorem print_writes_and_counts:
  "(\<exists>e. \<forall>s. print fmt args s = Inl e) \<or>
   (\<exists>cs. \<forall>s. print fmt args s = Inr (int (length cs), puts cs s))"
proof -
  obtain r where r: "\<And>num s. print_loop fmt args 0 0 num s = loop_out r num s"
    using print_loop_out by blast
  then show ?thesis by (cases r) (auto simp: print_def)
qed

text \<open>C36. Formatting, round trip: for every \<open>int\<close> but the smallest, \<open>print\<close> with \<open>%d\<close>
  writes a minus sign exactly for negative values and then the canonical decimal numeral of the
  magnitude; reading the digits back gives the value.  For the smallest \<open>int\<close>, whose negation wraps,
  it writes the magnitude of the wrapped value widened to 64 bits, 18446744071562067968.\<close>

theorem print_number:
  "\<exists>ds. numeral_of 10 (if sint (ucast w :: u32) = - (2 ^ 31) then 18446744071562067968
                       else nat \<bar>sint (ucast w :: u32)\<bar>) ds
     \<and> (\<forall>s. print ''%d'' [AWord w] s =
          (let cs = (if sint (ucast w :: u32) < 0 then [45] else []) @ map digit ds
           in Inr (int (length cs), puts cs s)))"
proof -
  define v where "v = (ucast w :: u32)"
  define m where "m = (if sint v < 0 then scast (- v) else scast v :: u64)"
  have m: "unat m = (if sint v = - (2 ^ 31) then 18446744071562067968 else nat \<bar>sint v\<bar>)"
  proof (cases "sint v = - (2 ^ 31)")
    case True
    then show ?thesis by (simp add: m_def sint_smallest [OF True])
  next
    case False
    then show ?thesis
      using unat_scast_nonneg [of v] unat_scast_nonneg [of "- v"] sint_uminus [OF False] by (auto simp: m_def)
  qed
  obtain ds where ds: "numeral_of 10 (unat m) ds"
    "\<And>s. unsigned_recursion m 10 s = Inr (int (length ds), puts (map digit ds) s)"
    using unsigned_recursion_digits [of 10 m] by auto
  have minus: "putc (CHR ''-'') s = puts [45] s" for s
    by (simp add: putc_def)
  have "print ''%d'' [AWord w] s = (let cs = (if sint v < 0 then [45] else []) @ map digit ds
      in Inr (int (length cs), puts cs s))" for s
    using ds(2) minus by (auto simp: print_def print_d_def v_def [symmetric] m_def Let_def split: if_splits)
  with ds(1) m show ?thesis unfolding v_def by auto
qed


text \<open>\<open>itoa\<close> with a base of 2 to 16 returns the index in its buffer of the canonical numeral of
  the value, followed by a NUL, as long as thirty digits suffice.\<close>

theorem itoa_digits:
  assumes "2 \<le> b" and "b \<le> 16" and "unat v < b ^ 30"
  shows "\<exists>i bs ds. itoa v (of_nat b) = Inr (i, bs) \<and> numeral_of b (unat v) ds
    \<and> i + length ds = 31 \<and> drop i bs = map (\<lambda>d. of_char (strtab ! d)) ds @ [0]"
proof (cases "v = 0")
  case True
  then show ?thesis using assms
    by (intro exI [of _ 30] exI [of _ "(replicate 32 0)[30 := 0x30]"] exI [of _ "[0]"])
      (simp add: itoa_def numeral_of_def strtab_def numeral_eq_Suc)
next
  case False
  with itoa_loop_digits [OF assms(1,2,3), of "replicate 32 0"] show ?thesis
    by (fastforce simp: itoa_def)
qed


text \<open>The keyboard buffer is a queue of 1023 bytes: what is added to an empty buffer comes
  out in the same order, and then \<open>get_kbdata\<close> returns -1.\<close>

theorem keyboard_buffer_fifo:
  assumes "kb_inv k" and "kb_contents k = []" and "length xs \<le> 1023"
  shows "fst (get_times get_kbdata (length xs + n) (fold add_kbdata xs k)) = map uint xs @ replicate n (- 1)"
  using assms by (rule kb.through_the_buffer)

text \<open>C37. Overflow: a byte added to a full buffer (1023 bytes held) does not overwrite the
  oldest one but makes the buffer empty, so that all 1024 bytes are lost to the reader.\<close>

theorem keyboard_buffer_overflow:
  assumes "kb_inv k" and "kb_size k = 1023"
  shows "kb_contents (add_kbdata x k) = [] \<and> get_kbdata (add_kbdata x k) = (- 1, add_kbdata x k)"
proof -
  let ?r = "unat (rpos k)" and ?w = "unat (wpos k)"
  have b: "?r < 1024" "?w < 1024" using assms(1) by (simp_all add: kb_inv_def)
  note f = add_kbdata_fields [OF assms(1), of x]
  have "(?w + 1) mod 1024 = (?r + 1023 + 1) mod 1024"
    using kb_wpos [OF assms(1)] assms(2) by (metis mod_add_left_eq)
  then have "unat (wpos (add_kbdata x k)) = ?r" unfolding f(1) using b by simp
  then have "kb_size (add_kbdata x k) = 0" by (simp add: kb_size_def f(2))
  then have "kb_contents (add_kbdata x k) = []" by (simp add: kb_contents_def)
  with get_kbdata_empty [OF f(4)] show ?thesis by simp
qed


text \<open>C38. With a keyboard controller that behaves as documented, the interrupt handler ends
  however many bytes wait, takes them all, and adds to the buffer the keys of the key presses among
  them, in order.\<close>

theorem kbd_handler_drains:
  assumes io: "i8042 io pending"
  shows "\<exists>s' d'. kbd_handler io d s = Some (Inr (s', d')) \<and> pending d' = []
    \<and> kbs s' = fold add_kbdata (keys (pending d)) (kbs s)"
proof -
  obtain st d1 where d1: "inb io 0x64 d = (st, d1)" by fastforce
  from kbd_loop_keys [OF io i8042_status [OF io this]] d1 show ?thesis by (simp add: kbd_handler_def)
qed


section \<open>Witnesses\<close>

definition empty_kbs :: kbstate where
  "empty_kbs = \<lparr>buf = replicate 1024 0, rpos = 1020, wpos = 1020\<rparr>"

text \<open>A console with the cursor in the last cell of the screen.\<close>

definition corner_con :: con where
  "corner_con = \<lparr>xpos = 79, ypos = 23, video = VIDEO, vmem = (\<lambda>a. 0), kbs = empty_kbs\<rparr>"

theorem myputchar_refines_witness:
  "row (display_of (myputchar 65 corner_con)) = 23 \<and> col (display_of (myputchar 65 corner_con)) = 0"
proof -
  have "con_inv corner_con" by (simp add: corner_con_def con_inv_def)
  from myputchar_refines [OF this, of 65] show ?thesis
    by (simp add: put_display_def put_cell_def Let_def line_feed_def display_of_def corner_con_def)
qed

theorem itoa_digits_witness:
  "\<exists>i bs ds. itoa 0xBEEF 16 = Inr (i, bs) \<and> numeral_of 16 0xBEEF ds \<and> i + length ds = 31"
proof -
  have "unat (0xBEEF :: u32) < 16 ^ 30" by simp
  from itoa_digits [of 16, OF _ _ this] show ?thesis by auto
qed

lemma empty_kbs_inv: "kb_inv empty_kbs" and empty_kbs_contents: "kb_contents empty_kbs = []"
  by (simp_all add: kb_inv_def empty_kbs_def kb_contents_def kb_size_def)

theorem keyboard_buffer_fifo_witness:
  "fst (get_times get_kbdata 7 (fold add_kbdata [1, 2, 3, 4, 5, 6] empty_kbs)) = [1, 2, 3, 4, 5, 6, - 1]"
proof -
  have l: "length [1, 2, 3, 4, 5, 6 :: u8] + 1 = 7" by simp
  show ?thesis
    using keyboard_buffer_fifo [OF empty_kbs_inv empty_kbs_contents, of "[1, 2, 3, 4, 5, 6]" 1, unfolded l]
    by (simp del: get_times.simps)
qed

theorem keyboard_buffer_overflow_witness:
  "get_kbdata (add_kbdata 9 \<lparr>buf = replicate 1024 7, rpos = 1, wpos = 0\<rparr>)
     = (- 1, add_kbdata 9 \<lparr>buf = replicate 1024 7, rpos = 1, wpos = 0\<rparr>)"
  by (rule keyboard_buffer_overflow [THEN conjunct2]) (simp_all add: kb_inv_def kb_size_def)

text \<open>A controller whose state is the list of waiting bytes.\<close>

definition list_ports :: "(bool \<times> u8) list ports" where
  "list_ports = \<lparr>inb = (\<lambda>port ps. if port = 0x64
       then (case ps of [] \<Rightarrow> (0, ps) | p # _ \<Rightarrow> (if fst p then 0x21 else 0x01, ps))
       else (case ps of [] \<Rightarrow> (0, ps) | p # ps' \<Rightarrow> (snd p, ps'))),
     outb = (\<lambda>port b ps. ps), insw = (\<lambda>port n ps. ([], ps)), outsw = (\<lambda>port ws ps. ps)\<rparr>"

lemma i8042_list_ports: "i8042 list_ports id"
  by (auto simp: i8042_def list_ports_def split: list.splits if_splits)

text \<open>Scancodes 0x1E (a) and 0x30 (b), a mouse byte, and the release of the first key.\<close>

theorem kbd_handler_drains_witness:
  "\<exists>s' d'. kbd_handler list_ports [(False, 0x1E), (True, 0x08), (False, 0x30), (False, 0x9E)] corner_con
      = Some (Inr (s', d')) \<and> d' = [] \<and> kbs s' = fold add_kbdata [0x61, 0x62] empty_kbs"
proof -
  have k: "keys [(False, 0x1E), (True, 0x08), (False, 0x30), (False, 0x9E)] = [0x61, 0x62]"
    by (simp add: keys_def key_of_def plain_map_def)
  show ?thesis
    using kbd_handler_drains [OF i8042_list_ports, of "[(False, 0x1E), (True, 0x08), (False, 0x30), (False, 0x9E)]" corner_con]
    by (simp only: id_apply k) (simp add: corner_con_def)
qed

end
