(* ===== verification/Proc.thy ===== *)
theory Proc
  imports Cache Console
begin

text \<open>
  Processes, \<^verbatim>\<open>kernel/proc.c\<close>: the process table and its free list, the address space of a
  process (\<open>alloc_vm\<close>, \<open>memmap\<close>, \<open>load_img\<close>, \<open>destroy_vm\<close>, \<open>free_pgtable\<close>), the round-robin
  scheduler, \<open>sys_fork\<close> with its copy-on-write sharing, \<open>sys_waitpid\<close> and \<open>sys_exit\<close>.  A pointer to
  a process or to an open file is its index in \<open>procs\<close> or \<open>filetable\<close>.
\<close>

section \<open>State\<close>

datatype PROC_STATUS = RUNNING | RUNNABLE | SLEEP | STOP

text \<open>The order of the values of the enumeration.\<close>

instantiation PROC_STATUS :: linorder
begin

fun status_value :: "PROC_STATUS \<Rightarrow> nat" where
  "status_value RUNNING = 0"
| "status_value RUNNABLE = 1"
| "status_value SLEEP = 2"
| "status_value STOP = 3"

definition less_eq_PROC_STATUS :: "PROC_STATUS \<Rightarrow> PROC_STATUS \<Rightarrow> bool" where
  "less_eq_PROC_STATUS a b \<longleftrightarrow> status_value a \<le> status_value b"

definition less_PROC_STATUS :: "PROC_STATUS \<Rightarrow> PROC_STATUS \<Rightarrow> bool" where
  "less_PROC_STATUS a b \<longleftrightarrow> status_value a < status_value b"

instance
proof
  fix x y z :: PROC_STATUS
  show "x < y \<longleftrightarrow> x \<le> y \<and> \<not> y \<le> x" "x \<le> x" "x \<le> y \<or> y \<le> x"
    by (auto simp: less_eq_PROC_STATUS_def less_PROC_STATUS_def)
  show "x \<le> z" if "x \<le> y" "y \<le> z"
    using that by (simp add: less_eq_PROC_STATUS_def)
  show "x = y" if "x \<le> y" "y \<le> x"
    using that by (cases x; cases y) (simp_all add: less_eq_PROC_STATUS_def)
qed

end

record pt_regs =
  r15 :: u64
  r14 :: u64
  r13 :: u64
  r12 :: u64
  rbp :: u64
  rbx :: u64
  r11 :: u64
  r10 :: u64
  r9 :: u64
  r8 :: u64
  rax :: u64
  rcx :: u64
  rdx :: u64
  rsi :: u64
  rdi :: u64
  trapnum :: u64
  err_code :: u64
  rip :: u64
  cs_sel :: u64
  eflags :: u64
  rsp :: u64
  ss_sel :: u64

text \<open>What a \<open>memset\<close> with 0 leaves of the registers.\<close>

definition zero_regs :: pt_regs where
  "zero_regs = \<lparr>r15 = 0, r14 = 0, r13 = 0, r12 = 0, rbp = 0, rbx = 0, r11 = 0, r10 = 0, r9 = 0, r8 = 0,
     rax = 0, rcx = 0, rdx = 0, rsi = 0, rdi = 0, trapnum = 0, err_code = 0, rip = 0, cs_sel = 0,
     eflags = 0, rsp = 0, ss_sel = 0\<rparr>"

record proc =
  pregs :: pt_regs
  pid :: u32
  ppid :: u32
  status :: PROC_STATUS
  proc_link :: "nat option"
  pgdir :: u64
  fdtable :: "nat option list"

definition zero_proc :: proc where
  "zero_proc = \<lparr>pregs = zero_regs, pid = 0, ppid = 0, status = RUNNING, proc_link = None, pgdir = 0,
     fdtable = replicate 32 None\<rparr>"

datatype file_type = FDEUNKNOWN | FDCONS | FDFILE

record kfile =
  f_refcount :: int
  f_offset :: int
  f_inode :: u64
  f_type :: file_type

record 'd kproc = "'d kcache" +
  procs :: "proc list"
  current :: "nat option"
  proc_head :: "nat option"
  filetable :: "kfile list"
  cr3 :: u64
  kcon :: con

text \<open>
  How a kernel function ends: it returns; or it enters user mode in some process and never
  returns; or it halts with interrupts enabled; or it faults.
\<close>

datatype ('a, 's) kres = Ret 'a 's | Run nat 's | Idle 's | Crash fault

definition bindK :: "('a, 's) kres \<Rightarrow> ('a \<Rightarrow> 's \<Rightarrow> ('b, 's) kres) \<Rightarrow> ('b, 's) kres" where
  "bindK m f = (case m of Ret a s \<Rightarrow> f a s | Run p s \<Rightarrow> Run p s | Idle s \<Rightarrow> Idle s | Crash e \<Rightarrow> Crash e)"

lemma bindK_simps [simp, bind_simps]:
  "bindK (Ret a s) f = f a s" "bindK (Run p s) f = Run p s" "bindK (Idle s) f = Idle s" "bindK (Crash e) f = Crash e"
  by (simp_all add: bindK_def)

definition liftK :: "('a \<times> 's) outcome \<Rightarrow> ('a, 's) kres" where
  "liftK m = (case m of Inl e \<Rightarrow> Crash e | Inr (a, s) \<Rightarrow> Ret a s)"

lemma liftK_simps [simp, bind_simps]: "liftK (Inl e) = Crash e" "liftK (Inr (a, s)) = Ret a s"
  by (simp_all add: liftK_def)

definition upd_proc :: "nat \<Rightarrow> (proc \<Rightarrow> proc) \<Rightarrow> ('d, 'a) kproc_scheme \<Rightarrow> ('d, 'a) kproc_scheme" where
  "upd_proc p f s = s\<lparr>procs := (procs s)[p := f (procs s ! p)]\<rparr>"

section \<open>The process table\<close>

fun init_proc_loop :: "nat \<Rightarrow> nat option \<Rightarrow> proc list \<Rightarrow> nat option \<times> proc list" where
  "init_proc_loop 0 p ps = (p, ps)"
| "init_proc_loop (Suc i) p ps = init_proc_loop i (Some i) (ps[i := (ps ! i)\<lparr>proc_link := p\<rparr>])"

definition init_proc :: "('d, 'a) kproc_scheme \<Rightarrow> ('d, 'a) kproc_scheme" where
  "init_proc s = (case init_proc_loop 10 None (procs s) of (p, ps) \<Rightarrow> s\<lparr>procs := ps, proc_head := p\<rparr>)"

definition alloc_proc :: "('d, 'a) kproc_scheme \<Rightarrow> (nat \<times> ('d, 'a) kproc_scheme) outcome" where
  "alloc_proc s =
     (case proc_head s of
        None \<Rightarrow> Inl NullPointer
      | Some p \<Rightarrow>
          let s1 = s\<lparr>proc_head := proc_link (procs s ! p)\<rparr>;
              s2 = upd_proc p (\<lambda>_. zero_proc) s1;
              s3 = upd_proc p (\<lambda>pr. pr\<lparr>status := STOP\<rparr>) s2;
              s4 = upd_proc p (\<lambda>pr. pr\<lparr>pid := of_nat p\<rparr>) s3
          in Inr (p, upd_proc p (\<lambda>pr. pr\<lparr>proc_link := None\<rparr>) s4))"

definition free_proc :: "nat \<Rightarrow> ('d, 'a) kproc_scheme \<Rightarrow> ('d, 'a) kproc_scheme" where
  "free_proc p s = (upd_proc p (\<lambda>pr. pr\<lparr>proc_link := proc_head s\<rparr>) s)\<lparr>proc_head := Some p\<rparr>"

section \<open>Address spaces\<close>

definition UTEXT :: u64 where
  "UTEXT = 0x80000000"

definition USTACKTOP :: u64 where
  "USTACKTOP = 0x90000000 - 4096"

definition PTE_COW :: u64 where
  "PTE_COW = 0x800"

definition PTE_U :: u64 where
  "PTE_U = 4"

definition PTE_W :: u64 where
  "PTE_W = 2"

definition PTE_P :: u64 where
  "PTE_P = 1"

text \<open>The page tables the processor uses.\<close>

definition cpu_root :: "('d, 'a) kproc_scheme \<Rightarrow> u64" where
  "cpu_root s = cr3 s + KBASE"

definition lcr3 :: "u64 \<Rightarrow> ('d, 'a) kproc_scheme \<Rightarrow> ('d, 'a) kproc_scheme" where
  "lcr3 v s = s\<lparr>cr3 := v\<rparr>"

definition alloc_vm :: "u64 \<Rightarrow> 'a kmm_scheme \<Rightarrow> u64 \<times> 'a kmm_scheme" where
  "alloc_vm dir s =
     (case alloc_page 1 s of
        (None, s1) \<Rightarrow> (0, s1)
      | (Some p, s1) \<Rightarrow> (PAGE2VA p, s1\<lparr>mem := memcpy (mem s1) (PAGE2VA p) dir 4096\<rparr>))"

fun memmap_loop :: "u64 \<Rightarrow> u32 \<Rightarrow> nat \<Rightarrow> 'a kmm_scheme \<Rightarrow> 'a kmm_scheme outcome" where
  "memmap_loop dir va 0 s = Inr s"
| "memmap_loop dir va (Suc n) s =
     (case alloc_page 0 s of (pg, s1) \<Rightarrow>
      bindE (insert_page dir (ucast va) pg (PTE_U OR PTE_W OR PTE_P) s1) (\<lambda>(r, s2).
      memmap_loop dir (va + 4096) n s2))"

definition memmap :: "u64 \<Rightarrow> u64 \<Rightarrow> u32 \<Rightarrow> 'a kmm_scheme \<Rightarrow> 'a kmm_scheme outcome" where
  "memmap dir addr len s =
     (let start = (ucast (addr div 4096 * 4096) :: u32);
          sz = (len + 4096 - 1) div 4096 * 4096
      in memmap_loop dir start (unat sz div 4096) s)"

text \<open>The four magic bytes of an ELF header.\<close>

definition is_elf :: "mem \<Rightarrow> u64 \<Rightarrow> bool" where
  "is_elf m a \<longleftrightarrow> m a = 0x7F \<and> m (a + 1) = 0x45 \<and> m (a + 2) = 0x4C \<and> m (a + 3) = 0x46"

fun load_segments :: "nat \<Rightarrow> u64 \<Rightarrow> u64 \<Rightarrow> nat \<Rightarrow> ('d, 'a) kproc_scheme \<Rightarrow> ('d, 'a) kproc_scheme outcome" where
  "load_segments p binary phdr 0 s = Inr s"
| "load_segments p binary phdr (Suc n) s =
     bindE
       (if load32 (mem s) phdr = 1 then
          (let vaddr = load64 (mem s) (phdr + 16); memsz = load64 (mem s) (phdr + 40)
           in bindE (memmap (pgdir (procs s ! p)) vaddr (ucast memsz) s) (\<lambda>s1.
              bindE (vmemcpy (cpu_root s1) (load64 (mem s1) (phdr + 16)) (binary + load64 (mem s1) (phdr + 8))
                       (ucast (load64 (mem s1) (phdr + 40))) (mem s1)) (\<lambda>m.
              Inr (s1\<lparr>mem := m\<rparr>))))
        else Inr s)
       (\<lambda>s2. load_segments p binary (phdr + 56) n s2)"

definition load_img :: "nat \<Rightarrow> u64 \<Rightarrow> u32 \<Rightarrow> ('d, 'a) kproc_scheme \<Rightarrow> ('d, 'a) kproc_scheme outcome" where
  "load_img p binary len s =
     (if \<not> is_elf (mem s) binary then Inr s
      else bindE (load_segments p binary (binary + load64 (mem s) (binary + 32))
                    (unat (load16 (mem s) (binary + 56))) s) (\<lambda>s1.
           case alloc_page 1 s1 of (pg, s2) \<Rightarrow>
           bindE (insert_page (pgdir (procs s2 ! p)) (USTACKTOP - 4096) pg (PTE_U OR PTE_W OR PTE_P) s2) (\<lambda>(r, s3).
           Inr (upd_proc p (\<lambda>pr. pr\<lparr>pregs := (pregs pr)\<lparr>rsp := USTACKTOP, rip := load64 (mem s3) (binary + 24)\<rparr>\<rparr>) s3))))"

section \<open>Running a process\<close>

definition run_proc :: "nat \<Rightarrow> ('d, 'a) kproc_scheme \<Rightarrow> ('b, ('d, 'a) kproc_scheme) kres" where
  "run_proc p s = Run p ((lcr3 (pgdir (procs s ! p) - KBASE) s)\<lparr>current := Some p\<rparr>)"

definition create_proc :: "u64 \<Rightarrow> u32 \<Rightarrow> ('d, 'a) kproc_scheme \<Rightarrow> (int, ('d, 'a) kproc_scheme) kres" where
  "create_proc binary len s =
     bindK (liftK (alloc_proc s)) (\<lambda>p s1.
       let s2 = upd_proc p (\<lambda>pr. pr\<lparr>pregs := (pregs pr)\<lparr>cs_sel := 0x1b, ss_sel := 0x23, eflags := eflags (pregs pr) OR 0x200\<rparr>\<rparr>) s1
       in case alloc_vm (kpgdir s2) s2 of (dir, s3) \<Rightarrow>
          let s4 = upd_proc p (\<lambda>pr. pr\<lparr>pgdir := dir\<rparr>) s3;
              s5 = upd_proc p (\<lambda>pr. pr\<lparr>fdtable := replicate 32 None\<rparr>) s4;
              s6 = lcr3 (pgdir (procs s5 ! p) - KBASE) s5
          in (case load_img p binary len s6 of
                Inl e \<Rightarrow> Crash e
              | Inr s7 \<Rightarrow>
                  let s8 = upd_proc p (\<lambda>pr. pr\<lparr>status := RUNNABLE\<rparr>) s7;
                      s9 = (if current s8 = None then s8\<lparr>current := Some p\<rparr> else s8)
                  in run_proc p s9))"

text \<open>
  The search of \<open>schedule\<close> for a runnable process, from \<open>nextind\<close> round to \<open>curind\<close>.  The
  index is reduced modulo \<open>MAXPROC\<close> only after it has been increased, so the first index looked
  at may be 10, one of the unused slots of the table.
\<close>

partial_function (option) sched_loop :: "proc list \<Rightarrow> nat \<Rightarrow> nat \<Rightarrow> nat option option" where
  "sched_loop ps curind nextind =
     (if curind \<noteq> nextind then
        (if status (ps ! nextind) = RUNNABLE then Some (Some nextind)
         else sched_loop ps curind ((nextind + 1) mod 10))
      else Some None)"

definition schedule :: "('d, 'a) kproc_scheme \<Rightarrow> (unit, ('d, 'a) kproc_scheme) kres" where
  "schedule s =
     (let curind = (case current s of None \<Rightarrow> 0 | Some c \<Rightarrow> unat (pid (procs s ! c)))
      in case sched_loop (procs s) curind (curind + 1) of
           None \<Rightarrow> Crash Hang
         | Some (Some p) \<Rightarrow> run_proc p s
         | Some None \<Rightarrow>
             if status (procs s ! curind) = RUNNABLE then run_proc curind s
             else Idle (s\<lparr>current := None\<rparr>))"


section \<open>Giving an address space back\<close>

text \<open>\<open>free_page(PA2PAGE( *a >> 12)); *a = NULL;\<close>\<close>

definition free_entry :: "u64 \<Rightarrow> 'a kmm_scheme \<Rightarrow> 'a kmm_scheme outcome" where
  "free_entry a s =
     (let i = unat (drop_bit 12 (load64 (mem s) a))
      in if i < length (pages s)
         then let s1 = free_page (Some i) s in Inr (s1\<lparr>mem := store64 (mem s1) a 0\<rparr>)
         else Inl BadIndex)"

text \<open>
  The three nested loops of \<open>free_pgtable\<close>.  Each returns whether the end address was reached
  (the jumps to \<open>out_pdp_free\<close> and \<open>out_pml_free\<close>), the address and the state.  The pointers are
  recomputed from the address at the head of each round; the loop conditions look at the pointer
  after its increment.
\<close>

definition next_aligned :: "nat \<Rightarrow> u64 \<Rightarrow> u64" where
  "next_aligned sh addr = (addr + push_bit sh 1) AND NOT (push_bit sh 1 - 1)"

partial_function (option) pgd_loop :: "u64 \<Rightarrow> u64 \<Rightarrow> 'a kmm_scheme \<Rightarrow> (bool \<times> u64 \<times> 'a kmm_scheme) outcome option" where
  "pgd_loop src_pdp addr s =
     (let src_pgd = table_of (load64 (mem s) src_pdp) + 8 * idx 21 addr
      in case (if load64 (mem s) src_pgd = 0 then Inr s else free_entry src_pgd s) of
           Inl e \<Rightarrow> Some (Inl e)
         | Inr s1 \<Rightarrow>
             let addr' = next_aligned 21 addr
             in if USTACKTOP \<le> addr' then Some (Inr (True, addr', s1))
                else if (src_pgd + 8) AND 0xFFF \<noteq> 0 then pgd_loop src_pdp addr' s1
                else Some (Inr (False, addr', s1)))"

definition pdp_entry :: "u64 \<Rightarrow> u64 \<Rightarrow> 'a kmm_scheme \<Rightarrow> (bool \<times> u64 \<times> 'a kmm_scheme) outcome option" where
  "pdp_entry src_pdp addr s =
     (if load64 (mem s) src_pdp = 0 then Some (Inr (False, addr, s))
      else case pgd_loop src_pdp addr s of
             None \<Rightarrow> None
           | Some (Inl e) \<Rightarrow> Some (Inl e)
           | Some (Inr (ended, addr1, s1)) \<Rightarrow>
               (case free_entry src_pdp s1 of Inl e \<Rightarrow> Some (Inl e) | Inr s2 \<Rightarrow> Some (Inr (ended, addr1, s2))))"

partial_function (option) pdp_loop :: "u64 \<Rightarrow> u64 \<Rightarrow> 'a kmm_scheme \<Rightarrow> (bool \<times> u64 \<times> 'a kmm_scheme) outcome option" where
  "pdp_loop src_pml addr s =
     (let src_pdp = table_of (load64 (mem s) src_pml) + 8 * idx 30 addr
      in case pdp_entry src_pdp addr s of
           None \<Rightarrow> None
         | Some (Inl e) \<Rightarrow> Some (Inl e)
         | Some (Inr (ended, addr1, s1)) \<Rightarrow>
             if ended then Some (Inr (True, addr1, s1))
             else let addr' = next_aligned 30 addr1
                  in if USTACKTOP \<le> addr' then Some (Inr (True, addr', s1))
                     else if (src_pdp + 8) AND 0xFFF \<noteq> 0 then pdp_loop src_pml addr' s1
                     else Some (Inr (False, addr', s1)))"

definition pml_entry :: "u64 \<Rightarrow> u64 \<Rightarrow> 'a kmm_scheme \<Rightarrow> (bool \<times> u64 \<times> 'a kmm_scheme) outcome option" where
  "pml_entry src_pml addr s =
     (if load64 (mem s) src_pml = 0 then Some (Inr (False, addr, s))
      else case pdp_loop src_pml addr s of
             None \<Rightarrow> None
           | Some (Inl e) \<Rightarrow> Some (Inl e)
           | Some (Inr (ended, addr1, s1)) \<Rightarrow>
               (case free_entry src_pml s1 of Inl e \<Rightarrow> Some (Inl e) | Inr s2 \<Rightarrow> Some (Inr (ended, addr1, s2))))"

partial_function (option) pml_loop :: "u64 \<Rightarrow> u64 \<Rightarrow> 'a kmm_scheme \<Rightarrow> 'a kmm_scheme outcome option" where
  "pml_loop src addr s =
     (let src_pml = src + 8 * idx 39 addr
      in case pml_entry src_pml addr s of
           None \<Rightarrow> None
         | Some (Inl e) \<Rightarrow> Some (Inl e)
         | Some (Inr (ended, addr1, s1)) \<Rightarrow>
             if ended then Some (Inr s1)
             else let addr' = next_aligned 39 addr1
                  in if USTACKTOP \<le> addr' then Some (Inr s1)
                     else if (src_pml + 8) AND 0xFFF \<noteq> 0 then pml_loop src addr' s1
                     else Some (Inr s1))"

definition free_pgtable :: "u64 \<Rightarrow> 'a kmm_scheme \<Rightarrow> 'a kmm_scheme outcome" where
  "free_pgtable dir s = (case pml_loop dir UTEXT s of None \<Rightarrow> Inl Hang | Some r \<Rightarrow> r)"

text \<open>
  \<open>alloc_full_vm_new\<close>, which no one calls: a new tree with a table for every table of the old one on
  the paths from \<open>UTEXT\<close> to \<open>USTACKTOP\<close>, and no leaves.  The loops have the shape of those of
  \<open>free_pgtable\<close>, with one more for the leaves, which changes nothing.
\<close>

definition link_table :: "u64 \<Rightarrow> 'a kmm_scheme \<Rightarrow> 'a kmm_scheme outcome" where
  "link_table dst s =
     (if load64 (mem s) dst \<noteq> 0 then Inr s
      else case alloc_page 1 s of
             (None, s1) \<Rightarrow> Inl NullPointer
           | (Some p, s1) \<Rightarrow> Inr (s1\<lparr>mem := store64 (mem s1) dst (PAGE2PA p OR PTE_FULL)\<rparr>))"

partial_function (option) leaf_loop :: "u64 \<Rightarrow> u64 \<Rightarrow> mem \<Rightarrow> (bool \<times> u64) option" where
  "leaf_loop src_pgd addr m =
     (let src_pte = table_of (load64 m src_pgd) + 8 * idx 12 addr;
          addr' = addr + 4096
      in if USTACKTOP \<le> addr' then Some (True, addr')
         else if (src_pte + 8) AND 0xFFF \<noteq> 0 then leaf_loop src_pgd addr' m
         else Some (False, addr'))"

definition copy_pgd_entry :: "u64 \<Rightarrow> u64 \<Rightarrow> u64 \<Rightarrow> 'a kmm_scheme \<Rightarrow> (bool \<times> u64 \<times> 'a kmm_scheme) outcome option" where
  "copy_pgd_entry src_pgd dst_pgd addr s =
     (if load64 (mem s) src_pgd = 0 then Some (Inr (False, addr, s))
      else case link_table dst_pgd s of
             Inl e \<Rightarrow> Some (Inl e)
           | Inr s1 \<Rightarrow> map_option (\<lambda>(ended, addr1). Inr (ended, addr1, s1)) (leaf_loop src_pgd addr (mem s1)))"

partial_function (option) copy_pgd_loop :: "u64 \<Rightarrow> u64 \<Rightarrow> u64 \<Rightarrow> 'a kmm_scheme \<Rightarrow> (bool \<times> u64 \<times> 'a kmm_scheme) outcome option" where
  "copy_pgd_loop src_pdp dst_pdp addr s =
     (let src_pgd = table_of (load64 (mem s) src_pdp) + 8 * idx 21 addr;
          dst_pgd = table_of (load64 (mem s) dst_pdp) + 8 * idx 21 addr
      in case copy_pgd_entry src_pgd dst_pgd addr s of
           None \<Rightarrow> None
         | Some (Inl e) \<Rightarrow> Some (Inl e)
         | Some (Inr (ended, addr1, s1)) \<Rightarrow>
             if ended then Some (Inr (True, addr1, s1))
             else let addr' = next_aligned 21 addr1
                  in if USTACKTOP \<le> addr' then Some (Inr (True, addr', s1))
                     else if (src_pgd + 8) AND 0xFFF \<noteq> 0 then copy_pgd_loop src_pdp dst_pdp addr' s1
                     else Some (Inr (False, addr', s1)))"

definition copy_pdp_entry :: "u64 \<Rightarrow> u64 \<Rightarrow> u64 \<Rightarrow> 'a kmm_scheme \<Rightarrow> (bool \<times> u64 \<times> 'a kmm_scheme) outcome option" where
  "copy_pdp_entry src_pdp dst_pdp addr s =
     (if load64 (mem s) src_pdp = 0 then Some (Inr (False, addr, s))
      else case link_table dst_pdp s of Inl e \<Rightarrow> Some (Inl e) | Inr s1 \<Rightarrow> copy_pgd_loop src_pdp dst_pdp addr s1)"

partial_function (option) copy_pdp_loop :: "u64 \<Rightarrow> u64 \<Rightarrow> u64 \<Rightarrow> 'a kmm_scheme \<Rightarrow> (bool \<times> u64 \<times> 'a kmm_scheme) outcome option" where
  "copy_pdp_loop src_pml dst_pml addr s =
     (let src_pdp = table_of (load64 (mem s) src_pml) + 8 * idx 30 addr;
          dst_pdp = table_of (load64 (mem s) dst_pml) + 8 * idx 30 addr
      in case copy_pdp_entry src_pdp dst_pdp addr s of
           None \<Rightarrow> None
         | Some (Inl e) \<Rightarrow> Some (Inl e)
         | Some (Inr (ended, addr1, s1)) \<Rightarrow>
             if ended then Some (Inr (True, addr1, s1))
             else let addr' = next_aligned 30 addr1
                  in if USTACKTOP \<le> addr' then Some (Inr (True, addr', s1))
                     else if (src_pdp + 8) AND 0xFFF \<noteq> 0 then copy_pdp_loop src_pml dst_pml addr' s1
                     else Some (Inr (False, addr', s1)))"

definition copy_pml_entry :: "u64 \<Rightarrow> u64 \<Rightarrow> u64 \<Rightarrow> 'a kmm_scheme \<Rightarrow> (bool \<times> u64 \<times> 'a kmm_scheme) outcome option" where
  "copy_pml_entry src_pml dst_pml addr s =
     (if load64 (mem s) src_pml = 0 then Some (Inr (False, addr, s))
      else case link_table dst_pml s of Inl e \<Rightarrow> Some (Inl e) | Inr s1 \<Rightarrow> copy_pdp_loop src_pml dst_pml addr s1)"

partial_function (option) copy_pml_loop :: "u64 \<Rightarrow> u64 \<Rightarrow> u64 \<Rightarrow> 'a kmm_scheme \<Rightarrow> 'a kmm_scheme outcome option" where
  "copy_pml_loop src dst addr s =
     (let src_pml = src + 8 * idx 39 addr; dst_pml = dst + 8 * idx 39 addr
      in case copy_pml_entry src_pml dst_pml addr s of
           None \<Rightarrow> None
         | Some (Inl e) \<Rightarrow> Some (Inl e)
         | Some (Inr (ended, addr1, s1)) \<Rightarrow>
             if ended then Some (Inr s1)
             else let addr' = next_aligned 39 addr1
                  in if USTACKTOP \<le> addr' then Some (Inr s1)
                     else if (src_pml + 8) AND 0xFFF \<noteq> 0 then copy_pml_loop src dst addr' s1
                     else Some (Inr s1))"

definition alloc_full_vm_new :: "u64 \<Rightarrow> 'a kmm_scheme \<Rightarrow> (u64 \<times> 'a kmm_scheme) outcome" where
  "alloc_full_vm_new dir s =
     (case alloc_page 1 s of
        (None, s1) \<Rightarrow> Inl NullPointer
      | (Some p, s1) \<Rightarrow>
          (case copy_pml_loop dir (PAGE2VA p) UTEXT s1 of
             None \<Rightarrow> Inl Hang
           | Some (Inl e) \<Rightarrow> Inl e
           | Some (Inr s2) \<Rightarrow> Inr (PAGE2VA p, s2)))"

fun remove_pages :: "u64 \<Rightarrow> u64 \<Rightarrow> nat \<Rightarrow> 'a kmm_scheme \<Rightarrow> 'a kmm_scheme outcome" where
  "remove_pages dir addr 0 s = Inr s"
| "remove_pages dir addr (Suc n) s =
     bindE (remove_page dir addr s) (\<lambda>(r, s1). remove_pages dir (addr + 4096) n s1)"

text \<open>The pages from \<open>UTEXT\<close> up to \<open>USTACKTOP\<close>.\<close>

definition user_pages :: nat where
  "user_pages = unat ((USTACKTOP - UTEXT) div 4096)"

definition va2page :: "u64 \<Rightarrow> nat" where
  "va2page va = unat (drop_bit 12 (va - KBASE))"

definition destroy_vm :: "nat \<Rightarrow> ('d, 'a) kproc_scheme \<Rightarrow> ('d, 'a) kproc_scheme outcome" where
  "destroy_vm p s =
     bindE (remove_pages (pgdir (procs s ! p)) UTEXT user_pages s) (\<lambda>s1.
     bindE (free_pgtable (pgdir (procs s1 ! p)) s1) (\<lambda>s2.
       if va2page (pgdir (procs s2 ! p)) < length (pages s2)
       then Inr (upd_proc p (\<lambda>pr. pr\<lparr>pgdir := 0\<rparr>) (free_page (Some (va2page (pgdir (procs s2 ! p)))) s2))
       else Inl BadIndex))"

text \<open>The release of the open files: an entry is cleared only when its count has reached 0.\<close>

fun release_files :: "nat \<Rightarrow> nat \<Rightarrow> nat \<Rightarrow> ('d, 'a) kproc_scheme \<Rightarrow> ('d, 'a) kproc_scheme" where
  "release_files p i 0 s = s"
| "release_files p i (Suc n) s =
     (case fdtable (procs s ! p) ! i of
        None \<Rightarrow> release_files p (i + 1) n s
      | Some f \<Rightarrow>
          let s1 = s\<lparr>filetable := (filetable s)[f := (filetable s ! f)\<lparr>f_refcount := f_refcount (filetable s ! f) - 1\<rparr>]\<rparr>;
              s2 = (if f_refcount (filetable s1 ! f) = 0
                    then upd_proc p (\<lambda>pr. pr\<lparr>fdtable := (fdtable pr)[i := None]\<rparr>) s1 else s1)
          in release_files p (i + 1) n s2)"

definition destroy_proc :: "nat option \<Rightarrow> ('d, 'a) kproc_scheme \<Rightarrow> (unit, ('d, 'a) kproc_scheme) kres" where
  "destroy_proc pr s =
     (case pr of
        None \<Rightarrow> Ret () s
      | Some p \<Rightarrow>
          (case destroy_vm p s of
             Inl e \<Rightarrow> Crash e
           | Inr s1 \<Rightarrow>
               let s2 = release_files p 0 32 s1;
                   s3 = free_proc p s2;
                   s4 = upd_proc p (\<lambda>q. q\<lparr>status := STOP\<rparr>) s3
               in if current s4 = Some p then schedule (s4\<lparr>current := None\<rparr>) else Ret () s4))"

section \<open>System calls on processes\<close>

text \<open>One round of the loop of \<open>sys_fork\<close> over the user pages of the parent.\<close>

definition fork_page :: "u64 \<Rightarrow> u64 \<Rightarrow> u64 \<Rightarrow> 'a kmm_scheme \<Rightarrow> (int \<times> 'a kmm_scheme) outcome" where
  "fork_page parent child addr s =
     bindE (walk_page parent addr 0 s) (\<lambda>(r, pte, s1).
       if r < 0 then Inr (0, s1)
       else case pte of
         None \<Rightarrow> Inl NullPointer
       | Some a \<Rightarrow>
           if load64 (mem s1) a = 0 then Inr (0, s1)
           else let i = unat (drop_bit 12 (load64 (mem s1) a))
                in bindE (insert_page child addr (Some i) (PTE_U OR PTE_P OR PTE_COW) s1) (\<lambda>(r2, s2).
                   if r2 < 0 then Inr (r2, s2)
                   else if i < length (pages s2)
                   then let s3 = s2\<lparr>pages := (pages s2)[i := (pages s2 ! i)\<lparr>count := count (pages s2 ! i) + 1\<rparr>]\<rparr>
                        in Inr (0, s3\<lparr>mem := store64 (mem s3) a (load64 (mem s3) a div 4096 * 4096 OR PTE_U OR PTE_P OR PTE_COW)\<rparr>)
                   else Inl BadIndex))"

fun fork_pages :: "u64 \<Rightarrow> u64 \<Rightarrow> u64 \<Rightarrow> nat \<Rightarrow> 'a kmm_scheme \<Rightarrow> (int \<times> 'a kmm_scheme) outcome" where
  "fork_pages parent child addr 0 s = Inr (0, s)"
| "fork_pages parent child addr (Suc n) s =
     bindE (fork_page parent child addr s) (\<lambda>(r, s1).
       if r < 0 then Inr (r, s1) else fork_pages parent child (addr + 4096) n s1)"

fun fork_files :: "nat \<Rightarrow> nat \<Rightarrow> nat \<Rightarrow> nat \<Rightarrow> ('d, 'a) kproc_scheme \<Rightarrow> ('d, 'a) kproc_scheme" where
  "fork_files c p i 0 s = s"
| "fork_files c p i (Suc n) s =
     (case fdtable (procs s ! c) ! i of
        None \<Rightarrow> fork_files c p (i + 1) n s
      | Some f \<Rightarrow>
          let s1 = upd_proc p (\<lambda>pr. pr\<lparr>fdtable := (fdtable pr)[i := Some f]\<rparr>) s
          in fork_files c p (i + 1) n
               (s1\<lparr>filetable := (filetable s1)[f := (filetable s1 ! f)\<lparr>f_refcount := f_refcount (filetable s1 ! f) + 1\<rparr>]\<rparr>))"

definition sys_fork :: "('d, 'a) kproc_scheme \<Rightarrow> (int \<times> ('d, 'a) kproc_scheme) outcome" where
  "sys_fork s =
     bindE (alloc_proc s) (\<lambda>(p, s1).
       case current s1 of
         None \<Rightarrow> Inl NullPointer
       | Some c \<Rightarrow>
           let s2 = upd_proc p (\<lambda>pr. pr\<lparr>pregs := (pregs (procs s1 ! c))\<lparr>rax := 0\<rparr>\<rparr>) s1
           in case alloc_vm (kpgdir s2) s2 of (dir, s3) \<Rightarrow>
              let s4 = upd_proc p (\<lambda>pr. pr\<lparr>pgdir := dir\<rparr>) s3
              in if dir = 0 then Inr (- 1, s4)
                 else bindE (fork_pages (pgdir (procs s4 ! c)) dir UTEXT (user_pages - 1) s4) (\<lambda>(r, s5).
                   if r < 0 then Inr (r, s5)
                   else case alloc_page 1 s5 of
                     (None, s6) \<Rightarrow> Inl NullPointer
                   | (Some pg, s6) \<Rightarrow>
                       bindE (vmemcpy (cpu_root s6) (PAGE2VA pg) (USTACKTOP - 4096) 4096 (mem s6)) (\<lambda>m.
                       bindE (insert_page dir (USTACKTOP - 4096) (Some pg) (PTE_U OR PTE_W OR PTE_P) (s6\<lparr>mem := m\<rparr>)) (\<lambda>(r2, s7).
                       let s8 = upd_proc p (\<lambda>pr. pr\<lparr>status := RUNNABLE\<rparr>) (fork_files c p 0 32 s7)
                       in Inr (uint (pid (procs s8 ! p)), s8)))))"

text \<open>
  \<open>sys_waitpid\<close> calls \<open>schedule\<close> until the process has stopped; as \<open>schedule\<close> either runs a
  process or halts, one call is as far as this activation gets.
\<close>

definition sys_waitpid :: "int \<Rightarrow> ('d, 'a) kproc_scheme \<Rightarrow> (int, ('d, 'a) kproc_scheme) kres" where
  "sys_waitpid n s =
     (if n > 10 \<or> n < 0 then Ret (- 1) s
      else if status (procs s ! nat n) \<noteq> STOP
           then bindK (schedule s) (\<lambda>_ s1. Crash Hang)
           else Ret n s)"

definition sys_exit :: "('d, 'a) kproc_scheme \<Rightarrow> (int, ('d, 'a) kproc_scheme) kres" where
  "sys_exit s = bindK (destroy_proc (current s) s) (\<lambda>_ s1. Ret 0 s1)"


section \<open>The free list of the process table\<close>

definition free_procs :: "('d, 'a) kproc_scheme \<Rightarrow> nat list \<Rightarrow> bool" where
  "free_procs s xs \<longleftrightarrow> chain (\<lambda>i. proc_link (procs s ! i)) (proc_head s) xs \<and> distinct xs
     \<and> set xs \<subseteq> {..<length (procs s)}"

lemma proc_chain_upd:
  assumes "x \<notin> set xs" and "chain (\<lambda>i. proc_link (ps ! i)) q xs"
  shows "chain (\<lambda>i. proc_link (ps[x := v] ! i)) q xs"
proof -
  have "chain (\<lambda>i. proc_link (ps[x := v] ! i)) q xs = chain (\<lambda>i. proc_link (ps ! i)) q xs"
    using assms(1) by (intro chain_cong) (metis nth_list_update_neq)
  with assms(2) show ?thesis by simp
qed

lemma init_proc_loop_chain:
  "n \<le> length ps \<Longrightarrow> init_proc_loop n p ps = (p', ps') \<Longrightarrow> chain (\<lambda>i. proc_link (ps ! i)) p xs \<Longrightarrow>
   set xs \<inter> {..<n} = {} \<Longrightarrow>
   chain (\<lambda>i. proc_link (ps' ! i)) p' ([0..<n] @ xs) \<and> length ps' = length ps"
proof (induction n arbitrary: p ps xs)
  case (Suc n)
  let ?ps = "ps[n := (ps ! n)\<lparr>proc_link := p\<rparr>]"
  have "chain (\<lambda>i. proc_link (?ps ! i)) p xs"
    using Suc.prems(3,4) by (intro proc_chain_upd) auto
  then have "chain (\<lambda>i. proc_link (?ps ! i)) (Some n) (n # xs)" using Suc.prems(1) by simp
  moreover have "set (n # xs) \<inter> {..<n} = {}" using Suc.prems(4) by auto
  ultimately show ?case using Suc.IH [of ?ps "Some n" "n # xs"] Suc.prems(1,2) by simp
qed simp

lemma init_proc_free: "10 \<le> length (procs s) \<Longrightarrow> free_procs (init_proc s) [0..<10]"
proof -
  assume l: "10 \<le> length (procs s)"
  obtain p' ps' where e: "init_proc_loop 10 None (procs s) = (p', ps')" by fastforce
  from init_proc_loop_chain [OF l e, of "[]"] l show ?thesis
    by (auto simp: init_proc_def e free_procs_def)
qed

lemma alloc_proc_empty: "free_procs s [] \<Longrightarrow> alloc_proc s = Inl NullPointer"
  by (simp add: free_procs_def alloc_proc_def)

text \<open>What \<open>alloc_proc\<close> makes of the slot it takes.\<close>

definition new_proc :: "nat \<Rightarrow> proc" where
  "new_proc p = zero_proc\<lparr>status := STOP, pid := of_nat p\<rparr>"

lemma alloc_proc_takes:
  assumes "free_procs s (p # xs)"
  shows "alloc_proc s = Inr (p, s\<lparr>procs := (procs s)[p := new_proc p], proc_head := proc_link (procs s ! p)\<rparr>)"
    and "free_procs (s\<lparr>procs := (procs s)[p := new_proc p], proc_head := proc_link (procs s ! p)\<rparr>) xs"
proof -
  have f: "proc_head s = Some p" "p < length (procs s)" "p \<notin> set xs"
    "chain (\<lambda>i. proc_link (procs s ! i)) (proc_link (procs s ! p)) xs" "distinct xs" "set xs \<subseteq> {..<length (procs s)}"
    using assms by (auto simp: free_procs_def)
  show "alloc_proc s = Inr (p, s\<lparr>procs := (procs s)[p := new_proc p], proc_head := proc_link (procs s ! p)\<rparr>)"
    using f(1,2) by (simp add: alloc_proc_def upd_proc_def Let_def new_proc_def zero_proc_def)
  have "chain (\<lambda>i. proc_link ((procs s)[p := new_proc p] ! i)) (proc_link (procs s ! p)) xs"
    using f(3,4) by (intro proc_chain_upd)
  then show "free_procs (s\<lparr>procs := (procs s)[p := new_proc p], proc_head := proc_link (procs s ! p)\<rparr>) xs"
    using f(5,6) by (simp add: free_procs_def)
qed

lemma free_proc_puts:
  assumes "free_procs s xs" and "p < length (procs s)" and "p \<notin> set xs"
  shows "free_procs (free_proc p s) (p # xs)"
proof -
  have "chain (\<lambda>i. proc_link ((procs s)[p := (procs s ! p)\<lparr>proc_link := proc_head s\<rparr>] ! i)) (proc_head s) xs"
    using assms by (intro proc_chain_upd) (auto simp: free_procs_def)
  then show ?thesis using assms by (auto simp: free_procs_def free_proc_def upd_proc_def)
qed

fun alloc_procs :: "nat \<Rightarrow> ('d, 'a) kproc_scheme \<Rightarrow> (nat list \<times> ('d, 'a) kproc_scheme) outcome" where
  "alloc_procs 0 s = Inr ([], s)"
| "alloc_procs (Suc n) s =
     bindE (alloc_proc s) (\<lambda>(p, s1). bindE (alloc_procs n s1) (\<lambda>(ps, s2). Inr (p # ps, s2)))"

lemma alloc_procs_takes:
  "free_procs s xs \<Longrightarrow>
   (if n \<le> length xs then \<exists>s'. alloc_procs n s = Inr (take n xs, s') \<and> free_procs s' (drop n xs)
    else alloc_procs n s = Inl NullPointer)"
proof (induction n arbitrary: s xs)
  case (Suc n)
  show ?case
  proof (cases xs)
    case Nil
    with Suc.prems show ?thesis by (simp add: alloc_proc_empty)
  next
    case (Cons p ys)
    note t = alloc_proc_takes [OF Suc.prems [unfolded Cons]]
    from Suc.IH [OF t(2)] show ?thesis
      by (cases "n \<le> length ys") (auto simp: Cons t(1))
  qed
qed auto

section \<open>The scheduler\<close>

lemma sched_loop_up:
  "n \<le> 10 \<Longrightarrow> c < n \<Longrightarrow>
   sched_loop ps c n =
     (if n = 10 then (if status (ps ! 10) = RUNNABLE then Some (Some 10) else sched_loop ps c (11 mod 10))
      else case find (\<lambda>i. status (ps ! i) = RUNNABLE) [n..<10] of
             Some p \<Rightarrow> Some (Some p) | None \<Rightarrow> sched_loop ps c 0)"
proof (induction "10 - n" arbitrary: n)
  case 0
  then show ?case by (simp add: sched_loop.simps [of ps c 10])
next
  case (Suc d)
  then have n: "n < 10" "c \<noteq> n" by simp_all
  have e: "[n..<10] = n # [Suc n..<10]" using n(1) by (rule upt_conv_Cons)
  show ?case
  proof (cases "n = 9")
    case True
    then show ?thesis using n by (simp add: sched_loop.simps [of ps c 9] e)
  next
    case False
    with n have m: "(n + 1) mod 10 = Suc n" "Suc n \<noteq> 10" by simp_all
    have "sched_loop ps c (Suc n) = (case find (\<lambda>i. status (ps ! i) = RUNNABLE) [Suc n..<10] of
        Some p \<Rightarrow> Some (Some p) | None \<Rightarrow> sched_loop ps c 0)"
      using Suc.hyps(1) [of "Suc n"] Suc.hyps(2) Suc.prems n m(2) by auto
    then show ?thesis using n m by (simp add: sched_loop.simps [of ps c n] e)
  qed
qed

lemma sched_loop_to:
  "n \<le> c \<Longrightarrow> c < 10 \<Longrightarrow> sched_loop ps c n = Some (find (\<lambda>i. status (ps ! i) = RUNNABLE) [n..<c])"
proof (induction "c - n" arbitrary: n)
  case 0
  then have "n = c" by simp
  then show ?case by (simp add: sched_loop.simps [of ps c c])
next
  case (Suc d)
  then have n: "n < c" "(n + 1) mod 10 = Suc n" by simp_all
  have e: "[n..<c] = n # [Suc n..<c]" using n(1) by (rule upt_conv_Cons)
  from Suc.hyps(1) [of "Suc n"] Suc.hyps(2) Suc.prems n show ?case
    by (simp add: sched_loop.simps [of ps c n] e)
qed

text \<open>The order in which \<open>schedule\<close> looks at the table when process \<open>c\<close> is current.\<close>

definition sched_order :: "nat \<Rightarrow> nat list" where
  "sched_order c = (if c = 9 then 10 # [1..<9] else [Suc c..<10] @ [0..<c]) @ [c]"

lemma find_append: "find P (xs @ ys) = (case find P xs of Some x \<Rightarrow> Some x | None \<Rightarrow> find P ys)"
  by (induction xs) auto

lemma sched_loop_order:
  assumes "c < 10"
  shows "sched_loop ps c (c + 1) = Some (find (\<lambda>i. status (ps ! i) = RUNNABLE) (butlast (sched_order c)))"
proof (cases "c = 9")
  case True
  then show ?thesis
    using sched_loop_up [of 10 9 ps] sched_loop_to [of 1 9 ps] by (simp add: sched_order_def)
next
  case False
  then show ?thesis
    using assms sched_loop_up [of "c + 1" c ps] sched_loop_to [of 0 c ps]
    by (simp add: sched_order_def find_append butlast_append split: option.split)
qed

lemma schedule_order:
  assumes c: "current s = Some c" "pid (procs s ! c) = of_nat c" "c < 10"
  shows "schedule s = (case find (\<lambda>i. status (procs s ! i) = RUNNABLE) (sched_order c) of
     Some p \<Rightarrow> run_proc p s | None \<Rightarrow> Idle (s\<lparr>current := None\<rparr>))"
proof -
  have u: "unat (pid (procs s ! c)) = c" using c by (simp add: unat_of_nat_small)
  have o: "sched_order c = butlast (sched_order c) @ [c]" by (simp add: sched_order_def butlast_append)
  have "schedule s = (case find (\<lambda>i. status (procs s ! i) = RUNNABLE) (butlast (sched_order c) @ [c]) of
     Some p \<Rightarrow> run_proc p s | None \<Rightarrow> Idle (s\<lparr>current := None\<rparr>))"
    using c(1) sched_loop_order [OF c(3), of "procs s"]
    by (simp add: schedule_def u find_append split: option.split)
  then show ?thesis using o by simp
qed

section \<open>Properties of processes\<close>

text \<open>C26. After \<open>init_proc\<close>, allocation hands out the slots 0, 1, 2, \dots in order; the eleventh
  allocation does not return NULL, as its callers check, but follows the null list head.\<close>

theorem process_table:
  assumes "10 \<le> length (procs s)"
  shows "if n \<le> 10 then \<exists>s'. alloc_procs n (init_proc s) = Inr ([0..<n], s')
         else alloc_procs n (init_proc s) = Inl NullPointer"
  using alloc_procs_takes [OF init_proc_free [OF assms], of n] by auto

text \<open>C19. With process \<open>c\<close> current, \<open>schedule\<close> ends and runs the first runnable process in the order
  \<open>c + 1\<close>, \dots, 9, 0, \dots, \<open>c - 1\<close>, \<open>c\<close>, and halts with no current process when there is none.  For
  \<open>c = 9\<close> the order is 10, 1, \dots, 9: slot 10, outside the table, is looked at and process 0 is
  never chosen.\<close>

theorem schedule_round_robin:
  assumes "current s = Some c" and "pid (procs s ! c) = of_nat c" and "c < 10"
  shows "schedule s =
    (case find (\<lambda>i. status (procs s ! i) = RUNNABLE)
            ((if c = 9 then 10 # [1..<9] else [Suc c..<10] @ [0..<c]) @ [c]) of
       Some p \<Rightarrow> Run p (s\<lparr>cr3 := pgdir (procs s ! p) - KBASE, current := Some p\<rparr>)
     | None \<Rightarrow> Idle (s\<lparr>current := None\<rparr>))"
  using schedule_order [OF assms] by (simp only: sched_order_def run_proc_def lcr3_def)

section \<open>Witnesses\<close>

text \<open>
  A table of ten slots and the unused eleventh: process 3 and the current process 9 are runnable,
  the other slots are as they are after \<open>memset\<close>.
\<close>

definition proc_machine :: "ready_drive kproc" where
  "proc_machine = \<lparr>npages = npages (machine 8 50), pages = pages (machine 8 50), phead = phead (machine 8 50),
     kused_mem = 0, kpgdir = PAGE2VA 0, procs_at = 0, mem = (\<lambda>a. 0), dev = small_drive, sb = 0, blk_bitmap = 0,
     ino_bitmap = 0, ino_table = 0, pcaches = pcaches cache_machine,
     procs = (replicate 11 zero_proc)[3 := zero_proc\<lparr>pid := 3, status := RUNNABLE, pgdir := PAGE2VA 1\<rparr>,
       9 := zero_proc\<lparr>pid := 9, status := RUNNABLE, pgdir := PAGE2VA 2\<rparr>],
     current = Some 9, proc_head = Some 0, filetable = [], cr3 = 0,
     kcon = \<lparr>xpos = 0, ypos = 0, video = 0, vmem = (\<lambda>a. 0), kbs = \<lparr>buf = replicate 1024 0, rpos = 0, wpos = 0\<rparr>\<rparr>\<rparr>"

lemma proc_machine_mm: "mm_inv proc_machine" "free_pages proc_machine = {8..<50}"
proof -
  have e: "pages proc_machine = pages (machine 8 50)" "phead proc_machine = phead (machine 8 50)"
    "npages proc_machine = npages (machine 8 50)"
    by (simp_all add: proc_machine_def)
  show "mm_inv proc_machine" using mm_cong(1) [OF e] machine_facts(2) [of 8 50] by simp
  show "free_pages proc_machine = {8..<50}" using mm_cong(2) [OF e] machine_facts(1) [of 8 50] by simp
qed

lemma proc_machine_table:
  "length (procs proc_machine) = 11" "current proc_machine = Some 9" "pid (procs proc_machine ! 9) = of_nat 9"
  "pgdir (procs proc_machine ! 3) = PAGE2VA 1"
  by (simp_all add: proc_machine_def zero_proc_def)

lemma proc_machine_status: "i < 11 \<Longrightarrow> status (procs proc_machine ! i) = RUNNABLE \<longleftrightarrow> i = 3 \<or> i = 9"
  by (simp add: proc_machine_def zero_proc_def nth_list_update)

lemma proc_machine_find: "find (\<lambda>i. status (procs proc_machine ! i) = RUNNABLE) (10 # [1..<9] @ [9]) = Some 3"
proof -
  have "[1..<9 :: nat] = [1, 2, 3, 4, 5, 6, 7, 8]" by (simp add: upt_rec)
  then show ?thesis by (simp add: proc_machine_status)
qed

theorem process_table_witness:
  "(\<exists>s'. alloc_procs 3 (init_proc proc_machine) = Inr ([0..<3], s'))
   \<and> alloc_procs 11 (init_proc proc_machine) = Inl NullPointer"
proof -
  have l: "10 \<le> length (procs proc_machine)" by (simp add: proc_machine_table)
  from process_table [OF l, of 3] process_table [OF l, of 11] show ?thesis by simp
qed

theorem schedule_round_robin_witness:
  "schedule proc_machine = Run 3 (proc_machine\<lparr>cr3 := PAGE2VA 1 - KBASE, current := Some 3\<rparr>)"
  using schedule_round_robin [OF proc_machine_table(2,3)] proc_machine_table(4) proc_machine_find by simp

end
