(* ===== verification/Window.thy ===== *)
theory Window
  imports Proc
begin

text \<open>
  The user window of an address space, the pages from \<open>UTEXT\<close> to \<open>USTACKTOP\<close> of theory \<open>Proc\<close>: the tables
  below a root lie on the paths of the window (\<open>confined\<close>), which \<open>insert_page\<close> preserves; and what an operation
  leaves alone, page by page (\<open>keeps\<close>), so that other address spaces stay as they are.
\<close>

section \<open>The inner tables\<close>

text \<open>The entries of the tables above the leaves.\<close>

definition same_inner :: "u64 \<Rightarrow> mem \<Rightarrow> mem \<Rightarrow> bool" where
  "same_inner r m m' \<longleftrightarrow> (\<forall>js b i. upath js \<longrightarrow> length js < 3 \<longrightarrow> node m r js = Some b \<longrightarrow> i < 512 \<longrightarrow>
     load64 m' (b + 8 * i) = load64 m (b + 8 * i))"

lemma leaf_store_inner:
  assumes inv: "pt_inv s r" and va: "user_va va" and a: "pte_addr (mem s) r va = Some a"
  shows "same_inner r (mem s) (store64 (mem s) a e)"
  unfolding same_inner_def
proof (intro allI impI)
  fix js b and i :: u64
  assume js: "upath js" "length js < 3" "node (mem s) r js = Some b" and i: "i < 512"
  obtain c where c: "node (mem s) r (vpath va) = Some c" "a = c + 8 * idx 12 va" using a by (auto simp: pte_addr_def)
  have "vpath va \<noteq> js" using js(2) by (auto simp: vpath_def)
  then have "apart a 8 (b + 8 * i) 8"
    unfolding c(2) by (intro node_entry_disj [OF inv upath_vpath [OF va] js(1) c(1) js(3) idx_less i]) simp
  then show "load64 (store64 (mem s) a e) (b + 8 * i) = load64 (mem s) (b + 8 * i)" by (rule load64_store64_disj)
qed

section \<open>Address spaces confined to the window\<close>

text \<open>
  The paths of the pages from \<open>UTEXT\<close> to \<open>USTACKTOP\<close>.  In an address space confined to them no other
  table exists, and an entry above the leaves that is not present is 0.
\<close>

definition window :: "u64 list \<Rightarrow> bool" where
  "window js \<longleftrightarrow> js = [] \<or> js = [0] \<or> js = [0, 2] \<or> (\<exists>i < 128. js = [0, 2, of_nat i])"

definition confined :: "mem \<Rightarrow> u64 \<Rightarrow> bool" where
  "confined m r \<longleftrightarrow> (\<forall>js. upath js \<longrightarrow> node m r js \<noteq> None \<longrightarrow> window js)
   \<and> (\<forall>js b i. upath (js @ [i]) \<longrightarrow> node m r js = Some b \<longrightarrow> load64 m (b + 8 * i) AND 1 = 0 \<longrightarrow> load64 m (b + 8 * i) = 0)"

lemma confined_cong:
  assumes conf: "confined m r" and n: "\<And>js. upath js \<Longrightarrow> node m' r js = node m r js" and i: "same_inner r m m'"
  shows "confined m' r"
  unfolding confined_def
proof (intro conjI allI impI)
  fix js assume "upath js" "node m' r js \<noteq> None"
  then show "window js" using conf n unfolding confined_def by metis
next
  fix js b and i :: u64
  assume js: "upath (js @ [i])" "node m' r js = Some b" "load64 m' (b + 8 * i) AND 1 = 0"
  have u: "upath js" "length js < 3" "i < 512" using js(1) by (auto simp: upath_def upath_butlast)
  have b: "node m r js = Some b" using js(2) n [OF u(1)] by simp
  have "load64 m' (b + 8 * i) = load64 m (b + 8 * i)" using assms(3) u b unfolding same_inner_def by blast
  then show "load64 m' (b + 8 * i) = 0" using conf js(1,3) b unfolding confined_def by metis
qed

lemma enter_confined:
  assumes inv: "pt_inv s r" and "is": "upath (is @ [i])" "window (is @ [i])" and b: "node (mem s) r is = Some b"
    and e: "enter (b + 8 * i) s = Inr (b', s')" and conf: "confined (mem s) r"
  shows "confined (mem s') r"
  using pt_inv_mm [OF inv] e
proof (cases rule: enter_cases)
  case present
  then show ?thesis using conf by simp
next
  case (fresh p)
  note nf = node_fresh [OF inv "is"(1) b fresh(1,2,4), folded fresh(5)]
  obtain f where f: "f < 2 ^ 18" "f \<notin> free_pages s" "b = PAGE2VA f" by (rule pt_inv_node [OF inv upath_butlast [OF "is"(1)] b])
  show ?thesis
    unfolding confined_def
  proof (intro conjI allI impI)
    fix js assume "upath js" "node (mem s') r js \<noteq> None"
    then show "window js" using nf "is"(2) conf unfolding confined_def by (auto split: if_splits)
  next
    fix js c and j :: u64
    assume js: "upath (js @ [j])" "node (mem s') r js = Some c" "load64 (mem s') (c + 8 * j) AND 1 = 0"
    note u = upath_butlast [OF js(1)] upath_last [OF js(1)] upath_last [OF "is"(1)]
    show "load64 (mem s') (c + 8 * j) = 0"
    proof (cases "js = is @ [i]")
      case True
      then have "c = PAGE2VA p" using nf [OF u(1)] js(2) by simp
      moreover have "f \<noteq> p" using f(2) fresh(2) by blast
      ultimately show ?thesis using f fresh(4) u(2,3) by (simp add: fresh(5) fresh_table_new)
    next
      case False
      then have c: "node (mem s) r js = Some c" using nf [OF u(1)] js(2) by simp
      obtain g where g: "g < 2 ^ 18" "g \<notin> free_pages s" "c = PAGE2VA g" by (rule pt_inv_node [OF inv u(1) c])
      have "js \<noteq> is \<or> j \<noteq> i"
      proof (rule ccontr)
        assume "\<not> ?thesis"
        then have "c + 8 * j = b + 8 * i" using b c by simp
        then show False using fresh_table_here [OF fresh(4), of "mem s" "b + 8 * i"] js(3) by (simp add: tbl_def fresh(5))
      qed
      then have "apart (b + 8 * i) 8 (c + 8 * j) 8"
        using node_entry_disj [OF inv upath_butlast [OF "is"(1)] u(1) b c u(3,2)] by blast
      moreover have "apart (PAGE2VA p) 4096 (c + 8 * j) 8"
        unfolding g(3) using g fresh(2,4) u(2) by (intro page_entry_disj) auto
      ultimately have "load64 (mem s') (c + 8 * j) = load64 (mem s) (c + 8 * j)"
        unfolding fresh(5) by (rule fresh_table_other)
      then show ?thesis using conf js(1,3) c unfolding confined_def by metis
    qed
  qed
qed

lemma window_path:
  assumes "UTEXT \<le> va" "va < USTACKTOP"
  shows "idx 39 va = 0" "idx 30 va = 2" "window (vpath va)" "user_va va"
proof -
  have v: "0x80000000 \<le> unat va" "unat va < 0x8FFFF000"
    using assms by (simp_all add: UTEXT_def USTACKTOP_def word_le_nat_alt word_less_nat_alt)
  have i: "unat (idx sh va) = unat va div 2 ^ sh mod 512" for sh
    by (simp only: idx_take unsigned_take_bit_eq unat_drop_bit_eq) (simp add: drop_bit_eq_div take_bit_eq_mod)
  have "unat va div 2 ^ 39 mod 512 = 0" "unat va div 2 ^ 30 mod 512 = 2" using v by auto
  moreover have "unat va div 2 ^ 21 mod 512 < 128"
  proof -
    have "1024 \<le> unat va div 2 ^ 21" "unat va div 2 ^ 21 < 1152" using v by auto
    moreover have "x mod 512 < 128" if x: "1024 \<le> x" "x < 1152" for x :: nat
    proof -
      have "((x - 1024) + 512 * 2) mod 512 = (x - 1024) mod 512" by (rule mod_mult_self2)
      moreover have "(x - 1024) + 512 * 2 = x" "(x - 1024) mod 512 = x - 1024" using x by simp_all
      ultimately show ?thesis using x by (simp only:)
    qed
    ultimately show ?thesis by blast
  qed
  ultimately have u: "unat (idx 39 va) = 0" "unat (idx 30 va) = 2" "unat (idx 21 va) < 128" by (simp_all only: i)
  then show z: "idx 39 va = 0" "idx 30 va = 2" by (simp_all add: word_unat_eq_iff)
  show "window (vpath va)"
    unfolding window_def vpath_def z using u(3) by (intro disjI2 exI [of _ "unat (idx 21 va)"]) simp
  show "user_va va" by (simp add: user_va_def z)
qed

lemma insert_page_confined:
  assumes inv: "pt_inv s r" and va: "UTEXT \<le> va" "va < USTACKTOP" and room: "3 \<le> card (free_pages s)"
    and conf: "confined (mem s) r" and ins: "insert_page r va (Some p) fl s = Inr (0, s')"
  shows "confined (mem s') r"
proof -
  note w = window_path [OF va]
  obtain a s3 where g: "walk_steps r va s = Inr (0, Some a, s3)" "grows s s3 r" "pte_addr (mem s3) r va = Some a"
    using walk_steps_spec [OF inv w(4) room] by blast
  have s': "s' = s3\<lparr>mem := store64 (mem s3) a (PAGE2PA p OR fl)\<rparr>"
    using ins g(1) by (simp add: insert_page_def walk_page_steps [OF inv])
  obtain b1 s1 b2 s2 b3 where e: "enter (r + 8 * 0) s = Inr (b1, s1)" "enter (b1 + 8 * 2) s1 = Inr (b2, s2)"
    "enter (b2 + 8 * idx 21 va) s2 = Inr (b3, s3)"
    using g(1) unfolding walk_steps_def w(1,2) by (auto simp: bindE_def split: sum.splits)
  have up: "upath ([] @ [0])" "upath ([0] @ [2])" "upath ([0, 2] @ [idx 21 va])" and win: "window ([] @ [0])" "window ([0] @ [2])"
    "window ([0, 2] @ [idx 21 va])"
    using w(3) by (auto simp: upath_def window_def vpath_def w(1,2))
  have n0: "node (mem s) r [] = Some r" by simp
  note g1 = enter_grows(1,2) [OF inv up(1) n0 e(1)] and c1 = enter_confined [OF inv up(1) win(1) n0 e(1) conf]
  note n1 = g1(2) [unfolded append_Nil]
  note g2 = enter_grows(1,2) [OF grows_inv [OF g1(1)] up(2) n1 e(2)]
    and c2 = enter_confined [OF grows_inv [OF g1(1)] up(2) win(2) n1 e(2) c1]
  note n2 = g2(2) [unfolded append.simps]
  have c3: "confined (mem s3) r" by (rule enter_confined [OF grows_inv [OF g2(1)] up(3) win(3) n2 e(3) c2])
  note inv3 = grows_inv [OF g(2)]
  show ?thesis
    unfolding s' using node_leaf_store [OF inv3 w(4) g(3)] leaf_store_inner [OF inv3 w(4) g(3)]
    by (intro confined_cong [OF c3]) simp_all
qed

lemma confined_zero: "confined (\<lambda>a. 0) r"
  by (simp add: confined_def node_zero load64_zero window_def)

section \<open>What an operation leaves alone\<close>

text \<open>All pages but those of \<open>F\<close> hold the same words.\<close>

definition keeps :: "mem \<Rightarrow> mem \<Rightarrow> nat set \<Rightarrow> bool" where
  "keeps m m' F \<longleftrightarrow> (\<forall>f i. f \<notin> F \<longrightarrow> f < 2 ^ 18 \<longrightarrow> i < 512 \<longrightarrow>
     load64 m' (PAGE2VA f + 8 * i) = load64 m (PAGE2VA f + 8 * i))"

lemma keeps_refl [simp]: "keeps m m F"
  by (simp add: keeps_def)

lemma keeps_trans: "keeps m m1 F \<Longrightarrow> keeps m1 m2 G \<Longrightarrow> F \<subseteq> H \<Longrightarrow> G \<subseteq> H \<Longrightarrow> keeps m m2 H"
  unfolding keeps_def by (metis subsetD)

lemma keeps_mono: "keeps m m1 F \<Longrightarrow> F \<subseteq> H \<Longrightarrow> keeps m m1 H"
  unfolding keeps_def by blast

lemma keeps_leaf:
  assumes inv: "pt_inv s r" and va: "user_va va" and a: "pte_addr (mem s) r va = Some a"
  shows "keeps (mem s) (store64 (mem s) a e) (tables s r)"
  unfolding keeps_def
proof (intro allI impI)
  fix f and i :: u64
  assume f: "f \<notin> tables s r" "f < 2 ^ 18" "i < 512"
  obtain g where g: "g \<in> tables s r" "g < 2 ^ 18" "a = PAGE2VA g + 8 * idx 12 va"
    by (rule leaf_page [OF inv va a])
  have "g \<noteq> f" using f(1) g(1) by blast
  then have "apart a 8 (PAGE2VA f + 8 * i) 8" unfolding g(3) using g(2) f by (intro entry_disj) auto
  then show "load64 (store64 (mem s) a e) (PAGE2VA f + 8 * i) = load64 (mem s) (PAGE2VA f + 8 * i)"
    by (simp add: load64_store64_disj)
qed

lemma confined_leaf:
  assumes inv: "pt_inv s r" and va: "user_va va" and a: "pte_addr (mem s) r va = Some a" and conf: "confined (mem s) r"
  shows "confined (store64 (mem s) a e) r"
  by (rule confined_cong [OF conf node_leaf_store [OF inv va a] leaf_store_inner [OF inv va a]])

text \<open>An address space none of whose tables is touched.\<close>

lemma space_kept:
  assumes inv: "pt_inv s r" and mm: "mm_inv s'" "length (pages s') = length (pages s)"
    and k: "keeps (mem s) (mem s') F" and d: "tables s r \<inter> F = {}" "tables s r \<inter> free_pages s' = {}"
  shows "pt_inv s' r" and "tables s' r = tables s r" and "user_va va \<Longrightarrow> pte_of (mem s') r va = pte_of (mem s) r va"
    and "confined (mem s) r \<Longrightarrow> confined (mem s') r"
proof -
  have len: "length (pages s) \<le> 2 ^ 18" using pt_inv_mm [OF inv] by (simp add: mm_inv_def)
  have look: "load64 (mem s') (PAGE2VA f + 8 * i) = load64 (mem s) (PAGE2VA f + 8 * i)"
    if f: "f \<in> tables s r" "i < 512" for f i
  proof -
    have "f \<notin> F" "f < 2 ^ 18" using f(1) d(1) len by (auto simp: tables_def)
    then show ?thesis using k f(2) unfolding keeps_def by blast
  qed
  note fr = pt_frame [OF inv look]
  show "pt_inv s' r" "tables s' r = tables s r" by (rule pt_inv_cong [OF inv fr(1) mm d(2)]; assumption)+
  show "user_va va \<Longrightarrow> pte_of (mem s') r va = pte_of (mem s) r va" by (rule fr(2))
  have "same_inner r (mem s) (mem s')"
    unfolding same_inner_def
  proof (intro allI impI)
    fix js b and i :: u64
    assume js: "upath js" "node (mem s) r js = Some b" and i: "i < 512"
    obtain f where f: "f < length (pages s)" "b = PAGE2VA f" by (rule pt_inv_node [OF inv js])
    then have "f \<in> tables s r" using js by (auto simp: tables_def)
    then show "load64 (mem s') (b + 8 * i) = load64 (mem s) (b + 8 * i)" unfolding f(2) using i by (rule look)
  qed
  from confined_cong [OF _ fr(1) this] show "confined (mem s) r \<Longrightarrow> confined (mem s') r" .
qed

lemma new_page_keeps: "new_page s s' r va p fl \<Longrightarrow> keeps (mem s) (mem s') (free_pages s \<union> tables s r)"
  by (simp add: new_page_def keeps_def)

end
