(* ===== verification/Fork.thy ===== *)
theory Fork
  imports Window
begin

text \<open>
  What \<open>sys_fork\<close> makes of the two address spaces: the loop over the user pages of the parent
  (\<open>fork_pages\<close> of theory \<open>Proc\<close>) shares every mapped page read-only and copy-on-write between
  parent and child and counts the new references; and the empty address space \<open>alloc_vm\<close> gives
  the child to begin with.
\<close>

section \<open>Sharing one page\<close>

text \<open>Parent and child: two address spaces with no common table page.\<close>

definition two_spaces :: "'a kmm_scheme \<Rightarrow> u64 \<Rightarrow> u64 \<Rightarrow> bool" where
  "two_spaces s r c \<longleftrightarrow> pt_inv s r \<and> pt_inv s c \<and> tables s r \<inter> tables s c = {}"

definition frame_of :: "u64 \<Rightarrow> nat" where
  "frame_of e = unat (drop_bit 12 e)"

text \<open>The entry both have afterwards: the same frame, readable by the user, marked copy-on-write.\<close>

definition share :: "u64 \<Rightarrow> u64" where
  "share e = e div 4096 * 4096 OR PTE_U OR PTE_P OR PTE_COW"

lemma PAGE2PA_frame: "PAGE2PA (frame_of e) = e div 4096 * 4096"
  by (simp add: PAGE2PA_def frame_of_def push_bit_eq_mult drop_bit_eq_div)

lemma bump_count:
  assumes inv: "mm_inv s" and i: "0 < page_refs s i"
  defines "s' \<equiv> s\<lparr>pages := (pages s)[i := (pages s ! i)\<lparr>count := count (pages s ! i) + 1\<rparr>]\<rparr>"
  shows "mm_inv s'" and "free_pages s' = free_pages s" and "page_refs s' = (page_refs s)(i := page_refs s i + 1)"
    and "i < length (pages s)"
proof -
  show il: "i < length (pages s)" using i by (simp add: page_refs_def split: if_splits)
  have c: "0 < count (pages s ! i)" using i il by (simp add: page_refs_def)
  show fp: "free_pages s' = free_pages s" using il c by (auto simp: s'_def free_pages_def nth_list_update)
  have "page_link s' = page_link s" using il by (auto simp: s'_def page_link_def nth_list_update)
  then show "mm_inv s'" using inv il c unfolding mm_inv_def fp by (auto simp: s'_def nth_list_update)
  show "page_refs s' = (page_refs s)(i := page_refs s i + 1)"
    using il by (auto simp: s'_def page_refs_def nth_list_update fun_eq_iff)
qed

text \<open>A store into a leaf of one address space does not touch the other.\<close>

lemma other_space_leaf_store:
  assumes two: "two_spaces s r c" and va: "user_va va" and a: "pte_addr (mem s) r va = Some a"
  shows "upath js \<Longrightarrow> node (store64 (mem s) a e) c js = node (mem s) c js"
    and "user_va va' \<Longrightarrow> pte_of (store64 (mem s) a e) c va' = pte_of (mem s) c va'"
proof -
  have inv: "pt_inv s r" "pt_inv s c" "tables s r \<inter> tables s c = {}" using two by (simp_all add: two_spaces_def)
  obtain g where g: "g \<in> tables s r" "g < 2 ^ 18" "a = PAGE2VA g + 8 * idx 12 va"
    by (rule leaf_page [OF inv(1) va a])
  have keep: "load64 (store64 (mem s) a e) (PAGE2VA f + 8 * i) = load64 (mem s) (PAGE2VA f + 8 * i)"
    if f: "f \<in> tables s c" and i: "i < 512" for f i
  proof -
    have "g \<noteq> f" using f g(1) inv(3) by blast
    moreover have "f < 2 ^ 18" using f pt_inv_mm [OF inv(1)] by (auto simp: tables_def mm_inv_def)
    ultimately have "apart a 8 (PAGE2VA f + 8 * i) 8" unfolding g(3) using g(2) i by (intro entry_disj) auto
    then show ?thesis by (simp add: load64_store64_disj)
  qed
  show "upath js \<Longrightarrow> node (store64 (mem s) a e) c js = node (mem s) c js" by (rule pt_frame(1) [OF inv(2) keep])
  show "user_va va' \<Longrightarrow> pte_of (store64 (mem s) a e) c va' = pte_of (mem s) c va'"
    by (rule pt_frame(2) [OF inv(2) keep])
qed

lemma two_spaces_leaf_store:
  assumes two: "two_spaces s r c" and va: "user_va va" and a: "pte_addr (mem s) r va = Some a"
  shows "two_spaces (s\<lparr>mem := store64 (mem s) a e\<rparr>) r c"
proof -
  have inv: "pt_inv s r" "pt_inv s c" "tables s r \<inter> tables s c = {}" using two by (simp_all add: two_spaces_def)
  let ?s = "s\<lparr>mem := store64 (mem s) a e\<rparr>"
  have "pt_inv ?s c" "tables ?s c = tables s c"
    using pt_inv_cong [OF inv(2), of ?s] other_space_leaf_store(1) [OF assms] pt_inv_mm [OF inv(1)]
      tables_not_free [OF inv(2)] by simp_all
  with pt_inv_leaf_store [OF inv(1) va a] inv(3) show ?thesis by (simp add: two_spaces_def)
qed

lemma two_spaces_bump:
  assumes two: "two_spaces s r c" and i: "0 < page_refs s i"
  shows "two_spaces (s\<lparr>pages := (pages s)[i := (pages s ! i)\<lparr>count := count (pages s ! i) + 1\<rparr>]\<rparr>) r c"
proof -
  have inv: "pt_inv s r" "pt_inv s c" "tables s r \<inter> tables s c = {}" using two by (simp_all add: two_spaces_def)
  let ?s = "s\<lparr>pages := (pages s)[i := (pages s ! i)\<lparr>count := count (pages s ! i) + 1\<rparr>]\<rparr>"
  note b = bump_count [OF pt_inv_mm [OF inv(1)] i]
  have "pt_inv ?s r" "tables ?s r = tables s r"
    by (rule pt_inv_cong [OF inv(1)]; use b tables_not_free [OF inv(1)] in simp)+
  moreover have "pt_inv ?s c" "tables ?s c = tables s c"
    by (rule pt_inv_cong [OF inv(2)]; use b tables_not_free [OF inv(2)] in simp)+
  ultimately show ?thesis using inv(3) by (simp add: two_spaces_def)
qed

text \<open>What one round changes, for a leaf entry \<open>e\<close> of the parent.\<close>

definition shares :: "'a kmm_scheme \<Rightarrow> 'a kmm_scheme \<Rightarrow> u64 \<Rightarrow> u64 \<Rightarrow> (u64 \<Rightarrow> bool) \<Rightarrow> (nat \<Rightarrow> int) \<Rightarrow> nat \<Rightarrow> bool" where
  "shares s s' r c V extra n \<longleftrightarrow> two_spaces s' r c
     \<and> (\<forall>va. user_va va \<longrightarrow> pte_of (mem s') r va =
          (if V (vpn va) \<and> pte_of (mem s) r va \<noteq> 0 then share (pte_of (mem s) r va) else pte_of (mem s) r va))
     \<and> (\<forall>va. user_va va \<longrightarrow> pte_of (mem s') c va =
          (if V (vpn va) \<and> pte_of (mem s) r va \<noteq> 0 then share (pte_of (mem s) r va) else pte_of (mem s) c va))
     \<and> free_pages s' \<subseteq> free_pages s \<and> card (free_pages s) \<le> card (free_pages s') + 3 * n
     \<and> (\<forall>q. page_refs s' q = (if q \<in> free_pages s - free_pages s' then 1 else page_refs s q) + extra q)"

text \<open>What it leaves alone: everything but the tables of the two, to which the child may add.\<close>

definition apart_from :: "'a kmm_scheme \<Rightarrow> 'a kmm_scheme \<Rightarrow> u64 \<Rightarrow> u64 \<Rightarrow> bool" where
  "apart_from s s' r c \<longleftrightarrow> tables s' r = tables s r \<and> tables s' c = tables s c \<union> (free_pages s - free_pages s')
     \<and> free_pages s' \<subseteq> free_pages s
     \<and> keeps (mem s) (mem s') (free_pages s \<union> tables s r \<union> tables s c)
     \<and> (confined (mem s) r \<longrightarrow> confined (mem s') r) \<and> (confined (mem s) c \<longrightarrow> confined (mem s') c)
     \<and> length (pages s') = length (pages s) \<and> kmm.more s' = kmm.more s \<and> kpgdir s' = kpgdir s"

lemma apart_from_trans:
  assumes 1: "apart_from s s1 r c" and 2: "apart_from s1 s2 r c"
  shows "apart_from s s2 r c"
proof -
  have "keeps (mem s) (mem s2) (free_pages s \<union> tables s r \<union> tables s c)"
    by (rule keeps_trans [of _ "mem s1" "free_pages s \<union> tables s r \<union> tables s c" _ "free_pages s1 \<union> tables s1 r \<union> tables s1 c"])
      (use 1 2 in \<open>auto simp: apart_from_def\<close>)
  then show ?thesis using 1 2 unfolding apart_from_def by auto
qed

lemma fork_page_shares:
  assumes two: "two_spaces s r c" and win: "UTEXT \<le> va" "va < USTACKTOP"
    and room: "pte_of (mem s) r va \<noteq> 0 \<Longrightarrow> 3 \<le> card (free_pages s)"
    and refs: "pte_of (mem s) r va \<noteq> 0 \<Longrightarrow> 0 < page_refs s (frame_of (pte_of (mem s) r va))"
  shows "\<exists>s'. fork_page r c va s = Inr (0, s')
    \<and> shares s s' r c (\<lambda>v. v = vpn va)
        (\<lambda>q. if pte_of (mem s) r va \<noteq> 0 \<and> q = frame_of (pte_of (mem s) r va) then 1 else 0)
        (if pte_of (mem s) r va \<noteq> 0 then 1 else 0)
    \<and> apart_from s s' r c"
proof -
  have inv: "pt_inv s r" "pt_inv s c" "tables s r \<inter> tables s c = {}" using two by (simp_all add: two_spaces_def)
  note va = window_path(4) [OF win]
  have vpn_pte: "pte_of (mem s) r va' = pte_of (mem s) r va" if "vpn va' = vpn va" for va'
    using that by (simp add: vpn_eq_iff pte_of_def pte_addr_def)
  show ?thesis
  proof (cases "pte_of (mem s) r va = 0")
    case True
    then have "fork_page r c va s = Inr (0, s)"
      by (auto simp: fork_page_def walk_page_lookup pte_of_def split: option.splits)
    moreover have "shares s s r c (\<lambda>v. v = vpn va) (\<lambda>q. 0) 0"
      unfolding shares_def
    proof (intro conjI allI impI)
      fix va'
      have z: "\<not> (vpn va' = vpn va \<and> pte_of (mem s) r va' \<noteq> 0)" using vpn_pte True by metis
      show "pte_of (mem s) r va' = (if vpn va' = vpn va \<and> pte_of (mem s) r va' \<noteq> 0 then share (pte_of (mem s) r va')
          else pte_of (mem s) r va')"
        "pte_of (mem s) c va' = (if vpn va' = vpn va \<and> pte_of (mem s) r va' \<noteq> 0 then share (pte_of (mem s) r va')
          else pte_of (mem s) c va')"
        by (simp_all only: z if_False)
    qed (use two in simp_all)
    moreover have "apart_from s s r c" by (simp add: apart_from_def)
    ultimately show ?thesis using True by simp
  next
    case False
    let ?e = "pte_of (mem s) r va"
    let ?i = "frame_of ?e"
    obtain a where a: "pte_addr (mem s) r va = Some a" and e: "load64 (mem s) a = ?e"
      using False by (auto simp: pte_of_def split: option.splits)
    note i = refs [OF False]
    let ?fl = "PTE_U OR PTE_P OR PTE_COW"
    have dis: "tables s c \<inter> tables s r = {}" using inv(3) by blast
    from insert_page_frame [OF inv(2,1) dis va room [OF False], of ?i ?fl]
    obtain s2 where ins: "insert_page c va (Some ?i) ?fl s = Inr (0, s2)"
      and i2r: "pt_inv s2 r" and dis2: "tables s2 c \<inter> tables s2 r = {}"
      and pr: "\<forall>va'. user_va va' \<longrightarrow> pte_of (mem s2) r va' = pte_of (mem s) r va'"
      and nr: "\<forall>js. upath js \<longrightarrow> node (mem s2) r js = node (mem s) r js"
      and i2c: "pt_inv s2 c"
      and pc: "\<forall>va'. user_va va' \<longrightarrow> pte_of (mem s2) c va' =
          (if vpn va' = vpn va then PAGE2PA ?i OR ?fl else pte_of (mem s) c va')"
      and fr: "free_pages s2 \<subseteq> free_pages s" "card (free_pages s) \<le> card (free_pages s2) + 3"
      and rf: "\<forall>q. page_refs s2 q = (if q \<in> free_pages s - free_pages s2 then 1 else page_refs s q)"
      by (elim exE conjE) (rule that; assumption)
    obtain s2' where "insert_page c va (Some ?i) ?fl s = Inr (0, s2')"
      and full: "tables s2' c = tables s c \<union> (free_pages s - free_pages s2')"
        "\<And>f i. f \<notin> free_pages s \<Longrightarrow> f \<notin> tables s c \<Longrightarrow> f < 2 ^ 18 \<Longrightarrow> i < 512 \<Longrightarrow>
           load64 (mem s2') (PAGE2VA f + 8 * i) = load64 (mem s) (PAGE2VA f + 8 * i)"
        "length (pages s2') = length (pages s)" "kmm.more s2' = kmm.more s" "kpgdir s2' = kpgdir s"
      by (rule insert_page_full [OF inv(2) va room [OF False], of ?i ?fl]) (rule that; assumption)
    then have s2': "s2' = s2" using ins by simp
    note full = full [unfolded s2']
    have k2: "keeps (mem s) (mem s2) (free_pages s \<union> tables s c)" using full(2) by (simp add: keeps_def)
    have conf2c: "confined (mem s) c \<Longrightarrow> confined (mem s2) c"
      by (rule insert_page_confined [OF inv(2) win room [OF False] _ ins])
    have r_kept: "tables s r \<inter> (free_pages s \<union> tables s c) = {}" "tables s r \<inter> free_pages s2 = {}"
      using inv(3) tables_not_free [OF inv(1)] fr(1) by auto
    note kept2 = space_kept [OF inv(1) pt_inv_mm [OF i2c] full(3) k2 r_kept]
    have two2: "two_spaces s2 r c" using i2r i2c dis2 by (auto simp: two_spaces_def)
    have sh: "PAGE2PA ?i OR (PTE_U OR PTE_P OR PTE_COW) = share ?e"
      by (simp add: PAGE2PA_frame share_def or.assoc)
    have "?i \<notin> free_pages s" using i by (auto simp: page_refs_def free_pages_def)
    then have i2: "0 < page_refs s2 ?i" using i rf by simp
    have inv2: "pt_inv s2 r" "mm_inv s2" using i2r pt_inv_mm by simp_all
    have a2: "pte_addr (mem s2) r va = Some a" using a nr upath_vpath [OF va] by (simp add: pte_addr_def)
    have "pte_of (mem s2) r va = load64 (mem s2) a" by (simp add: pte_of_def a2)
    then have e2: "load64 (mem s2) a = ?e" using pr va by simp
    let ?s3 = "s2\<lparr>pages := (pages s2)[?i := (pages s2 ! ?i)\<lparr>count := count (pages s2 ! ?i) + 1\<rparr>]\<rparr>"
    let ?s4 = "?s3\<lparr>mem := store64 (mem ?s3) a (share ?e)\<rparr>"
    note b = bump_count [OF inv2(2) i2]
    have two3: "two_spaces ?s3 r c" by (rule two_spaces_bump [OF two2 i2])
    then have inv3: "pt_inv ?s3 r" by (simp add: two_spaces_def)
    have a3: "pte_addr (mem ?s3) r va = Some a" using a2 by simp
    have run: "fork_page r c va s = Inr (0, ?s4)"
      using False a e ins b(4) e2
      by (simp add: fork_page_def walk_page_lookup Let_def frame_of_def [symmetric] share_def or.assoc)
    have "shares s ?s4 r c (\<lambda>v. v = vpn va) (\<lambda>q. if ?e \<noteq> 0 \<and> q = ?i then 1 else 0) (if ?e \<noteq> 0 then 1 else 0)"
      unfolding shares_def
    proof (intro conjI allI impI)
      show "two_spaces ?s4 r c" by (rule two_spaces_leaf_store [OF two3 va a3])
      fix va' assume va': "user_va va'"
      show "pte_of (mem ?s4) r va' = (if vpn va' = vpn va \<and> pte_of (mem s) r va' \<noteq> 0 then share (pte_of (mem s) r va')
          else pte_of (mem s) r va')"
        using pte_leaf_store [OF inv3 va a3 va', of "share ?e"] pr va' vpn_pte [of va'] False by simp
      show "pte_of (mem ?s4) c va' = (if vpn va' = vpn va \<and> pte_of (mem s) r va' \<noteq> 0 then share (pte_of (mem s) r va')
          else pte_of (mem s) c va')"
        using other_space_leaf_store(2) [OF two3 va a3 va', of "share ?e"] pc va' vpn_pte [of va'] False sh by simp
    qed (use b fr rf False in auto)
    moreover have "apart_from s ?s4 r c"
    proof -
      let ?s4' = "?s3\<lparr>mem := store64 (mem ?s3) a (share ?e)\<rparr>"
      have inv3c: "pt_inv ?s3 c" "tables ?s3 r \<inter> tables ?s3 c = {}" using two3 by (simp_all add: two_spaces_def)
      have t3: "tables ?s3 r = tables s2 r" "tables ?s3 c = tables s2 c"
        by (rule pt_inv_cong(2) [OF i2r] pt_inv_cong(2) [OF i2c];
            use b tables_not_free [OF i2r] tables_not_free [OF i2c] in simp)+
      have k3: "keeps (mem ?s3) (mem ?s4') (tables ?s3 r)" using keeps_leaf [OF inv3 va a3] by simp
      have k4: "keeps (mem s2) (store64 (mem s2) a (share ?e)) (tables s r)"
        using keeps_leaf [OF inv3 va a3, of "share ?e", unfolded t3 kept2(2)] by simp
      have mm4: "mm_inv ?s4'" "length (pages ?s4') = length (pages ?s3)" "free_pages ?s4' = free_pages s2"
        using b(1,2) by simp_all
      have dis4: "tables ?s3 c \<inter> tables ?s3 r = {}" "tables ?s3 c \<inter> free_pages ?s4' = {}"
        using inv3c(2) tables_not_free [OF inv3c(1)] b(2) by auto
      note kept4 = space_kept [OF inv3c(1) mm4(1,2) k3 dis4]
      have t4: "tables ?s4' r = tables s r" "tables ?s4' c = tables s c \<union> (free_pages s - free_pages s2)"
        using pt_inv_leaf_store(2) [OF inv3 va a3, of "share ?e"] kept4(2) t3 kept2(2) full(1) by simp_all
      have "keeps (mem s) (mem ?s4') (free_pages s \<union> tables s r \<union> tables s c)"
        using keeps_trans [OF k2 k4, of "free_pages s \<union> tables s r \<union> tables s c"] by auto
      moreover have "confined (mem ?s4') r" if "confined (mem s) r"
        using confined_leaf [OF inv3 va a3, of "share ?e"] kept2(4) [OF that] by simp
      moreover have "confined (mem ?s4') c" if "confined (mem s) c"
        using kept4(4) conf2c [OF that] by simp
      ultimately show ?thesis using t4 mm4(3) fr(1) full(3-5) unfolding apart_from_def by simp
    qed
    ultimately show ?thesis using run by blast
  qed
qed

section \<open>Sharing all of them\<close>

lemma shares_trans:
  assumes 1: "shares s s1 r c V x n" and 2: "shares s1 s2 r c W y m" and d: "\<And>v. V v \<Longrightarrow> \<not> W v"
    and inv: "mm_inv s"
  shows "shares s s2 r c (\<lambda>v. V v \<or> W v) (\<lambda>q. x q + y q) (n + m)"
  unfolding shares_def
proof (intro conjI allI impI)
  note one = 1 [unfolded shares_def] and two = 2 [unfolded shares_def]
  show "two_spaces s2 r c" using two by blast
  show "free_pages s2 \<subseteq> free_pages s" "card (free_pages s) \<le> card (free_pages s2) + 3 * (n + m)"
    using one two by auto
  fix va assume va: "user_va va"
  have p: "pte_of (mem s1) r va = (if V (vpn va) \<and> pte_of (mem s) r va \<noteq> 0 then share (pte_of (mem s) r va) else pte_of (mem s) r va)"
    "pte_of (mem s1) c va = (if V (vpn va) \<and> pte_of (mem s) r va \<noteq> 0 then share (pte_of (mem s) r va) else pte_of (mem s) c va)"
    "pte_of (mem s2) r va = (if W (vpn va) \<and> pte_of (mem s1) r va \<noteq> 0 then share (pte_of (mem s1) r va) else pte_of (mem s1) r va)"
    "pte_of (mem s2) c va = (if W (vpn va) \<and> pte_of (mem s1) r va \<noteq> 0 then share (pte_of (mem s1) r va) else pte_of (mem s1) c va)"
    using one two va by blast+
  show "pte_of (mem s2) r va = (if (V (vpn va) \<or> W (vpn va)) \<and> pte_of (mem s) r va \<noteq> 0 then share (pte_of (mem s) r va) else pte_of (mem s) r va)"
    "pte_of (mem s2) c va = (if (V (vpn va) \<or> W (vpn va)) \<and> pte_of (mem s) r va \<noteq> 0 then share (pte_of (mem s) r va) else pte_of (mem s) c va)"
    using p d [of "vpn va"] by (cases "V (vpn va)"; simp)+
next
  note one = 1 [unfolded shares_def] and two = 2 [unfolded shares_def]
  fix q
  have r: "page_refs s1 q = (if q \<in> free_pages s - free_pages s1 then 1 else page_refs s q) + x q"
    "page_refs s2 q = (if q \<in> free_pages s1 - free_pages s2 then 1 else page_refs s1 q) + y q"
    using one two by blast+
  have z: "page_refs t q = 0" if "q \<in> free_pages t" for t :: "'a kmm_scheme"
    using that by (simp add: free_pages_def page_refs_def)
  have sub: "free_pages s1 \<subseteq> free_pages s" "free_pages s2 \<subseteq> free_pages s1" using one two by blast+
  show "page_refs s2 q = (if q \<in> free_pages s - free_pages s2 then 1 else page_refs s q) + (x q + y q)"
  proof (cases "q \<in> free_pages s1")
    case True
    then have "x q = 0" using r(1) z sub by auto
    with True r sub z show ?thesis by auto
  next
    case False
    with r sub show ?thesis by auto
  qed
qed

text \<open>The user address of page number \<open>k\<close>.\<close>

definition page_va :: "nat \<Rightarrow> u64" where
  "page_va k = of_nat (4096 * k)"

lemma page_va_unat: "k < 2 ^ 36 \<Longrightarrow> unat (page_va k) = 4096 * k"
  unfolding page_va_def by (intro unat_of_nat_small) simp

lemma page_va_inside:
  assumes "k < 2 ^ 35" "i < 4096"
  shows "vpn (page_va k + of_nat i) = of_nat k" and "user_va (page_va k + of_nat i)"
    and "(page_va k + of_nat i) AND 0xFFF = of_nat i" and "page_va k + of_nat i < KBASE"
proof -
  have u: "unat (page_va k + of_nat i) = 4096 * k + i"
  proof -
    have "page_va k + of_nat i = of_nat (4096 * k + i)" by (simp add: page_va_def)
    then show ?thesis using assms by (simp only:) (rule unat_of_nat_small, simp)
  qed
  have "unat (vpn (page_va k + of_nat i)) = take_bit 36 ((4096 * k + i) div 2 ^ 12)"
    by (simp only: vpn_def unsigned_take_bit_eq unat_drop_bit_eq u) (simp only: drop_bit_eq_div)
  also have "\<dots> = k" using assms by (simp add: take_bit_nat_eq_self)
  finally have "unat (vpn (page_va k + of_nat i)) = k" .
  then show "vpn (page_va k + of_nat i) = of_nat k" by (metis of_nat_unat ucast_id)
  have "unat (idx 39 (page_va k + of_nat i)) = take_bit 9 ((4096 * k + i) div 2 ^ 39)"
    by (simp only: idx_take unsigned_take_bit_eq unat_drop_bit_eq u) (simp only: drop_bit_eq_div)
  also have "\<dots> < 256"
  proof -
    have "(4096 * k + i) div 2 ^ 39 < 256" using assms by simp
    then show ?thesis by (simp add: take_bit_nat_eq_self)
  qed
  finally show "user_va (page_va k + of_nat i)" by (simp add: user_va_def word_less_nat_alt)
  have m: "(0xFFF :: u64) = mask 12" by (simp add: mask_eq_exp_minus_1)
  have "unat ((page_va k + of_nat i) AND 0xFFF) = take_bit 12 (4096 * k + i)"
    by (simp only: m take_bit_eq_mask [symmetric] unsigned_take_bit_eq u)
  also have "\<dots> = i" using assms(2) by (simp add: take_bit_eq_mod)
  finally have "unat ((page_va k + of_nat i) AND 0xFFF) = i" .
  then show "(page_va k + of_nat i) AND 0xFFF = of_nat i" by (metis of_nat_unat ucast_id)
  show "page_va k + of_nat i < KBASE" using assms u by (simp add: word_less_nat_alt KBASE_def)
qed

lemma page_va_facts: "k < 2 ^ 35 \<Longrightarrow> vpn (page_va k) = of_nat k" "k < 2 ^ 35 \<Longrightarrow> user_va (page_va k)"
  using page_va_inside [of k 0] by simp_all

definition mapped :: "'a kmm_scheme \<Rightarrow> u64 \<Rightarrow> nat \<Rightarrow> nat \<Rightarrow> nat set" where
  "mapped s r b n = {k. b \<le> k \<and> k < b + n \<and> pte_of (mem s) r (page_va k) \<noteq> 0}"

lemma mapped_finite [simp]: "finite (mapped s r b n)"
  by (rule finite_subset [of _ "{..<b + n}"]) (auto simp: mapped_def)

definition sharers :: "'a kmm_scheme \<Rightarrow> u64 \<Rightarrow> nat \<Rightarrow> nat \<Rightarrow> nat \<Rightarrow> nat set" where
  "sharers s r b n q = {k \<in> mapped s r b n. frame_of (pte_of (mem s) r (page_va k)) = q}"

lemma mapped_Suc:
  "mapped s r b (Suc n) = (if pte_of (mem s) r (page_va b) \<noteq> 0 then insert b (mapped s r (Suc b) n) else mapped s r (Suc b) n)"
  "b \<notin> mapped s r (Suc b) n"
  by (auto simp: mapped_def not_less_eq_eq [symmetric] le_less)

lemma card_mapped_Suc:
  fixes s :: "'a kmm_scheme"
  shows "card (mapped s r b (Suc n)) = (if pte_of (mem s) r (page_va b) \<noteq> 0 then 1 else 0) + card (mapped s r (Suc b) n)"
    and "card (sharers s r b (Suc n) q) = (if pte_of (mem s) r (page_va b) \<noteq> 0 \<and> q = frame_of (pte_of (mem s) r (page_va b)) then 1 else 0)
     + card (sharers s r (Suc b) n q)"
proof -
  note m = mapped_Suc(1) [of s r b n] mapped_Suc(2) [of b s r n]
  show "card (mapped s r b (Suc n)) = (if pte_of (mem s) r (page_va b) \<noteq> 0 then 1 else 0) + card (mapped s r (Suc b) n)"
    using m by simp
  have e: "sharers s r b (Suc n) q = (if pte_of (mem s) r (page_va b) \<noteq> 0 \<and> q = frame_of (pte_of (mem s) r (page_va b))
      then insert b (sharers s r (Suc b) n q) else sharers s r (Suc b) n q)"
    using m by (auto simp: sharers_def)
  have "finite (sharers s r (Suc b) n q)" "b \<notin> sharers s r (Suc b) n q" using m(2) by (auto simp: sharers_def)
  then show "card (sharers s r b (Suc n) q) = (if pte_of (mem s) r (page_va b) \<noteq> 0 \<and> q = frame_of (pte_of (mem s) r (page_va b)) then 1 else 0)
     + card (sharers s r (Suc b) n q)" unfolding e by auto
qed

lemma fork_pages_shares:
  assumes "two_spaces s r c" and "0x80000 \<le> b" "b + n \<le> 0x8FFFF"
    and "3 * card (mapped s r b n) \<le> card (free_pages s)"
    and "\<And>k. k \<in> mapped s r b n \<Longrightarrow> 0 < page_refs s (frame_of (pte_of (mem s) r (page_va k)))"
  shows "\<exists>s'. fork_pages r c (page_va b) n s = Inr (0, s')
    \<and> shares s s' r c (\<lambda>v. b \<le> unat v \<and> unat v < b + n) (\<lambda>q. int (card (sharers s r b n q))) (card (mapped s r b n))
    \<and> apart_from s s' r c"
  using assms
proof (induction n arbitrary: b s)
  case 0
  have n: "(\<lambda>v :: u64. b \<le> unat v \<and> unat v < b + 0) = (\<lambda>v. False)" by auto
  have m: "mapped s r b 0 = {}" by (auto simp: mapped_def)
  show ?case using 0(1) unfolding n by (simp add: shares_def m sharers_def apart_from_def)
next
  case (Suc n)
  have b35: "b < 2 ^ 35" using Suc.prems(3) by simp
  have b_un': "unat (page_va b) = 4096 * b" using b35 by (intro page_va_unat) simp
  have win: "UTEXT \<le> page_va b" "page_va b < USTACKTOP"
    using Suc.prems(2,3) by (simp_all add: UTEXT_def USTACKTOP_def word_le_nat_alt word_less_nat_alt b_un')
  note pf = page_va_facts [OF b35]
  have bm: "b \<in> mapped s r b (Suc n)" if "pte_of (mem s) r (page_va b) \<noteq> 0" using that by (simp add: mapped_def)
  have "\<exists>s1. fork_page r c (page_va b) s = Inr (0, s1)
    \<and> shares s s1 r c (\<lambda>v. v = vpn (page_va b))
        (\<lambda>q. if pte_of (mem s) r (page_va b) \<noteq> 0 \<and> q = frame_of (pte_of (mem s) r (page_va b)) then 1 else 0)
        (if pte_of (mem s) r (page_va b) \<noteq> 0 then 1 else 0)
    \<and> apart_from s s1 r c"
  proof (rule fork_page_shares [OF Suc.prems(1) win])
    assume nz: "pte_of (mem s) r (page_va b) \<noteq> 0"
    show "3 \<le> card (free_pages s)" using Suc.prems(4) nz by (simp add: card_mapped_Suc)
    show "0 < page_refs s (frame_of (pte_of (mem s) r (page_va b)))" by (rule Suc.prems(5) [OF bm [OF nz]])
  qed
  then obtain s1 where run1: "fork_page r c (page_va b) s = Inr (0, s1)"
    and sh1: "shares s s1 r c (\<lambda>v. v = vpn (page_va b))
        (\<lambda>q. if pte_of (mem s) r (page_va b) \<noteq> 0 \<and> q = frame_of (pte_of (mem s) r (page_va b)) then 1 else 0)
        (if pte_of (mem s) r (page_va b) \<noteq> 0 then 1 else 0)" (is "shares _ _ _ _ ?V ?x ?n")
    and ap1: "apart_from s s1 r c"
    by blast
  note one = sh1 [unfolded shares_def]
  have same: "pte_of (mem s1) r (page_va k) = pte_of (mem s) r (page_va k)" if "Suc b \<le> k" "k < Suc b + n" for k
  proof -
    have k: "k < 2 ^ 35" using that Suc.prems(3) by simp
    note kf = page_va_facts [OF k]
    have "unat (of_nat k :: u64) = k" "unat (of_nat b :: u64) = b" using k b35 by (simp_all add: unat_of_nat_small)
    then have "(of_nat k :: u64) \<noteq> of_nat b" using that(1) by (metis not_less_eq_eq order_refl)
    then have "vpn (page_va k) \<noteq> vpn (page_va b)" using kf(1) pf(1) by simp
    then show ?thesis using one kf(2) by simp
  qed
  have map_same: "mapped s1 r (Suc b) n = mapped s r (Suc b) n" using same by (auto simp: mapped_def)
  have sharers_same: "sharers s1 r (Suc b) n q = sharers s r (Suc b) n q" for q
    using same unfolding sharers_def map_same by (auto simp: mapped_def)
  have two1: "two_spaces s1 r c" using one by blast
  have len: "0x80000 \<le> Suc b" "Suc b + n \<le> 0x8FFFF" using Suc.prems(2,3) by simp_all
  have room1: "3 * card (mapped s1 r (Suc b) n) \<le> card (free_pages s1)"
    using Suc.prems(4) one unfolding map_same card_mapped_Suc by (auto split: if_splits)
  have refs1: "0 < page_refs s1 (frame_of (pte_of (mem s1) r (page_va k)))" if k: "k \<in> mapped s1 r (Suc b) n" for k
  proof -
    let ?q = "frame_of (pte_of (mem s) r (page_va k))"
    have km: "k \<in> mapped s r b (Suc n)" using k unfolding map_same by (auto simp: mapped_def)
    have e: "pte_of (mem s1) r (page_va k) = pte_of (mem s) r (page_va k)" using k same by (auto simp: mapped_def)
    have "page_refs s1 ?q = (if ?q \<in> free_pages s - free_pages s1 then 1 else page_refs s ?q) + ?x ?q" using one by blast
    moreover have "0 < page_refs s ?q" by (rule Suc.prems(5) [OF km])
    ultimately show ?thesis unfolding e by (auto split: if_splits)
  qed
  from Suc.IH [OF two1 len room1 refs1] obtain s2 where run2: "fork_pages r c (page_va (Suc b)) n s1 = Inr (0, s2)"
    and sh2: "shares s1 s2 r c (\<lambda>v. Suc b \<le> unat v \<and> unat v < Suc b + n)
       (\<lambda>q. int (card (sharers s r (Suc b) n q))) (card (mapped s r (Suc b) n))"
    and ap2: "apart_from s1 s2 r c"
    unfolding map_same sharers_same by blast
  have b_un: "unat (vpn (page_va b)) = b" using b35 pf(1) by (simp add: unat_of_nat_small)
  have mm: "mm_inv s" using Suc.prems(1) pt_inv_mm by (auto simp: two_spaces_def)
  have "shares s s2 r c (\<lambda>v. v = vpn (page_va b) \<or> (Suc b \<le> unat v \<and> unat v < Suc b + n))
      (\<lambda>q. ?x q + int (card (sharers s r (Suc b) n q))) (?n + card (mapped s r (Suc b) n))"
    by (rule shares_trans [OF sh1 sh2 _ mm]) (simp add: b_un)
  moreover have "(v = vpn (page_va b) \<or> (Suc b \<le> unat v \<and> unat v < Suc b + n)) = (b \<le> unat v \<and> unat v < b + Suc n)" for v
    using b_un by (metis Suc_le_eq add_Suc_right add_Suc_shift le_less less_add_Suc1 word_unat_eq_iff)
  moreover have "?x q + int (card (sharers s r (Suc b) n q)) = int (card (sharers s r b (Suc n) q))" for q
    by (simp add: card_mapped_Suc)
  moreover have "page_va b + 4096 = page_va (Suc b)" by (simp add: page_va_def)
  ultimately show ?case using run1 run2 apart_from_trans [OF ap1 ap2] by (simp add: card_mapped_Suc)
qed

section \<open>The contents of pages\<close>

lemma pages_disj:
  assumes "f < 2 ^ 18" "g < 2 ^ 18" "f \<noteq> g"
  shows "apart (PAGE2VA f) 4096 (PAGE2VA g) 4096"
  unfolding PAGE2VA_offset using assms by (intro apart_offset) auto

definition page_bytes :: "mem \<Rightarrow> nat \<Rightarrow> u8 list" where
  "page_bytes m f = load_bytes m (PAGE2VA f) 4096"

lemma page_bytes_entry:
  assumes "f < 2 ^ 18" "g < 2 ^ 18" "f \<noteq> g" "i < 512"
  shows "page_bytes (store64 m (PAGE2VA g + 8 * i) e) f = page_bytes m f"
  using page_entry_disj [OF assms(1,2,4,3)]
  by (simp add: page_bytes_def store64_def load_store_bytes_disj apart_sym)

lemma page_bytes_other:
  assumes "f < 2 ^ 18" "g < 2 ^ 18" "f \<noteq> g" "length bs = 4096"
  shows "page_bytes (store_bytes m (PAGE2VA g) bs) f = page_bytes m f"
  using pages_disj [OF assms(2,1)] assms(3,4) by (simp add: page_bytes_def load_store_bytes_disj)

lemma memcpy_page_store:
  assumes "f < 2 ^ 18" "g < 2 ^ 18" "f \<noteq> g"
  shows "memcpy m (PAGE2VA g) (PAGE2VA f) 4096 = store_bytes m (PAGE2VA g) (page_bytes m f)"
proof -
  have "apart (PAGE2VA f) 4096 (PAGE2VA g) 4096" using assms by (rule pages_disj)
  then have "\<not> (unat (PAGE2VA g - PAGE2VA f) < 4096 \<and> unat (PAGE2VA g - PAGE2VA g) < 4096)"
    unfolding apart_def by blast
  then have "4096 \<le> unat (PAGE2VA g - PAGE2VA f)" by simp
  then show ?thesis by (simp add: memcpy_def memcpy_loop_store page_bytes_def)
qed

lemma page_bytes_memcpy:
  assumes "f < 2 ^ 18" "g < 2 ^ 18" "f \<noteq> g"
  shows "page_bytes (memcpy m (PAGE2VA g) (PAGE2VA f) 4096) g = page_bytes m f"
    and "h < 2 ^ 18 \<Longrightarrow> h \<noteq> g \<Longrightarrow> page_bytes (memcpy m (PAGE2VA g) (PAGE2VA f) 4096) h = page_bytes m h"
proof -
  have l: "length (page_bytes m f) = 4096" by (simp add: page_bytes_def)
  show "page_bytes (memcpy m (PAGE2VA g) (PAGE2VA f) 4096) g = page_bytes m f"
    unfolding memcpy_page_store [OF assms] using load_store_bytes_same [of "page_bytes m f" m "PAGE2VA g"] l
    by (simp add: page_bytes_def)
  show "h < 2 ^ 18 \<Longrightarrow> h \<noteq> g \<Longrightarrow> page_bytes (memcpy m (PAGE2VA g) (PAGE2VA f) 4096) h = page_bytes m h"
    unfolding memcpy_page_store [OF assms] using assms(2) l by (intro page_bytes_other)
qed

lemma memcpy_page:
  assumes "f < 2 ^ 18" "g < 2 ^ 18" "f \<noteq> g" "i < 512"
  shows "load64 (memcpy m (PAGE2VA g) (PAGE2VA f) 4096) (PAGE2VA g + 8 * i) = load64 m (PAGE2VA f + 8 * i)"
    and "h < 2 ^ 18 \<Longrightarrow> h \<noteq> g \<Longrightarrow>
      load64 (memcpy m (PAGE2VA g) (PAGE2VA f) 4096) (PAGE2VA h + 8 * i) = load64 m (PAGE2VA h + 8 * i)"
proof -
  have i: "unat i < 512" using assms(4) by (simp only: unat_less_512)
  note m = memcpy_page_store [OF assms(1-3), of m, unfolded page_bytes_def]
  have "unat ((PAGE2VA g + 8 * i) - PAGE2VA g) = 8 * unat i" using i by (simp add: unat_word_ariths)
  then have "load_bytes (memcpy m (PAGE2VA g) (PAGE2VA f) 4096) (PAGE2VA g + 8 * i) 8
      = take 8 (drop (8 * unat i) (load_bytes m (PAGE2VA f) 4096))"
    unfolding m using i load_bytes_inside [of "PAGE2VA g + 8 * i" "PAGE2VA g" 8 "load_bytes m (PAGE2VA f) 4096" m] by simp
  also have "\<dots> = load_bytes m (PAGE2VA f + of_nat (8 * unat i)) 8"
    unfolding load_bytes_drop using i by (intro nth_equalityI) (simp_all add: load_bytes_def algebra_simps)
  also have "PAGE2VA f + of_nat (8 * unat i) = PAGE2VA f + 8 * i" by simp
  finally show "load64 (memcpy m (PAGE2VA g) (PAGE2VA f) 4096) (PAGE2VA g + 8 * i) = load64 m (PAGE2VA f + 8 * i)"
    by (simp add: load64_def)
  show "load64 (memcpy m (PAGE2VA g) (PAGE2VA f) 4096) (PAGE2VA h + 8 * i) = load64 m (PAGE2VA h + 8 * i)"
    if "h < 2 ^ 18" "h \<noteq> g"
    unfolding m using page_entry_disj [of g h i] that assms by (intro load64_store_bytes_disj) simp
qed

lemma load64_byte_disj:
  assumes "f < 2 ^ 18" "g < 2 ^ 18" "f \<noteq> g" "k < 4096" "i < 512"
  shows "load64 (m(PAGE2VA g + of_nat k := b)) (PAGE2VA f + 8 * i) = load64 m (PAGE2VA f + 8 * i)"
proof -
  have "m(PAGE2VA g + of_nat k := b) = store_bytes m (PAGE2VA g + of_nat k) [b]"
    by (auto simp: store_bytes_def fun_eq_iff unat_eq_0)
  moreover have "unat i < 512" using assms(5) by (simp only: unat_less_512)
  then have "apart (KBASE + of_nat (4096 * g + k)) 1 (KBASE + of_nat (4096 * f + 8 * unat i)) 8"
    using assms by (intro apart_offset) auto
  then have "apart (PAGE2VA g + of_nat k) 1 (PAGE2VA f + 8 * i) 8"
    unfolding entry_offset by (simp add: PAGE2VA_offset add.assoc)
  ultimately show ?thesis by (simp add: load64_store_bytes_disj)
qed

section \<open>A new address space\<close>

text \<open>A root whose user half is not present.\<close>

lemma empty_root:
  assumes mm: "mm_inv s" and p: "p < length (pages s)" "p \<notin> free_pages s"
    and absent: "\<And>i. i < 256 \<Longrightarrow> load64 (mem s) (PAGE2VA p + 8 * i) AND 1 = 0"
  shows "pt_inv s (PAGE2VA p)" and "tables s (PAGE2VA p) = {p}" and "user_va va \<Longrightarrow> pte_of (mem s) (PAGE2VA p) va = 0"
proof -
  have len: "length (pages s) \<le> 2 ^ 18" using mm by (simp add: mm_inv_def)
  have node: "node (mem s) (PAGE2VA p) js = (if js = [] then Some (PAGE2VA p) else None)" if js: "upath js" for js
  proof (cases js)
    case (Cons i ks)
    then have i: "i < 256" using js by (simp add: upath_def)
    have "tbl (mem s) (PAGE2VA p + 8 * i) = None" using absent [OF i] by (simp only: tbl_def Let_def) simp
    then show ?thesis using Cons by (simp only: node.simps) simp
  qed simp
  show "pt_inv s (PAGE2VA p)"
    unfolding pt_inv_def using mm node p by (auto split: if_splits)
  show "tables s (PAGE2VA p) = {p}"
  proof (intro equalityI subsetI)
    fix f assume "f \<in> tables s (PAGE2VA p)"
    then obtain js where f: "f < length (pages s)" "upath js" "node (mem s) (PAGE2VA p) js = Some (PAGE2VA f)"
      by (auto simp: tables_def)
    then have "PAGE2VA p = PAGE2VA f" using node [OF f(2)] by (auto split: if_splits)
    then show "f \<in> {p}" using f(1) len p(1) by (simp add: PAGE2VA_inj)
  next
    fix f assume "f \<in> {p}"
    then show "f \<in> tables s (PAGE2VA p)" using p node [of "[]"] by (auto simp: tables_def intro!: exI [of _ "[]"])
  qed
  show "user_va va \<Longrightarrow> pte_of (mem s) (PAGE2VA p) va = 0"
    using node [OF upath_vpath, of va] by (simp add: pte_of_def pte_addr_def vpath_def)
qed

lemma new_space:
  fixes s :: "'a kmm_scheme"
  assumes inv: "mm_inv s" and kf: "kf < length (pages s)" "kf \<notin> free_pages s"
    and absent: "\<forall>i < 256. load64 (mem s) (PAGE2VA kf + 8 * i) AND 1 = 0" and ne: "free_pages s \<noteq> {}"
  obtains p s' where "alloc_vm (PAGE2VA kf) s = (PAGE2VA p, s')" "p \<in> free_pages s" "free_pages s' = free_pages s - {p}"
    "page_refs s' = (page_refs s)(p := 1)" "pt_inv s' (PAGE2VA p)" "tables s' (PAGE2VA p) = {p}"
    "\<And>va. user_va va \<Longrightarrow> pte_of (mem s') (PAGE2VA p) va = 0"
    "\<And>i. i < 512 \<Longrightarrow> load64 (mem s') (PAGE2VA p + 8 * i) = load64 (mem s) (PAGE2VA kf + 8 * i)"
    "\<And>r. pt_inv s r \<Longrightarrow> two_spaces s' r (PAGE2VA p)"
    "\<And>r va. pt_inv s r \<Longrightarrow> user_va va \<Longrightarrow> pte_of (mem s') r va = pte_of (mem s) r va"
    "kmm.more s' = kmm.more s" "kpgdir s' = kpgdir s" "length (pages s') = length (pages s)" "keeps (mem s) (mem s') {p}"
proof -
  obtain p s1 where al: "alloc_page 1 s = (Some p, s1)" using mm.alloc_succeeds [OF inv ne] by blast
  note a = alloc_page_Some [OF inv al]
  let ?s' = "s1\<lparr>mem := memcpy (mem s1) (PAGE2VA p) (PAGE2VA kf) 4096\<rparr>"
  have len: "length (pages s) \<le> 2 ^ 18" using inv by (simp add: mm_inv_def)
  have pl: "p < length (pages s)" using a(1) by (rule free_pages_less)
  have b: "p < 2 ^ 18" "kf < 2 ^ 18" "kf \<noteq> p" using len pl kf a(1) by auto
  have run: "alloc_vm (PAGE2VA kf) s = (PAGE2VA p, ?s')" by (simp add: alloc_vm_def al)
  have s1: "load64 (mem s1) (PAGE2VA f + 8 * i) = load64 (mem s) (PAGE2VA f + 8 * i)"
    if "f < 2 ^ 18" "f \<noteq> p" "i < 512" for f i
    using that b page_entry_disj [of p f i] by (simp add: a(6) load64_store_bytes_disj)
  have new: "load64 (mem ?s') (PAGE2VA p + 8 * i) = load64 (mem s) (PAGE2VA kf + 8 * i)" if "i < 512" for i
    using memcpy_page(1) [OF b(2,1,3) that] s1 [OF b(2,3) that] by simp
  have old: "load64 (mem ?s') (PAGE2VA f + 8 * i) = load64 (mem s) (PAGE2VA f + 8 * i)"
    if "f < 2 ^ 18" "f \<noteq> p" "i < 512" for f i
    using memcpy_page(2) [OF b(2,1,3) that(3) that(1,2)] s1 [OF that] by simp
  have mm: "mm_inv ?s'" "free_pages ?s' = free_pages s - {p}" "length (pages ?s') = length (pages s)" using a by simp_all
  have ps: "p < length (pages ?s')" "p \<notin> free_pages ?s'" using mm pl by simp_all
  have ab: "load64 (mem ?s') (PAGE2VA p + 8 * i) AND 1 = 0" if i: "i < 256" for i
  proof -
    have "i < 512" using i by (rule less_trans) simp
    then show ?thesis using absent i new [of i] by simp
  qed
  note root = empty_root [OF mm(1) ps ab]
  note inv_p = root(1) and tab = root(2) and pte = root(3)
  have keep: "load64 (mem ?s') (PAGE2VA f + 8 * i) = load64 (mem s) (PAGE2VA f + 8 * i)"
    if r: "pt_inv s r" and f: "f \<in> tables s r" "i < 512" for r f i
  proof -
    have "f < 2 ^ 18" "f \<noteq> p" using f(1) len tables_not_free [OF r] a(1) by (auto simp: tables_def)
    then show ?thesis using f(2) by (intro old)
  qed
  have other: "pt_inv ?s' r" "tables ?s' r = tables s r" if r: "pt_inv s r" for r
    using pt_inv_cong [OF r pt_frame(1) [OF r keep [OF r]] mm(1) mm(3)] tables_not_free [OF r] mm(2) by auto
  show thesis
  proof (rule that [OF run a(1) mm(2) _ inv_p tab pte new])
    show "page_refs ?s' = (page_refs s)(p := 1)" using page_refs_alloc [OF inv al] by simp
    show "two_spaces ?s' r (PAGE2VA p)" if r: "pt_inv s r" for r
      using inv_p other [OF r] tab tables_not_free [OF r] a(1) by (auto simp: two_spaces_def)
    show "pte_of (mem ?s') r va = pte_of (mem s) r va" if r: "pt_inv s r" "user_va va" for r va
      by (rule pt_frame(2) [OF r(1) keep [OF r(1)] r(2)])
    show "keeps (mem s) (mem ?s') {p}" unfolding keeps_def using old by simp
  qed (use a in simp_all)
qed

section \<open>Properties of fork\<close>

text \<open>A new address space: when a page is free, \<open>alloc_vm\<close> returns the address of a fresh table page
  whose 512 entries are the kernel's; with the kernel's user half absent, no user address is mapped
  in it, and it shares no table page with any other address space, whose user entries all stay.\<close>

theorem alloc_vm_empty:
  fixes s :: "'a kmm_scheme"
  assumes "mm_inv s" and "kf < length (pages s)" and "kf \<notin> free_pages s"
    and "\<forall>i < 256. load64 (mem s) (PAGE2VA kf + 8 * i) AND 1 = 0" and "free_pages s \<noteq> {}"
  shows "\<exists>p s'. alloc_vm (PAGE2VA kf) s = (PAGE2VA p, s') \<and> p \<in> free_pages s \<and> free_pages s' = free_pages s - {p}
    \<and> (\<forall>va. user_va va \<longrightarrow> pte_of (mem s') (PAGE2VA p) va = 0)
    \<and> (\<forall>i < 512. load64 (mem s') (PAGE2VA p + 8 * i) = load64 (mem s) (PAGE2VA kf + 8 * i))
    \<and> (\<forall>r. pt_inv s r \<longrightarrow> two_spaces s' r (PAGE2VA p)
         \<and> (\<forall>va. user_va va \<longrightarrow> pte_of (mem s') r va = pte_of (mem s) r va))"
  by (rule new_space [OF assms]) blast

text \<open>C5. The loop of \<open>sys_fork\<close> over the user pages (page numbers 0x80000 to 0x8FFFD): with three
  free pages for each mapped page and every mapped frame an allocated page, it ends with 0; every
  mapped page of the parent has the same entry in parent and child afterwards, its frame with user
  access, not writable, marked copy-on-write; all other entries of both stay as they were; each
  frame gains as many references as pages map it, and only pages taken from the pool change their
  count otherwise; parent and child still share no table page.\<close>

theorem fork_shares_pages:
  fixes s :: "'a kmm_scheme"
  assumes two: "two_spaces s parent child"
    and room: "3 * card (mapped s parent 0x80000 (user_pages - 1)) \<le> card (free_pages s)"
    and refs: "\<And>k. k \<in> mapped s parent 0x80000 (user_pages - 1) \<Longrightarrow>
        0 < page_refs s (frame_of (pte_of (mem s) parent (page_va k)))"
  shows "\<exists>s'. fork_pages parent child UTEXT (user_pages - 1) s = Inr (0, s') \<and> two_spaces s' parent child
    \<and> (\<forall>va. user_va va \<longrightarrow>
          pte_of (mem s') parent va =
            (if 0x80000 \<le> vpn va \<and> vpn va < 0x8FFFE \<and> pte_of (mem s) parent va \<noteq> 0
             then share (pte_of (mem s) parent va) else pte_of (mem s) parent va))
    \<and> (\<forall>va. user_va va \<longrightarrow>
          pte_of (mem s') child va =
            (if 0x80000 \<le> vpn va \<and> vpn va < 0x8FFFE \<and> pte_of (mem s) parent va \<noteq> 0
             then share (pte_of (mem s) parent va) else pte_of (mem s) child va))
    \<and> (\<forall>q. page_refs s' q = (if q \<in> free_pages s - free_pages s' then 1 else page_refs s q)
          + int (card (sharers s parent 0x80000 (user_pages - 1) q)))"
proof -
  have up: "user_pages = 65535" by (simp add: user_pages_def USTACKTOP_def UTEXT_def unat_div)
  have ut: "UTEXT = page_va 0x80000" by (simp add: UTEXT_def page_va_def)
  have v: "(0x80000 \<le> unat v \<and> unat v < 0x80000 + (user_pages - 1)) \<longleftrightarrow> 0x80000 \<le> v \<and> v < 0x8FFFE" for v :: u64
    by (simp add: up word_le_nat_alt word_less_nat_alt)
  have "(0x80000 :: nat) \<le> 0x80000" "0x80000 + (user_pages - 1) \<le> 0x8FFFF" by (simp_all add: up)
  from fork_pages_shares [OF two this room refs] obtain s' where
    run: "fork_pages parent child UTEXT (user_pages - 1) s = Inr (0, s')"
    and sh: "shares s s' parent child (\<lambda>v. 0x80000 \<le> unat v \<and> unat v < 0x80000 + (user_pages - 1))
       (\<lambda>q. int (card (sharers s parent 0x80000 (user_pages - 1) q))) (card (mapped s parent 0x80000 (user_pages - 1)))"
    unfolding ut by blast
  from sh [unfolded v shares_def conj_assoc] run show ?thesis
    by (intro exI [of _ s'] conjI) (elim conjE, assumption)+
qed

section \<open>Witnesses\<close>

text \<open>Thirty pages; pages 0 and 1 are the roots of two address spaces, page 2 is mapped at \<open>UTEXT\<close> in the first.\<close>

lemma machine_30: "mm_inv (machine 3 30)" "free_pages (machine 3 30) = {3..<30}" "length (pages (machine 3 30)) = 30"
  "mem (machine 3 30) = (\<lambda>a. 0)"
  using machine_facts [of 3 30] by (simp_all add: machine_def)

lemma spaces_30: "f < 3 \<Longrightarrow> pt_inv (machine 3 30) (PAGE2VA f)" "f < 3 \<Longrightarrow> tables (machine 3 30) (PAGE2VA f) = {f}"
  "pte_of (mem (machine 3 30)) (PAGE2VA f) va = 0"
  by (rule pt_inv_zero; simp add: machine_30)
    (auto simp: tables_def machine_30 node_zero PAGE2VA_inj upath_def pte_of_def pte_addr_def vpath_def split: if_splits)

theorem alloc_vm_empty_witness:
  "\<exists>p s'. alloc_vm (PAGE2VA 0) (machine 3 30) = (PAGE2VA p, s') \<and> p \<in> {3..<30} \<and> two_spaces s' (PAGE2VA 1) (PAGE2VA p)"
proof -
  have "\<forall>i < 256. load64 (mem (machine 3 30)) (PAGE2VA 0 + 8 * i) AND 1 = 0" by (simp add: machine_30 load64_zero)
  moreover have "0 < length (pages (machine 3 30))" "0 \<notin> free_pages (machine 3 30)" "free_pages (machine 3 30) \<noteq> {}"
    by (simp_all add: machine_30)
  ultimately show ?thesis
    using alloc_vm_empty [OF machine_30(1), of 0] spaces_30(1) [of 1] unfolding machine_30(2) by (metis one_less_numeral_iff semiring_norm(77))
qed

definition fork_machine :: kmm where
  "fork_machine = (case insert_page (PAGE2VA 0) UTEXT (Some 2) 7 (machine 3 30) of
     Inr (_, s') \<Rightarrow> s' | Inl _ \<Rightarrow> machine 3 30)"

lemma fork_machine_facts:
  "two_spaces fork_machine (PAGE2VA 0) (PAGE2VA 1)"
  "user_va va \<Longrightarrow> pte_of (mem fork_machine) (PAGE2VA 0) va = (if vpn va = 0x80000 then 0x2007 else 0)"
  "page_refs fork_machine 2 = 1" "24 \<le> card (free_pages fork_machine)" "2 \<notin> free_pages fork_machine"
proof -
  have UT: "user_va UTEXT" "vpn UTEXT = 0x80000" using page_va_facts [of "0x80000"] by (simp_all add: UTEXT_def page_va_def)
  have dis: "tables (machine 3 30) (PAGE2VA 0) \<inter> tables (machine 3 30) (PAGE2VA 1) = {}"
    by (simp add: spaces_30)
  have room: "3 \<le> card (free_pages (machine 3 30))" by (simp add: machine_30)
  have i: "pt_inv (machine 3 30) (PAGE2VA 0)" "pt_inv (machine 3 30) (PAGE2VA 1)" using spaces_30(1) by simp_all
  from insert_page_frame [OF i dis UT(1) room, of 2 7] obtain s' where
    s': "insert_page (PAGE2VA 0) UTEXT (Some 2) 7 (machine 3 30) = Inr (0, s')" "pt_inv s' (PAGE2VA 1)"
      "tables s' (PAGE2VA 0) \<inter> tables s' (PAGE2VA 1) = {}" "pt_inv s' (PAGE2VA 0)"
      "\<forall>va'. user_va va' \<longrightarrow> pte_of (mem s') (PAGE2VA 0) va' =
         (if vpn va' = vpn UTEXT then PAGE2PA 2 OR 7 else pte_of (mem (machine 3 30)) (PAGE2VA 0) va')"
      "free_pages s' \<subseteq> free_pages (machine 3 30)" "card (free_pages (machine 3 30)) \<le> card (free_pages s') + 3"
      "\<forall>q. page_refs s' q = (if q \<in> free_pages (machine 3 30) - free_pages s' then 1 else page_refs (machine 3 30) q)"
    by (elim exE conjE) (rule that; assumption)
  have m: "fork_machine = s'" by (simp add: fork_machine_def s'(1))
  show "two_spaces fork_machine (PAGE2VA 0) (PAGE2VA 1)" using s' by (simp add: m two_spaces_def)
  have "(PAGE2PA 2 OR 7 :: u64) = 0x2007" by (simp add: PAGE2PA_def)
  then show "user_va va \<Longrightarrow> pte_of (mem fork_machine) (PAGE2VA 0) va = (if vpn va = 0x80000 then 0x2007 else 0)"
    using s'(5) by (simp add: m spaces_30(3) UT(2))
  have r2: "page_refs (machine 3 30) 2 = 1" by (simp add: page_refs_def machine_def)
  have "2 \<notin> free_pages (machine 3 30)" by (simp add: machine_30)
  then show "page_refs fork_machine 2 = 1" "2 \<notin> free_pages fork_machine" using s'(6,8) r2 by (auto simp: m)
  show "24 \<le> card (free_pages fork_machine)" using s'(7) by (simp add: m machine_30)
qed

theorem fork_shares_pages_witness:
  "\<exists>s'. fork_pages (PAGE2VA 0) (PAGE2VA 1) UTEXT (user_pages - 1) fork_machine = Inr (0, s')
     \<and> pte_of (mem s') (PAGE2VA 1) UTEXT = 0x2805 \<and> pte_of (mem s') (PAGE2VA 0) UTEXT = 0x2805 \<and> page_refs s' 2 = 2"
proof -
  note f = fork_machine_facts
  have UT: "user_va UTEXT" "vpn UTEXT = 0x80000" "UTEXT = page_va 0x80000"
    using page_va_facts [of "0x80000"] by (simp_all add: UTEXT_def page_va_def)
  have up: "user_pages = 65535" by (simp add: user_pages_def USTACKTOP_def UTEXT_def unat_div)
  have pte: "pte_of (mem fork_machine) (PAGE2VA 0) (page_va k) = (if k = 0x80000 then 0x2007 else 0)"
    if k: "k < 2 ^ 35" for k
  proof -
    have "unat (of_nat k :: u64) = k" using k by (intro unat_of_nat_small) simp
    then have "(of_nat k :: u64) = 0x80000 \<longleftrightarrow> k = 0x80000" by (simp add: word_unat_eq_iff)
    then show ?thesis using f(2) [of "page_va k"] page_va_facts [OF k] by simp
  qed
  have m: "mapped fork_machine (PAGE2VA 0) 0x80000 (user_pages - 1) = {0x80000}"
    using pte by (auto simp: mapped_def up split: if_splits)
  have fr: "frame_of 0x2007 = 2" by (simp add: frame_of_def drop_bit_eq_div unat_div)
  have sh: "sharers fork_machine (PAGE2VA 0) 0x80000 (user_pages - 1) 2 = {0x80000}"
    unfolding sharers_def m using pte [of "0x80000"] fr by auto
  have "share 0x2007 = 0x2805" by (simp add: share_def PTE_U_def PTE_P_def PTE_COW_def)
  then show ?thesis
    using fork_shares_pages [OF f(1)] f(2) [OF UT(1)] f(3,4,5) pte [of "0x80000"] fr UT sh unfolding m by (auto split: if_splits)
qed

end
