(* ===== verification/File.thy ===== *)
theory File
  imports Fork "HOL-Library.Signed_Division"
begin

text \<open>
  Open files, \<^verbatim>\<open>kernel/file.c\<close>: descriptors, the table of 256 open files, reading and writing of
  files and of the console, and the system calls on them; and \<open>sys_execve\<close> of \<^verbatim>\<open>kernel/exec.c\<close>.
  C's \<open>int\<close> is an \<open>int\<close> wrapped to 32 bits by \<open>wrap32\<close> after every operation that can leave the
  range; division and remainder round towards zero.  A descriptor outside \<open>fdtable\<close> is the fault
  \<open>BadIndex\<close>, a null or uninitialised pointer that is followed the fault \<open>NullPointer\<close>.
\<close>

section \<open>Descriptors\<close>

definition wrap32 :: "int \<Rightarrow> int" where
  "wrap32 x = sint (word_of_int x :: u32)"

definition zero_file :: kfile where
  "zero_file = \<lparr>f_refcount = 0, f_offset = 0, f_inode = 0, f_type = FDEUNKNOWN\<rparr>"

definition init_files :: "('d, 'a) kproc_scheme \<Rightarrow> ('d, 'a) kproc_scheme" where
  "init_files s = s\<lparr>filetable := replicate 256 zero_file\<rparr>"

definition allocfd :: "('d, 'a) kproc_scheme \<Rightarrow> int outcome" where
  "allocfd s =
     (case current s of
        None \<Rightarrow> Inl NullPointer
      | Some c \<Rightarrow>
          Inr (case find (\<lambda>i. fdtable (procs s ! c) ! i = None) [0..<32] of Some i \<Rightarrow> int i | None \<Rightarrow> - 1))"

definition allocfile :: "('d, 'a) kproc_scheme \<Rightarrow> nat option \<times> ('d, 'a) kproc_scheme" where
  "allocfile s =
     (case find (\<lambda>i. f_refcount (filetable s ! i) = 0) [0..<256] of
        Some i \<Rightarrow> (Some i, s\<lparr>filetable := (filetable s)[i := zero_file]\<rparr>)
      | None \<Rightarrow> (None, s))"

definition upd_file :: "nat \<Rightarrow> (kfile \<Rightarrow> kfile) \<Rightarrow> ('d, 'a) kproc_scheme \<Rightarrow> ('d, 'a) kproc_scheme" where
  "upd_file f g s = s\<lparr>filetable := (filetable s)[f := g (filetable s ! f)]\<rparr>"

text \<open>\<open>current->fdtable[fd]\<close>, read and written without a bounds check.\<close>

definition get_fd :: "int \<Rightarrow> ('d, 'a) kproc_scheme \<Rightarrow> nat option outcome" where
  "get_fd fd s =
     (case current s of
        None \<Rightarrow> Inl NullPointer
      | Some c \<Rightarrow> if 0 \<le> fd \<and> fd < 32 then Inr (fdtable (procs s ! c) ! nat fd) else Inl BadIndex)"

definition set_fd :: "int \<Rightarrow> nat option \<Rightarrow> ('d, 'a) kproc_scheme \<Rightarrow> ('d, 'a) kproc_scheme outcome" where
  "set_fd fd v s =
     (case current s of
        None \<Rightarrow> Inl NullPointer
      | Some c \<Rightarrow>
          if 0 \<le> fd \<and> fd < 32 then Inr (upd_proc c (\<lambda>p. p\<lparr>fdtable := (fdtable p)[nat fd := v]\<rparr>) s)
          else Inl BadIndex)"

section \<open>Files on disk\<close>

definition file_open :: "'d ports \<Rightarrow> u64 \<Rightarrow> kfile \<Rightarrow> ('d, 'a) kproc_scheme \<Rightarrow> (int \<times> kfile \<times> ('d, 'a) kproc_scheme) outcome" where
  "file_open io fname file s =
     bindE (walk_path io (cpu_root s) fname s) (\<lambda>(r, inode, s1).
       if r < 0 then Inr (r, file, s1)
       else case inode of None \<Rightarrow> Inl NullPointer | Some i \<Rightarrow> Inr (0, file\<lparr>f_inode := i\<rparr>, s1))"

text \<open>\<open>MIN\<close> of an \<open>int\<close> and an \<open>unsigned int\<close>, assigned to an \<open>int\<close>.\<close>

definition min_count :: "int \<Rightarrow> u32 \<Rightarrow> int" where
  "min_count a b = (if (word_of_int a :: u32) > b then sint b else wrap32 a)"

text \<open>
  One round of the loop of \<open>file_read\<close> at \<open>n\<close>: the number of bytes read and the new pointers, or
  \<open>None\<close> where the code returns -1.
\<close>

definition file_read_step :: "'d ports \<Rightarrow> kfile \<Rightarrow> u64 \<Rightarrow> u32 \<Rightarrow> int \<Rightarrow> int \<Rightarrow> u64 option \<Rightarrow> ('d, 'a) kproc_scheme
    \<Rightarrow> (int option \<times> u64 option \<times> ('d, 'a) kproc_scheme) outcome" where
  "file_read_step io file ubuf cnt offset n diskno s =
     (let filepos = wrap32 (offset + n);
          fileno = filepos sdiv 4096
      in bindE (walk_block io (f_inode file) (word_of_int fileno) diskno 0 s) (\<lambda>(r, diskno', s1).
         let coffset = filepos smod 4096;
             remain = 4096 - coffset;
             mincount = min_count remain cnt
         in case diskno' of
              None \<Rightarrow> Inl NullPointer
            | Some a \<Rightarrow>
                if a = 0 then Inl NullPointer
                else if load16 (mem s1) a \<noteq> 0 then
                  bindE (bread io (ucast (load16 (mem s1) a)) s1) (\<lambda>(b, s2).
                  bindE (vmemcpy (cpu_root s2) ubuf (b + word_of_int coffset) (word_of_int mincount) (mem s2)) (\<lambda>m.
                  Inr (Some mincount, diskno', s2\<lparr>mem := m\<rparr>)))
                else Inr (None, diskno', s1)))"

partial_function (option) file_read_loop :: "'d ports \<Rightarrow> kfile \<Rightarrow> u64 \<Rightarrow> u32 \<Rightarrow> int \<Rightarrow> int \<Rightarrow> u64 option \<Rightarrow> ('d, 'a) kproc_scheme
    \<Rightarrow> (int \<times> kfile \<times> ('d, 'a) kproc_scheme) outcome option" where
  "file_read_loop io file ubuf cnt offset n diskno s =
     (if (word_of_int n :: u32) < cnt then
        (case file_read_step io file ubuf cnt offset n diskno s of
           Inl e \<Rightarrow> Some (Inl e)
         | Inr (got, diskno', s1) \<Rightarrow>
             (case got of
                None \<Rightarrow> Some (Inr (- 1, file, s1))
              | Some k \<Rightarrow> file_read_loop io (file\<lparr>f_offset := wrap32 (f_offset file + k)\<rparr>) (ubuf + word_of_int k)
                            cnt offset (wrap32 (n + k)) diskno' s1))
      else Some (Inr (n, file, s)))"

definition returns :: "'a outcome option \<Rightarrow> 'a outcome" where
  "returns r = (case r of None \<Rightarrow> Inl Hang | Some x \<Rightarrow> x)"

definition file_read :: "'d ports \<Rightarrow> kfile \<Rightarrow> u64 \<Rightarrow> u32 \<Rightarrow> int \<Rightarrow> ('d, 'a) kproc_scheme
    \<Rightarrow> (int \<times> kfile \<times> ('d, 'a) kproc_scheme) outcome" where
  "file_read io file ubuf cnt offset s = returns (file_read_loop io file ubuf cnt offset 0 None s)"

definition file_write_step :: "'d ports \<Rightarrow> kfile \<Rightarrow> u64 \<Rightarrow> u32 \<Rightarrow> int \<Rightarrow> u64 option \<Rightarrow> ('d, 'a) kproc_scheme
    \<Rightarrow> (int option \<times> u64 option \<times> ('d, 'a) kproc_scheme) outcome" where
  "file_write_step io file ubuf cnt i diskno s =
     bindE (walk_block io (f_inode file) (word_of_int (i sdiv 4096)) diskno 1 s) (\<lambda>(r, diskno', s1).
       let curpos = i smod 4096;
           curcount = 4096 - curpos;
           mincount = min_count curcount cnt
       in case diskno' of
            None \<Rightarrow> Inl NullPointer
          | Some a \<Rightarrow>
              if a = 0 then Inl NullPointer
              else
                (let (bno, s2) = (if load16 (mem s1) a = 0 then get_blk s1 else (0, s1))
                 in if bno < 0 then Inr (None, diskno', s2)
                    else let s3 = (if load16 (mem s1) a = 0 then s2\<lparr>mem := store16 (mem s2) a (word_of_int bno)\<rparr> else s2)
                         in bindE (bread io (ucast (load16 (mem s3) a)) s3) (\<lambda>(pbuf, s4).
                            bindE (vmemcpy (cpu_root s4) (pbuf + word_of_int curpos) ubuf (word_of_int mincount) (mem s4)) (\<lambda>m.
                            bindE (writeblk io pbuf (ucast (load16 m a) * 8) 8 m (dev s4)) (\<lambda>d.
                            Inr (Some mincount, diskno', s4\<lparr>mem := m, dev := d\<rparr>))))))"

partial_function (option) file_write_loop :: "'d ports \<Rightarrow> kfile \<Rightarrow> u64 \<Rightarrow> u32 \<Rightarrow> int \<Rightarrow> int \<Rightarrow> u64 option \<Rightarrow> ('d, 'a) kproc_scheme
    \<Rightarrow> (int \<times> kfile \<times> ('d, 'a) kproc_scheme) outcome option" where
  "file_write_loop io file ubuf cnt offset i diskno s =
     (if (word_of_int i :: u32) < word_of_int offset + cnt then
        (case file_write_step io file ubuf cnt i diskno s of
           Inl e \<Rightarrow> Some (Inl e)
         | Inr (got, diskno', s1) \<Rightarrow>
             (case got of
                None \<Rightarrow> Some (Inr (- 1, file, s1))
              | Some k \<Rightarrow> file_write_loop io (file\<lparr>f_offset := wrap32 (f_offset file + k)\<rparr>) (ubuf + word_of_int k)
                            cnt offset (wrap32 (i + k)) diskno' s1))
      else Some (Inr (sint cnt, file, s)))"

definition file_write :: "'d ports \<Rightarrow> kfile \<Rightarrow> u64 \<Rightarrow> u32 \<Rightarrow> ('d, 'a) kproc_scheme
    \<Rightarrow> (int \<times> kfile \<times> ('d, 'a) kproc_scheme) outcome" where
  "file_write io file ubuf cnt s =
     returns (file_write_loop io file ubuf cnt (f_offset file) (f_offset file) None s)"

definition file_close :: "kfile \<Rightarrow> int" where
  "file_close pfile = 0"

section \<open>The console as a file\<close>

fun cons_read_loop :: "u64 \<Rightarrow> int \<Rightarrow> nat \<Rightarrow> ('d, 'a) kproc_scheme \<Rightarrow> (int \<times> ('d, 'a) kproc_scheme) outcome" where
  "cons_read_loop ubuf i 0 s = Inr (i, s)"
| "cons_read_loop ubuf i (Suc n) s =
     (case get_kbdata (kbs (kcon s)) of (v, k) \<Rightarrow>
        let ch = (word_of_int v :: u8); s1 = s\<lparr>kcon := (kcon s)\<lparr>kbs := k\<rparr>\<rparr>
        in if sint ch = - 1 then Inr (i, s1)
           else bindE (vwrite (cpu_root s1) ubuf ch (mem s1)) (\<lambda>m.
                cons_read_loop (ubuf + 1) (i + 1) n (s1\<lparr>mem := m\<rparr>)))"

definition cons_read :: "u64 \<Rightarrow> u32 \<Rightarrow> ('d, 'a) kproc_scheme \<Rightarrow> (int \<times> ('d, 'a) kproc_scheme) outcome" where
  "cons_read ubuf cnt s = cons_read_loop ubuf 0 (unat cnt) s"

fun cons_write_loop :: "u64 \<Rightarrow> int \<Rightarrow> nat \<Rightarrow> ('d, 'a) kproc_scheme \<Rightarrow> (int \<times> ('d, 'a) kproc_scheme) outcome" where
  "cons_write_loop ubuf i 0 s = Inr (i, s)"
| "cons_write_loop ubuf i (Suc n) s =
     (case vread (cpu_root s) (mem s) ubuf of
        None \<Rightarrow> Inl BadAddress
      | Some b \<Rightarrow> cons_write_loop (ubuf + 1) (wrap32 (i + 1)) n (s\<lparr>kcon := myputchar (uint b) (kcon s)\<rparr>))"

definition cons_write :: "u64 \<Rightarrow> u32 \<Rightarrow> ('d, 'a) kproc_scheme \<Rightarrow> (int \<times> ('d, 'a) kproc_scheme) outcome" where
  "cons_write ubuf cnt s = cons_write_loop ubuf 0 (unat cnt) s"

section \<open>System calls\<close>

text \<open>\<open>fd = allocfd() < 0\<close> assigns the comparison: 1 when the table is full, else 0.\<close>

definition sys_opencons :: "('d, 'a) kproc_scheme \<Rightarrow> (int \<times> ('d, 'a) kproc_scheme) outcome" where
  "sys_opencons s =
     bindE (allocfd s) (\<lambda>n.
       let fd = (if n < 0 then 1 else 0)
       in if fd \<noteq> 0 then Inr (fd, s)
          else case allocfile s of
                 (None, s1) \<Rightarrow> Inr (- 1, s1)
               | (Some f, s1) \<Rightarrow>
                   let s2 = upd_file f (\<lambda>x. x\<lparr>f_refcount := f_refcount x + 1, f_type := FDCONS\<rparr>) s1
                   in bindE (set_fd fd (Some f) s2) (\<lambda>s3. Inr (fd, s3)))"

definition sys_open :: "'d ports \<Rightarrow> u64 \<Rightarrow> ('d, 'a) kproc_scheme \<Rightarrow> (int \<times> ('d, 'a) kproc_scheme) outcome" where
  "sys_open io fname s =
     bindE (allocfd s) (\<lambda>n.
       let fd = (if n < 0 then 1 else 0)
       in if fd \<noteq> 0 then Inr (fd, s)
          else case allocfile s of
                 (None, s1) \<Rightarrow> Inr (- 1, s1)
               | (Some f, s1) \<Rightarrow>
                   bindE (file_open io fname (filetable s1 ! f) s1) (\<lambda>(q, file, s2).
                     let s3 = upd_file f (\<lambda>_. file) s2; r = (if q < 0 then 1 else 0)
                     in if r \<noteq> 0 then Inr (r, s3)
                        else let s4 = upd_file f (\<lambda>x. x\<lparr>f_offset := 0, f_refcount := f_refcount x + 1, f_type := FDFILE\<rparr>) s3
                             in bindE (set_fd fd (Some f) s4) (\<lambda>s5. Inr (fd, s5))))"

definition sys_read :: "'d ports \<Rightarrow> int \<Rightarrow> u64 \<Rightarrow> u32 \<Rightarrow> ('d, 'a) kproc_scheme \<Rightarrow> (int \<times> ('d, 'a) kproc_scheme) outcome" where
  "sys_read io fd ubuf cnt s =
     bindE (get_fd fd s) (\<lambda>pfile.
       case pfile of
         None \<Rightarrow> Inl NullPointer
       | Some f \<Rightarrow>
           (case f_type (filetable s ! f) of
              FDFILE \<Rightarrow>
                bindE (file_read io (filetable s ! f) ubuf cnt (f_offset (filetable s ! f)) s) (\<lambda>(r, file, s1).
                Inr (r, upd_file f (\<lambda>_. file) s1))
            | FDCONS \<Rightarrow> cons_read ubuf cnt s
            | FDEUNKNOWN \<Rightarrow> Inr (- 1, s)))"

definition sys_write :: "'d ports \<Rightarrow> int \<Rightarrow> u64 \<Rightarrow> u32 \<Rightarrow> ('d, 'a) kproc_scheme \<Rightarrow> (int \<times> ('d, 'a) kproc_scheme) outcome" where
  "sys_write io fd ubuf cnt s =
     bindE (get_fd fd s) (\<lambda>pfile.
       case pfile of
         None \<Rightarrow> Inl NullPointer
       | Some f \<Rightarrow>
           (case f_type (filetable s ! f) of
              FDFILE \<Rightarrow>
                bindE (file_write io (filetable s ! f) ubuf cnt s) (\<lambda>(r, file, s1).
                Inr (r, upd_file f (\<lambda>_. file) s1))
            | FDCONS \<Rightarrow> cons_write ubuf cnt s
            | FDEUNKNOWN \<Rightarrow> Inr (- 1, s)))"

definition sys_close :: "int \<Rightarrow> ('d, 'a) kproc_scheme \<Rightarrow> (int \<times> ('d, 'a) kproc_scheme) outcome" where
  "sys_close fd s =
     (if fd < 0 \<or> 32 - 1 < fd then Inr (- 1, s)
      else bindE (get_fd fd s) (\<lambda>pfile.
        case pfile of
          None \<Rightarrow> Inr (- 1, s)
        | Some f \<Rightarrow>
            let s1 = upd_file f (\<lambda>x. x\<lparr>f_refcount := f_refcount x - 1\<rparr>) s
            in if f_refcount (filetable s1 ! f) = 0
               then bindE (set_fd fd None s1) (\<lambda>s2.
                    Inr (0, upd_file f (\<lambda>x. x\<lparr>f_offset := 0, f_inode := 0, f_type := FDEUNKNOWN\<rparr>) s2))
               else Inr (0, s1)))"

text \<open>The file size is only printed, but it is read through the inode pointer.\<close>

definition sys_lseek :: "int \<Rightarrow> int \<Rightarrow> int \<Rightarrow> ('d, 'a) kproc_scheme \<Rightarrow> (int \<times> ('d, 'a) kproc_scheme) outcome" where
  "sys_lseek fd offset whence s =
     bindE (get_fd fd s) (\<lambda>pfile.
       case pfile of
         None \<Rightarrow> Inr (- 1, s)
       | Some f \<Rightarrow>
           if f_inode (filetable s ! f) = 0 then Inl NullPointer
           else Inr (offset, upd_file f (\<lambda>x. x\<lparr>f_offset := offset\<rparr>) s))"

end
