(* ===== verification/Exec.thy ===== *)
theory Exec
  imports File
begin

text \<open>
  \<open>sys_execve\<close> of \<^verbatim>\<open>kernel/exec.c\<close>: the user pages of the current process are removed, the header
  of the new program is read into a buffer on the kernel stack, the loadable segments are read page
  by page into fresh pages and mapped, a stack page is added, and the process is entered.  The
  addresses in the image header are taken as kernel addresses.
\<close>

section \<open>Loading a program\<close>

text \<open>
  Page \<open>j\<close> of a segment: read from the file while bytes of the file remain, else a zeroed page.
  The page of a failed \<open>alloc_page(0)\<close> would be written through a wild pointer.
\<close>

definition exec_page :: "'d ports \<Rightarrow> nat \<Rightarrow> u64 \<Rightarrow> u64 \<Rightarrow> int \<Rightarrow> kfile \<times> ('d, 'a) kproc_scheme
    \<Rightarrow> (kfile \<times> ('d, 'a) kproc_scheme) outcome" where
  "exec_page io p phdr start j = (\<lambda>(pfile, s).
     let filesz = load64 (mem s) (phdr + 32); offset = load64 (mem s) (phdr + 8);
         remaining = sint (ucast (filesz - word_of_int j) :: u32)
     in bindE
          (if 0 \<le> remaining then
             (case alloc_page 0 s of
                (None, s1) \<Rightarrow> Inl NullPointer
              | (Some pg, s1) \<Rightarrow>
                  bindE (file_read io pfile (PAGE2VA pg) (word_of_int (if 4096 > remaining then remaining else 4096))
                           (sint (ucast (offset + word_of_int j) :: u32)) s1) (\<lambda>(r, pfile', s2).
                  Inr (Some pg, pfile', s2)))
           else (case alloc_page 1 s of (pg, s1) \<Rightarrow> Inr (pg, pfile, s1)))
          (\<lambda>(pg, pfile', s2).
             bindE (insert_page (pgdir (procs s2 ! p)) (start + word_of_int j) pg (PTE_U OR PTE_W OR PTE_P) s2) (\<lambda>(r, s3).
             Inr (pfile', s3))))"

fun exec_segment :: "'d ports \<Rightarrow> nat \<Rightarrow> u64 \<Rightarrow> u64 \<Rightarrow> int \<Rightarrow> nat \<Rightarrow> kfile \<times> ('d, 'a) kproc_scheme
    \<Rightarrow> (kfile \<times> ('d, 'a) kproc_scheme) outcome" where
  "exec_segment io p phdr start j 0 fs = Inr fs"
| "exec_segment io p phdr start j (Suc n) fs =
     bindE (exec_page io p phdr start j fs) (exec_segment io p phdr start (wrap32 (j + 4096)) n)"

fun exec_segments :: "'d ports \<Rightarrow> nat \<Rightarrow> u64 \<Rightarrow> nat \<Rightarrow> kfile \<times> ('d, 'a) kproc_scheme
    \<Rightarrow> (kfile \<times> ('d, 'a) kproc_scheme) outcome" where
  "exec_segments io p phdr 0 fs = Inr fs"
| "exec_segments io p phdr (Suc n) fs =
     bindE
       (if load32 (mem (snd fs)) phdr = 1 then
          (let start = ucast ((ucast (load64 (mem (snd fs)) (phdr + 16)) :: u32) div 4096 * 4096);
               memsz = (load64 (mem (snd fs)) (phdr + 40) + 4096 - 1) div 4096 * 4096
           in exec_segment io p phdr start 0 (unat (memsz div 4096)) fs)
        else Inr fs)
       (exec_segments io p (phdr + 56) n)"

text \<open>
  \<open>binary\<close> is the address of the 128-byte buffer on the kernel stack and \<open>junk\<close> the contents of the
  uninitialised local \<open>pfile\<close>, which stays when \<open>file_open\<close> fails, as its result is not looked at.
\<close>

definition sys_execve :: "'d ports \<Rightarrow> u64 \<Rightarrow> kfile \<Rightarrow> u64 \<Rightarrow> ('d, 'a) kproc_scheme
    \<Rightarrow> (int, ('d, 'a) kproc_scheme) kres" where
  "sys_execve io binary junk filename s =
     (case current s of
        None \<Rightarrow> Crash NullPointer
      | Some p \<Rightarrow>
          bindK (liftK (
            bindE (file_open io filename junk (s\<lparr>mem := memset (mem s) binary 0 128\<rparr>)) (\<lambda>(r, pfile, s1).
            bindE (remove_pages (pgdir (procs s1 ! p)) UTEXT user_pages s1) (\<lambda>s2.
            bindE (file_read io pfile binary 128 0 s2) (\<lambda>(r2, pfile2, s3).
            if \<not> is_elf (mem s3) binary then Inr (- 1, s3)
            else bindE (exec_segments io p (binary + load64 (mem s3) (binary + 32))
                          (unat (load16 (mem s3) (binary + 56))) (pfile2, s3)) (\<lambda>(pfile3, s4).
                 case alloc_page 1 s4 of (pg, s5) \<Rightarrow>
                 bindE (insert_page (pgdir (procs s5 ! p)) (USTACKTOP - 4096) pg (PTE_U OR PTE_W OR PTE_P) s5) (\<lambda>(r3, s6).
                 Inr (0, upd_proc p (\<lambda>q. q\<lparr>pregs := (pregs q)\<lparr>rsp := USTACKTOP, rip := load64 (mem s6) (binary + 24)\<rparr>\<rparr>) s6))))))))
          (\<lambda>r s7. if r < 0 then Ret r s7 else run_proc p s7))"

end
