(* ===== verification/Vmx.thy ===== *)
theory Vmx
  imports Exec
begin

text \<open>
  The virtual-machine monitor, \<^verbatim>\<open>kernel/amd64/vmx.c\<close>: enabling VMX, building a VMCS, the guest's
  memory behind extended page tables, and the handling of VM exits.  The part of the processor the
  code drives through inline assembly is in the state: the model-specific registers, CR0 and CR4,
  and the fields of every VMCS as a store that is read back as written.  The guest itself is a
  parameter: from a VM entry it either runs for ever or comes to a VM exit, with the general
  registers and the exit fields of the VMCS it leaves.  An entry of an extended page table has
  its read, write and execute bits where a page-table entry has present, write and user, so the
  code builds them with \<open>walk_page\<close> and \<open>insert_page\<close>.
\<close>

section \<open>The fields of a VMCS\<close>

definition GUEST_ES_SELECTOR :: u64 where "GUEST_ES_SELECTOR = 0x800"
definition GUEST_CS_SELECTOR :: u64 where "GUEST_CS_SELECTOR = 0x802"
definition GUEST_SS_SELECTOR :: u64 where "GUEST_SS_SELECTOR = 0x804"
definition GUEST_DS_SELECTOR :: u64 where "GUEST_DS_SELECTOR = 0x806"
definition GUEST_FS_SELECTOR :: u64 where "GUEST_FS_SELECTOR = 0x808"
definition GUEST_GS_SELECTOR :: u64 where "GUEST_GS_SELECTOR = 0x80a"
definition GUEST_LDTR_SELECTOR :: u64 where "GUEST_LDTR_SELECTOR = 0x80c"
definition GUEST_TR_SELECTOR :: u64 where "GUEST_TR_SELECTOR = 0x80e"
definition HOST_ES_SELECTOR :: u64 where "HOST_ES_SELECTOR = 0xc00"
definition HOST_CS_SELECTOR :: u64 where "HOST_CS_SELECTOR = 0xc02"
definition HOST_SS_SELECTOR :: u64 where "HOST_SS_SELECTOR = 0xc04"
definition HOST_DS_SELECTOR :: u64 where "HOST_DS_SELECTOR = 0xc06"
definition HOST_FS_SELECTOR :: u64 where "HOST_FS_SELECTOR = 0xc08"
definition HOST_GS_SELECTOR :: u64 where "HOST_GS_SELECTOR = 0xc0a"
definition HOST_TR_SELECTOR :: u64 where "HOST_TR_SELECTOR = 0xc0c"
definition EPT_POINTER :: u64 where "EPT_POINTER = 0x201a"
definition GUEST_PHYSICAL_ADDRESS :: u64 where "GUEST_PHYSICAL_ADDRESS = 0x2400"
definition VMCS_LINK_POINTER :: u64 where "VMCS_LINK_POINTER = 0x2800"
definition VMCS_LINK_POINTER_HIGH :: u64 where "VMCS_LINK_POINTER_HIGH = 0x2801"
definition PIN_BASED_VM_EXEC_CONTROL :: u64 where "PIN_BASED_VM_EXEC_CONTROL = 0x4000"
definition CPU_BASED_VM_EXEC_CONTROL :: u64 where "CPU_BASED_VM_EXEC_CONTROL = 0x4002"
definition VM_EXIT_CONTROLS :: u64 where "VM_EXIT_CONTROLS = 0x400c"
definition VM_ENTRY_CONTROLS :: u64 where "VM_ENTRY_CONTROLS = 0x4012"
definition VM_ENTRY_INTR_INFO_FIELD :: u64 where "VM_ENTRY_INTR_INFO_FIELD = 0x4016"
definition SECONDARY_VM_EXEC_CONTROL :: u64 where "SECONDARY_VM_EXEC_CONTROL = 0x401e"
definition VM_EXIT_REASON :: u64 where "VM_EXIT_REASON = 0x4402"
definition VM_EXIT_INTR_INFO :: u64 where "VM_EXIT_INTR_INFO = 0x4404"
definition VM_EXIT_INTR_ERROR_CODE :: u64 where "VM_EXIT_INTR_ERROR_CODE = 0x4406"
definition VM_EXIT_INSTRUCTION_LEN :: u64 where "VM_EXIT_INSTRUCTION_LEN = 0x440c"
definition GUEST_ES_LIMIT :: u64 where "GUEST_ES_LIMIT = 0x4800"
definition GUEST_CS_LIMIT :: u64 where "GUEST_CS_LIMIT = 0x4802"
definition GUEST_SS_LIMIT :: u64 where "GUEST_SS_LIMIT = 0x4804"
definition GUEST_DS_LIMIT :: u64 where "GUEST_DS_LIMIT = 0x4806"
definition GUEST_FS_LIMIT :: u64 where "GUEST_FS_LIMIT = 0x4808"
definition GUEST_GS_LIMIT :: u64 where "GUEST_GS_LIMIT = 0x480a"
definition GUEST_LDTR_LIMIT :: u64 where "GUEST_LDTR_LIMIT = 0x480c"
definition GUEST_TR_LIMIT :: u64 where "GUEST_TR_LIMIT = 0x480e"
definition GUEST_GDTR_LIMIT :: u64 where "GUEST_GDTR_LIMIT = 0x4810"
definition GUEST_IDTR_LIMIT :: u64 where "GUEST_IDTR_LIMIT = 0x4812"
definition GUEST_ES_AR_BYTES :: u64 where "GUEST_ES_AR_BYTES = 0x4814"
definition GUEST_CS_AR_BYTES :: u64 where "GUEST_CS_AR_BYTES = 0x4816"
definition GUEST_SS_AR_BYTES :: u64 where "GUEST_SS_AR_BYTES = 0x4818"
definition GUEST_DS_AR_BYTES :: u64 where "GUEST_DS_AR_BYTES = 0x481a"
definition GUEST_FS_AR_BYTES :: u64 where "GUEST_FS_AR_BYTES = 0x481c"
definition GUEST_GS_AR_BYTES :: u64 where "GUEST_GS_AR_BYTES = 0x481e"
definition GUEST_LDTR_AR_BYTES :: u64 where "GUEST_LDTR_AR_BYTES = 0x4820"
definition GUEST_TR_AR_BYTES :: u64 where "GUEST_TR_AR_BYTES = 0x4822"
definition GUEST_INTERRUPTIBILITY_INFO :: u64 where "GUEST_INTERRUPTIBILITY_INFO = 0x4824"
definition GUEST_ACTIVITY_STATE :: u64 where "GUEST_ACTIVITY_STATE = 0x4826"
definition EXIT_QUALIFICATION :: u64 where "EXIT_QUALIFICATION = 0x6400"
definition GUEST_CR0 :: u64 where "GUEST_CR0 = 0x6800"
definition GUEST_CR3 :: u64 where "GUEST_CR3 = 0x6802"
definition GUEST_CR4 :: u64 where "GUEST_CR4 = 0x6804"
definition GUEST_CS_BASE :: u64 where "GUEST_CS_BASE = 0x6808"
definition GUEST_GDTR_BASE :: u64 where "GUEST_GDTR_BASE = 0x6816"
definition GUEST_IDTR_BASE :: u64 where "GUEST_IDTR_BASE = 0x6818"
definition GUEST_DR7 :: u64 where "GUEST_DR7 = 0x681a"
definition GUEST_RSP :: u64 where "GUEST_RSP = 0x681c"
definition GUEST_RIP :: u64 where "GUEST_RIP = 0x681e"
definition GUEST_RFLAGS :: u64 where "GUEST_RFLAGS = 0x6820"
definition HOST_CR0 :: u64 where "HOST_CR0 = 0x6c00"
definition HOST_CR3 :: u64 where "HOST_CR3 = 0x6c02"
definition HOST_CR4 :: u64 where "HOST_CR4 = 0x6c04"
definition HOST_GDTR_BASE :: u64 where "HOST_GDTR_BASE = 0x6c0c"
definition HOST_IDTR_BASE :: u64 where "HOST_IDTR_BASE = 0x6c0e"
definition HOST_RSP :: u64 where "HOST_RSP = 0x6c14"
definition HOST_RIP :: u64 where "HOST_RIP = 0x6c16"

lemmas vmcs_field_defs =
  GUEST_ES_SELECTOR_def GUEST_CS_SELECTOR_def GUEST_SS_SELECTOR_def GUEST_DS_SELECTOR_def GUEST_FS_SELECTOR_def
  GUEST_GS_SELECTOR_def GUEST_LDTR_SELECTOR_def GUEST_TR_SELECTOR_def HOST_ES_SELECTOR_def HOST_CS_SELECTOR_def
  HOST_SS_SELECTOR_def HOST_DS_SELECTOR_def HOST_FS_SELECTOR_def HOST_GS_SELECTOR_def HOST_TR_SELECTOR_def
  EPT_POINTER_def GUEST_PHYSICAL_ADDRESS_def VMCS_LINK_POINTER_def VMCS_LINK_POINTER_HIGH_def PIN_BASED_VM_EXEC_CONTROL_def
  CPU_BASED_VM_EXEC_CONTROL_def VM_EXIT_CONTROLS_def VM_ENTRY_CONTROLS_def VM_ENTRY_INTR_INFO_FIELD_def SECONDARY_VM_EXEC_CONTROL_def
  VM_EXIT_REASON_def VM_EXIT_INTR_INFO_def VM_EXIT_INTR_ERROR_CODE_def VM_EXIT_INSTRUCTION_LEN_def GUEST_ES_LIMIT_def
  GUEST_CS_LIMIT_def GUEST_SS_LIMIT_def GUEST_DS_LIMIT_def GUEST_FS_LIMIT_def GUEST_GS_LIMIT_def
  GUEST_LDTR_LIMIT_def GUEST_TR_LIMIT_def GUEST_GDTR_LIMIT_def GUEST_IDTR_LIMIT_def GUEST_ES_AR_BYTES_def
  GUEST_CS_AR_BYTES_def GUEST_SS_AR_BYTES_def GUEST_DS_AR_BYTES_def GUEST_FS_AR_BYTES_def GUEST_GS_AR_BYTES_def
  GUEST_LDTR_AR_BYTES_def GUEST_TR_AR_BYTES_def GUEST_INTERRUPTIBILITY_INFO_def GUEST_ACTIVITY_STATE_def EXIT_QUALIFICATION_def
  GUEST_CR0_def GUEST_CR3_def GUEST_CR4_def GUEST_CS_BASE_def GUEST_GDTR_BASE_def
  GUEST_IDTR_BASE_def GUEST_DR7_def GUEST_RSP_def GUEST_RIP_def GUEST_RFLAGS_def
  HOST_CR0_def HOST_CR3_def HOST_CR4_def HOST_GDTR_BASE_def HOST_IDTR_BASE_def
  HOST_RSP_def HOST_RIP_def

section \<open>State\<close>

record 'd kvmx = "'d kproc" +
  ept_pgdir :: u64
  vmcsptr :: u64
  allregs :: "u64 list"
  exit_reason :: u64
  cpu_based_exec_control :: u32
  cpu_based_2nd_exec_control :: u32
  cpu_ept_vpid_cap :: u32
  cpu_msr :: "u64 \<Rightarrow> u64"
  cpu_cr0 :: u64
  cpu_cr4 :: u64
  vmxon_region :: u64
  cur_vmcs :: u64
  vmcs_data :: "u64 \<Rightarrow> u64 \<Rightarrow> u64"

definition rdmsr :: "u64 \<Rightarrow> ('d, 'a) kvmx_scheme \<Rightarrow> u64" where
  "rdmsr i s = cpu_msr s i"

definition wrmsr :: "u64 \<Rightarrow> u64 \<Rightarrow> ('d, 'a) kvmx_scheme \<Rightarrow> ('d, 'a) kvmx_scheme" where
  "wrmsr i v s = s\<lparr>cpu_msr := (cpu_msr s)(i := v)\<rparr>"

definition vmread :: "u64 \<Rightarrow> ('d, 'a) kvmx_scheme \<Rightarrow> u64" where
  "vmread i s = vmcs_data s (cur_vmcs s) i"

definition vmwrite :: "u64 \<Rightarrow> u64 \<Rightarrow> ('d, 'a) kvmx_scheme \<Rightarrow> ('d, 'a) kvmx_scheme" where
  "vmwrite i v s = s\<lparr>vmcs_data := (vmcs_data s)(cur_vmcs s := (vmcs_data s (cur_vmcs s))(i := v))\<rparr>"

definition vmptrld :: "u64 \<Rightarrow> ('d, 'a) kvmx_scheme \<Rightarrow> ('d, 'a) kvmx_scheme" where
  "vmptrld a s = s\<lparr>cur_vmcs := a\<rparr>"

definition vmxon :: "u64 \<Rightarrow> ('d, 'a) kvmx_scheme \<Rightarrow> ('d, 'a) kvmx_scheme" where
  "vmxon a s = s\<lparr>vmxon_region := a\<rparr>"

definition vmwrites :: "(u64 \<times> u64) list \<Rightarrow> ('d, 'a) kvmx_scheme \<Rightarrow> ('d, 'a) kvmx_scheme" where
  "vmwrites fs s = fold (\<lambda>(i, v). vmwrite i v) fs s"

text \<open>What the code takes from the processor when it fills the host fields.\<close>

record host_env =
  host_gdt :: u64
  host_idt :: u64
  host_rsp :: u64
  Vmx_exit :: u64

section \<open>Enabling VMX\<close>

definition check_ept :: "('d, 'a) kvmx_scheme \<Rightarrow> int \<times> ('d, 'a) kvmx_scheme" where
  "check_ept s =
     (let s1 = s\<lparr>cpu_based_exec_control := cpu_based_exec_control s OR ucast (drop_bit 32 (rdmsr 0x482 s))\<rparr>
      in if cpu_based_exec_control s1 AND 0x80000000 \<noteq> 0 then
           (let s2 = s1\<lparr>cpu_based_2nd_exec_control := cpu_based_2nd_exec_control s1 OR ucast (drop_bit 32 (rdmsr 0x48b s1))\<rparr>
            in if cpu_based_2nd_exec_control s2 AND 2 \<noteq> 0
               then (0, s2\<lparr>cpu_ept_vpid_cap := ucast (rdmsr 0x48c s2)\<rparr>)
               else (- 1, s2))
         else (- 1, s1))"

definition enable_vmx :: "('d, 'a) kvmx_scheme \<Rightarrow> ('d, 'a) kvmx_scheme outcome" where
  "enable_vmx s =
     (let s1 = s\<lparr>cpu_cr4 := cpu_cr4 s OR 0x2000\<rparr>;
          s2 = s1\<lparr>cpu_cr0 := cpu_cr0 s1 OR 0x20\<rparr>;
          s3 = wrmsr 0x3a (rdmsr 0x3a s2 OR 0x1) s2;
          s4 = snd (check_ept s3);
          basic_msr = rdmsr 0x480 s4
      in case alloc_page 1 s4 of
           (None, s5) \<Rightarrow> Inl NullPointer
         | (Some pg, s5) \<Rightarrow>
             Inr (vmxon (PAGE2PA pg) (s5\<lparr>mem := store32 (mem s5) (PAGE2VA pg) (ucast (basic_msr AND 0xFFFFFFFF))\<rparr>)))"

definition init_vmx :: "('d, 'a) kvmx_scheme \<Rightarrow> ('d, 'a) kvmx_scheme outcome" where
  "init_vmx s = enable_vmx s"

section \<open>Building a VMCS\<close>

text \<open>The value of a control field from its capability MSR with the wanted bits: \<open>high & (low | want)\<close>.\<close>

definition control_value :: "u64 \<Rightarrow> u64 \<Rightarrow> u32" where
  "control_value msr_value want = ucast (drop_bit 32 msr_value) AND ucast (msr_value OR want)"

definition init_vmx_control :: "('d, 'a) kvmx_scheme \<Rightarrow> ('d, 'a) kvmx_scheme" where
  "init_vmx_control s =
     (let s1 = vmwrite VM_ENTRY_CONTROLS (ucast (control_value (rdmsr 0x484 s) 0)) s;
          s2 = vmwrite PIN_BASED_VM_EXEC_CONTROL (ucast (control_value (rdmsr 0x481 s1) 0x1)) s1;
          s3 = vmwrite CPU_BASED_VM_EXEC_CONTROL 0x860061f2 s2;
          s4 = vmwrite SECONDARY_VM_EXEC_CONTROL (ucast (control_value (rdmsr 0x48b s3) 0x82)) s3
      in vmwrite VM_EXIT_CONTROLS (ucast (control_value (rdmsr 0x483 s4) 0x8200)) s4)"

definition init_host_state :: "host_env \<Rightarrow> ('d, 'a) kvmx_scheme \<Rightarrow> ('d, 'a) kvmx_scheme" where
  "init_host_state h s =
     vmwrites
       [(HOST_CR0, cpu_cr0 s), (HOST_CR3, cr3 s), (HOST_CR4, cpu_cr4 s),
        (HOST_CS_SELECTOR, 0x08), (HOST_DS_SELECTOR, 0x10), (HOST_ES_SELECTOR, 0), (HOST_FS_SELECTOR, 0),
        (HOST_GS_SELECTOR, 0), (HOST_SS_SELECTOR, 0x10), (HOST_TR_SELECTOR, 0x28),
        (HOST_GDTR_BASE, host_gdt h), (HOST_IDTR_BASE, host_idt h), (HOST_RIP, Vmx_exit h),
        (HOST_RSP, host_rsp h + 8), (0x2c02, rdmsr 0xc0000080 s)] s"

definition init_guest_state :: "('d, 'a) kvmx_scheme \<Rightarrow> ('d, 'a) kvmx_scheme" where
  "init_guest_state s =
     vmwrites
       [(GUEST_CR0, 0x00000020), (GUEST_CR3, 0), (GUEST_CR4, 0x2000), (GUEST_RFLAGS, 0x2),
        (GUEST_CS_SELECTOR, 0), (GUEST_CS_LIMIT, 0xffff), (GUEST_CS_AR_BYTES, 0x9f), (GUEST_CS_BASE, 0),
        (GUEST_RIP, 0x7C00), (GUEST_RSP, 0x000), (GUEST_GDTR_BASE, 0), (GUEST_IDTR_BASE, 0),
        (GUEST_GDTR_LIMIT, 0x30), (GUEST_IDTR_LIMIT, 0x3ff), (GUEST_ES_AR_BYTES, 0x93),
        (GUEST_SS_AR_BYTES, 0x93), (GUEST_DS_AR_BYTES, 0x93), (GUEST_FS_AR_BYTES, 0x93),
        (GUEST_GS_AR_BYTES, 0x93), (GUEST_ES_LIMIT, 0xffff), (GUEST_SS_LIMIT, 0xffff),
        (GUEST_DS_LIMIT, 0xffff), (GUEST_FS_LIMIT, 0xffff), (GUEST_GS_LIMIT, 0xffff),
        (GUEST_ES_SELECTOR, 0), (GUEST_SS_SELECTOR, 0), (GUEST_DS_SELECTOR, 0), (GUEST_FS_SELECTOR, 0),
        (GUEST_GS_SELECTOR, 0), (GUEST_LDTR_SELECTOR, 0), (GUEST_TR_SELECTOR, 0), (GUEST_LDTR_LIMIT, 0xffff),
        (GUEST_TR_LIMIT, 0xffff), (GUEST_LDTR_AR_BYTES, 0x82), (GUEST_TR_AR_BYTES, 0x8b),
        (GUEST_GDTR_BASE, 0), (GUEST_IDTR_BASE, 0), (GUEST_DR7, 0), (GUEST_ACTIVITY_STATE, 0),
        (GUEST_INTERRUPTIBILITY_INFO, 0)] s"

text \<open>
  The EPT pointer of a root: four levels.  The compiled code writes it out; \<open>construct_eptp\<close> is what the
  branch that is not compiled calls.
\<close>

definition construct_eptp :: "u64 \<Rightarrow> u64" where
  "construct_eptp root_hpa = 0x18 OR root_hpa div 4096 * 4096"

lemma construct_eptp_page: "p < 2 ^ 52 \<Longrightarrow> construct_eptp (PAGE2PA p) = PAGE2PA p OR 0x18"
proof -
  assume p: "p < 2 ^ 52"
  have "PAGE2PA p div 4096 * 4096 = push_bit 12 (drop_bit 12 (PAGE2PA p))"
    by (simp add: push_bit_eq_mult drop_bit_eq_div)
  also have "\<dots> = PAGE2PA p" unfolding PAGE2PA_def by (rule bit_word_eqI) (auto simp: bit_simps)
  finally show ?thesis by (simp add: construct_eptp_def or.commute)
qed

definition sys_create_vcpu :: "host_env \<Rightarrow> ('d, 'a) kvmx_scheme \<Rightarrow> (int \<times> ('d, 'a) kvmx_scheme) outcome" where
  "sys_create_vcpu h s =
     (let s1 = s\<lparr>allregs := replicate 17 0\<rparr>; basic_msr = rdmsr 0x480 s1
      in case alloc_page 1 s1 of
           (None, s2) \<Rightarrow> Inl NullPointer
         | (Some pg, s2) \<Rightarrow>
             let s3 = s2\<lparr>mem := store32 (mem s2) (PAGE2VA pg) (ucast (basic_msr AND 0xFFFFFFFF))\<rparr>;
                 s4 = vmptrld (PAGE2PA pg) (s3\<lparr>vmcsptr := PAGE2PA pg\<rparr>)
             in case alloc_page 1 s4 of
                  (None, s5) \<Rightarrow> Inl NullPointer
                | (Some ep, s5) \<Rightarrow>
                    let s6 = s5\<lparr>ept_pgdir := PAGE2VA ep\<rparr>;
                        s7 = vmwrite EPT_POINTER (PAGE2PA ep OR 0x18) s6;
                        s8 = init_guest_state (init_host_state h (init_vmx_control s7))
                    in Inr (0, vmwrite VMCS_LINK_POINTER_HIGH 0xFFFFFFFF (vmwrite VMCS_LINK_POINTER 0xFFFFFFFF s8)))"

section \<open>Guest memory\<close>

definition VMX_EPT_PTE_FULL :: u64 where
  "VMX_EPT_PTE_FULL = 7"

text \<open>A zeroed page behind the guest-physical address \<open>gpa\<close>; the result of \<open>insert_page\<close> is dropped.\<close>

definition ept_add :: "u64 \<Rightarrow> ('d, 'a) kvmx_scheme \<Rightarrow> ('d, 'a) kvmx_scheme outcome" where
  "ept_add gpa s =
     (case alloc_page 1 s of (pg, s1) \<Rightarrow>
      bindE (insert_page (ept_pgdir s1) gpa pg VMX_EPT_PTE_FULL s1) (\<lambda>(r, s2). Inr s2))"

fun ept_low :: "u64 \<Rightarrow> nat \<Rightarrow> ('d, 'a) kvmx_scheme \<Rightarrow> ('d, 'a) kvmx_scheme outcome" where
  "ept_low i 0 s = Inr s"
| "ept_low i (Suc n) s = bindE (ept_add i s) (ept_low (i + 4096) n)"

partial_function (option) ept_high :: "u64 \<Rightarrow> u64 \<Rightarrow> ('d, 'a) kvmx_scheme \<Rightarrow> ('d, 'a) kvmx_scheme outcome option" where
  "ept_high gpa phys s =
     (if gpa < phys
      then (case ept_add gpa s of Inl e \<Rightarrow> Some (Inl e) | Inr s1 \<Rightarrow> ept_high (gpa + 4096) phys s1)
      else Some (Inr s))"

definition sys_alloc_vm_mem :: "u64 \<Rightarrow> ('d, 'a) kvmx_scheme \<Rightarrow> (int \<times> ('d, 'a) kvmx_scheme) outcome" where
  "sys_alloc_vm_mem phys s =
     bindE (walk_page (ept_pgdir s) 0xb8000 1 s) (\<lambda>(r, pte, s1).
       if r < 0 then Inr (r, s1)
       else case pte of
         None \<Rightarrow> Inl NullPointer
       | Some a \<Rightarrow>
           bindE (ept_low 0 (0xA0000 div 4096) (s1\<lparr>mem := store64 (mem s1) a (0xb8000 OR VMX_EPT_PTE_FULL OR 0x40)\<rparr>)) (\<lambda>s2.
           bindE (returns (ept_high 0x218000 phys s2)) (\<lambda>s3. Inr (0, s3))))"

definition sys_mmap_mem :: "u64 \<Rightarrow> u64 \<Rightarrow> u64 \<Rightarrow> int \<Rightarrow> ('d, 'a) kvmx_scheme \<Rightarrow> (int \<times> ('d, 'a) kvmx_scheme) outcome" where
  "sys_mmap_mem addr len gpa prot s =
     (let offset = (ucast (gpa - gpa div 4096 * 4096) :: u32)
      in case alloc_page 1 s of
           (None, s1) \<Rightarrow> Inl NullPointer
         | (Some pg, s1) \<Rightarrow>
             bindE (vmemcpy (cpu_root s1) (PAGE2VA pg + ucast offset) addr (ucast len) (mem s1)) (\<lambda>m.
             insert_page (ept_pgdir s1) gpa (Some pg) VMX_EPT_PTE_FULL (s1\<lparr>mem := m\<rparr>)))"

section \<open>VM exits\<close>

text \<open>What the handler of an exit does next: enter the guest again, run to the end of \<open>vmexit\<close>, or loop for ever.\<close>

datatype vmact = VResume | VReturn | VSpin

definition skip_instruction :: "('d, 'a) kvmx_scheme \<Rightarrow> ('d, 'a) kvmx_scheme" where
  "skip_instruction s = vmwrite GUEST_RIP (vmread GUEST_RIP s + vmread VM_EXIT_INSTRUCTION_LEN s) s"

definition handle_io :: "('d, 'a) kvmx_scheme \<Rightarrow> vmact \<times> ('d, 'a) kvmx_scheme" where
  "handle_io s = (VResume, skip_instruction s)"

definition handle_rdmsr :: "('d, 'a) kvmx_scheme \<Rightarrow> vmact \<times> ('d, 'a) kvmx_scheme" where
  "handle_rdmsr s = (VResume, skip_instruction s)"

definition handle_intr :: "('d, 'a) kvmx_scheme \<Rightarrow> vmact \<times> ('d, 'a) kvmx_scheme" where
  "handle_intr s =
     (let exit_intr_info = (ucast (vmread VM_EXIT_INTR_INFO s) :: u32);
          nr = (ucast (exit_intr_info AND 0xff) :: u8);
          type = (ucast (drop_bit 8 exit_intr_info AND 0x7) :: u8);
          entry_intr_info = (0 OR 0x80000000 OR push_bit 8 (ucast type) OR ucast nr :: u32)
      in (VResume, vmwrite VM_ENTRY_INTR_INFO_FIELD (ucast entry_intr_info) s))"

definition handle_wrmsr :: "('d, 'a) kvmx_scheme \<Rightarrow> vmact \<times> ('d, 'a) kvmx_scheme" where
  "handle_wrmsr s =
     (let cr0 = (ucast (vmread GUEST_CR0 s) OR 0x80000001 :: u32);
          s1 = vmwrite GUEST_CR0 (ucast cr0) s;
          s2 = vmwrite VM_ENTRY_CONTROLS (vmread VM_ENTRY_CONTROLS s1 OR 0x00000200) s1
      in (VResume, skip_instruction s2))"

definition handle_eptexit :: "('d, 'a) kvmx_scheme \<Rightarrow> vmact \<times> ('d, 'a) kvmx_scheme" where
  "handle_eptexit s = (VReturn, s)"

text \<open>The second half of \<open>vmexit\<close>: the reason is read and the exit handled.\<close>

definition vm_handle :: "('d, 'a) kvmx_scheme \<Rightarrow> vmact \<times> ('d, 'a) kvmx_scheme" where
  "vm_handle s =
     (let s2 = s\<lparr>exit_reason := vmread VM_EXIT_REASON s\<rparr>;
          reason = exit_reason s2 AND 0xFFFF
      in if reason = 1 then handle_intr s2
         else if reason = 12 then (VSpin, s2)
         else if reason = 30 then handle_io s2
         else if reason = 31 then handle_rdmsr s2
         else if reason = 32 then handle_wrmsr s2
         else if reason = 48 then handle_eptexit s2
         else (VReturn, s2))"

text \<open>
  \<open>vmexit\<close> after a VM exit, from the label \<open>Vmx_exit\<close> on: the general registers are saved, RSP as the host's after
  the push of RCX, and the exit is handled.
\<close>

definition vmexit :: "u64 list \<Rightarrow> ('d, 'a) kvmx_scheme \<Rightarrow> vmact \<times> ('d, 'a) kvmx_scheme" where
  "vmexit gregs s = vm_handle (s\<lparr>allregs := gregs[4 := vmread HOST_RSP s - 8] @ drop 16 (allregs s)\<rparr>)"

text \<open>
  The guest: a VM entry by \<open>vmlaunch\<close>, or by \<open>vmresume\<close> with the registers in \<open>allregs\<close>, up to the next VM exit, if there is
  one, with the registers the guest has then; or an entry that fails, after which the code goes on behind the instruction,
  with the registers as they are.
\<close>

datatype 's vm_entry = VmExit "u64 list" 's | VmFail "u64 list" 's

type_synonym 's vm_guest = "bool \<Rightarrow> 's \<Rightarrow> 's vm_entry option"

text \<open>
  A VM exit goes on at \<open>Vmx_exit\<close>, in the body of \<open>vmexit\<close>, but with the stack pointer of \<open>HOST_RSP\<close>, which points into the frame
  \<open>init_host_state\<close> had, and with the frame pointer of the guest.  The handlers have frames of their own and enter the
  guest again from there.  At its end \<open>vmexit\<close> takes its return address from a frame that is not its own; so does \<open>vmresume\<close> where the
  entry fails, with the stack pointer of \<open>allregs\<close>.  Only a \<open>vmlaunch\<close> that fails leaves \<open>vmexit\<close> in its own frame.
\<close>

partial_function (option) vm_loop :: "('d, 'a) kvmx_scheme vm_guest \<Rightarrow> bool \<Rightarrow> ('d, 'a) kvmx_scheme \<Rightarrow> ('d, 'a) kvmx_scheme outcome option" where
  "vm_loop guest launch s =
     (case guest launch s of
        None \<Rightarrow> None
      | Some entry \<Rightarrow>
          (case entry of
             VmExit gregs s1 \<Rightarrow>
               (case vmexit gregs s1 of
                  (act, s2) \<Rightarrow>
                    (case act of VResume \<Rightarrow> vm_loop guest False s2 | VReturn \<Rightarrow> Some (Inl WildReturn) | VSpin \<Rightarrow> None))
           | VmFail hregs s1 \<Rightarrow>
               if launch
               then (case vm_handle (s1\<lparr>allregs := hregs @ drop 16 (allregs s1)\<rparr>) of
                       (act, s2) \<Rightarrow>
                         (case act of VResume \<Rightarrow> vm_loop guest False s2 | VReturn \<Rightarrow> Some (Inr s2) | VSpin \<Rightarrow> None))
               else Some (Inl WildReturn)))"

definition sys_run_vm :: "('d, 'a) kvmx_scheme vm_guest \<Rightarrow> ('d, 'a) kvmx_scheme \<Rightarrow> (int \<times> ('d, 'a) kvmx_scheme) outcome" where
  "sys_run_vm guest s = (case vm_loop guest True s of None \<Rightarrow> Inl Hang | Some r \<Rightarrow> bindE r (\<lambda>s1. Inr (0, s1)))"

section \<open>Properties of VM exits\<close>

lemma vmread_vmwrite [simp]:
  "vmread i (vmwrite j v s) = (if i = j then v else vmread i s)"
  by (simp add: vmread_def vmwrite_def)

lemma vmwrite_fields [simp]:
  "exit_reason (vmwrite j v s) = exit_reason s" "allregs (vmwrite j v s) = allregs s"
  "cur_vmcs (vmwrite j v s) = cur_vmcs s" "mem (vmwrite j v s) = mem s"
  "cpu_msr (vmwrite j v s) = cpu_msr s"
  by (simp_all add: vmwrite_def)

lemma vmread_upd [simp]:
  "vmread i (s\<lparr>allregs := g\<rparr>) = vmread i s" "vmread i (s\<lparr>exit_reason := e\<rparr>) = vmread i s"
  "vmread i (s\<lparr>mem := m\<rparr>) = vmread i s"
  by (simp_all add: vmread_def)

text \<open>Exits after which the guest goes on behind the instruction that caused them.\<close>

definition emulated :: "u64 \<Rightarrow> bool" where
  "emulated reason \<longleftrightarrow> reason \<in> {30, 31, 32}"

lemma injected_info:
  "(0 OR 0x80000000 OR push_bit 8 (ucast (ucast (drop_bit 8 w AND 0x7) :: u8)) OR ucast (ucast (w AND 0xff) :: u8) :: u32)
     = 0x80000000 OR (w AND 0x7FF)"
proof -
  have m: "(0x7 :: u32) = mask 3" "(0xff :: u32) = mask 8" "(0x7FF :: u32) = mask 11" by (simp_all add: mask_eq_exp_minus_1)
  have "push_bit 8 (ucast (ucast (drop_bit 8 w AND 0x7) :: u8)) OR ucast (ucast (w AND 0xff) :: u8) = w AND 0x7FF"
    unfolding m by (rule bit_word_eqI) (auto simp: bit_simps)
  then show ?thesis by (simp add: or.assoc)
qed

text \<open>C23. One VM exit, for every exit reason: the guest is entered again after an external
  interrupt or exception (1), a port access (30) and MSR accesses (31, 32), the monitor spins after
  \<open>hlt\<close> (12) and comes to the end of \<open>vmexit\<close> after everything else.  For 30 to 32 the guest's RIP moves behind the
  instruction, so it is skipped; for 32 paging, protection and IA-32e mode are switched on besides;
  for 1 the vector and the type of the event (bits 0 to 10) are injected into the guest.  No other
  field of the VMCS changes.\<close>

theorem vm_exit_emulation:
  fixes s :: "('d, 'a) kvmx_scheme"
  defines "reason \<equiv> vmread VM_EXIT_REASON s AND 0xFFFF"
  shows "case vmexit gregs s of (act, s') \<Rightarrow>
      act = (if reason \<in> {1, 30, 31, 32} then VResume else if reason = 12 then VSpin else VReturn)
    \<and> exit_reason s' = vmread VM_EXIT_REASON s
    \<and> (\<forall>i. vmread i s' =
        (if i = GUEST_RIP \<and> emulated reason then vmread GUEST_RIP s + vmread VM_EXIT_INSTRUCTION_LEN s
         else if i = GUEST_CR0 \<and> reason = 32 then ucast (ucast (vmread GUEST_CR0 s) OR 0x80000001 :: u32)
         else if i = VM_ENTRY_CONTROLS \<and> reason = 32 then vmread VM_ENTRY_CONTROLS s OR 0x200
         else if i = VM_ENTRY_INTR_INFO_FIELD \<and> reason = 1
           then ucast (0x80000000 OR (ucast (vmread VM_EXIT_INTR_INFO s) AND 0x7FF) :: u32)
         else vmread i s))"
  unfolding reason_def emulated_def vmexit_def vm_handle_def Let_def handle_intr_def injected_info handle_io_def handle_rdmsr_def
    handle_wrmsr_def handle_eptexit_def skip_instruction_def
  by (simp add: vmcs_field_defs)

section \<open>Runs of a guest\<close>

text \<open>Once the guest has been entered, \<open>sys_run_vm\<close> does not come back to its caller: it goes on for ever, or returns into a foreign frame.\<close>

lemma vm_loop_resumed:
  assumes "vm_loop guest launch s = Some r"
  shows "\<not> launch \<longrightarrow> r = Inl WildReturn"
  by (rule vm_loop.raw_induct [where P = "\<lambda>guest launch s r. \<not> launch \<longrightarrow> r = Inl WildReturn", OF _ assms])
    (auto split: option.splits vm_entry.splits prod.splits vmact.splits if_splits)

lemma run_vm_stays:
  assumes "guest True s = Some (VmExit gregs s1)"
  shows "sys_run_vm guest s = Inl Hang \<or> sys_run_vm guest s = Inl WildReturn"
proof -
  have "r = Inl WildReturn" if "vm_loop guest True s = Some r" for r
    using that assms vm_loop_resumed [of guest False]
    by (subst (asm) vm_loop.simps) (auto split: prod.splits vmact.splits)
  then show ?thesis unfolding sys_run_vm_def by (cases "vm_loop guest True s") auto
qed

lemma vmwrite_mm [simp]:
  "pages (vmwrite j v s) = pages s" "phead (vmwrite j v s) = phead s" "npages (vmwrite j v s) = npages s"
  "vmcsptr (vmwrite j v s) = vmcsptr s" "ept_pgdir (vmwrite j v s) = ept_pgdir s"
  "cr3 (vmwrite j v s) = cr3 s" "cpu_cr0 (vmwrite j v s) = cpu_cr0 s" "cpu_cr4 (vmwrite j v s) = cpu_cr4 s"
  by (simp_all add: vmwrite_def)

text \<open>The parts of the state that only \<open>vmwrite\<close> changes do not change.\<close>

definition same_machine :: "('d, 'a) kvmx_scheme \<Rightarrow> ('d, 'a) kvmx_scheme \<Rightarrow> bool" where
  "same_machine s t \<longleftrightarrow> (\<exists>D. t = s\<lparr>vmcs_data := D\<rparr>)"

lemma same_machine_vmwrite: "same_machine s t \<Longrightarrow> same_machine s (vmwrite i v t)"
  by (auto simp: same_machine_def vmwrite_def)

lemma same_machine_vmwrites: "same_machine s t \<Longrightarrow> same_machine s (vmwrites fs t)"
  unfolding vmwrites_def by (induction fs arbitrary: t) (auto intro: same_machine_vmwrite)

lemma same_machine_refl: "same_machine s s"
  by (auto simp: same_machine_def intro: exI [of _ "vmcs_data s"])

lemma same_machineD:
  assumes "same_machine s t"
  shows "pages t = pages s" "phead t = phead s" "npages t = npages s" "mem t = mem s"
    "vmcsptr t = vmcsptr s" "ept_pgdir t = ept_pgdir s" "cur_vmcs t = cur_vmcs s" "cpu_msr t = cpu_msr s"
    "cr3 t = cr3 s" "cpu_cr0 t = cpu_cr0 s" "cpu_cr4 t = cpu_cr4 s"
  using assms by (auto simp: same_machine_def)

text \<open>What a capability MSR allows of a control field: the low half has the bits that must be 1, the high half those that may be.\<close>

definition control_ok :: "u64 \<Rightarrow> u64 \<Rightarrow> u64 \<Rightarrow> bool" where
  "control_ok cap want x \<longleftrightarrow>
     (let must = ucast cap :: u32; may = ucast (drop_bit 32 cap) :: u32
      in x AND NOT (ucast may) = 0 \<and> ucast must AND NOT x = 0 \<and> (ucast may AND want) AND NOT x = 0)"

text \<open>A value with all the bits a capability MSR requires, and none that it does not allow.\<close>

definition fits :: "u64 \<Rightarrow> u32 \<Rightarrow> bool" where
  "fits cap x \<longleftrightarrow> ucast cap AND NOT x = 0 \<and> x AND NOT (ucast (drop_bit 32 cap)) = 0"

definition cap_ok :: "u64 \<Rightarrow> bool" where
  "cap_ok cap \<longleftrightarrow> (ucast cap :: u32) AND NOT (ucast (drop_bit 32 cap)) = 0"

lemma control_value_ok:
  assumes "cap_ok cap"
  shows "control_ok cap want (ucast (control_value cap want))"
proof -
  have m: "bit cap n \<Longrightarrow> n < 32 \<Longrightarrow> bit cap (32 + n)" for n
  proof -
    assume "bit cap n" "n < 32"
    moreover have "\<not> bit ((ucast cap :: u32) AND NOT (ucast (drop_bit 32 cap))) n"
      using assms by (simp add: cap_ok_def)
    ultimately show ?thesis by (simp add: bit_simps)
  qed
  show ?thesis
    unfolding control_ok_def Let_def control_value_def
    by (intro conjI; rule bit_word_eqI) (auto simp: bit_simps add.commute dest: m)
qed

lemma control_ok_fits:
  assumes "control_ok cap want (ucast x)"
  shows "fits cap x"
proof -
  have m: "ucast x AND NOT (ucast (ucast (drop_bit 32 cap) :: u32)) = (0 :: u64)" "ucast (ucast cap :: u32) AND NOT (ucast x) = (0 :: u64)"
    using assms by (simp_all add: control_ok_def Let_def)
  have "bit (ucast x AND NOT (ucast (ucast (drop_bit 32 cap) :: u32)) :: u64) n = bit (0 :: u64) n"
    "bit (ucast (ucast cap :: u32) AND NOT (ucast x) :: u64) n = bit (0 :: u64) n" for n
    by (simp_all only: m)
  then have "n < 32 \<Longrightarrow> \<not> (bit x n \<and> \<not> bit cap (32 + n))" "n < 32 \<Longrightarrow> \<not> (bit cap n \<and> \<not> bit x n)" for n
    by (simp_all add: bit_simps)
  then show ?thesis
    unfolding fits_def by (intro conjI; intro bit_word_eqI) (simp_all add: bit_simps add.commute)
qed

lemma alloc_page_kvmx:
  fixes s :: "('d, 'a) kvmx_scheme"
  assumes "alloc_page fl s = (q, s')"
  shows "cpu_msr s' = cpu_msr s" "cur_vmcs s' = cur_vmcs s" "vmcs_data s' = vmcs_data s" "ept_pgdir s' = ept_pgdir s"
    "cr3 s' = cr3 s" "vmcsptr s' = vmcsptr s" "cpu_cr0 s' = cpu_cr0 s" "cpu_cr4 s' = cpu_cr4 s"
  using assms by (auto simp: alloc_page_def Let_def split: option.splits if_splits)

lemma kvmx_mm [simp]:
  fixes s :: "('d, 'a) kvmx_scheme"
  shows "mm_inv (s\<lparr>allregs := g\<rparr>) = mm_inv s" "free_pages (s\<lparr>allregs := g\<rparr>) = free_pages s"
    "mm_inv (s\<lparr>vmcsptr := x\<rparr>) = mm_inv s" "free_pages (s\<lparr>vmcsptr := x\<rparr>) = free_pages s"
    "mm_inv (vmptrld x s) = mm_inv s" "free_pages (vmptrld x s) = free_pages s"
    "mm_inv (s\<lparr>ept_pgdir := x\<rparr>) = mm_inv s" "free_pages (s\<lparr>ept_pgdir := x\<rparr>) = free_pages s"
  unfolding vmptrld_def by (rule mm_cong; simp)+


text \<open>The VMCS that \<open>sys_create_vcpu\<close> leaves, with the EPT pointer \<open>e\<close>.\<close>

lemma vmcs_after_init:
  fixes s :: "('d, 'a) kvmx_scheme"
  assumes s': "s' = vmwrite VMCS_LINK_POINTER_HIGH 0xFFFFFFFF (vmwrite VMCS_LINK_POINTER 0xFFFFFFFF
      (init_guest_state (init_host_state h (init_vmx_control (vmwrite EPT_POINTER e s)))))"
    and caps: "\<And>cap. cap \<in> {0x481, 0x483, 0x484, 0x48b} \<Longrightarrow> cap_ok (rdmsr cap s)"
  shows "same_machine s s'" and "vmread EPT_POINTER s' = e"
    and "control_ok (rdmsr 0x484 s) 0 (vmread VM_ENTRY_CONTROLS s')"
    and "control_ok (rdmsr 0x481 s) 0x1 (vmread PIN_BASED_VM_EXEC_CONTROL s')"
    and "control_ok (rdmsr 0x48b s) 0x82 (vmread SECONDARY_VM_EXEC_CONTROL s')"
    and "control_ok (rdmsr 0x483 s) 0x8200 (vmread VM_EXIT_CONTROLS s')"
    and "vmread CPU_BASED_VM_EXEC_CONTROL s' = 0x860061f2"
    and "vmread GUEST_RIP s' = 0x7C00" and "vmread GUEST_CS_BASE s' = 0" and "vmread GUEST_CR0 s' = 0x20"
    and "vmread HOST_RIP s' = Vmx_exit h" and "vmread HOST_RSP s' = host_rsp h + 8" and "vmread HOST_CR3 s' = cr3 s"
proof -
  show "same_machine s s'"
    unfolding s' init_guest_state_def init_host_state_def init_vmx_control_def Let_def
    by (intro same_machine_vmwrite same_machine_vmwrites same_machine_refl)
  have ctl: "vmread VM_ENTRY_CONTROLS s' = ucast (control_value (rdmsr 0x484 s) 0)"
    "vmread PIN_BASED_VM_EXEC_CONTROL s' = ucast (control_value (rdmsr 0x481 s) 0x1)"
    "vmread SECONDARY_VM_EXEC_CONTROL s' = ucast (control_value (rdmsr 0x48b s) 0x82)"
    "vmread VM_EXIT_CONTROLS s' = ucast (control_value (rdmsr 0x483 s) 0x8200)"
    unfolding s'
    by (simp_all add: init_guest_state_def init_host_state_def init_vmx_control_def vmwrites_def vmcs_field_defs Let_def rdmsr_def)
  show "control_ok (rdmsr 0x484 s) 0 (vmread VM_ENTRY_CONTROLS s')"
    "control_ok (rdmsr 0x481 s) 0x1 (vmread PIN_BASED_VM_EXEC_CONTROL s')"
    "control_ok (rdmsr 0x48b s) 0x82 (vmread SECONDARY_VM_EXEC_CONTROL s')"
    "control_ok (rdmsr 0x483 s) 0x8200 (vmread VM_EXIT_CONTROLS s')"
    unfolding ctl by (rule control_value_ok, rule caps, simp)+
  show "vmread EPT_POINTER s' = e" "vmread CPU_BASED_VM_EXEC_CONTROL s' = 0x860061f2"
    "vmread GUEST_RIP s' = 0x7C00" "vmread GUEST_CS_BASE s' = 0" "vmread GUEST_CR0 s' = 0x20"
    "vmread HOST_RIP s' = Vmx_exit h" "vmread HOST_RSP s' = host_rsp h + 8" "vmread HOST_CR3 s' = cr3 s"
    unfolding s'
    by (simp_all add: init_guest_state_def init_host_state_def init_vmx_control_def vmwrites_def vmcs_field_defs Let_def)
qed

lemma u64_low: "(ucast (x AND 0xFFFFFFFF :: u64) :: u32) = ucast x"
proof -
  have low: "(0xFFFFFFFF :: u64) = mask 32" by (simp add: mask_eq_exp_minus_1)
  show ?thesis unfolding low by (rule bit_word_eqI) (auto simp: bit_simps)
qed

text \<open>C17. \<open>sys_create_vcpu\<close> with two free pages: the current VMCS is a fresh page with the
  revision identifier in its first word, the EPT root another one, an empty address space; with
  capability MSRs whose required bits are among the allowed ones, the entry, pin-based, secondary
  and exit controls have every required bit, no bit that is not allowed and every wanted bit that
  is allowed.  The primary processor-based controls are no such value: they are the constant 0x860061f2 whatever the
  capability MSR 0x482 says, so where that requires a bit the constant lacks, or does not allow one it has, the field is not
  within it.  The
  guest starts in real mode at 0x7C00; the host returns to \<open>Vmx_exit\<close>, with CR3 as it is.\<close>

theorem create_vcpu:
  fixes s :: "('d, 'a) kvmx_scheme"
  assumes inv: "mm_inv s" and room: "2 \<le> card (free_pages s)"
    and caps: "\<forall>cap \<in> {0x481, 0x483, 0x484, 0x48b}. cap_ok (rdmsr cap s)"
  shows "\<exists>v ep s'. sys_create_vcpu h s = Inr (0, s') \<and> v \<noteq> ep \<and> {v, ep} \<subseteq> free_pages s
    \<and> free_pages s' = free_pages s - {v, ep} \<and> mm_inv s'
    \<and> cur_vmcs s' = PAGE2PA v \<and> load32 (mem s') (PAGE2VA v) = ucast (rdmsr 0x480 s)
    \<and> ept_pgdir s' = PAGE2VA ep \<and> vmread EPT_POINTER s' = PAGE2PA ep OR 0x18
    \<and> pt_inv s' (PAGE2VA ep) \<and> (\<forall>gpa. user_va gpa \<longrightarrow> pte_of (mem s') (PAGE2VA ep) gpa = 0)
    \<and> control_ok (rdmsr 0x484 s) 0 (vmread VM_ENTRY_CONTROLS s')
    \<and> control_ok (rdmsr 0x481 s) 0x1 (vmread PIN_BASED_VM_EXEC_CONTROL s')
    \<and> control_ok (rdmsr 0x48b s) 0x82 (vmread SECONDARY_VM_EXEC_CONTROL s')
    \<and> control_ok (rdmsr 0x483 s) 0x8200 (vmread VM_EXIT_CONTROLS s')
    \<and> vmread CPU_BASED_VM_EXEC_CONTROL s' = 0x860061f2
    \<and> (\<not> fits (rdmsr 0x482 s) 0x860061f2 \<longrightarrow> (\<forall>want. \<not> control_ok (rdmsr 0x482 s) want (vmread CPU_BASED_VM_EXEC_CONTROL s')))
    \<and> vmread GUEST_RIP s' = 0x7C00 \<and> vmread GUEST_CS_BASE s' = 0 \<and> vmread GUEST_CR0 s' = 0x20
    \<and> vmread HOST_RIP s' = Vmx_exit h \<and> vmread HOST_RSP s' = host_rsp h + 8 \<and> vmread HOST_CR3 s' = cr3 s"
proof -
  let ?s1 = "s\<lparr>allregs := replicate 17 0\<rparr>"
  have inv1: "mm_inv ?s1" and fr1: "free_pages ?s1 = free_pages s" using inv by simp_all
  have "free_pages s \<noteq> {}" using room by auto
  then obtain v s2 where al1: "alloc_page 1 ?s1 = (Some v, s2)" using mm.alloc_succeeds [OF inv1] unfolding fr1 by blast
  note a = alloc_page_Some [OF inv1 al1, unfolded fr1] and a' = alloc_page_kvmx [OF al1]
  let ?s3 = "s2\<lparr>mem := store32 (mem s2) (PAGE2VA v) (ucast (rdmsr 0x480 ?s1 AND 0xFFFFFFFF))\<rparr>"
  let ?s4 = "vmptrld (PAGE2PA v) (?s3\<lparr>vmcsptr := PAGE2PA v\<rparr>)"
  have inv4: "mm_inv ?s4" and fr4: "free_pages ?s4 = free_pages s - {v}" using a(2,3) by simp_all
  have "card (free_pages s - {v}) \<noteq> 0" using room a(1) by simp
  then have "free_pages s - {v} \<noteq> {}" by (metis card.empty)
  then obtain ep s5 where al2: "alloc_page 1 ?s4 = (Some ep, s5)" using mm.alloc_succeeds [OF inv4] unfolding fr4 by blast
  note b = alloc_page_Some [OF inv4 al2, unfolded fr4] and b' = alloc_page_kvmx [OF al2]
  let ?s6 = "s5\<lparr>ept_pgdir := PAGE2VA ep\<rparr>"
  define s' where "s' = vmwrite VMCS_LINK_POINTER_HIGH 0xFFFFFFFF (vmwrite VMCS_LINK_POINTER 0xFFFFFFFF
      (init_guest_state (init_host_state h (init_vmx_control (vmwrite EPT_POINTER (PAGE2PA ep OR 0x18) ?s6)))))"
  have run: "sys_create_vcpu h s = Inr (0, s')"
    by (simp add: sys_create_vcpu_def Let_def al1 al2 s'_def)
  have msr: "rdmsr c ?s6 = rdmsr c s" for c using b'(1) a'(1) by (simp add: rdmsr_def vmptrld_def)
  note init = vmcs_after_init [OF s'_def, unfolded msr, OF bspec [OF caps]]
  note sm = same_machineD [OF init(1)]
  have len: "length (pages s2) \<le> 2 ^ 18" "length (pages s5) = length (pages s2)" using a(2) b(7) by (simp_all add: mm_inv_def vmptrld_def)
  have vp: "v < 2 ^ 18" "ep < 2 ^ 18" "ep \<noteq> v" "ep < length (pages s5)"
    using len free_pages_less [OF a(1)] a(7) b(1) free_pages_less [of ep s] b(7) by (auto simp: vmptrld_def)
  have mm': "mm_inv s'" "free_pages s' = free_pages s5" using mm_cong(1,2) [of s' s5] sm b(2) by simp_all
  have m': "mem s' = store_bytes (store32 (mem s2) (PAGE2VA v) (ucast (rdmsr 0x480 s))) (PAGE2VA ep) (replicate 4096 0)"
    using sm(4) b(6) by (simp add: vmptrld_def rdmsr_def u64_low)
  have "apart (PAGE2VA ep) 4096 (PAGE2VA v) 4"
    unfolding PAGE2VA_offset using vp by (intro apart_offset) auto
  then have rev: "load32 (mem s') (PAGE2VA v) = ucast (rdmsr 0x480 s)"
    unfolding m' by (simp add: load32_store_bytes_disj)
  have zero: "load64 (mem s') (PAGE2VA ep + 8 * i) AND 1 = 0" if "i < 256" for i
  proof -
    have "i < 512" using that by (rule less_trans) simp
    then show ?thesis unfolding m' by (simp add: load64_zero_page)
  qed
  have ep: "ep < length (pages s')" "ep \<notin> free_pages s'" using vp(4) b(3) mm'(2) sm(1) by simp_all
  note root = empty_root [OF mm'(1) ep zero]
  have top: "v \<noteq> ep" "{v, ep} \<subseteq> free_pages s" "free_pages s' = free_pages s - {v, ep}" "cur_vmcs s' = PAGE2PA v"
    "ept_pgdir s' = PAGE2VA ep"
    using a(1) b(1,3) mm'(2) sm(6,7) b'(2) by (auto simp: vmptrld_def)
  have c: "vmread CPU_BASED_VM_EXEC_CONTROL s' = 0x860061f2" using init(7) by blast
  have "\<not> fits (rdmsr 0x482 s) 0x860061f2 \<longrightarrow> (\<forall>want. \<not> control_ok (rdmsr 0x482 s) want (vmread CPU_BASED_VM_EXEC_CONTROL s'))"
    unfolding c using control_ok_fits [of "rdmsr 0x482 s" _ "0x860061f2"] by auto
  note cpu = c this
  have host: "vmread HOST_CR3 s' = cr3 s" using init(13) a'(5) b'(5) by (simp add: vmptrld_def)
  show ?thesis
    using run top mm'(1) rev root init(2-6) cpu init(8-12) host by blast
qed

section \<open>Properties of guest memory\<close>

lemma kvmx_more:
  fixes s s' :: "('d, 'a) kvmx_scheme"
  assumes "kmm.more s' = kmm.more s"
  shows "ept_pgdir s' = ept_pgdir s" "current s' = current s" "procs s' = procs s"
  using assms by (cases s; cases s'; simp)+

lemma ept_add_maps:
  fixes s :: "('d, 'a) kvmx_scheme"
  assumes inv: "pt_inv s (ept_pgdir s)" and va: "user_va gpa" and room: "4 \<le> card (free_pages s)"
  obtains p s' where "ept_add gpa s = Inr s'" "new_page s s' (ept_pgdir s) gpa p 7"
    "\<And>i. i < 512 \<Longrightarrow> load64 (mem s') (PAGE2VA p + 8 * i) = 0" "ept_pgdir s' = ept_pgdir s"
proof -
  obtain p s1 s' where n: "alloc_page 1 s = (Some p, s1)" "insert_page (ept_pgdir s) gpa (Some p) 7 s1 = Inr (0, s')"
    "new_page s s' (ept_pgdir s) gpa p 7" "\<And>i. i < 512 \<Longrightarrow> load64 (mem s') (PAGE2VA p + 8 * i) = 0"
    by (rule map_new_page [OF inv va room]) (rule that; assumption)
  have "kmm.more s' = kmm.more s" using n(3) by (simp add: new_page_def)
  note more = kvmx_more(1) [OF this]
  have "ept_add gpa s = Inr s'"
    using n(1,2) alloc_page_kvmx(4) [OF n(1)] by (simp add: ept_add_def VMX_EPT_PTE_FULL_def)
  then show thesis by (rule that [OF _ n(3,4) more])
qed

text \<open>
  From \<open>s0\<close> to \<open>s\<close> the guest pages \<open>G\<close> have been mapped, each to its own zeroed frame \<open>fr k\<close> from
  the pool; everything else of the guest's address space is as it was.
\<close>

definition vm_mem :: "'a kmm_scheme \<Rightarrow> 'a kmm_scheme \<Rightarrow> u64 \<Rightarrow> nat set \<Rightarrow> (nat \<Rightarrow> nat) \<Rightarrow> bool" where
  "vm_mem s0 s r G fr \<longleftrightarrow> pt_inv s r \<and> free_pages s \<subseteq> free_pages s0
     \<and> card (free_pages s0) \<le> card (free_pages s) + 4 * card G
     \<and> (\<forall>va. user_va va \<longrightarrow> pte_of (mem s) r va =
          (if unat (vpn va) \<in> G then PAGE2PA (fr (unat (vpn va))) OR 7 else pte_of (mem s0) r va))
     \<and> inj_on fr G \<and> fr ` G \<subseteq> free_pages s0 - free_pages s \<and> fr ` G \<inter> tables s r = {}
     \<and> (\<forall>k \<in> G. page_refs s (fr k) = 1 \<and> (\<forall>i < 512. load64 (mem s) (PAGE2VA (fr k) + 8 * i) = 0))"

lemma vm_mem_start: "pt_inv s r \<Longrightarrow> vm_mem s s r {} fr"
  by (simp add: vm_mem_def)

lemma vm_mem_step:
  assumes v: "vm_mem s0 s r G fr" and n: "new_page s s' r (page_va k) p 7"
    and z: "\<And>i. i < 512 \<Longrightarrow> load64 (mem s') (PAGE2VA p + 8 * i) = 0"
    and k: "k \<notin> G" "k < 2 ^ 35" and fin: "finite G"
  shows "vm_mem s0 s' r (insert k G) (fr(k := p))"
proof -
  have vk: "vpn va = vpn (page_va k) \<longleftrightarrow> unat (vpn va) = k" for va
    using page_va_facts(1) [OF k(2)] k(2) by (simp add: word_unat_eq_iff unat_of_nat_small)
  have fk: "fr j \<notin> free_pages s" "fr j \<notin> tables s r" "fr j < 2 ^ 18" "fr j \<noteq> p" if "j \<in> G" for j
  proof -
    show f: "fr j \<notin> free_pages s" "fr j \<notin> tables s r" using v that by (auto simp: vm_mem_def)
    show "fr j \<noteq> p" using f(1) n by (auto simp: new_page_def)
    have "page_refs s (fr j) = 1" using v that by (simp add: vm_mem_def)
    then have "fr j < length (pages s)" by (simp add: page_refs_def split: if_splits)
    then show "fr j < 2 ^ 18" using v pt_inv_mm [of s r] by (auto simp: vm_mem_def mm_inv_def)
  qed
  have p: "p \<in> free_pages s" "p \<notin> free_pages s'" "p \<notin> tables s' r" "free_pages s' \<subseteq> free_pages s" "pt_inv s' r"
    "tables s' r \<subseteq> tables s r \<union> (free_pages s - free_pages s')" "card (free_pages s) \<le> card (free_pages s') + 4"
    using n by (simp_all add: new_page_def)
  have v': "free_pages s \<subseteq> free_pages s0" "card (free_pages s0) \<le> card (free_pages s) + 4 * card G" "inj_on fr G"
    "fr ` G \<subseteq> free_pages s0"
    using v by (auto simp: vm_mem_def)
  show ?thesis
    unfolding vm_mem_def
  proof (intro conjI)
    show "free_pages s' \<subseteq> free_pages s0" using p(4) v'(1) by blast
    show "card (free_pages s0) \<le> card (free_pages s') + 4 * card (insert k G)"
      using p(7) v'(2) k(1) fin by simp
    show "\<forall>va. user_va va \<longrightarrow> pte_of (mem s') r va = (if unat (vpn va) \<in> insert k G
        then PAGE2PA ((fr(k := p)) (unat (vpn va))) OR 7 else pte_of (mem s0) r va)"
      using v n vk by (auto simp: vm_mem_def new_page_def)
    show "inj_on (fr(k := p)) (insert k G)" using v'(3) k(1) fk(4) by (auto simp: inj_on_def)
    show "(fr(k := p)) ` insert k G \<subseteq> free_pages s0 - free_pages s'"
      using p v' fk(1) k(1) by auto
    show "(fr(k := p)) ` insert k G \<inter> tables s' r = {}"
      using p fk(1,2) k(1) by auto
    show "\<forall>j \<in> insert k G. page_refs s' ((fr(k := p)) j) = 1
        \<and> (\<forall>i < 512. load64 (mem s') (PAGE2VA ((fr(k := p)) j) + 8 * i) = 0)"
    proof
      fix j assume "j \<in> insert k G"
      then show "page_refs s' ((fr(k := p)) j) = 1 \<and> (\<forall>i < 512. load64 (mem s') (PAGE2VA ((fr(k := p)) j) + 8 * i) = 0)"
      proof (cases "j = k")
        case True
        then show ?thesis using z n p by (auto simp: new_page_def)
      next
        case False
        with \<open>j \<in> insert k G\<close> have j: "j \<in> G" by simp
        then have "page_refs s (fr j) = 1" "\<forall>i < 512. load64 (mem s) (PAGE2VA (fr j) + 8 * i) = 0"
          using v by (simp_all add: vm_mem_def)
        then show ?thesis using False fk [OF j] n by (auto simp: new_page_def)
      qed
    qed
  qed (use p in simp)
qed

lemma page_va_next: "page_va k + 4096 = page_va (Suc k)"
  by (simp add: page_va_def)

lemma ept_low_maps:
  fixes s :: "('d, 'a) kvmx_scheme"
  shows "vm_mem s0 s r G fr \<Longrightarrow> ept_pgdir s = r \<Longrightarrow> finite G \<Longrightarrow> G \<inter> {b..<b + n} = {} \<Longrightarrow> b + n \<le> 2 ^ 35 \<Longrightarrow>
    4 * n \<le> card (free_pages s) \<Longrightarrow>
    \<exists>s' fr'. ept_low (page_va b) n s = Inr s' \<and> vm_mem s0 s' r (G \<union> {b..<b + n}) fr' \<and> ept_pgdir s' = r
      \<and> card (free_pages s) \<le> card (free_pages s') + 4 * n"
proof (induction n arbitrary: b s G fr)
  case 0
  then show ?case by auto
next
  case (Suc n)
  have inv: "pt_inv s (ept_pgdir s)" using Suc.prems(1,2) by (simp add: vm_mem_def)
  have b: "b < 2 ^ 35" "b \<notin> G" "4 \<le> card (free_pages s)" using Suc.prems by auto
  obtain p s1 where e: "ept_add (page_va b) s = Inr s1" "new_page s s1 (ept_pgdir s) (page_va b) p 7"
    "\<And>i. i < 512 \<Longrightarrow> load64 (mem s1) (PAGE2VA p + 8 * i) = 0" "ept_pgdir s1 = ept_pgdir s"
    by (rule ept_add_maps [OF inv page_va_facts(2) [OF b(1)] b(3)]) (rule that; assumption)
  note v1 = vm_mem_step [OF Suc.prems(1) e(2) [unfolded Suc.prems(2)] e(3) b(2,1) Suc.prems(3)]
  have c: "card (free_pages s) \<le> card (free_pages s1) + 4" using e(2) by (simp add: new_page_def)
  have "insert b G \<inter> {Suc b..<Suc b + n} = {}" "Suc b + n \<le> 2 ^ 35" "4 * n \<le> card (free_pages s1)"
    "finite (insert b G)" "ept_pgdir s1 = r"
    using Suc.prems c e(4) by auto
  from Suc.IH [OF v1 this(5,4,1,2,3)] obtain s' fr' where
    s': "ept_low (page_va (Suc b)) n s1 = Inr s'" "vm_mem s0 s' r (insert b G \<union> {Suc b..<Suc b + n}) fr'"
      "ept_pgdir s' = r" "card (free_pages s1) \<le> card (free_pages s') + 4 * n" by blast
  have "insert b G \<union> {Suc b..<Suc b + n} = G \<union> {b..<b + Suc n}" by auto
  with s' e(1) c show ?case by (auto simp: page_va_next)
qed

text \<open>The second loop makes as many rounds as there are pages from \<open>b\<close> up to the size \<open>phys\<close>.\<close>

lemma ept_high_low:
  assumes "\<forall>j < n. page_va (b + j) < phys" and "\<not> page_va (b + n) < phys"
  shows "ept_high (page_va b) phys s = Some (ept_low (page_va b) n s)"
  using assms
proof (induction n arbitrary: b s)
  case 0
  then show ?case by (simp add: ept_high.simps)
next
  case (Suc n)
  have "page_va b < phys" using Suc.prems(1) by (metis add_0_right zero_less_Suc)
  moreover have "\<forall>j < n. page_va (Suc b + j) < phys" "\<not> page_va (Suc b + n) < phys"
    using Suc.prems by (metis Suc_less_eq add_Suc_shift) (use Suc.prems in simp)
  ultimately show ?case
    using Suc.IH [of "Suc b"] by (subst ept_high.simps) (simp add: page_va_next split: sum.split)
qed

definition high_pages :: "u64 \<Rightarrow> nat" where
  "high_pages phys = (unat phys - 0x218000 + 4095) div 4096"

lemma high_pages_bounds:
  assumes "phys \<le> 2 ^ 47"
  shows "\<forall>j < high_pages phys. page_va (0x218 + j) < phys" and "\<not> page_va (0x218 + high_pages phys) < phys"
    and "0x218 + high_pages phys \<le> 2 ^ 35"
proof -
  have P: "unat phys \<le> 2 ^ 47" using assms by (simp add: word_le_nat_alt)
  have hp: "Suc j * 4096 \<le> unat phys - 0x218000 + 4095" if "j < high_pages phys" for j
    using that less_eq_div_iff_mult_less_eq [of 4096 "Suc j" "unat phys - 0x218000 + 4095"]
    by (simp add: high_pages_def Suc_le_eq)
  have up: "unat phys \<le> 0x218000 + 4096 * high_pages phys"
    using dividend_less_times_div [of 4096 "unat phys - 0x218000 + 4095"] by (simp add: high_pages_def)
  have "4096 * high_pages phys \<le> unat phys - 0x218000 + 4095"
    using times_div_less_eq_dividend [of 4096 "unat phys - 0x218000 + 4095"] by (simp add: high_pages_def)
  then show b: "0x218 + high_pages phys \<le> 2 ^ 35" using P by simp
  have u: "unat (page_va (0x218 + j)) = 0x218000 + 4096 * j" if "j \<le> high_pages phys" for j
    using page_va_unat [of "0x218 + j"] that b by simp
  show "\<forall>j < high_pages phys. page_va (0x218 + j) < phys"
  proof (intro allI impI)
    fix j assume j: "j < high_pages phys"
    then have "unat (page_va (0x218 + j)) = 0x218000 + 4096 * j" by (intro u) simp
    moreover have "0x218000 + 4096 * j < unat phys" using hp [OF j] by simp
    ultimately show "page_va (0x218 + j) < phys" by (simp only: word_less_nat_alt)
  qed
  show "\<not> page_va (0x218 + high_pages phys) < phys"
    using up u [of "high_pages phys"] unfolding word_less_nat_alt by linarith
qed

text \<open>The first step of \<open>sys_alloc_vm_mem\<close>: the video page is mapped as it is.\<close>

lemma map_video_page:
  fixes s :: "('d, 'a) kvmx_scheme"
  assumes inv: "pt_inv s r" and room: "3 \<le> card (free_pages s)"
  obtains a s1 where "walk_page r 0xb8000 1 s = Inr (0, Some a, s1)"
    "insert_page r 0xb8000 (Some 0xb8) 0x47 s = Inr (0, s1\<lparr>mem := store64 (mem s1) a 0xb8047\<rparr>)"
proof -
  have "user_va 0xb8000" using page_va_facts(2) [of "0xb8"] by (simp add: page_va_def)
  from walk_steps_spec [OF inv this room] obtain a s1 where w: "walk_page r 0xb8000 1 s = Inr (0, Some a, s1)"
    using walk_page_steps [OF inv] by metis
  have "(PAGE2PA 0xb8 OR 0x47 :: u64) = 0xb8047" by (simp add: PAGE2PA_def)
  with w show thesis by (intro that [OF w]) (simp add: insert_page_def)
qed

text \<open>C13. \<open>sys_alloc_vm_mem\<close> with four free pages for each guest page (and three more): it
  returns 0, and the pages below 0xA0000 and those from 0x218000 up to \<open>phys\<close> are each mapped
  readable, writable and executable to a zeroed frame of their own, taken from the pool and counted
  once, none of them a table of the guest's address space; the page at 0xB8000 is the video memory
  itself; every other guest address keeps its entry.\<close>

theorem alloc_vm_mem_maps:
  fixes s :: "('d, 'a) kvmx_scheme"
  assumes inv: "pt_inv s (ept_pgdir s)" and phys: "phys \<le> 2 ^ 47"
    and room: "4 * (160 + high_pages phys) + 3 \<le> card (free_pages s)"
  defines "G \<equiv> {0..<160} \<union> {0x218..<0x218 + high_pages phys}"
  shows "\<exists>fr s'. sys_alloc_vm_mem phys s = Inr (0, s') \<and> pt_inv s' (ept_pgdir s) \<and> ept_pgdir s' = ept_pgdir s
    \<and> (\<forall>va. user_va va \<longrightarrow> pte_of (mem s') (ept_pgdir s) va =
         (if unat (vpn va) \<in> G then PAGE2PA (fr (unat (vpn va))) OR 7
          else if vpn va = 0xb8 then 0xb8047 else pte_of (mem s) (ept_pgdir s) va))
    \<and> inj_on fr G \<and> fr ` G \<subseteq> free_pages s - free_pages s' \<and> fr ` G \<inter> tables s' (ept_pgdir s) = {}
    \<and> (\<forall>k \<in> G. page_refs s' (fr k) = 1 \<and> (\<forall>i < 512. load64 (mem s') (PAGE2VA (fr k) + 8 * i) = 0))"
proof -
  let ?r = "ept_pgdir s"
  have room3: "3 \<le> card (free_pages s)" using room by simp
  obtain a s1 where w: "walk_page ?r 0xb8000 1 s = Inr (0, Some a, s1)"
    and i: "insert_page ?r 0xb8000 (Some 0xb8) 0x47 s = Inr (0, s1\<lparr>mem := store64 (mem s1) a 0xb8047\<rparr>)"
    by (rule map_video_page [OF inv room3])
  let ?s1 = "s1\<lparr>mem := store64 (mem s1) a 0xb8047\<rparr>"
  have vid: "user_va 0xb8000" "vpn 0xb8000 = 0xb8" using page_va_facts [of "0xb8"] by (simp_all add: page_va_def)
  obtain s2 where "insert_page ?r 0xb8000 (Some 0xb8) 0x47 s = Inr (0, s2)" "pt_inv s2 ?r"
    "\<And>va'. user_va va' \<Longrightarrow> pte_of (mem s2) ?r va' = (if vpn va' = vpn 0xb8000 then PAGE2PA 0xb8 OR 0x47 else pte_of (mem s) ?r va')"
    "free_pages s2 \<subseteq> free_pages s" "card (free_pages s) \<le> card (free_pages s2) + 3" "kmm.more s2 = kmm.more s"
    by (rule insert_page_full [OF inv vid(1) room3]) (rule that; assumption)
  with i have f: "pt_inv ?s1 ?r"
    "\<And>va'. user_va va' \<Longrightarrow> pte_of (mem ?s1) ?r va' = (if vpn va' = 0xb8 then 0xb8047 else pte_of (mem s) ?r va')"
    "free_pages ?s1 \<subseteq> free_pages s" "card (free_pages s) \<le> card (free_pages ?s1) + 3" "kmm.more ?s1 = kmm.more s"
    using vid(2) by (simp_all add: PAGE2PA_def)
  have e1: "ept_pgdir ?s1 = ?r" by (rule kvmx_more(1) [OF f(5)])
  have c: "4 * (160 + high_pages phys) \<le> card (free_pages ?s1)" using f(4) room by linarith
  have "4 * 160 \<le> card (free_pages ?s1)" using c by simp
  with ept_low_maps [OF vm_mem_start [OF f(1)] e1, where b = 0 and n = 160] obtain s3 fr where
    low: "ept_low (page_va 0) 160 ?s1 = Inr s3" "vm_mem ?s1 s3 ?r {0..<160} fr" "ept_pgdir s3 = ?r"
      "card (free_pages ?s1) \<le> card (free_pages s3) + 4 * 160" by auto
  note hb = high_pages_bounds [OF phys]
  have "{0..<160} \<inter> {0x218..<0x218 + high_pages phys} = ({} :: nat set)" by auto
  moreover have "4 * high_pages phys \<le> card (free_pages s3)" using low(4) c by simp
  ultimately obtain s4 fr' where
    high: "ept_low (page_va 0x218) (high_pages phys) s3 = Inr s4" "vm_mem ?s1 s4 ?r G fr'" "ept_pgdir s4 = ?r"
    using ept_low_maps [OF low(2,3), where b = "0x218" and n = "high_pages phys"] hb(3) unfolding G_def by auto
  have "ept_high 0x218000 phys s3 = Some (Inr s4)"
    using ept_high_low [OF hb(1,2), of s3] high(1) by (simp add: page_va_def)
  then have run: "sys_alloc_vm_mem phys s = Inr (0, s4)"
    using low(1) w by (simp add: sys_alloc_vm_mem_def VMX_EPT_PTE_FULL_def page_va_def returns_def)
  have v: "vm_mem ?s1 s4 ?r G fr'" by (rule high(2))
  have "fr' ` G \<subseteq> free_pages s - free_pages s4" using v f(3) by (auto simp: vm_mem_def)
  moreover have "\<forall>va. user_va va \<longrightarrow> pte_of (mem s4) ?r va = (if unat (vpn va) \<in> G then PAGE2PA (fr' (unat (vpn va))) OR 7
          else if vpn va = 0xb8 then 0xb8047 else pte_of (mem s) ?r va)"
    using v f(2) by (simp add: vm_mem_def)
  ultimately show ?thesis
    using run v [unfolded vm_mem_def] high(3) by (intro exI [of _ fr'] exI [of _ s4] conjI) (elim conjE, assumption)+
qed

section \<open>Witnesses\<close>

definition vm_machine :: "ready_drive kvmx" where
  "vm_machine = \<lparr>npages = npages (machine 8 2000), pages = pages (machine 8 2000), phead = phead (machine 8 2000),
     kused_mem = 0, kpgdir = PAGE2VA 0, procs_at = 0, mem = (\<lambda>a. 0), dev = small_drive, sb = 0, blk_bitmap = 0,
     ino_bitmap = 0, ino_table = 0, pcaches = pcaches cache_machine, procs = procs proc_machine, current = Some 9,
     proc_head = Some 0, filetable = [], cr3 = 0, kcon = kcon proc_machine,
     ept_pgdir = PAGE2VA 7, vmcsptr = 0, allregs = replicate 17 0, exit_reason = 0, cpu_based_exec_control = 0,
     cpu_based_2nd_exec_control = 0, cpu_ept_vpid_cap = 0, cpu_msr = (\<lambda>i. if i = 0x480 then 0x12 else 0xFFFFFFFF00000016),
     cpu_cr0 = 0, cpu_cr4 = 0, vmxon_region = 0, cur_vmcs = 0, vmcs_data = (\<lambda>a i. if i = GUEST_RIP then 0x7C00 else 0)\<rparr>"

lemma vm_machine_facts:
  "mm_inv vm_machine" "free_pages vm_machine = {8..<2000}" "pt_inv vm_machine (PAGE2VA 7)" "ept_pgdir vm_machine = PAGE2VA 7"
  "vmread GUEST_RIP vm_machine = 0x7C00"
proof -
  have e: "pages vm_machine = pages (machine 8 2000)" "phead vm_machine = phead (machine 8 2000)"
    "npages vm_machine = npages (machine 8 2000)" "mem vm_machine = (\<lambda>a. 0)"
    by (simp_all add: vm_machine_def)
  show mm: "mm_inv vm_machine" using mm_cong(1) [OF e(1-3)] machine_facts(2) [of 8 2000] by simp
  show fr: "free_pages vm_machine = {8..<2000}" using mm_cong(2) [OF e(1-3)] machine_facts(1) [of 8 2000] by simp
  have "length (pages vm_machine) = 2000" by (simp add: e machine_def)
  with mm fr e(4) show "pt_inv vm_machine (PAGE2VA 7)" by (intro pt_inv_zero) auto
  show "ept_pgdir vm_machine = PAGE2VA 7" "vmread GUEST_RIP vm_machine = 0x7C00"
    by (simp_all add: vm_machine_def vmread_def)
qed

theorem create_vcpu_witness:
  "\<exists>v ep s'. sys_create_vcpu \<lparr>host_gdt = 0, host_idt = 0, host_rsp = 0x1000, Vmx_exit = 0x2000\<rparr> vm_machine = Inr (0, s')
     \<and> {v, ep} \<subseteq> {8..<2000 :: nat} \<and> vmread HOST_RSP s' = 0x1008 \<and> vmread GUEST_RIP s' = 0x7C00
     \<and> \<not> control_ok 0xFFFFFFFF00000016 0 (vmread CPU_BASED_VM_EXEC_CONTROL s')"
proof -
  have msr: "rdmsr c vm_machine = 0xFFFFFFFF00000016" if "c \<noteq> 0x480" for c using that by (simp add: rdmsr_def vm_machine_def)
  have "cap_ok 0xFFFFFFFF00000016" by (simp add: cap_ok_def drop_bit_eq_div word_eq_iff_unsigned)
  then have caps: "\<forall>c \<in> {0x481, 0x483, 0x484, 0x48b}. cap_ok (rdmsr c vm_machine)" using msr by auto
  have room: "2 \<le> card (free_pages vm_machine)" by (simp add: vm_machine_facts)
  from create_vcpu [OF vm_machine_facts(1) room caps, of "\<lparr>host_gdt = 0, host_idt = 0, host_rsp = 0x1000, Vmx_exit = 0x2000\<rparr>"]
  obtain v ep s' where s':
    "sys_create_vcpu \<lparr>host_gdt = 0, host_idt = 0, host_rsp = 0x1000, Vmx_exit = 0x2000\<rparr> vm_machine = Inr (0, s')"
    "{v, ep} \<subseteq> free_pages vm_machine"
    "vmread HOST_RSP s' = host_rsp \<lparr>host_gdt = 0, host_idt = 0, host_rsp = 0x1000, Vmx_exit = 0x2000\<rparr> + 8"
    "vmread GUEST_RIP s' = 0x7C00"
    "\<not> fits (rdmsr 0x482 vm_machine) 0x860061f2 \<longrightarrow> (\<forall>want. \<not> control_ok (rdmsr 0x482 vm_machine) want (vmread CPU_BASED_VM_EXEC_CONTROL s'))"
    by (elim exE conjE) (rule that; assumption)
  have "\<not> fits 0xFFFFFFFF00000016 0x860061f2" by (simp add: fits_def)
  then have "\<not> control_ok 0xFFFFFFFF00000016 0 (vmread CPU_BASED_VM_EXEC_CONTROL s')" using s'(5) msr [of "0x482"] by simp
  then show ?thesis using s'(1-4) unfolding vm_machine_facts(2) by (intro exI [of _ v] exI [of _ ep] exI [of _ s']) simp
qed

theorem alloc_vm_mem_maps_witness:
  "\<exists>(fr :: nat \<Rightarrow> nat) s'. sys_alloc_vm_mem 0x300000 vm_machine = Inr (0, s') \<and> pte_of (mem s') (PAGE2VA 7) 0xb8000 = 0xb8047
     \<and> pte_of (mem s') (PAGE2VA 7) 0x7C00 = PAGE2PA (fr 7) OR 7 \<and> fr 7 \<in> {8..<2000}"
proof -
  have hp: "high_pages 0x300000 = 232" by (simp add: high_pages_def)
  have v: "user_va 0xb8000" "vpn 0xb8000 = 0xb8" using page_va_facts [of "0xb8"] by (simp_all add: page_va_def)
  have b: "vpn 0x7C00 = 7" "user_va 0x7C00"
    by (simp_all add: vpn_def user_va_def idx_def take_bit_eq_mod drop_bit_eq_div)
  have "pt_inv vm_machine (ept_pgdir vm_machine)" "0x300000 \<le> (2 ^ 47 :: u64)"
    "4 * (160 + high_pages 0x300000) + 3 \<le> card (free_pages vm_machine)"
    unfolding vm_machine_facts(2,4) hp using vm_machine_facts(3) by simp_all
  from alloc_vm_mem_maps [OF this] obtain fr s' where s': "sys_alloc_vm_mem 0x300000 vm_machine = Inr (0, s')"
    "\<forall>va. user_va va \<longrightarrow> pte_of (mem s') (PAGE2VA 7) va =
       (if unat (vpn va) \<in> {0..<160} \<union> {0x218..<0x218 + 232} then PAGE2PA (fr (unat (vpn va))) OR 7
        else if vpn va = 0xb8 then 0xb8047 else pte_of (mem vm_machine) (PAGE2VA 7) va)"
    "fr ` ({0..<160} \<union> {0x218..<0x218 + 232}) \<subseteq> {8..<2000} - free_pages s'"
    unfolding hp vm_machine_facts(2,4) by (elim exE conjE) (rule that; assumption)
  have "fr 7 \<in> fr ` ({0..<160} \<union> {0x218..<0x218 + 232})" by (intro imageI) simp
  then have "fr 7 \<in> {8..<2000}" using s'(3) by blast
  then show ?thesis using s'(1,2) v b by (intro exI [of _ fr] exI [of _ s']) simp
qed

end
