(* ===== verification/Trap.thy ===== *)
theory Trap
  imports Vmx
begin

text \<open>
  The way into the kernel: the dispatch of system calls (\<^verbatim>\<open>kernel/syscall.c\<close>), the interrupt
  descriptor table and the task-state descriptor, and the trap handler (\<^verbatim>\<open>kernel/amd64/trap.c\<close>)
  with its page faults: demand-zero pages and copy-on-write.  The handlers' addresses, CR2 and the
  environment of the processor are parameters.  A kernel activation ends by returning to the
  interrupted program (\<open>Ret\<close>), in another process (\<open>Run\<close>) or in \<open>hlt\<close> (\<open>Idle\<close>).
\<close>

section \<open>System calls\<close>

text \<open>What the system calls take from outside the kernel state.\<close>

record ('d, 's) kernel_env =
  kports :: "'d ports"
  exec_binary :: u64
  exec_junk :: kfile
  kguest :: "'s vm_guest"
  khost :: host_env

definition sys_yield :: "('d, 'a) kproc_scheme \<Rightarrow> (int, ('d, 'a) kproc_scheme) kres" where
  "sys_yield s = bindK (schedule s) (\<lambda>_ s1. Ret 0 s1)"

definition sys_tprintf :: "('d, 'a) kproc_scheme \<Rightarrow> (int, ('d, 'a) kproc_scheme) kres" where
  "sys_tprintf s =
     (case current s of
        None \<Rightarrow> Crash NullPointer
      | Some c \<Rightarrow>
          (case print (''current process pid:[%x]'' @ [CHR 0x0A]) [AWord (ucast (pid (procs s ! c)))] (kcon s) of
             Inl e \<Rightarrow> Crash e
           | Inr (n, k) \<Rightarrow> Ret 0 (s\<lparr>kcon := k\<rparr>)))"

text \<open>An argument register as the \<open>int\<close> parameter it is passed to.\<close>

definition int_arg :: "u64 \<Rightarrow> int" where
  "int_arg w = sint (ucast w :: u32)"

definition do_syscall :: "('d, ('d, 'a) kvmx_scheme) kernel_env \<Rightarrow> u32 \<Rightarrow> u64 \<Rightarrow> u64 \<Rightarrow> u64 \<Rightarrow> u64 \<Rightarrow> u64
    \<Rightarrow> ('d, 'a) kvmx_scheme \<Rightarrow> (int, ('d, 'a) kvmx_scheme) kres" where
  "do_syscall env num p0 p1 p2 p3 p4 s =
     (if num = 5 then liftK (sys_open (kports env) p0 s)
      else if num = 3 then liftK (sys_read (kports env) (int_arg p0) p1 (ucast p2) s)
      else if num = 4 then liftK (sys_write (kports env) (int_arg p0) p1 (ucast p2) s)
      else if num = 2 then liftK (sys_fork s)
      else if num = 11 then sys_yield s
      else if num = 1 then sys_exit s
      else if num = 8 then sys_execve (kports env) (exec_binary env) (exec_junk env) p0 s
      else if num = 7 then sys_waitpid (int_arg p0) s
      else if num = 9 then liftK (sys_lseek (int_arg p0) (int_arg p1) (int_arg p2) s)
      else if num = 105 then sys_tprintf s
      else if num = 100 then liftK (sys_opencons s)
      else if num = 101 then liftK (sys_alloc_vm_mem p0 s)
      else if num = 102 then liftK (sys_create_vcpu (khost env) s)
      else if num = 103 then liftK (sys_run_vm (kguest env) s)
      else if num = 104 then liftK (sys_mmap_mem p0 p1 p2 (int_arg p3) s)
      else Ret 0 s)"

section \<open>Descriptors\<close>

record gdt_desc =
  limit0 :: u16
  base0 :: u16
  base1 :: u8
  gtype :: u8
  limit1 :: u8
  base2 :: u8
  base3 :: u32
  reserved_zero :: u32

record idt_desc =
  offset0 :: u16
  selector :: u16
  reserve :: u8
  itype :: u8
  offset1 :: u16
  offset2 :: u32
  reserved_ign :: u32

definition set_tss_desc :: "u64 \<Rightarrow> u32 \<Rightarrow> u8 \<Rightarrow> gdt_desc" where
  "set_tss_desc addr limit type =
     \<lparr>limit0 = ucast (limit AND 0xffff), base0 = ucast (addr AND 0xffff),
      base1 = ucast (drop_bit 16 addr AND 0xff), gtype = type, limit1 = 0,
      base2 = ucast (drop_bit 24 addr AND 0xff), base3 = ucast (drop_bit 32 addr), reserved_zero = 0\<rparr>"

definition idt_entry :: "u64 \<Rightarrow> u8 \<Rightarrow> idt_desc" where
  "idt_entry addr type =
     \<lparr>offset0 = ucast (addr AND 0xffff), selector = 0x08, reserve = 0, itype = type,
      offset1 = ucast (drop_bit 16 addr AND 0xffff), offset2 = ucast (drop_bit 32 addr), reserved_ign = 0\<rparr>"

definition set_idt_desc :: "u8 \<Rightarrow> u64 \<Rightarrow> u8 \<Rightarrow> (u8 \<Rightarrow> idt_desc) \<Rightarrow> u8 \<Rightarrow> idt_desc" where
  "set_idt_desc idtno addr type idt = idt(idtno := idt_entry addr type)"

text \<open>The processor's tables: the TSS entry of the GDT (at 0x28), the IDT and the task register.\<close>

record cpu_tables =
  tss_desc :: gdt_desc
  idt_table :: "u8 \<Rightarrow> idt_desc"
  task_register :: u16

definition init_cpu :: "u64 \<Rightarrow> cpu_tables \<Rightarrow> cpu_tables" where
  "init_cpu tss t = t\<lparr>tss_desc := set_tss_desc tss 104 0x89, task_register := 0x28\<rparr>"

text \<open>\<open>handler\<close> gives the address of the assembly stub of a vector.\<close>

definition init_trap :: "u64 \<Rightarrow> (u8 \<Rightarrow> u64) \<Rightarrow> cpu_tables \<Rightarrow> cpu_tables" where
  "init_trap tss handler t =
     (let gate = (\<lambda>(n, ty). set_idt_desc n (handler n) ty);
          t1 = t\<lparr>idt_table := fold gate
            [(0, 0x8F), (1, 0x8F), (3, 0xEF), (4, 0xEF), (5, 0xEF), (6, 0xEF), (7, 0xEF), (8, 0xEF), (9, 0xEF),
             (10, 0xEF), (11, 0xEF), (12, 0xEF), (13, 0xEF), (14, 0xEF), (16, 0xEF), (20, 0xEE)] (idt_table t)\<rparr>;
          t2 = init_cpu tss t1
      in t2\<lparr>idt_table := fold gate [(32, 0x8E), (32 + 1, 0x8E)] (idt_table t2)\<rparr>)"

section \<open>Traps\<close>

text \<open>
  The register dumps \<open>print_regs\<close> and, in \<^verbatim>\<open>kernel/proc.c\<close>, \<open>print_regs1\<close>; no call of them is compiled.
\<close>

fun print_lines :: "(string \<times> u64) list \<Rightarrow> con \<Rightarrow> con outcome" where
  "print_lines [] k = Inr k"
| "print_lines ((name, v) # ls) k =
     bindE (print (name @ ''%lx'' @ [CHR 0x0A]) [AWord v] k) (\<lambda>(n, k1). print_lines ls k1)"

definition print_dump :: "(string \<times> u64) list \<Rightarrow> con \<Rightarrow> con outcome" where
  "print_dump ls k =
     bindE (print (''==========pt_reg begin============'' @ [CHR 0x0A]) [] k) (\<lambda>(n, k1).
     bindE (print_lines ls k1) (\<lambda>k2.
     bindE (print (''==========pt_reg end ============'' @ [CHR 0x0A]) [] k2) (\<lambda>(n, k3). Inr k3)))"

definition print_regs :: "pt_regs \<Rightarrow> con \<Rightarrow> con outcome" where
  "print_regs pt = print_dump
     [(''r15     '', r15 pt), (''r14     '', r14 pt), (''r13     '', r13 pt), (''r12     '', r12 pt), (''rbp     '', rbp pt),
      (''rbx     '', rbx pt), (''r11     '', r11 pt), (''r10     '', r10 pt), (''r9      '', r9 pt), (''r8      '', r8 pt),
      (''rax     '', rax pt), (''rcx     '', rcx pt), (''rdx     '', rdx pt), (''rsi     '', rsi pt), (''rdi     '', rdi pt),
      (''trapno  '', trapnum pt), (''errcode '', err_code pt), (''eip     '', rip pt), (''cs      '', cs_sel pt),
      (''eflags  '', eflags pt), (''esp     '', rsp pt), (''ss      '', ss_sel pt)]"

definition print_regs1 :: "pt_regs \<Rightarrow> con \<Rightarrow> con outcome" where
  "print_regs1 pt = print_dump
     [(''r15     '', r15 pt), (''r14     '', r14 pt), (''r13     '', r13 pt), (''r12     '', r12 pt), (''rbp     '', rbp pt),
      (''rbx     '', rbx pt), (''r11     '', r11 pt), (''r10     '', r10 pt), (''r9      '', r9 pt), (''r8      '', r8 pt),
      (''rax     '', rax pt), (''rcx     '', rcx pt), (''rdx     '', rdx pt), (''rsi     '', rsi pt), (''rdi     '', rdi pt),
      (''trapno  '', trapnum pt), (''errcode '', err_code pt), (''eip     '', rip pt), (''cs      '', cs_sel pt),
      (''eflags  '', eflags pt), (''rsp     '', rsp pt), (''ss      '', ss_sel pt)]"

text \<open>A page fault at \<open>cr2\<close>, already rounded down to its page.\<close>

definition user_fault :: "u64 \<Rightarrow> u64 \<Rightarrow> ('d, 'a) kproc_scheme \<Rightarrow> ('d, 'a) kproc_scheme outcome" where
  "user_fault err va s =
     (if err AND 0x1 = 0 then
        (case current s of
           None \<Rightarrow> Inl NullPointer
         | Some c \<Rightarrow>
             (case alloc_page 1 s of (pg, s1) \<Rightarrow>
              bindE (insert_page (pgdir (procs s1 ! c)) va pg (PTE_U OR PTE_P OR PTE_W) s1) (\<lambda>(r, s2). Inr s2)))
      else if err AND 0x2 \<noteq> 0 then
        (case alloc_page 1 s of
           (None, s1) \<Rightarrow> Inl NullPointer
         | (Some pg, s1) \<Rightarrow>
             bindE (vmemcpy (cpu_root s1) (PAGE2VA pg) va 4096 (mem s1)) (\<lambda>m.
             case current s1 of
               None \<Rightarrow> Inl NullPointer
             | Some c \<Rightarrow>
                 bindE (remove_page (pgdir (procs s1 ! c)) va (s1\<lparr>mem := m\<rparr>)) (\<lambda>(r, s2).
                 bindE (insert_page (pgdir (procs s2 ! c)) va (Some pg) (PTE_U OR PTE_P OR PTE_W) s2) (\<lambda>(r2, s3).
                 Inr s3))))
      else Inr s)"

definition page_fault :: "u64 \<Rightarrow> pt_regs \<Rightarrow> ('d, 'a) kproc_scheme \<Rightarrow> (pt_regs, ('d, 'a) kproc_scheme) kres" where
  "page_fault cr2 pt s =
     (if err_code pt AND 0x4 = 0 then
        (case panic (''page fault in kernel'' @ [CHR 0x0A]) (kcon s) of
           Inl e \<Rightarrow> Crash e
         | Inr k \<Rightarrow> Idle (s\<lparr>kcon := k\<rparr>))
      else (case user_fault (err_code pt) (cr2 div 4096 * 4096) s of
              Inl e \<Rightarrow> Crash e | Inr s1 \<Rightarrow> Ret pt s1))"

definition do_trap :: "('d, ('d, 'a) kvmx_scheme) kernel_env \<Rightarrow> u64 \<Rightarrow> pt_regs \<Rightarrow> ('d, 'a) kvmx_scheme
    \<Rightarrow> (pt_regs, ('d, 'a) kvmx_scheme) kres" where
  "do_trap env cr2 pt s =
     (let trapno = (ucast (trapnum pt) :: u32);
          s1 = (case current s of None \<Rightarrow> s | Some c \<Rightarrow> upd_proc c (\<lambda>p. p\<lparr>pregs := pt\<rparr>) s)
      in if trapno = 0x20 then bindK (schedule s1) (\<lambda>_ s2. Ret pt s2)
         else if trapno = 0x21 then
           (case kbd_handler (kports env) (dev s1) (kcon s1) of
              None \<Rightarrow> Crash Hang
            | Some (Inl e) \<Rightarrow> Crash e
            | Some (Inr (k, d)) \<Rightarrow> Ret pt (s1\<lparr>kcon := k, dev := d\<rparr>))
         else if trapno = 14 then page_fault cr2 pt s1
         else if trapno = 20 then
           bindK (do_syscall env (ucast (rax pt)) (rbx pt) (rcx pt) (rdx pt) (rsi pt) (rdi pt) s1) (\<lambda>r s2.
             Ret (pt\<lparr>rax := word_of_int r\<rparr>) s2)
         else Idle s1)"

section \<open>The descriptors as the processor reads them\<close>

definition gate_addr :: "idt_desc \<Rightarrow> u64" where
  "gate_addr d = ucast (offset0 d) OR push_bit 16 (ucast (offset1 d)) OR push_bit 32 (ucast (offset2 d))"

definition gate_dpl :: "idt_desc \<Rightarrow> nat" where
  "gate_dpl d = unat (itype d) div 32 mod 4"

definition tss_base :: "gdt_desc \<Rightarrow> u64" where
  "tss_base d = ucast (base0 d) OR push_bit 16 (ucast (base1 d)) OR push_bit 24 (ucast (base2 d)) OR push_bit 32 (ucast (base3 d))"

lemma low16: "(0xffff :: u64) = mask 16" and low8: "(0xff :: u64) = mask 8"
  by (simp_all add: mask_eq_exp_minus_1)

lemma gate_addr_entry: "gate_addr (idt_entry a ty) = a"
  unfolding gate_addr_def idt_entry_def low16 idt_desc.select_convs
proof (rule bit_word_eqI)
  fix n assume n: "n < LENGTH(64)"
  consider "n < 16" | "16 \<le> n" "n < 32" | "32 \<le> n" by linarith
  then show "bit (ucast (ucast (a AND mask 16) :: u16) OR push_bit 16 (ucast (ucast (drop_bit 16 a AND mask 16) :: u16))
      OR push_bit 32 (ucast (ucast (drop_bit 32 a) :: u32)) :: u64) n = bit a n"
    by cases (use n in \<open>auto simp: bit_simps\<close>)
qed

lemma tss_base_desc: "tss_base (set_tss_desc a l ty) = a"
  unfolding tss_base_def set_tss_desc_def low16 low8 gdt_desc.select_convs
proof (rule bit_word_eqI)
  fix n assume n: "n < LENGTH(64)"
  consider "n < 16" | "16 \<le> n" "n < 24" | "24 \<le> n" "n < 32" | "32 \<le> n" by linarith
  then show "bit (ucast (ucast (a AND mask 16) :: u16) OR push_bit 16 (ucast (ucast (drop_bit 16 a AND mask 8) :: u8))
      OR push_bit 24 (ucast (ucast (drop_bit 24 a AND mask 8) :: u8)) OR push_bit 32 (ucast (ucast (drop_bit 32 a) :: u32)) :: u64) n = bit a n"
    by cases (use n in \<open>auto simp: bit_simps\<close>)
qed

text \<open>The vectors \<open>init_trap\<close> sets, with the type and privilege bytes of their gates.\<close>

definition gate_types :: "(u8 \<times> u8) list" where
  "gate_types =
     [(0, 0x8F), (1, 0x8F), (3, 0xEF), (4, 0xEF), (5, 0xEF), (6, 0xEF), (7, 0xEF), (8, 0xEF), (9, 0xEF),
      (10, 0xEF), (11, 0xEF), (12, 0xEF), (13, 0xEF), (14, 0xEF), (16, 0xEF), (20, 0xEE), (32, 0x8E), (33, 0x8E)]"

definition trap_vectors :: "u8 set" where
  "trap_vectors = {0, 1, 3, 4, 5, 6, 7, 8, 9, 10, 11, 12, 13, 14, 16, 20, 32, 33}"

text \<open>
  A format of gates, of which the processor reads the address of the handler, the code segment and the byte with
  present bit, privilege level and kind; and a table filled with the gates of \<open>init_trap\<close>.
\<close>

locale gate_format =
  fixes entry :: "'a \<Rightarrow> u8 \<Rightarrow> 'd" and address :: "'d \<Rightarrow> 'a" and attributes :: "'d \<Rightarrow> u8" and segment :: "'d \<Rightarrow> u16"
  assumes address_entry: "address (entry a ty) = a"
    and attributes_entry: "attributes (entry a ty) = ty"
    and segment_entry: "segment (entry a ty) = 8"
begin

lemma fold_gates:
  "fold (\<lambda>(n, ty) idt. idt(n := entry (h n) ty)) xs f n = (case map_of (rev xs) n of Some ty \<Rightarrow> entry (h n) ty | None \<Rightarrow> f n)"
  by (induction xs arbitrary: f) (auto simp: map_add_def split: option.splits)

lemma trap_gates:
  assumes "idt = fold (\<lambda>(n, ty) idt. idt(n := entry (h n) ty)) gate_types f"
  shows "if n \<in> trap_vectors
       then address (idt n) = h n \<and> segment (idt n) = 8 \<and> 0x80 \<le> attributes (idt n)
         \<and> unat (attributes (idt n)) div 32 mod 4 = (if n \<in> {0, 1, 32, 33} then 0 else 3)
         \<and> attributes (idt n) AND 0xF = (if n \<in> {20, 32, 33} then 14 else 15)
       else idt n = f n"
proof (cases "map_of (rev gate_types) n")
  case None
  then have "n \<notin> fst ` set gate_types" by (simp add: map_of_eq_None_iff)
  then have "n \<notin> trap_vectors" by (auto simp: gate_types_def trap_vectors_def)
  then show ?thesis using None by (simp add: assms fold_gates)
next
  case (Some ty)
  have "\<forall>(n, ty) \<in> set gate_types. n \<in> trap_vectors \<and> 0x80 \<le> ty \<and> unat ty div 32 mod 4 = (if n \<in> {0, 1, 32, 33} then 0 else 3)
      \<and> ty AND 0xF = (if n \<in> {20, 32, 33} then 14 else 15)"
    by (simp add: gate_types_def trap_vectors_def)
  then have "n \<in> trap_vectors \<and> 0x80 \<le> ty \<and> unat ty div 32 mod 4 = (if n \<in> {0, 1, 32, 33} then 0 else 3)
      \<and> ty AND 0xF = (if n \<in> {20, 32, 33} then 14 else 15)"
    using map_of_SomeD [OF Some] by fastforce
  moreover have "idt n = entry (h n) ty" unfolding assms fold_gates Some option.case ..
  ultimately show ?thesis by (simp add: address_entry attributes_entry segment_entry)
qed

end

interpretation gates64: gate_format idt_entry gate_addr itype selector
  by unfold_locales (simp_all add: gate_addr_entry, simp_all add: idt_entry_def)

lemma init_trap_table:
  "idt_table (init_trap tss h t) = fold (\<lambda>(n, ty) idt. idt(n := idt_entry (h n) ty)) gate_types (idt_table t)"
  "tss_desc (init_trap tss h t) = set_tss_desc tss 104 0x89" "task_register (init_trap tss h t) = 0x28"
  by (simp_all add: init_trap_def init_cpu_def gate_types_def set_idt_desc_def Let_def)

text \<open>C24. \<open>init_trap\<close> as the processor sees it: for the eighteen vectors it sets, the gate holds the
  handler's whole 64-bit address (its three parts joined as the hardware joins them), the kernel code
  segment, the present bit and the privilege level (3 for the exceptions from 3 on and for the system
  call, 0 for vectors 0 and 1 and for the two interrupts) and is an interrupt gate for the system call
  and the interrupts, a trap gate else; all other vectors stay; and the TSS descriptor
  holds the TSS address.\<close>

theorem init_trap_gates:
  "let t' = init_trap tss handler t; d = idt_table t' n
   in (if n \<in> trap_vectors
       then gate_addr d = handler n \<and> selector d = 8 \<and> 0x80 \<le> itype d
         \<and> gate_dpl d = (if n \<in> {0, 1, 32, 33} then 0 else 3)
         \<and> itype d AND 0xF = (if n \<in> {20, 32, 33} then 14 else 15)
       else d = idt_table t n)
     \<and> tss_base (tss_desc t') = tss \<and> limit0 (tss_desc t') = 104 \<and> task_register t' = 0x28"
proof -
  have tss: "tss_base (tss_desc (init_trap tss handler t)) = tss" "limit0 (tss_desc (init_trap tss handler t)) = 104"
    "task_register (init_trap tss handler t) = 0x28"
    by (simp_all add: init_trap_table(2,3) tss_base_desc) (simp add: set_tss_desc_def)
  show ?thesis
    unfolding Let_def gate_dpl_def by (intro conjI gates64.trap_gates [OF init_trap_table(1)] tss)
qed

end
