(* ===== verification/Fault.thy ===== *)
theory Fault
  imports Trap
begin

text \<open>
  What a page fault of a user program does, \<^verbatim>\<open>page_fault\<close> of \<^verbatim>\<open>kernel/amd64/trap.c\<close>, as a
  change of the current address space: a write to a copy-on-write page gets a private copy of the
  page, an access to an absent page gets a zeroed page.
\<close>

section \<open>Copy-on-write faults\<close>

lemma table_of_frame: "table_of e = PAGE2VA (frame_of e)"
  by (simp add: table_of_def KPA2VA_def PAGE2VA_def PAGE2PA_frame add.commute)

lemma pte_of_page: "vpn va = vpn va' \<Longrightarrow> pte_of m r va = pte_of m r va'"
  by (simp only: vpn_eq_iff pte_of_def pte_addr_def)

lemma pte_present:
  assumes "pte_of m r va = e" and "e AND 1 \<noteq> 0"
  obtains a where "pte_addr m r va = Some a" and "load64 m a = e"
  using assms by (cases "pte_addr m r va") (auto simp: pte_of_def)

text \<open>Copying the page at a mapped user address to a page that no table uses.\<close>

lemma copy_user_page:
  assumes inv: "pt_inv s r" and k: "k < 2 ^ 35"
    and e: "pte_of (mem s) r (page_va k) = e" "e AND 1 \<noteq> 0"
    and p: "p < 2 ^ 18" "p \<notin> tables s r" and f: "frame_of e < 2 ^ 18" "frame_of e \<noteq> p"
  shows "vmemcpy r (PAGE2VA p) (page_va k) 4096 (mem s) = Inr (memcpy (mem s) (PAGE2VA p) (PAGE2VA (frame_of e)) 4096)"
proof -
  define P where "P m \<longleftrightarrow> (\<forall>g i. g \<in> tables s r \<longrightarrow> i < 512 \<longrightarrow>
      load64 m (PAGE2VA g + 8 * i) = load64 (mem s) (PAGE2VA g + 8 * i))" for m
  have len: "length (pages s) \<le> 2 ^ 18" using pt_inv_mm [OF inv] by (simp add: mm_inv_def)
  have u: "unat (4096 :: u32) = 4096" by simp
  show ?thesis
  proof (rule vmemcpy_translated [where P = P], unfold u)
    fix m and i :: nat assume P: "P m" and i: "i < 4096"
    have "KBASE \<le> PAGE2VA p + of_nat i" using p(1) i by (rule kernel_page_byte)
    then show "mmu m r (PAGE2VA p + of_nat i) = Some (PAGE2VA p + of_nat i)" by (rule mmu_kernel)
    note v = page_va_inside [OF k i]
    have "pte_of m r (page_va k + of_nat i) = pte_of (mem s) r (page_va k + of_nat i)"
      using P v(2) by (intro pt_frame(2) [OF inv]) (simp_all add: P_def)
    also have "\<dots> = e"
      using e(1) v(1) page_va_facts(1) [OF k] pte_of_page by metis
    finally show "mmu m r (page_va k + of_nat i) = Some (PAGE2VA (frame_of e) + of_nat i)"
      using mmu_user [of m r "page_va k + of_nat i" e] e(2) v(3,4) by (simp add: table_of_frame)
    show "P (m(PAGE2VA p + of_nat i := b))" for b
      unfolding P_def
    proof (intro allI impI)
      fix g j assume g: "g \<in> tables s r" and j: "j < (512 :: u64)"
      have "g < 2 ^ 18" "g \<noteq> p" using g len p(2) by (auto simp: tables_def)
      then show "load64 (m(PAGE2VA p + of_nat i := b)) (PAGE2VA g + 8 * j) = load64 (mem s) (PAGE2VA g + 8 * j)"
        using load64_byte_disj [of g p i j m b] p(1) i j P g by (simp add: P_def)
    qed
  qed (simp add: P_def)
qed

lemma kproc_more:
  fixes s s' :: "('d, 'a) kproc_scheme"
  assumes "kmm.more s' = kmm.more s"
  shows "current s' = current s" "procs s' = procs s" "cpu_root s' = cpu_root s"
  using assms by (cases s; cases s'; simp add: cpu_root_def)+

lemma fault_flags: "PTE_U OR PTE_P OR PTE_W = 7"
  by (simp add: PTE_U_def PTE_P_def PTE_W_def)

lemma cow_copies:
  fixes s :: "('d, 'a) kproc_scheme"
  assumes inv: "pt_inv s r" and k: "k < 2 ^ 35"
    and e: "pte_of (mem s) r (page_va k) = e" "e AND 1 \<noteq> 0" and nt: "frame_of e \<notin> tables s r"
    and refs: "0 < page_refs s (frame_of e)" and ne: "free_pages s \<noteq> {}"
    and cpu: "current s = Some c" "pgdir (procs s ! c) = r" "cpu_root s = r"
    and err: "err AND 1 \<noteq> 0" "err AND 2 \<noteq> 0"
  shows "\<exists>p s'. user_fault err (page_va k) s = Inr s' \<and> p \<in> free_pages s \<and> pt_inv s' r
    \<and> (\<forall>va. user_va va \<longrightarrow> pte_of (mem s') r va = (if vpn va = of_nat k then PAGE2PA p OR 7 else pte_of (mem s) r va))
    \<and> page_bytes (mem s') p = page_bytes (mem s) (frame_of e)
    \<and> page_bytes (mem s') (frame_of e) = page_bytes (mem s) (frame_of e)
    \<and> page_refs s' = (page_refs s)(p := 1, frame_of e := page_refs s (frame_of e) - 1)
    \<and> tables s' r = tables s r \<and> keeps (mem s) (mem s') (insert p (tables s r))
    \<and> (confined (mem s) r \<longrightarrow> confined (mem s') r)
    \<and> length (pages s') = length (pages s) \<and> kmm.more s' = kmm.more s \<and> kpgdir s' = kpgdir s"
proof -
  let ?f = "frame_of e"
  note mm = pt_inv_mm [OF inv]
  obtain p s1 where al: "alloc_page 1 s = (Some p, s1)" using mm.alloc_succeeds [OF mm ne] by blast
  note a = alloc_page_Some [OF mm al] and b = alloc_page_space [OF inv al]
  have len: "length (pages s) \<le> 2 ^ 18" using mm by (simp add: mm_inv_def)
  have f: "?f < 2 ^ 18" "?f \<noteq> p"
    using refs len a(1) by (auto simp: page_refs_def free_pages_def split: if_splits)
  have va: "user_va (page_va k)" "vpn (page_va k) = of_nat k" using page_va_facts [OF k] by simp_all
  have e1: "pte_of (mem s1) r (page_va k) = e" using b(5) [OF va(1)] e(1) by simp
  let ?m = "memcpy (mem s1) (PAGE2VA p) (PAGE2VA ?f) 4096"
  have cp: "vmemcpy r (PAGE2VA p) (page_va k) 4096 (mem s1) = Inr ?m"
    using b f by (intro copy_user_page [OF b(1) k e1 e(2)]) simp_all
  let ?s2 = "s1\<lparr>mem := ?m\<rparr>"
  have tab: "g < 2 ^ 18" "g \<noteq> p" if "g \<in> tables s1 r" for g
    using that b(3) len unfolding b(2) by (auto simp: tables_def)
  have look: "load64 ?m (PAGE2VA g + 8 * i) = load64 (mem s1) (PAGE2VA g + 8 * i)" if "g \<in> tables s1 r" "i < 512" for g i
    by (rule memcpy_page(2) [OF f(1) b(4) f(2) that(2) tab [OF that(1)]])
  have nodes: "node (mem ?s2) r js = node (mem s1) r js" if "upath js" for js
    using pt_frame(1) [OF b(1) _ that, of ?m] look by simp
  have inv2: "pt_inv ?s2 r" "tables ?s2 r = tables s1 r"
    using pt_inv_cong [OF b(1) nodes] pt_inv_mm [OF b(1)] tables_not_free [OF b(1)] by simp_all
  have pte2: "pte_of ?m r v = pte_of (mem s) r v" if "user_va v" for v
    using pt_frame(2) [OF b(1) _ that, of ?m] look b(5) [OF that] by simp
  have e2: "pte_of ?m r (page_va k) = e" using pte2 [OF va(1)] e(1) by simp
  obtain ad where ad: "pte_addr ?m r (page_va k) = Some ad" and ld: "load64 ?m ad = e"
    by (rule pte_present [OF e2 e(2)])
  have ad': "pte_addr (mem ?s2) r (page_va k) = Some ad" using ad by simp
  obtain t where t: "t \<in> tables ?s2 r" "t < 2 ^ 18" "ad = PAGE2VA t + 8 * idx 12 (page_va k)"
    by (rule leaf_page [OF inv2(1) va(1) ad'])
  have refs2: "0 < page_refs ?s2 ?f"
    using refs f(2) page_refs_alloc [OF mm al] by simp
  let ?s3 = "(free_page (Some ?f) ?s2)\<lparr>mem := store64 (mem ?s2) ad 0\<rparr>"
  have ld': "load64 (mem ?s2) ad = e" using ld by simp
  have nt2: "?f \<notin> tables ?s2 r" using nt b(2) inv2(2) by simp
  note rem = remove_page_full [OF inv2(1) va(1) ad', unfolded ld', OF e(2) frame_of_def refs2 nt2]
  let ?s4 = "?s3\<lparr>mem := store64 (mem ?s3) ad (PAGE2PA p OR 7)\<rparr>"
  have ins: "insert_page r (page_va k) (Some p) 7 ?s3 = Inr (0, ?s4)"
    by (rule insert_page_present [OF rem(2,7)])
  note m1 = kproc_more [OF a(9)]
  have m3: "procs ?s3 = procs s" "current ?s3 = current s" using kproc_more [OF rem(8)] m1 by simp_all
  have run: "user_fault err (page_va k) s = Inr ?s4"
    using err cp rem(1) ins al cpu m1 m3 by (simp add: user_fault_def fault_flags)
  have pte: "pte_of (mem ?s4) r v = (if vpn v = of_nat k then PAGE2PA p OR 7 else pte_of (mem s) r v)"
    if "user_va v" for v
    using pte_leaf_store [OF rem(2) va(1) rem(7) that, of "PAGE2PA p OR 7"] rem(4) [OF that] pte2 [OF that] va(2) by simp
  have tp: "t \<noteq> p" "t \<noteq> ?f" using t(1) inv2(2) b(2,3) nt by auto
  have bytes: "page_bytes (mem ?s4) g = page_bytes ?m g" if "g < 2 ^ 18" "g \<noteq> t" for g
    using that t(2) by (simp add: t(3) page_bytes_entry)
  have f1: "page_bytes (mem s1) ?f = page_bytes (mem s) ?f"
    using f b(4) by (simp add: a(6) page_bytes_other)
  have "page_bytes (mem ?s4) p = page_bytes (mem s) ?f" "page_bytes (mem ?s4) ?f = page_bytes (mem s) ?f"
    using bytes [OF b(4) tp(1) [symmetric]] bytes [OF f(1) tp(2) [symmetric]]
      page_bytes_memcpy(1) [OF f(1) b(4) f(2)] page_bytes_memcpy(2) [OF f(1) b(4) f(2) f(1,2)] f1
    by simp_all
  moreover have "page_refs ?s4 = (page_refs s)(p := 1, ?f := page_refs s ?f - 1)"
    using rem(5) f(2) page_refs_alloc [OF mm al] by simp
  moreover have "pt_inv ?s4 r" by (rule pt_inv_leaf_store(1) [OF rem(2) va(1) rem(7)])
  moreover have tab4: "tables ?s4 r = tables s r"
    using pt_inv_leaf_store(2) [OF rem(2) va(1) rem(7)] rem(3) inv2(2) b(2) by simp
  moreover have "keeps (mem s) (mem ?s4) (insert p (tables s r))"
  proof -
    have "keeps (mem s) ?m {p}"
      unfolding keeps_def using b(4,6) f by (simp add: memcpy_page(2))
    moreover have "keeps ?m (mem ?s3) (tables s r)"
      using keeps_leaf [OF inv2(1) va(1) ad', of 0] inv2(2) b(2) by simp
    moreover have "keeps (mem ?s3) (mem ?s4) (tables s r)"
      using keeps_leaf [OF rem(2) va(1) rem(7), of "PAGE2PA p OR 7"] rem(3) inv2(2) b(2) by simp
    ultimately have "keeps (mem s) (mem ?s3) (insert p (tables s r))" "keeps (mem ?s3) (mem ?s4) (insert p (tables s r))"
      by (blast intro: keeps_trans keeps_mono)+
    then show ?thesis by (rule keeps_trans) simp_all
  qed
  moreover have "confined (mem ?s4) r" if conf: "confined (mem s) r"
  proof -
    have "keeps (mem s) (mem ?s2) {p}" unfolding keeps_def using b(4,6) f by (simp add: memcpy_page(2))
    then have "confined (mem ?s2) r"
      using space_kept(4) [OF inv, of ?s2 "{p}"] a b(2,3) pt_inv_mm [OF inv2(1)] tables_not_free [OF inv] conf by auto
    then have "confined (mem ?s3) r" using confined_leaf [OF inv2(1) va(1) ad', of 0] by simp
    then show ?thesis using confined_leaf [OF rem(2) va(1) rem(7), of "PAGE2PA p OR 7"] by simp
  qed
  moreover have "length (pages ?s4) = length (pages s)" "kpgdir ?s4 = kpgdir s" "kmm.more ?s4 = kmm.more s"
    using a rem(8) by (simp_all add: free_page_def Let_def)
  ultimately show ?thesis using run a(1) pte by (intro exI [of _ p] exI [of _ ?s4] conjI) blast+
qed

lemma space_cong:
  assumes "pages s = pages t" "phead s = phead t" "npages s = npages t" "mem s = mem t"
  shows "pt_inv s r = pt_inv t r" "tables s r = tables t r"
  using mm_cong [OF assms(1-3)] assms by (simp_all add: pt_inv_def tables_def)

lemma upd_proc_mm [simp]:
  "mm_inv (upd_proc c f s) = mm_inv s" "free_pages (upd_proc c f s) = free_pages s"
  "page_refs (upd_proc c f s) = page_refs s" "pt_inv (upd_proc c f s) r = pt_inv s r"
  "tables (upd_proc c f s) r = tables s r" "mem (upd_proc c f s) = mem s"
  "current (upd_proc c f s) = current s" "cpu_root (upd_proc c f s) = cpu_root s"
  by (rule mm_cong space_cong; simp add: upd_proc_def cpu_root_def; fail | simp add: upd_proc_def cpu_root_def; fail)+

lemma saved_regs_pgdir: "pgdir (procs (upd_proc c (\<lambda>p. p\<lparr>pregs := pt\<rparr>) s) ! d) = pgdir (procs s ! d)"
  by (cases "d = c \<and> c < length (procs s)") (auto simp: upd_proc_def nth_list_update list_update_beyond not_less)

lemma do_trap_page_fault:
  assumes "trapnum pt = 14" and "current s = Some c" and "err_code pt AND 4 \<noteq> 0"
    and "user_fault (err_code pt) (cr2 div 4096 * 4096) (upd_proc c (\<lambda>p. p\<lparr>pregs := pt\<rparr>) s) = Inr s'"
  shows "do_trap env cr2 pt s = Ret pt s'"
  using assms by (simp add: do_trap_def page_fault_def Let_def)

text \<open>C4. Copy on write.  A user program that writes to a present page of its own which the
  processor reports as protected: the trap handler returns to the same instruction, and in the
  current address space exactly the entry of that page has changed: it maps, writable, a page from
  the pool, whose 4096 bytes are those of the page mapped before; the old page keeps its contents
  and loses one reference, the new one has one, and all other counts stay.  (The contents claim is
  about the frames, so the fork partner that still maps the old frame is undisturbed.)\<close>

theorem cow_fault:
  fixes s :: "('d, 'a) kvmx_scheme"
  assumes pt: "trapnum pt = 14" "err_code pt AND 1 \<noteq> 0" "err_code pt AND 2 \<noteq> 0" "err_code pt AND 4 \<noteq> 0"
    and cpu: "current s = Some c" "pgdir (procs s ! c) = r" "cpu_root s = r" and inv: "pt_inv s r"
    and va: "cr2 div 4096 * 4096 = page_va k" "k < 2 ^ 35"
    and e: "pte_of (mem s) r (page_va k) = e" "e AND 1 \<noteq> 0" "frame_of e \<notin> tables s r" "0 < page_refs s (frame_of e)"
    and ne: "free_pages s \<noteq> {}"
  shows "\<exists>p s'. do_trap env cr2 pt s = Ret pt s' \<and> p \<in> free_pages s \<and> pt_inv s' r
    \<and> (\<forall>va. user_va va \<longrightarrow> pte_of (mem s') r va = (if vpn va = of_nat k then PAGE2PA p OR 7 else pte_of (mem s) r va))
    \<and> page_bytes (mem s') p = page_bytes (mem s) (frame_of e)
    \<and> page_bytes (mem s') (frame_of e) = page_bytes (mem s) (frame_of e)
    \<and> page_refs s' = (page_refs s)(p := 1, frame_of e := page_refs s (frame_of e) - 1)"
proof -
  let ?s = "upd_proc c (\<lambda>p. p\<lparr>pregs := pt\<rparr>) s"
  have "pt_inv ?s r" "pte_of (mem ?s) r (page_va k) = e" "frame_of e \<notin> tables ?s r" "0 < page_refs ?s (frame_of e)"
    "free_pages ?s \<noteq> {}" "current ?s = Some c" "pgdir (procs ?s ! c) = r" "cpu_root ?s = r"
    using assms by (simp_all add: saved_regs_pgdir)
  from cow_copies [OF this(1) va(2) this(2) e(2) this(3,4,5,6,7,8) pt(2,3)]
  show ?thesis
    using do_trap_page_fault [OF pt(1) cpu(1) pt(4), of cr2, unfolded va(1)] by auto
qed

text \<open>C18. Demand paging.  An access of a user program to an absent page, with four pages in the
  pool: the handler returns to the same instruction, the page is mapped, writable, to a zeroed page
  taken from the pool with count 1, and every other user address keeps its entry (\<open>new_page\<close>).\<close>

theorem demand_fault:
  fixes s :: "('d, 'a) kvmx_scheme"
  assumes pt: "trapnum pt = 14" "err_code pt AND 1 = 0" "err_code pt AND 4 \<noteq> 0"
    and cpu: "current s = Some c" "pgdir (procs s ! c) = r" and inv: "pt_inv s r"
    and va: "user_va (cr2 div 4096 * 4096)" and room: "4 \<le> card (free_pages s)"
  shows "\<exists>p s'. do_trap env cr2 pt s = Ret pt s'
    \<and> new_page (upd_proc c (\<lambda>q. q\<lparr>pregs := pt\<rparr>) s) s' r (cr2 div 4096 * 4096) p 7
    \<and> (\<forall>i < 512. load64 (mem s') (PAGE2VA p + 8 * i) = 0)"
proof -
  let ?s = "upd_proc c (\<lambda>p. p\<lparr>pregs := pt\<rparr>) s"
  have s: "pt_inv ?s r" "4 \<le> card (free_pages ?s)" using inv room by simp_all
  obtain p s1 s' where n: "alloc_page 1 ?s = (Some p, s1)" "insert_page r (cr2 div 4096 * 4096) (Some p) 7 s1 = Inr (0, s')"
    "new_page ?s s' r (cr2 div 4096 * 4096) p 7" "\<And>i. i < 512 \<Longrightarrow> load64 (mem s') (PAGE2VA p + 8 * i) = 0"
    by (rule map_new_page [OF s(1) va s(2)]) (rule that; assumption)
  have "kmm.more s1 = kmm.more ?s" using alloc_page_Some(9) [OF pt_inv_mm [OF s(1)] n(1)] .
  note more = kproc_more [OF this]
  have "user_fault (err_code pt) (cr2 div 4096 * 4096) ?s = Inr s'"
    using n(1,2) pt(2) cpu more by (simp add: user_fault_def fault_flags saved_regs_pgdir)
  from do_trap_page_fault [OF pt(1) cpu(1) pt(3) this] n(3,4) show ?thesis by blast
qed

section \<open>Witnesses\<close>

text \<open>Process 9 runs in an address space in which frame 2 is mapped at \<open>UTEXT\<close>.\<close>

definition fault_machine :: "ready_drive kvmx" where
  "fault_machine = vm_machine\<lparr>npages := npages fork_machine, pages := pages fork_machine, phead := phead fork_machine,
     mem := mem fork_machine, procs := (procs proc_machine)[9 := (procs proc_machine ! 9)\<lparr>pgdir := PAGE2VA 0\<rparr>], cr3 := 0\<rparr>"

lemma fork_machine_tables: "pt_inv fork_machine (PAGE2VA 0)" "2 \<notin> tables fork_machine (PAGE2VA 0)"
  "length (pages fork_machine) = 30"
proof -
  have inv: "pt_inv (machine 3 30) (PAGE2VA 0)" using spaces_30(1) by simp
  have va: "user_va UTEXT" using page_va_facts [of "0x80000"] by (simp add: UTEXT_def page_va_def)
  have room: "3 \<le> card (free_pages (machine 3 30))" by (simp add: machine_30)
  obtain s' where s': "insert_page (PAGE2VA 0) UTEXT (Some 2) 7 (machine 3 30) = Inr (0, s')" "pt_inv s' (PAGE2VA 0)"
    "tables s' (PAGE2VA 0) = tables (machine 3 30) (PAGE2VA 0) \<union> (free_pages (machine 3 30) - free_pages s')"
    "length (pages s') = length (pages (machine 3 30))"
    by (rule insert_page_full [OF inv va room]) (rule that; assumption)
  have m: "fork_machine = s'" by (simp add: fork_machine_def s'(1))
  show "pt_inv fork_machine (PAGE2VA 0)" "2 \<notin> tables fork_machine (PAGE2VA 0)" "length (pages fork_machine) = 30"
    using s'(2-4) by (simp_all add: m spaces_30(2) machine_30)
qed

lemma fault_machine_facts:
  "current fault_machine = Some 9" "pgdir (procs fault_machine ! 9) = PAGE2VA 0" "cpu_root fault_machine = PAGE2VA 0"
  "pt_inv fault_machine (PAGE2VA 0)" "2 \<notin> tables fault_machine (PAGE2VA 0)" "page_refs fault_machine = page_refs fork_machine"
  "mem fault_machine = mem fork_machine" "free_pages fault_machine = free_pages fork_machine"
proof -
  have e: "pages fault_machine = pages fork_machine" "phead fault_machine = phead fork_machine"
    "npages fault_machine = npages fork_machine" "mem fault_machine = mem fork_machine"
    by (simp_all add: fault_machine_def)
  show "pt_inv fault_machine (PAGE2VA 0)" "2 \<notin> tables fault_machine (PAGE2VA 0)"
    using space_cong [OF e] fork_machine_tables by simp_all
  show "page_refs fault_machine = page_refs fork_machine" "free_pages fault_machine = free_pages fork_machine"
    using mm_cong [OF e(1-3)] by simp_all
  show "mem fault_machine = mem fork_machine" by (rule e)
  show "current fault_machine = Some 9" "pgdir (procs fault_machine ! 9) = PAGE2VA 0" "cpu_root fault_machine = PAGE2VA 0"
    by (simp_all add: fault_machine_def vm_machine_def proc_machine_def cpu_root_def PAGE2VA_def PAGE2PA_def)
qed

definition fault_regs :: "u64 \<Rightarrow> pt_regs" where
  "fault_regs err = zero_regs\<lparr>trapnum := 14, err_code := err\<rparr>"

text \<open>A write of the running process to its page at \<open>UTEXT\<close>, and a read of the next page.\<close>

theorem cow_fault_witness:
  "\<forall>env. \<exists>(p :: nat) s'. do_trap env 0x80000123 (fault_regs 7) fault_machine = Ret (fault_regs 7) s'
     \<and> pte_of (mem s') (PAGE2VA 0) UTEXT = PAGE2PA p OR 7 \<and> page_refs s' p = 1 \<and> page_refs s' 2 = 0"
proof
  fix env
  note f = fault_machine_facts
  have UT: "user_va UTEXT" "vpn UTEXT = 0x80000" "UTEXT = page_va 0x80000"
    using page_va_facts [of "0x80000"] by (simp_all add: UTEXT_def page_va_def)
  have e: "pte_of (mem fault_machine) (PAGE2VA 0) (page_va 0x80000) = 0x2007"
    using fork_machine_facts(2) [OF UT(1)] UT f(7) by simp
  have fr: "frame_of 0x2007 = 2" by (simp add: frame_of_def drop_bit_eq_div unat_div)
  have r: "page_refs fault_machine 2 = 1" "2 \<notin> free_pages fault_machine" "free_pages fault_machine \<noteq> {}"
    using fork_machine_facts(3,4,5) f(6,8) by auto
  have "trapnum (fault_regs 7) = 14" "err_code (fault_regs 7) AND 1 \<noteq> 0" "err_code (fault_regs 7) AND 2 \<noteq> 0"
    "err_code (fault_regs 7) AND 4 \<noteq> 0"
    by (simp_all add: fault_regs_def)
  moreover have "(0x80000123 :: u64) div 4096 * 4096 = page_va 0x80000" by (simp add: page_va_def)
  ultimately obtain p s' where s': "do_trap env 0x80000123 (fault_regs 7) fault_machine = Ret (fault_regs 7) s'"
    "p \<in> free_pages fault_machine"
    "\<forall>va. user_va va \<longrightarrow> pte_of (mem s') (PAGE2VA 0) va
       = (if vpn va = of_nat 0x80000 then PAGE2PA p OR 7 else pte_of (mem fault_machine) (PAGE2VA 0) va)"
    "page_refs s' = (page_refs fault_machine)(p := 1, 2 := page_refs fault_machine 2 - 1)"
    using cow_fault [OF _ _ _ _ f(1,2,3,4) _ _ e, of "fault_regs 7" "0x80000123" env] f(5) r fr by auto
  then have "p \<noteq> 2" using r by auto
  then show "\<exists>(p :: nat) s'. do_trap env 0x80000123 (fault_regs 7) fault_machine = Ret (fault_regs 7) s'
     \<and> pte_of (mem s') (PAGE2VA 0) UTEXT = PAGE2PA p OR 7 \<and> page_refs s' p = 1 \<and> page_refs s' 2 = 0"
    using s' UT r(1) by (intro exI [of _ p] exI [of _ s']) simp
qed

theorem demand_fault_witness:
  "\<forall>env. \<exists>(p :: nat) s'. do_trap env 0x80001000 (fault_regs 4) fault_machine = Ret (fault_regs 4) s'
     \<and> pte_of (mem s') (PAGE2VA 0) 0x80001000 = PAGE2PA p OR 7 \<and> p \<in> free_pages fault_machine"
proof
  fix env
  note f = fault_machine_facts
  have va: "user_va (0x80001000 div 4096 * 4096)" "(0x80001000 :: u64) div 4096 * 4096 = 0x80001000"
    using page_va_facts [of "0x80001"] by (simp_all add: page_va_def)
  have "4 \<le> card (free_pages fault_machine)" using fork_machine_facts(4) f(8) by simp
  moreover have "trapnum (fault_regs 4) = 14" "err_code (fault_regs 4) AND 1 = 0" "err_code (fault_regs 4) AND 4 \<noteq> 0"
    by (simp_all add: fault_regs_def)
  ultimately obtain p s' where s': "do_trap env 0x80001000 (fault_regs 4) fault_machine = Ret (fault_regs 4) s'"
    "new_page (upd_proc 9 (\<lambda>q. q\<lparr>pregs := fault_regs 4\<rparr>) fault_machine) s' (PAGE2VA 0) 0x80001000 p 7"
    using demand_fault [OF _ _ _ f(1,2,4) va(1), of "fault_regs 4" env] unfolding va(2) by blast
  then show "\<exists>(p :: nat) s'. do_trap env 0x80001000 (fault_regs 4) fault_machine = Ret (fault_regs 4) s'
     \<and> pte_of (mem s') (PAGE2VA 0) 0x80001000 = PAGE2PA p OR 7 \<and> p \<in> free_pages fault_machine"
    using va by (intro exI [of _ p] exI [of _ s']) (simp add: new_page_def)
qed

end
