(* ===== verification/Descriptors.thy ===== *)
theory Descriptors
  imports File
begin

text \<open>
  Which descriptors the file system calls of \<^verbatim>\<open>kernel/file.c\<close> hand out: the calls as steps on the
  kernel state (\<open>file_step\<close>), and an invariant of the descriptor tables of all processes under any
  sequence of them.
\<close>

section \<open>What the file system leaves alone\<close>

definition same_more :: "('d, 'a) kfs_scheme \<Rightarrow> ('d, 'a) kfs_scheme \<Rightarrow> bool" where
  "same_more s s' \<longleftrightarrow> kfs.more s' = kfs.more s"

lemma read_into_page_more: "ensures (read_into_page io lba s) (\<lambda>(b, s'). same_more s s')"
  by (auto simp: same_more_def read_into_page_def alloc_page_def Let_def ensures_def bindE_eq_Inr split: option.splits if_splits prod.splits)

lemma bread_more: "ensures (bread io b s) (\<lambda>(a, s'). same_more s s')"
  by (simp add: bread_def read_into_page_more)

lemma walk_block_more: "ensures (walk_block io p n old al s) (\<lambda>(r, dn, s'). same_more s s')"
  unfolding walk_block_def Let_def
  by (auto intro!: ensures_bind [OF bread_more]) (simp_all add: same_more_def)

lemma same_more_refl [simp]: "same_more s s"
  and same_more_trans: "same_more s t \<Longrightarrow> same_more t u \<Longrightarrow> same_more s u"
  by (simp_all add: same_more_def)

lemma walk_path_loop_more: "ensures (walk_path_loop io root fname p n i j dn s) (\<lambda>(r, q, s'). same_more s s')"
proof (induction "n - i" arbitrary: i j dn s)
  case 0
  then show ?case by (simp add: walk_path_loop.simps [of _ _ _ _ _ i])
next
  case (Suc d)
  then have i: "i < n" and d: "d = n - (i + 1)" by simp_all
  have IH: "ensures (walk_path_loop io root fname p n (i + 1) j' dn' s2) (\<lambda>(r, q, s'). same_more s s')"
    if "same_more s s2" for j' dn' s2
    using Suc.hyps(1) [OF d, of j' dn' s2] that by (auto elim!: ensures_weaken intro: same_more_trans)
  have step: "ensures (bindE (bread io b s1) (\<lambda>(pdir, s2).
      bindE (dir_search (vread root (mem s2)) fname pdir j) (\<lambda>(hit, j').
        case hit of
          Some e \<Rightarrow> Inr (0, Some (ino_table s2 + 32 * ucast (load16 (mem s2) e)), s2)
        | None \<Rightarrow> walk_path_loop io root fname p n (i + 1) j' dn' s2))) (\<lambda>(r, q, s'). same_more s s')"
    if "same_more s s1" for b dn' s1
  proof (rule ensures_bind [OF bread_more], clarify, rule ensures_bind [OF ensures_True], clarify)
    fix pdir s2 hit and j' :: nat assume "same_more s1 s2"
    then show "ensures (case hit of
          Some e \<Rightarrow> Inr (0, Some (ino_table s2 + 32 * ucast (load16 (mem s2) e)), s2)
        | None \<Rightarrow> walk_path_loop io root fname p n (i + 1) j' dn' s2) (\<lambda>(r, q, s'). same_more s s')"
      using that IH [of s2] same_more_trans [of s s1 s2] by (auto split: option.split)
  qed
  show ?case
    unfolding walk_path_loop.simps [of _ _ _ _ _ i] if_P [OF i]
  proof (rule ensures_bind [OF walk_block_more], clarify)
    fix r dn' s1 assume "same_more s s1"
    then show "ensures (if r < 0 then Inr (- 2, None, s1)
        else case dn' of None \<Rightarrow> Inl NullPointer
          | Some a \<Rightarrow>
              if load16 (mem s1) a \<noteq> 0 then
                bindE (bread io (ucast (load16 (mem s1) a)) s1) (\<lambda>(pdir, s2).
                bindE (dir_search (vread root (mem s2)) fname pdir j) (\<lambda>(hit, j').
                  case hit of
                    Some e \<Rightarrow> Inr (0, Some (ino_table s2 + 32 * ucast (load16 (mem s2) e)), s2)
                  | None \<Rightarrow> walk_path_loop io root fname p n (i + 1) j' dn' s2))
              else walk_path_loop io root fname p n (i + 1) j dn' s1) (\<lambda>(r, q, s'). same_more s s')"
      by (cases dn') (simp_all only: option.case split: if_split, simp_all add: step IH [simplified])
  qed
qed

lemma walk_path_more: "ensures (walk_path io root fname s) (\<lambda>(r, q, s'). same_more s s')"
  by (simp add: walk_path_def Let_def walk_path_loop_more)

text \<open>The part of the state that only the process and file layers change.\<close>

definition same_procs :: "('d, 'a) kproc_scheme \<Rightarrow> ('d, 'a) kproc_scheme \<Rightarrow> bool" where
  "same_procs s s' \<longleftrightarrow> procs s' = procs s \<and> current s' = current s \<and> filetable s' = filetable s"

lemma same_more_procs:
  fixes s :: "('d, 'a) kproc_scheme"
  shows "same_more s s' \<Longrightarrow> same_procs s s'"
  unfolding same_procs_def same_more_def by (cases s; cases s') simp

lemma same_procs_refl [simp]: "same_procs s s"
  by (simp add: same_procs_def)

lemma same_procs_upd [simp]: "same_procs s (t\<lparr>mem := m\<rparr>) = same_procs s t" "same_procs s (t\<lparr>dev := d\<rparr>) = same_procs s t"
  "same_procs s (t\<lparr>kcon := k\<rparr>) = same_procs s t"
  by (simp_all add: same_procs_def)

lemma same_procs_trans: "same_procs s t \<Longrightarrow> same_procs t u \<Longrightarrow> same_procs s u"
  by (simp add: same_procs_def)

lemma bread_procs: "ensures (bread io b s) (\<lambda>(a, s'). same_procs s s')"
  and walk_block_procs: "ensures (walk_block io p n old al s) (\<lambda>(r, dn, s'). same_procs s s')"
  and walk_path_procs: "ensures (walk_path io root fname s) (\<lambda>(r, q, s'). same_procs s s')"
  for s :: "('d, 'a) kproc_scheme"
  by (rule ensures_weaken [OF bread_more] ensures_weaken [OF walk_block_more] ensures_weaken [OF walk_path_more],
      auto dest: same_more_procs)+

lemma file_open_procs: "ensures (file_open io fname f s) (\<lambda>(r, f', s'). same_procs s s')"
  unfolding file_open_def
  by (rule ensures_bind [OF walk_path_procs]) (auto split: option.split)

lemma file_read_step_procs: "ensures (file_read_step io f b n off k dn s) (\<lambda>(g, dn', s'). same_procs s s')"
proof -
  have copy: "ensures (bindE (bread io bl s1) (\<lambda>(b', s2).
      bindE (vmemcpy (cpu_root s2) b (b' + c) w (mem s2)) (\<lambda>m. Inr (x, dn', s2\<lparr>mem := m\<rparr>)))) (\<lambda>(g, dn', s'). same_procs s s')"
    if "same_procs s s1" for bl s1 c w and x :: "int option" and dn' :: "u64 option"
    by (rule ensures_bind [OF bread_procs], clarify, rule ensures_bind [OF ensures_True])
      (use that in \<open>auto intro: same_procs_trans\<close>)
  show ?thesis
    unfolding file_read_step_def Let_def
    by (rule ensures_bind [OF walk_block_procs]) (auto split: option.split intro: copy)
qed


lemma file_write_step_procs: "ensures (file_write_step io f b n k dn s) (\<lambda>(g, dn', s'). same_procs s s')"
proof -
  have copy: "ensures (bindE (bread io bl s1) (\<lambda>(pb, s2).
      bindE (vmemcpy (cpu_root s2) (pb + c) b w (mem s2)) (\<lambda>m.
      bindE (writeblk io pb (sec m) 8 m (dev s2)) (\<lambda>d. Inr (x, dn', s2\<lparr>mem := m, dev := d\<rparr>))))) (\<lambda>(g, dn', s'). same_procs s s')"
    if "same_procs s s1" for bl s1 c w sec and x :: "int option" and dn' :: "u64 option"
    by (rule ensures_bind [OF bread_procs], clarify, rule ensures_bind [OF ensures_True], rule ensures_bind [OF ensures_True])
      (use that in \<open>auto intro: same_procs_trans\<close>)
  have blk: "get_blk s1 = (bno, s2) \<Longrightarrow> same_procs s s1 \<Longrightarrow> same_procs s s2" for s1 s2 bno
    by (auto simp: get_blk_def Let_def split: if_splits)
  show ?thesis
    unfolding file_write_step_def Let_def
    by (rule ensures_bind [OF walk_block_procs])
      (auto split: option.split prod.split intro!: copy intro: blk)
qed

lemma file_read_loop_procs: "file_read_loop io f b n off k dn s = Some r \<Longrightarrow> ensures r (\<lambda>(c, f', s'). same_procs s s')"
proof (rule file_read_loop.raw_induct [where P = "\<lambda>io f b n off k dn s r. ensures r (\<lambda>(c, f', s'). same_procs s s')"])
  fix loop io f b n off k dn s r
  assume IH: "\<And>io f b n off k dn s r. loop io f b n off k dn s = Some r \<Longrightarrow> ensures r (\<lambda>(c, f', s'). same_procs s s')"
    and run: "(if (word_of_int k :: u32) < n then
        (case file_read_step io f b n off k dn s of
           Inl e \<Rightarrow> Some (Inl e)
         | Inr (got, diskno', s1) \<Rightarrow>
             (case got of
                None \<Rightarrow> Some (Inr (- 1, f, s1))
              | Some j \<Rightarrow> loop io (f\<lparr>f_offset := wrap32 (f_offset f + j)\<rparr>) (b + word_of_int j)
                            n off (wrap32 (k + j)) diskno' s1))
      else Some (Inr (k, f, s))) = Some r"
  show "ensures r (\<lambda>(c, f', s'). same_procs s s')"
    using run ensuresD [OF file_read_step_procs [of io f b n off k dn s]]
    by (auto split: if_splits sum.splits option.splits dest!: IH elim!: ensures_weaken intro: same_procs_trans)
qed

lemma file_write_loop_procs: "file_write_loop io f b n off k dn s = Some r \<Longrightarrow> ensures r (\<lambda>(c, f', s'). same_procs s s')"
proof (rule file_write_loop.raw_induct [where P = "\<lambda>io f b n off k dn s r. ensures r (\<lambda>(c, f', s'). same_procs s s')"])
  fix loop io f b n off k dn s r
  assume IH: "\<And>io f b n off k dn s r. loop io f b n off k dn s = Some r \<Longrightarrow> ensures r (\<lambda>(c, f', s'). same_procs s s')"
    and run: "(if (word_of_int k :: u32) < word_of_int off + n then
        (case file_write_step io f b n k dn s of
           Inl e \<Rightarrow> Some (Inl e)
         | Inr (got, diskno', s1) \<Rightarrow>
             (case got of
                None \<Rightarrow> Some (Inr (- 1, f, s1))
              | Some j \<Rightarrow> loop io (f\<lparr>f_offset := wrap32 (f_offset f + j)\<rparr>) (b + word_of_int j)
                            n off (wrap32 (k + j)) diskno' s1))
      else Some (Inr (sint n, f, s))) = Some r"
  show "ensures r (\<lambda>(c, f', s'). same_procs s s')"
    using run ensuresD [OF file_write_step_procs [of io f b n k dn s]]
    by (auto split: if_splits sum.splits option.splits dest!: IH elim!: ensures_weaken intro: same_procs_trans)
qed

lemma file_read_procs: "ensures (file_read io f b n off s) (\<lambda>(c, f', s'). same_procs s s')"
  and file_write_procs: "ensures (file_write io f b n s) (\<lambda>(c, f', s'). same_procs s s')"
  unfolding file_read_def file_write_def returns_def
  by (auto split: option.split dest: file_read_loop_procs file_write_loop_procs)

lemma cons_read_procs: "ensures (cons_read b n s) (\<lambda>(r, s'). same_procs s s')"
proof -
  have "ensures (cons_read_loop b i k s) (\<lambda>(r, s'). same_procs s s')" for i k
  proof (induction k arbitrary: b i s)
    case (Suc k)
    have "ensures (cons_read_loop (b + 1) (i + 1) k t) (\<lambda>(r, s'). same_procs s s')" if "same_procs s t" for t
      by (rule ensures_weaken [OF Suc.IH]) (use that in \<open>auto intro: same_procs_trans\<close>)
    then show ?case
      by (auto simp: Let_def split: prod.split intro!: ensures_bind [OF ensures_True])
  qed simp
  then show ?thesis by (simp add: cons_read_def)
qed

lemma cons_write_procs: "ensures (cons_write b n s) (\<lambda>(r, s'). same_procs s s')"
proof -
  have "ensures (cons_write_loop b i k s) (\<lambda>(r, s'). same_procs s s')" for i k
  proof (induction k arbitrary: b i s)
    case (Suc k)
    have "ensures (cons_write_loop (b + 1) (wrap32 (i + 1)) k t) (\<lambda>(r, s'). same_procs s s')" if "same_procs s t" for t
      by (rule ensures_weaken [OF Suc.IH]) (use that in \<open>auto intro: same_procs_trans\<close>)
    then show ?case by (auto split: option.split)
  qed simp
  then show ?thesis by (simp add: cons_write_def)
qed

section \<open>The descriptors in use\<close>

lemma alloc_page_more: "alloc_page fl s = (p, s') \<Longrightarrow> kmm.more s' = kmm.more s"
  by (auto simp: alloc_page_def Let_def split: option.splits if_splits)

lemma walk_dir_more: "ensures (walk_dir r va c s) (\<lambda>(x, pte, s'). kmm.more s' = kmm.more s)"
  by (auto simp: walk_dir_def Let_def split: option.split prod.split dest: alloc_page_more)

lemma walk_page_more: "ensures (walk_page r va c s) (\<lambda>(x, pte, s'). kmm.more s' = kmm.more s)"
proof -
  have "ensures (walk_dir b va c t) (\<lambda>(x, pte, s'). kmm.more s' = kmm.more s)" if "kmm.more t = kmm.more s" for b t
    by (rule ensures_weaken [OF walk_dir_more]) (use that in auto)
  then show ?thesis
    by (auto simp: walk_page_def Let_def split: option.split prod.split dest!: alloc_page_more)
qed

lemma insert_page_more: "ensures (insert_page r va p fl s) (\<lambda>(x, s'). kmm.more s' = kmm.more s)"
  unfolding insert_page_def
  by (cases p) (auto intro!: ensures_bind [OF walk_page_more] split: option.split)

lemma fork_page_more: "ensures (fork_page r c a s) (\<lambda>(x, s'). kmm.more s' = kmm.more s)"
  unfolding fork_page_def Let_def
  by (rule ensures_bind [OF walk_page_more])
    (auto intro!: ensures_bind [OF insert_page_more] split: option.split)

lemma fork_pages_more: "ensures (fork_pages r c a n s) (\<lambda>(x, s'). kmm.more s' = kmm.more s)"
proof (induction n arbitrary: a s)
  case (Suc n)
  have "ensures (fork_pages r c (a + 4096) n t) (\<lambda>(x, s'). kmm.more s' = kmm.more s)" if "kmm.more t = kmm.more s" for t
    by (rule ensures_weaken [OF Suc.IH]) (use that in auto)
  then show ?case
    unfolding fork_pages.simps by (auto intro!: ensures_bind [OF fork_page_more])
qed simp

definition fd_ok :: "proc \<Rightarrow> bool" where
  "fd_ok p \<longleftrightarrow> length (fdtable p) = 32 \<and> (\<forall>i f. i < 32 \<longrightarrow> fdtable p ! i = Some f \<longrightarrow> i = 0 \<and> f < 256)"

definition fd_inv :: "('d, 'a) kproc_scheme \<Rightarrow> bool" where
  "fd_inv s \<longleftrightarrow> length (filetable s) = 256 \<and> (\<forall>p \<in> set (procs s). fd_ok p)
     \<and> (\<forall>c. current s = Some c \<longrightarrow> c < length (procs s))"

lemma fd_inv_same: "same_procs s s' \<Longrightarrow> fd_inv s' = fd_inv s"
  by (simp add: fd_inv_def same_procs_def)

lemma fd_inv_upd_file [simp]: "fd_inv (upd_file f g s) = fd_inv s"
  by (simp add: fd_inv_def upd_file_def)

lemma fd_inv_filetable [simp]: "length ft = 256 \<Longrightarrow> length (filetable s) = 256 \<Longrightarrow> fd_inv (s\<lparr>filetable := ft\<rparr>) = fd_inv s"
  by (simp add: fd_inv_def)

lemma fd_inv_upd_proc:
  assumes "fd_inv s" and "p < length (procs s) \<Longrightarrow> fd_ok (f (procs s ! p))"
  shows "fd_inv (upd_proc p f s)"
proof (cases "p < length (procs s)")
  case True
  then show ?thesis using assms set_update_subset_insert [of "procs s" p "f (procs s ! p)"]
    by (auto simp: fd_inv_def upd_proc_def)
next
  case False
  then show ?thesis using assms by (simp add: fd_inv_def upd_proc_def list_update_beyond)
qed

lemma fd_inv_proc: "fd_inv s \<Longrightarrow> p < length (procs s) \<Longrightarrow> fd_ok (procs s ! p)"
  by (simp add: fd_inv_def)

lemma fd_ok_set: "fd_ok p \<Longrightarrow> (\<And>f. v = Some f \<Longrightarrow> i = 0 \<and> f < 256) \<Longrightarrow> fd_ok (p\<lparr>fdtable := (fdtable p)[i := v]\<rparr>)"
  unfolding fd_ok_def by (auto simp del: not_None_eq) (metis nth_list_update_eq nth_list_update_neq)+

lemma set_fd_inv:
  "fd_inv s \<Longrightarrow> (\<And>f. v = Some f \<Longrightarrow> fd = 0 \<and> f < 256) \<Longrightarrow> ensures (set_fd fd v s) fd_inv"
  unfolding set_fd_def
  by (auto split: option.split intro!: fd_inv_upd_proc fd_ok_set dest: fd_inv_proc)

lemma allocfile_inv: "allocfile s = (q, s') \<Longrightarrow> fd_inv s \<Longrightarrow> fd_inv s' \<and> (\<forall>f. q = Some f \<longrightarrow> f < 256)"
  by (auto simp: allocfile_def fd_inv_def find_Some_iff split: option.splits)

lemma sys_opencons_inv: "fd_inv s \<Longrightarrow> ensures (sys_opencons s) (\<lambda>(r, s'). fd_inv s')"
  unfolding sys_opencons_def Let_def
  by (rule ensures_bind [OF ensures_True])
    (auto split: prod.split option.split dest!: allocfile_inv intro!: ensures_bind [OF set_fd_inv])

lemma sys_open_inv: "fd_inv s \<Longrightarrow> ensures (sys_open io fname s) (\<lambda>(r, s'). fd_inv s')"
  unfolding sys_open_def Let_def
  by (rule ensures_bind [OF ensures_True])
    (auto split: prod.split option.split dest!: allocfile_inv intro!: ensures_bind [OF set_fd_inv] ensures_bind [OF file_open_procs]
      simp: fd_inv_same)

lemma sys_read_inv: "fd_inv s \<Longrightarrow> ensures (sys_read io fd b n s) (\<lambda>(r, s'). fd_inv s')"
  unfolding sys_read_def
  by (rule ensures_bind [OF ensures_True])
    (auto split: option.split file_type.split intro!: ensures_bind [OF file_read_procs] ensures_weaken [OF cons_read_procs]
      simp: fd_inv_same)

lemma sys_write_inv: "fd_inv s \<Longrightarrow> ensures (sys_write io fd b n s) (\<lambda>(r, s'). fd_inv s')"
  unfolding sys_write_def
  by (rule ensures_bind [OF ensures_True])
    (auto split: option.split file_type.split intro!: ensures_bind [OF file_write_procs] ensures_weaken [OF cons_write_procs]
      simp: fd_inv_same)

lemma sys_close_inv: "fd_inv s \<Longrightarrow> ensures (sys_close fd s) (\<lambda>(r, s'). fd_inv s')"
  unfolding sys_close_def Let_def
  by (cases "fd < 0 \<or> 32 - 1 < fd", simp, simp only: if_False, rule ensures_bind [OF ensures_True])
    (auto split: option.split intro!: ensures_bind [OF set_fd_inv])

lemma sys_lseek_inv: "fd_inv s \<Longrightarrow> ensures (sys_lseek fd off w s) (\<lambda>(r, s'). fd_inv s')"
  unfolding sys_lseek_def
  by (auto split: option.split intro!: ensures_bind [OF ensures_True])

lemma fd_inv_upd_keep: "fd_inv s \<Longrightarrow> (\<And>q. fd_ok q \<Longrightarrow> fd_ok (f q)) \<Longrightarrow> fd_inv (upd_proc p f s)"
  by (intro fd_inv_upd_proc) (auto simp: fd_inv_proc)

lemma fd_ok_upd [simp]: "fd_ok (p\<lparr>status := st\<rparr>) = fd_ok p" "fd_ok (p\<lparr>pid := n\<rparr>) = fd_ok p"
  "fd_ok (p\<lparr>proc_link := l\<rparr>) = fd_ok p" "fd_ok (p\<lparr>pregs := rs\<rparr>) = fd_ok p" "fd_ok (p\<lparr>pgdir := a\<rparr>) = fd_ok p"
  by (simp_all add: fd_ok_def)

lemma zero_proc_ok: "fd_ok zero_proc"
  by (simp add: fd_ok_def zero_proc_def)

lemma alloc_proc_inv: "fd_inv s \<Longrightarrow> ensures (alloc_proc s) (\<lambda>(p, s'). fd_inv s')"
proof -
  assume s: "fd_inv s"
  have h: "fd_inv (s\<lparr>proc_head := q\<rparr>)" for q using s by (simp add: fd_inv_def)
  show ?thesis
    unfolding alloc_proc_def Let_def
    by (auto split: option.split intro!: fd_inv_upd_keep h simp: zero_proc_ok)
qed

lemma fork_files_inv:
  "fd_inv s \<Longrightarrow> c < length (procs s) \<Longrightarrow> i + n \<le> 32 \<Longrightarrow> fd_inv (fork_files c p i n s)"
proof (induction n arbitrary: i s)
  case (Suc n)
  show ?case
  proof (cases "fdtable (procs s ! c) ! i")
    case None
    then show ?thesis using Suc by simp
  next
    case (Some f)
    have "i < 32" using Suc.prems(3) by simp
    then have f: "i = 0" "f < 256" using fd_inv_proc [OF Suc.prems(1,2)] Some unfolding fd_ok_def by blast+
    let ?s = "upd_proc p (\<lambda>pr. pr\<lparr>fdtable := (fdtable pr)[i := Some f]\<rparr>) s"
    have "fd_inv ?s" using Suc.prems(1) f by (intro fd_inv_upd_proc fd_ok_set) (auto simp: fd_inv_proc)
    moreover have "length (procs ?s) = length (procs s)" "length (filetable ?s) = 256"
      using Suc.prems(1) by (simp_all add: upd_proc_def fd_inv_def)
    ultimately show ?thesis using Some Suc by (simp add: Let_def)
  qed
qed simp

lemma alloc_vm_more: "alloc_vm dir s = (a, s') \<Longrightarrow> kmm.more s' = kmm.more s"
  by (auto simp: alloc_vm_def split: prod.splits option.splits dest: alloc_page_more)

lemma fd_inv_more:
  fixes s :: "('d, 'a) kproc_scheme"
  shows "kmm.more s' = kmm.more s \<Longrightarrow> fd_inv s' = fd_inv s"
    and "kmm.more s' = kmm.more s \<Longrightarrow> procs s' = procs s"
  unfolding fd_inv_def by (cases s; cases s'; simp)+

text \<open>The invariant with a process \<open>c\<close> in the table.\<close>

definition good :: "nat \<Rightarrow> ('d, 'a) kproc_scheme \<Rightarrow> bool" where
  "good c s \<longleftrightarrow> fd_inv s \<and> c < length (procs s)"

lemma good_more:
  fixes s :: "('d, 'a) kproc_scheme"
  shows "kmm.more s' = kmm.more s \<Longrightarrow> good c s \<Longrightarrow> good c s'"
  using fd_inv_more [of s' s] by (simp add: good_def)

lemma good_upd: "good c s \<Longrightarrow> (\<And>q. fd_ok q \<Longrightarrow> fd_ok (f q)) \<Longrightarrow> good c (upd_proc p f s)"
  by (simp add: good_def fd_inv_upd_keep) (simp add: upd_proc_def)

lemma good_steps:
  fixes s :: "('d, 'a) kproc_scheme"
  shows "alloc_vm dir s = (a, s') \<Longrightarrow> good c s \<Longrightarrow> good c s'"
    and "alloc_page fl s = (q, s') \<Longrightarrow> good c s \<Longrightarrow> good c s'"
    and "good c s \<Longrightarrow> ensures (fork_pages r d v n s) (\<lambda>(x, s'). good c s')"
    and "good c s \<Longrightarrow> ensures (insert_page r va pg fl64 s) (\<lambda>(x, s'). good c s')"
    and "good c s \<Longrightarrow> good c (s\<lparr>mem := m\<rparr>)"
    and "good c s \<Longrightarrow> fd_inv (fork_files c p 0 32 s)"
proof -
  show "alloc_vm dir s = (a, s') \<Longrightarrow> good c s \<Longrightarrow> good c s'" by (blast intro: good_more alloc_vm_more)
  show "alloc_page fl s = (q, s') \<Longrightarrow> good c s \<Longrightarrow> good c s'" by (blast intro: good_more alloc_page_more)
  show "good c s \<Longrightarrow> ensures (fork_pages r d v n s) (\<lambda>(x, s'). good c s')"
    by (rule ensures_weaken [OF fork_pages_more]) (auto intro: good_more)
  show "good c s \<Longrightarrow> ensures (insert_page r va pg fl64 s) (\<lambda>(x, s'). good c s')"
    by (rule ensures_weaken [OF insert_page_more]) (auto intro: good_more)
  show "good c s \<Longrightarrow> good c (s\<lparr>mem := m\<rparr>)" by (rule good_more) simp
  show "good c s \<Longrightarrow> fd_inv (fork_files c p 0 32 s)" by (simp add: good_def fork_files_inv)
qed

lemma sys_fork_inv:
  fixes s :: "('d, 'a) kproc_scheme"
  assumes s: "fd_inv s"
  shows "ensures (sys_fork s) (\<lambda>(r, s'). fd_inv s')"
proof -
  show ?thesis
    unfolding sys_fork_def
  proof (rule ensures_bind [OF alloc_proc_inv [OF s]], clarify)
    fix p s1 assume s1: "fd_inv (s1 :: ('d, 'a) kproc_scheme)"
    show "ensures (case current s1 of None \<Rightarrow> Inl NullPointer
       | Some c \<Rightarrow>
           let s2 = upd_proc p (\<lambda>pr. pr\<lparr>pregs := (pregs (procs s1 ! c))\<lparr>rax := 0\<rparr>\<rparr>) s1
           in case alloc_vm (kpgdir s2) s2 of (dir, s3) \<Rightarrow>
              let s4 = upd_proc p (\<lambda>pr. pr\<lparr>pgdir := dir\<rparr>) s3
              in if dir = 0 then Inr (- 1, s4)
                 else bindE (fork_pages (pgdir (procs s4 ! c)) dir UTEXT (user_pages - 1) s4) (\<lambda>(r, s5).
                   if r < 0 then Inr (r, s5)
                   else case alloc_page 1 s5 of
                     (None, s6) \<Rightarrow> Inl NullPointer
                   | (Some pg, s6) \<Rightarrow>
                       bindE (vmemcpy (cpu_root s6) (PAGE2VA pg) (USTACKTOP - 4096) 4096 (mem s6)) (\<lambda>m.
                       bindE (insert_page dir (USTACKTOP - 4096) (Some pg) (PTE_U OR PTE_W OR PTE_P) (s6\<lparr>mem := m\<rparr>)) (\<lambda>(r2, s7).
                       let s8 = upd_proc p (\<lambda>pr. pr\<lparr>status := RUNNABLE\<rparr>) (fork_files c p 0 32 s7)
                       in Inr (uint (pid (procs s8 ! p)), s8)))))
      (\<lambda>(r, s'). fd_inv s')"
    proof (cases "current s1")
      case (Some c)
      have g1: "good c s1" using s1 Some by (simp add: good_def fd_inv_def)
      let ?s2 = "upd_proc p (\<lambda>pr. pr\<lparr>pregs := (pregs (procs s1 ! c))\<lparr>rax := 0\<rparr>\<rparr>) s1"
      obtain dir s3 where vm: "alloc_vm (kpgdir ?s2) ?s2 = (dir, s3)" by fastforce
      let ?s4 = "upd_proc p (\<lambda>pr. pr\<lparr>pgdir := dir\<rparr>) s3"
      have g4: "good c ?s4" using g1 good_steps(1) [OF vm] by (simp add: good_upd)
      let ?fill = "\<lambda>s6 pg. bindE (vmemcpy (cpu_root s6) (PAGE2VA pg) (USTACKTOP - 4096) 4096 (mem s6)) (\<lambda>m.
                       bindE (insert_page dir (USTACKTOP - 4096) (Some pg) (PTE_U OR PTE_W OR PTE_P) (s6\<lparr>mem := m\<rparr>)) (\<lambda>(r2, s7).
                       let s8 = upd_proc p (\<lambda>pr. pr\<lparr>status := RUNNABLE\<rparr>) (fork_files c p 0 32 s7)
                       in Inr (uint (pid (procs s8 ! p)), s8)))"
      let ?rest = "\<lambda>(r, s5). if r < 0 then Inr (r, s5)
                   else case alloc_page 1 s5 of (None, s6) \<Rightarrow> Inl NullPointer | (Some pg, s6) \<Rightarrow> ?fill s6 pg"
      have last: "fd_inv (upd_proc p (\<lambda>pr. pr\<lparr>status := RUNNABLE\<rparr>) (fork_files c p 0 32 s7))"
        if "good c s7" for s7 :: "('d, 'a) kproc_scheme"
        using good_steps(6) [OF that] by (simp add: fd_inv_upd_keep)
      have fill: "ensures (?fill s6 pg) (\<lambda>(r, s'). fd_inv s')" if g6: "good c s6" for s6 :: "('d, 'a) kproc_scheme" and pg
        by (rule ensures_bind [OF ensures_True], rule ensures_bind [OF good_steps(4) [OF good_steps(5) [OF g6]]])
          (clarsimp simp: Let_def last)
      have rest: "ensures (bindE (fork_pages (pgdir (procs ?s4 ! c)) dir UTEXT (user_pages - 1) ?s4) ?rest) (\<lambda>(r, s'). fd_inv s')"
      proof (rule ensures_bind [OF good_steps(3) [OF g4]])
        fix x :: "int \<times> ('d, 'a) kproc_scheme"
        assume "case x of (r, s') \<Rightarrow> good c s'"
        then obtain r s5 where x: "x = (r, s5)" and g5: "good c s5" by (cases x) simp
        obtain q s6 where q: "alloc_page 1 s5 = (q, s6)" by fastforce
        show "ensures (?rest x) (\<lambda>(r, s'). fd_inv s')"
          using g5 fill [OF good_steps(2) [OF q g5]] unfolding x by (cases q) (simp_all add: q good_def)
      qed
      show ?thesis
        unfolding Some option.case Let_def vm prod.case
        using g4 rest [unfolded Let_def] by (cases "dir = 0") (simp_all add: good_def)
    qed simp
  qed
qed

text \<open>A system call on files that returns, made by the current process.\<close>

inductive file_step :: "'d ports \<Rightarrow> ('d, 'a) kproc_scheme \<Rightarrow> ('d, 'a) kproc_scheme \<Rightarrow> bool" for io where
  opencons: "sys_opencons s = Inr (r, s') \<Longrightarrow> file_step io s s'"
| open_file: "sys_open io fname s = Inr (r, s') \<Longrightarrow> file_step io s s'"
| read_file: "sys_read io fd ubuf n s = Inr (r, s') \<Longrightarrow> file_step io s s'"
| write_file: "sys_write io fd ubuf n s = Inr (r, s') \<Longrightarrow> file_step io s s'"
| close_file: "sys_close fd s = Inr (r, s') \<Longrightarrow> file_step io s s'"
| seek_file: "sys_lseek fd off whence s = Inr (r, s') \<Longrightarrow> file_step io s s'"
| fork_proc: "sys_fork s = Inr (r, s') \<Longrightarrow> file_step io s s'"

lemma file_step_inv: "file_step io s s' \<Longrightarrow> fd_inv s \<Longrightarrow> fd_inv s'"
  by (induction rule: file_step.induct)
    (auto dest: ensuresD [OF sys_opencons_inv] ensuresD [OF sys_open_inv] ensuresD [OF sys_read_inv] ensuresD [OF sys_write_inv]
      ensuresD [OF sys_close_inv] ensuresD [OF sys_lseek_inv] ensuresD [OF sys_fork_inv])

lemma file_steps_inv: "(file_step io)\<^sup>*\<^sup>* s s' \<Longrightarrow> fd_inv s \<Longrightarrow> fd_inv s'"
  by (induction rule: rtranclp_induct) (auto intro: file_step_inv)

lemma opencons_result:
  assumes inv: "fd_inv s" and r: "sys_opencons s = Inr (r, s')"
  shows "r = 0 \<or> r = - 1"
proof (cases "current s")
  case None
  then show ?thesis using r by (simp add: sys_opencons_def allocfd_def)
next
  case (Some c)
  let ?free = "\<lambda>i. fdtable (procs s ! c) ! i = None"
  have "fd_ok (procs s ! c)" using inv Some by (simp add: fd_inv_def)
  then have "?free 1" 
    unfolding fd_ok_def by (cases "fdtable (procs s ! c) ! 1") (fastforce dest: spec [where x = 1])+
  then have "find ?free [0..<32] \<noteq> None" unfolding find_None_iff by (auto intro!: exI [where x = 1])
  then obtain i where "allocfd s = Inr (int i)" using Some by (auto simp: allocfd_def)
  then show ?thesis using r by (auto simp: sys_opencons_def bindE_eq_Inr split: prod.splits option.splits)
qed

text \<open>C20. From tables without open files, whatever sequence of opens, reads, writes, closes,
  seeks and forks is run: no process ever has an open file at a descriptor other than 0, what
  descriptor 0 holds is a place of the table of open files, and opening the console returns 0 or
  -1.  (The code assigns the comparison of \<open>fd = allocfd() < 0\<close>, so a second open overwrites the
  first, whose file stays in use for ever.)\<close>

theorem only_descriptor_0:
  assumes "length (filetable s) = 256" and "\<forall>p \<in> set (procs s). fdtable p = replicate 32 None"
    and "\<forall>c. current s = Some c \<longrightarrow> c < length (procs s)"
    and steps: "(file_step io)\<^sup>*\<^sup>* s s'"
  shows "(\<forall>p \<in> set (procs s'). length (fdtable p) = 32
           \<and> (\<forall>i f. i < 32 \<longrightarrow> fdtable p ! i = Some f \<longrightarrow> i = 0 \<and> f < length (filetable s')))
    \<and> (\<forall>r t. sys_opencons s' = Inr (r, t) \<longrightarrow> r = 0 \<or> r = - 1)"
proof -
  have "fd_inv s" using assms(1-3) by (auto simp: fd_inv_def fd_ok_def)
  then have inv: "fd_inv s'" using file_steps_inv [OF steps] by blast
  then have "\<forall>p \<in> set (procs s'). length (fdtable p) = 32
           \<and> (\<forall>i f. i < 32 \<longrightarrow> fdtable p ! i = Some f \<longrightarrow> i = 0 \<and> f < length (filetable s'))"
    by (simp add: fd_inv_def fd_ok_def)
  with opencons_result [OF inv] show ?thesis by blast
qed

section \<open>Witness\<close>

definition file_machine :: "ready_drive kproc" where
  "file_machine = proc_machine\<lparr>filetable := replicate 256 zero_file\<rparr>"

lemma upt_find: "find P [i..<j] = (if i < j then if P i then Some i else find P [Suc i..<j] else None)"
  by (simp add: upt_conv_Cons)

definition one_file :: "ready_drive kproc" where
  "one_file = upd_proc 9 (\<lambda>p. p\<lparr>fdtable := (fdtable p)[0 := Some 0]\<rparr>)
     (file_machine\<lparr>filetable := (replicate 256 zero_file)[0 := zero_file\<lparr>f_refcount := 1, f_type := FDCONS\<rparr>]\<rparr>)"

lemma first_console: "sys_opencons file_machine = Inr (0, one_file)"
proof -
  have "find (\<lambda>i. fdtable (procs file_machine ! 9) ! i = None) [0..<32] = Some 0"
    by (subst upt_find) (simp add: file_machine_def proc_machine_def zero_proc_def)
  moreover have "find (\<lambda>i. f_refcount (filetable file_machine ! i) = 0) [0..<256] = Some 0"
    by (subst upt_find) (simp add: file_machine_def zero_file_def)
  moreover have "current file_machine = Some 9" "filetable file_machine = replicate 256 zero_file"
    by (simp_all add: file_machine_def proc_machine_def)
  ultimately show ?thesis
    by (simp add: sys_opencons_def allocfd_def allocfile_def set_fd_def one_file_def upd_file_def upd_proc_def)
      (simp add: file_machine_def zero_file_def)
qed

lemma second_console: "\<exists>s2. sys_opencons one_file = Inr (0, s2) \<and> fdtable (procs s2 ! 9) ! 0 = Some 1"
proof -
  have "find (\<lambda>i. fdtable (procs one_file ! 9) ! i = None) [0..<32] = Some 1"
    by (subst upt_find, subst upt_find) (simp add: one_file_def upd_proc_def file_machine_def proc_machine_def zero_proc_def)
  moreover have "find (\<lambda>i. f_refcount (filetable one_file ! i) = 0) [0..<256] = Some 1"
    by (subst upt_find, subst upt_find) (simp add: one_file_def upd_proc_def file_machine_def zero_file_def)
  moreover have "current one_file = Some 9" "length (procs one_file) = 11" "length (fdtable (procs one_file ! 9)) = 32"
    by (simp_all add: one_file_def upd_proc_def file_machine_def proc_machine_def zero_proc_def)
  ultimately show ?thesis
    by (simp add: sys_opencons_def allocfd_def allocfile_def set_fd_def upd_file_def upd_proc_def)
qed

theorem only_descriptor_0_witness:
  "\<exists>s2. sys_opencons file_machine = Inr (0, one_file) \<and> sys_opencons one_file = Inr (0, s2)
     \<and> fdtable (procs one_file ! 9) ! 0 = Some 0 \<and> fdtable (procs s2 ! 9) ! 0 = Some 1
     \<and> (\<forall>p \<in> set (procs s2). \<forall>i f. i < 32 \<longrightarrow> fdtable p ! i = Some f \<longrightarrow> i = 0 \<and> f < length (filetable s2))"
proof -
  obtain s2 where s2: "sys_opencons one_file = Inr (0, s2)" "fdtable (procs s2 ! 9) ! 0 = Some 1"
    using second_console by blast
  have steps: "(file_step ready_ports)\<^sup>*\<^sup>* file_machine s2"
    by (rule rtranclp.rtrancl_into_rtrancl [OF r_into_rtranclp])
      (rule file_step.opencons [OF first_console], rule file_step.opencons [OF s2(1)])
  have "fdtable (procs one_file ! 9) ! 0 = Some 0"
    by (simp add: one_file_def upd_proc_def file_machine_def proc_machine_def zero_proc_def)
  moreover have "\<forall>p \<in> set (procs file_machine). fdtable p = replicate 32 None"
    unfolding file_machine_def proc_machine_def
    by (simp, intro ballI) (auto simp: zero_proc_def dest!: subsetD [OF set_update_subset_insert])
  ultimately show ?thesis
    using s2 first_console only_descriptor_0 [of file_machine ready_ports s2, OF _ _ _ steps]
    by (simp add: file_machine_def proc_machine_def)
qed

end
