(* ===== verification/Reading.thy ===== *)
theory Reading
  imports Fault Descriptors
begin

text \<open>
  Reading a file on disk into user memory, from the system call down to the drive: \<open>sys_read\<close>,
  \<open>file_read\<close> and its loop (\<^verbatim>\<open>kernel/file.c\<close>) over \<open>walk_block\<close> and \<open>bread\<close> (\<^verbatim>\<open>kernel/fs.c\<close>), the disk
  driver, the page allocator and the user's page tables.  The buffer lies in one user page; what is
  read within one block, and what across the boundary of two.
\<close>

section \<open>Copying to a user page\<close>

lemma page_range_apart:
  assumes "f < 2 ^ 18" "g < 2 ^ 18" "f \<noteq> g" "i + n \<le> 4096" "j + k \<le> 4096"
  shows "apart (PAGE2VA f + of_nat i) n (PAGE2VA g + of_nat j) k"
proof -
  have o: "PAGE2VA g + of_nat i = KBASE + of_nat (4096 * g + i)" for g i by (simp add: PAGE2VA_offset)
  have "4096 * f + i + n \<le> 4096 * g + j \<or> 4096 * g + j + k \<le> 4096 * f + i"
    using assms(3-5) by linarith
  then show ?thesis unfolding o using assms by (intro apart_offset) simp_all
qed

text \<open>The frame \<open>fr\<close> is mapped at page \<open>k\<close> of the user half; it is no table and not in the pool.\<close>

definition user_page :: "'a kmm_scheme \<Rightarrow> u64 \<Rightarrow> nat \<Rightarrow> nat \<Rightarrow> bool" where
  "user_page s r k fr \<longleftrightarrow> pt_inv s r \<and> k < 2 ^ 35 \<and> pte_of (mem s) r (page_va k) AND 1 \<noteq> 0
     \<and> frame_of (pte_of (mem s) r (page_va k)) = fr \<and> fr < length (pages s) \<and> fr \<notin> free_pages s \<and> fr \<notin> tables s r"

lemma tables_below: "pt_inv s r \<Longrightarrow> g \<in> tables s r \<Longrightarrow> g < 2 ^ 18"
  using pt_inv_mm [of s r] by (auto simp: tables_def mm_inv_def)

text \<open>A store into a page that is no table of the address space.\<close>

lemma page_store_space:
  assumes inv: "pt_inv s r" and q: "q < 2 ^ 18" "q \<notin> tables s r" and c: "c + length bs \<le> 4096"
  defines "m' \<equiv> store_bytes (mem s) (PAGE2VA q + of_nat c) bs"
  shows "pt_inv (s\<lparr>mem := m'\<rparr>) r" and "tables (s\<lparr>mem := m'\<rparr>) r = tables s r"
    and "user_va va \<Longrightarrow> pte_of m' r va = pte_of (mem s) r va"
proof -
  have look: "load64 m' (PAGE2VA g + 8 * i) = load64 (mem s) (PAGE2VA g + 8 * i)" if g: "g \<in> tables s r" and i: "i < 512" for g i
  proof -
    have u: "unat i < 512" using i by (simp only: unat_less_512)
    have "apart (PAGE2VA q + of_nat c) (length bs) (PAGE2VA g + of_nat (8 * unat i)) 8"
      using q g tables_below [OF inv g] c u by (intro page_range_apart) auto
    then show ?thesis unfolding m'_def by (intro load64_store_bytes_disj) simp
  qed
  have n: "node (mem (s\<lparr>mem := m'\<rparr>)) r js = node (mem s) r js" if "upath js" for js
    using pt_frame(1) [OF inv _ that, of m'] look by simp
  show "pt_inv (s\<lparr>mem := m'\<rparr>) r" "tables (s\<lparr>mem := m'\<rparr>) r = tables s r"
    using pt_inv_cong [OF inv n] pt_inv_mm [OF inv] tables_not_free [OF inv] by simp_all
  show "user_va va \<Longrightarrow> pte_of m' r va = pte_of (mem s) r va"
    using pt_frame(2) [OF inv, of m'] look by simp
qed

lemma user_page_store:
  assumes "user_page s r k fr" and "q < 2 ^ 18" "q \<notin> tables s r" and "c + length bs \<le> 4096"
  shows "user_page (s\<lparr>mem := store_bytes (mem s) (PAGE2VA q + of_nat c) bs\<rparr>) r k fr"
  using assms page_store_space [of s r q c bs] page_va_facts(2) [of k] by (simp add: user_page_def)

lemma upd_is_store: "m(a := b) = store_bytes m a [b]"
  by (auto simp: store_bytes_def fun_eq_iff unat_eq_0)

lemma copy_to_user:
  assumes up: "user_page s r k fr" and q: "q < 2 ^ 18" "q \<noteq> fr" and n: "b + n \<le> 4096" "c + n \<le> 4096"
  shows "vmemcpy r (page_va k + of_nat b) (PAGE2VA q + of_nat c) (of_nat n) (mem s)
     = Inr (store_bytes (mem s) (PAGE2VA fr + of_nat b) (load_bytes (mem s) (PAGE2VA q + of_nat c) n))"
proof -
  have inv: "pt_inv s r" and k: "k < 2 ^ 35" and nt: "fr \<notin> tables s r"
    and e: "pte_of (mem s) r (page_va k) AND 1 \<noteq> 0" "frame_of (pte_of (mem s) r (page_va k)) = fr"
    using up by (simp_all add: user_page_def)
  have f: "fr < 2 ^ 18" using up pt_inv_mm [OF inv] by (simp add: user_page_def mm_inv_def)
  define P where "P m \<longleftrightarrow> user_page (s\<lparr>mem := m\<rparr>) r k fr \<and> tables (s\<lparr>mem := m\<rparr>) r = tables s r" for m
  have u: "unat (of_nat n :: u32) = n" using n by (intro unat_of_nat_small) simp
  have "vmemcpy r (page_va k + of_nat b) (PAGE2VA q + of_nat c) (of_nat n) (mem s)
     = Inr (memcpy (mem s) (PAGE2VA fr + of_nat b) (PAGE2VA q + of_nat c) (of_nat n))"
  proof (rule vmemcpy_translated [where P = P], unfold u)
    fix m and i :: nat assume P: "P m" and i: "i < n"
    have bi: "b + i < 4096" "c + i < 4096" using i n by simp_all
    note v = page_va_inside [OF k bi(1)]
    have "pte_of m r (page_va k + of_nat (b + i)) = pte_of m r (page_va k)"
      using v(1) page_va_facts(1) [OF k] by (intro pte_of_page) simp
    then have "mmu m r (page_va k + of_nat (b + i)) = Some (PAGE2VA fr + of_nat (b + i))"
      using mmu_user [of m r "page_va k + of_nat (b + i)", OF refl] P v(3,4) by (simp add: P_def user_page_def table_of_frame)
    then show "mmu m r (page_va k + of_nat b + of_nat i) = Some (PAGE2VA fr + of_nat b + of_nat i)"
      by (simp add: add.assoc)
    have "KBASE \<le> PAGE2VA q + of_nat (c + i)" using q(1) bi(2) by (rule kernel_page_byte)
    then show "mmu m r (PAGE2VA q + of_nat c + of_nat i) = Some (PAGE2VA q + of_nat c + of_nat i)"
      by (intro mmu_kernel) (simp add: add.assoc)
    show "P (m(PAGE2VA fr + of_nat b + of_nat i := x))" for x
      using P user_page_store [of "s\<lparr>mem := m\<rparr>" r k fr fr "b + i" "[x]"]
        page_store_space(2) [of "s\<lparr>mem := m\<rparr>" r fr "b + i" "[x]"] f nt bi(1)
      by (simp add: P_def user_page_def upd_is_store add.assoc)
  qed (simp add: P_def up)
  also have "memcpy (mem s) (PAGE2VA fr + of_nat b) (PAGE2VA q + of_nat c) (of_nat n)
      = store_bytes (mem s) (PAGE2VA fr + of_nat b) (load_bytes (mem s) (PAGE2VA q + of_nat c) n)"
  proof (cases "n = 0")
    case True
    then show ?thesis by (simp add: memcpy_def load_bytes_def store_bytes_cong)
  next
    case False
    have "apart (PAGE2VA q + of_nat c) n (PAGE2VA fr + of_nat b) n"
      using q f n by (intro page_range_apart) auto
    then have "\<not> (unat (PAGE2VA fr + of_nat b - (PAGE2VA q + of_nat c)) < n \<and> unat (PAGE2VA fr + of_nat b - (PAGE2VA fr + of_nat b)) < n)"
      unfolding apart_def by blast
    then have "n \<le> unat (PAGE2VA fr + of_nat b - (PAGE2VA q + of_nat c))" using False by simp
    then show ?thesis using n u by (simp add: memcpy_def memcpy_loop_store)
  qed
  finally show ?thesis .
qed

section \<open>One round of the loop\<close>

lemma breads_space:
  fixes s :: "('d, 'a) kfs_scheme"
  assumes br: "breads a bn s p s'" and ata: "ata io a" and inv: "pt_inv s r"
  shows "pt_inv s' r" and "tables s' r = tables s r" and "p < 2 ^ 18" and "p \<notin> tables s r"
    and "user_va va \<Longrightarrow> pte_of (mem s') r va = pte_of (mem s) r va"
proof -
  have len: "length (pages s) \<le> 2 ^ 18" using pt_inv_mm [OF inv] by (simp add: mm_inv_def)
  have fp: "p \<in> free_pages s" "free_pages s' = free_pages s - {p}" "mm_inv s'" "length (pages s') = length (pages s)"
    "mem s' = store_bytes (mem s) (PAGE2VA p) (block_bytes a (dev s) bn)"
    using br by (simp_all add: breads_def)
  show p: "p < 2 ^ 18" "p \<notin> tables s r"
    using fp(1) len tables_not_free [OF inv] by (auto simp: free_pages_def)
  let ?s = "s\<lparr>mem := mem s'\<rparr>"
  have m: "mem s' = store_bytes (mem s) (PAGE2VA p + of_nat 0) (block_bytes a (dev s) bn)" using fp(5) by simp
  have "0 + length (block_bytes a (dev s) bn) \<le> 4096" by (simp add: length_block_bytes [OF ata])
  note st = page_store_space [OF inv p this, folded m]
  show "pt_inv s' r" "tables s' r = tables s r"
    using pt_inv_cong [of ?s r s', OF st(1) refl [THEN trans] fp(3)] st(2) fp(2,4) tables_not_free [OF inv] by auto
  show "user_va va \<Longrightarrow> pte_of (mem s') r va = pte_of (mem s) r va" by (rule st(3))
qed

lemma breads_user_page:
  fixes s :: "('d, 'a) kfs_scheme"
  assumes "breads a bn s p s'" "ata io a" "user_page s r k fr"
  shows "user_page s' r k fr"
proof -
  have inv: "pt_inv s r" and k: "k < 2 ^ 35" using assms(3) by (simp_all add: user_page_def)
  show ?thesis
    using assms breads_space(1,2) [OF assms(1,2) inv] breads_space(5) [OF assms(1,2) inv page_va_facts(2) [OF k]]
    by (auto simp: user_page_def breads_def)
qed

lemma page_bytes_store:
  assumes "b + length bs \<le> 4096"
  shows "page_bytes (store_bytes m (PAGE2VA f + of_nat b) bs) f
    = take b (page_bytes m f) @ bs @ drop (b + length bs) (page_bytes m f)"
proof (rule nth_equalityI)
  fix i assume "i < length (page_bytes (store_bytes m (PAGE2VA f + of_nat b) bs) f)"
  then have i: "i < 4096" by (simp add: page_bytes_def)
  have u: "unat (of_nat i - of_nat b :: u64) = (if b \<le> i then i - b else 2 ^ 64 + i - b)"
    using i assms by (auto simp: unat_of_nat of_nat_diff [symmetric] take_bit_eq_mod unat_sub_if' simp del: of_nat_diff)
  show "page_bytes (store_bytes m (PAGE2VA f + of_nat b) bs) f ! i
     = (take b (page_bytes m f) @ bs @ drop (b + length bs) (page_bytes m f)) ! i"
    using i assms u by (auto simp: page_bytes_def load_bytes_def store_bytes_def nth_append)
qed (use assms in \<open>simp add: page_bytes_def\<close>)

lemma page_bytes_elsewhere:
  assumes "f < 2 ^ 18" "g < 2 ^ 18" "f \<noteq> g" "b + length bs \<le> 4096"
  shows "page_bytes (store_bytes m (PAGE2VA g + of_nat b) bs) f = page_bytes m f"
  using page_range_apart [of g f b "length bs" 0 4096] assms by (simp add: page_bytes_def load_store_bytes_disj)

lemma page_load: "c + n \<le> 4096 \<Longrightarrow> load_bytes m (PAGE2VA f + of_nat c) n = take n (drop c (page_bytes m f))"
  by (rule nth_equalityI) (simp_all add: page_bytes_def load_bytes_def algebra_simps)

text \<open>
  From \<open>s\<close> to \<open>s'\<close> the bytes \<open>bs\<close> have been read to offset \<open>b\<close> of the frame \<open>fr\<close>; the pages \<open>pg\<close> have
  been taken from the pool on the way.
\<close>

definition reads_to :: "('d, 'a) kproc_scheme \<Rightarrow> ('d, 'a) kproc_scheme \<Rightarrow> u64 \<Rightarrow> nat \<Rightarrow> nat \<Rightarrow> u8 list \<Rightarrow> nat set \<Rightarrow> bool" where
  "reads_to s s' r fr b bs pg \<longleftrightarrow>
     page_bytes (mem s') fr = take b (page_bytes (mem s) fr) @ bs @ drop (b + length bs) (page_bytes (mem s) fr)
     \<and> (\<forall>h < 2 ^ 18. h \<noteq> fr \<longrightarrow> h \<notin> pg \<longrightarrow> page_bytes (mem s') h = page_bytes (mem s) h)
     \<and> (\<forall>va. user_va va \<longrightarrow> pte_of (mem s') r va = pte_of (mem s) r va)
     \<and> pg \<subseteq> free_pages s \<and> free_pages s' = free_pages s - pg
     \<and> procs s' = procs s \<and> current s' = current s \<and> filetable s' = filetable s
     \<and> length (pages s') = length (pages s) \<and> kfs.more s' = kfs.more s"

lemma reads_to_trans:
  assumes "reads_to s s1 r fr b bs pg" "reads_to s1 s2 r fr (b + length bs) bs' pg'" "b + length bs + length bs' \<le> 4096"
  shows "reads_to s s2 r fr b (bs @ bs') (pg \<union> pg')"
proof -
  have "length (page_bytes (mem s) fr) = 4096" by (simp add: page_bytes_def)
  then show ?thesis using assms unfolding reads_to_def by (auto simp: algebra_simps)
qed

definition read_ctx :: "('d, 'a) kproc_scheme \<Rightarrow> u64 \<Rightarrow> nat \<Rightarrow> nat \<Rightarrow> u64 \<Rightarrow> nat \<Rightarrow> nat \<Rightarrow> bool" where
  "read_ctx s r k fr ip g j \<longleftrightarrow> user_page s r k fr \<and> cpu_root s = r \<and> inode_at s ip g j \<and> g \<noteq> fr"


lemma wrap32_small: "0 \<le> x \<Longrightarrow> x < 2 ^ 31 \<Longrightarrow> wrap32 x = x"
  unfolding wrap32_def by (simp add: signed_of_int signed_take_bit_int_eq_self)

lemma min_count_nat:
  assumes "x \<le> 4096"
  shows "min_count (int x) n = int (min x (unat n))"
proof -
  have u: "unat (word_of_int (int x) :: u32) = x" using assms by (simp add: unat_of_nat_small)
  show ?thesis
  proof (cases "unat n < x")
    case True
    then have "unat n < 4096" using assms by simp
    then have "uint n < 4096" by (metis of_nat_less_iff of_nat_numeral uint_nat)
    then have "signed_take_bit 31 (uint n) = uint n" by (intro signed_take_bit_int_eq_self) (simp_all add: order_trans [OF _ uint_ge_0])
    moreover have "sint n = signed_take_bit 31 (uint n)" by (subst sint_uint) simp
    ultimately have "sint n = int (unat n)" by simp
    then show ?thesis using True u by (simp add: min_count_def word_less_nat_alt)
  next
    case False
    then show ?thesis using assms u by (simp add: min_count_def word_less_nat_alt wrap32_small)
  qed
qed

lemma file_read_step_reads:
  fixes s :: "('d, 'a) kproc_scheme"
  assumes ata: "ata io a" and ctx: "read_ctx s r k fr (f_inode file) g j" and ne: "free_pages s \<noteq> {}"
    and n: "off + n < 40960" and blk: "bn = inode_block s (f_inode file) ((off + n) div 4096)" "bn \<noteq> 0"
    and len: "len = min (4096 - (off + n) mod 4096) (unat cnt)" "b + len \<le> 4096"
  shows "\<exists>p x s'. file_read_step io file (page_va k + of_nat b) cnt (int off) (int n) dn s = Inr (Some (int len), Some x, s')
    \<and> reads_to s s' r fr b (take len (drop ((off + n) mod 4096) (block_bytes a (dev s) (unat bn)))) {p}
    \<and> read_ctx s' r k fr (f_inode file) g j \<and> sectors a (dev s') = sectors a (dev s)
    \<and> (\<forall>i \<le> 10. inode_block s' (f_inode file) i = inode_block s (f_inode file) i)"
proof -
  let ?i = "(off + n) div 4096" and ?c = "(off + n) mod 4096" and ?ip = "f_inode file"
  have i: "?i < 10" using n by simp
  have pos: "wrap32 (int off + int n) = int (off + n)" using n by (simp add: wrap32_small)
  have sd: "int (off + n) sdiv 4096 = int ?i" "int (off + n) smod 4096 = int ?c"
    unfolding signed_divide_int_def signed_modulo_int_def by (cases "off + n = 0"; simp del: of_nat_add add: zdiv_int zmod_int)+
  have up: "user_page s r k fr" and cr: "cpu_root s = r" and ia: "inode_at s ?ip g j" and gf: "g \<noteq> fr"
    using ctx by (simp_all add: read_ctx_def)
  note inv = up [unfolded user_page_def, THEN conjunct1]
  note mm = pt_inv_mm [OF inv]
  have w: "walk_block io ?ip (word_of_int (int ?i)) dn 0 s = Inr (0, Some (?ip + 10 + 2 * of_nat ?i), s)"
    using walk_block_small [OF i, of io ?ip dn 0 s] by simp
  have la: "load16 (mem s) (?ip + 10 + 2 * of_nat ?i) = bn" using blk(1) by (simp add: inode_block_def)
  have ub: "unat bn < 2 ^ 16" by (rule order_less_le_trans [OF unsigned_less]) simp
  then have u: "unat (ucast bn :: u32) = unat bn" by (simp add: unsigned_ucast_eq take_bit_nat_eq_self)
  with ub have "(ucast bn :: u32) < 2 ^ 25" by (simp add: word_less_nat_alt)
  from bread_breads [OF ata mm ne this] obtain p s2 where
    br: "bread io (ucast bn) s = Inr (PAGE2VA p, s2)" "breads a (unat bn) s p s2"
    unfolding u by blast
  let ?blk = "block_bytes a (dev s) (unat bn)"
  have bl: "length ?blk = 4096" by (rule length_block_bytes [OF ata])
  note fs = br(2) [unfolded breads_def]
  note sp = breads_space [OF br(2) ata inv]
  have up2: "user_page s2 r k fr" by (rule breads_user_page [OF br(2) ata up])
  have frl: "fr < 2 ^ 18" "fr \<notin> tables s2 r" "fr \<notin> free_pages s" "p \<noteq> fr"
    using up up2 fs mm by (auto simp: user_page_def mm_inv_def)
  have ws: "?c + len \<le> 4096" using len(1) by simp
  have lw: "(word_of_int (int len) :: u32) = of_nat len" by simp
  let ?d = "take len (drop ?c ?blk)"
  have "mem s2 = store_bytes (mem s) (PAGE2VA p + of_nat 0) ?blk" using fs by simp
  then have pb: "page_bytes (mem s2) p = ?blk"
    using page_bytes_store [of 0 ?blk "mem s" p] bl by (simp add: page_bytes_def)
  have ld: "load_bytes (mem s2) (PAGE2VA p + of_nat ?c) len = ?d"
    by (simp only: page_load [OF ws] pb)
  have cr2: "cpu_root s2 = r" "procs s2 = procs s" "current s2 = current s" "filetable s2 = filetable s"
    using cr fs same_more_procs [of s s2] by (simp_all add: same_more_def same_procs_def cpu_root_def) (cases s; cases s2; simp)
  let ?s' = "s2\<lparr>mem := store_bytes (mem s2) (PAGE2VA fr + of_nat b) ?d\<rparr>"
  have cp: "vmemcpy r (page_va k + of_nat b) (PAGE2VA p + of_nat ?c) (of_nat len) (mem s2)
      = Inr (store_bytes (mem s2) (PAGE2VA fr + of_nat b) ?d)"
    using copy_to_user [OF up2 sp(3) frl(4) len(2) ws] by (simp only: ld)
  note ad = inode_block_addr [OF ia less_imp_le [OF i]]
  have gl: "g < 2 ^ 18" "g \<notin> free_pages s" using ia mm by (simp_all add: inode_at_def mm_inv_def)
  have "KBASE \<le> ?ip + 10 + 2 * of_nat ?i"
    unfolding ad [THEN conjunct1] using ad gl by (intro kernel_page_byte) simp_all
  then have nz: "?ip + 10 + 2 * of_nat ?i \<noteq> 0" by (auto simp: KBASE_def)
  have step: "file_read_step io file (page_va k + of_nat b) cnt (int off) (int n) dn s
      = Inr (Some (int len), Some (?ip + 10 + 2 * of_nat ?i), ?s')"
    using w la blk(2) br(1) cp cr2(1) nz len ia min_count_nat [of "4096 - ?c" cnt]
    unfolding file_read_step_def Let_def pos sd
    by (simp add: of_nat_diff)
  have keep: "page_bytes (mem ?s') h = page_bytes (mem s) h" if h: "h < 2 ^ 18" "h \<noteq> fr" "h \<notin> {p}" for h
  proof -
    have "page_bytes (mem ?s') h = page_bytes (mem s2) h"
      using page_bytes_elsewhere [of h fr b ?d "mem s2"] h frl(1) len(2) by simp
    also have "\<dots> = page_bytes (mem s) h"
      using page_bytes_elsewhere [of h p 0 ?blk "mem s"] h sp(3) bl fs by simp
    finally show ?thesis .
  qed
  have space: "user_page ?s' r k fr" "pte_of (mem ?s') r va = pte_of (mem s) r va" if "user_va va" for va
    using user_page_store [OF up2 frl(1,2), of b ?d] page_store_space(3) [OF _ frl(1,2), of b ?d va] up2 sp(5) [of va] that len(2)
    by (simp_all add: user_page_def)
  have frp: "page_bytes (mem s2) fr = page_bytes (mem s) fr"
    using page_bytes_elsewhere [of fr p 0 ?blk "mem s"] frl(1,4) sp(3) bl fs by simp
  have "reads_to s ?s' r fr b ?d {p}"
    unfolding reads_to_def using page_bytes_store [of b ?d "mem s2" fr] frp keep space(2) fs cr2 len(2) by simp
  moreover have ia': "inode_at ?s' ?ip g j" using ia fs by (simp add: inode_at_def)
  moreover have "inode_block ?s' ?ip i = inode_block s ?ip i" if i: "i \<le> 10" for i
  proof -
    note ai = inode_block_addr [OF ia i]
    have "page_bytes (mem ?s') g = page_bytes (mem s) g" using gl gf fs by (intro keep) auto
    then show ?thesis
      unfolding inode_block_def load16_def ai [THEN conjunct1] using ai by (simp only: page_load)
  qed
  moreover have "read_ctx ?s' r k fr ?ip g j"
    using space(1) [OF page_va_facts(2), of k] up ia' gf cr2(1) by (simp add: read_ctx_def user_page_def cpu_root_def)
  ultimately show ?thesis using step fs by (intro exI [of _ p] exI [of _ "?ip + 10 + 2 * of_nat ?i"] exI [of _ ?s']) simp
qed

section \<open>Reading within a block and across two\<close>

lemma loop_round:
  fixes n :: nat
  assumes "n < 2 ^ 31" "n < unat cnt" and "file_read_step io file ubuf cnt offset (int n) dn s = Inr (Some (int k), dn', s1)" and "n + k < 2 ^ 31"
  shows "file_read_loop io file ubuf cnt offset (int n) dn s
     = file_read_loop io (file\<lparr>f_offset := wrap32 (f_offset file + int k)\<rparr>) (ubuf + of_nat k) cnt offset (int (n + k)) dn' s1"
proof -
  have "(word_of_int (int n) :: u32) < cnt" using assms(1,2) by (simp add: word_less_nat_alt unat_of_nat_small)
  moreover have "wrap32 (int n + int k) = int (n + k)" using assms(4) by (simp add: wrap32_small)
  ultimately show ?thesis
    using assms(3) by (subst file_read_loop.simps) simp
qed

lemma loop_end:
  fixes n :: nat
  assumes "n < 2 ^ 31" "unat cnt \<le> n"
  shows "file_read_loop io file ubuf cnt offset (int n) dn s = Some (Inr (int n, file, s))"
proof -
  have "\<not> (word_of_int (int n) :: u32) < cnt" using assms by (simp add: word_less_nat_alt unat_of_nat_small)
  then show ?thesis by (subst file_read_loop.simps) simp
qed

text \<open>The bytes at \<open>off\<close> of the file with the inode at \<open>ip\<close>: \<open>n\<close> of them, all in one block.\<close>

definition file_bytes :: "'d drive \<Rightarrow> ('d, 'a) kfs_scheme \<Rightarrow> u64 \<Rightarrow> nat \<Rightarrow> nat \<Rightarrow> u8 list" where
  "file_bytes a s ip off n =
     take n (drop (off mod 4096) (block_bytes a (dev s) (unat (inode_block s ip (off div 4096)))))"

lemma file_read_one:
  fixes s :: "('d, 'a) kproc_scheme"
  assumes ata: "ata io a" and ctx: "read_ctx s r k fr (f_inode file) g j" and ne: "free_pages s \<noteq> {}"
    and off: "off < 40960" "inode_block s (f_inode file) (off div 4096) \<noteq> 0"
    and c: "unat cnt = c" and cnt: "0 < c" "off mod 4096 + c \<le> 4096" "b + c \<le> 4096"
  shows "\<exists>p s'. file_read io file (page_va k + of_nat b) cnt (int off) s
      = Inr (int c, file\<lparr>f_offset := wrap32 (f_offset file + int c)\<rparr>, s')
    \<and> reads_to s s' r fr b (file_bytes a s (f_inode file) off c) {p} \<and> read_ctx s' r k fr (f_inode file) g j
    \<and> sectors a (dev s') = sectors a (dev s) \<and> (\<forall>i \<le> 10. inode_block s' (f_inode file) i = inode_block s (f_inode file) i)"
proof -
  have len: "c = min (4096 - (off + 0) mod 4096) (unat cnt)" using c cnt(2) by simp
  have n: "off + 0 < 40960" using off(1) by simp
  obtain p x s' where st: "file_read_step io file (page_va k + of_nat b) cnt (int off) (int 0) None s = Inr (Some (int c), Some x, s')"
    "reads_to s s' r fr b (file_bytes a s (f_inode file) off c) {p}" "read_ctx s' r k fr (f_inode file) g j"
    "sectors a (dev s') = sectors a (dev s)" "\<forall>i \<le> 10. inode_block s' (f_inode file) i = inode_block s (f_inode file) i"
    using file_read_step_reads [OF ata ctx ne n refl _ len cnt(3), of None] off(2) by (auto simp: file_bytes_def)
  have "file_read io file (page_va k + of_nat b) cnt (int off) s
      = Inr (int c, file\<lparr>f_offset := wrap32 (f_offset file + int c)\<rparr>, s')"
    using loop_round [OF _ _ st(1)] c cnt by (simp add: file_read_def returns_def loop_end)
  then show ?thesis using st(2-5) by blast
qed

lemma file_read_two:
  fixes s :: "('d, 'a) kproc_scheme"
  assumes ata: "ata io a" and ctx: "read_ctx s r k fr (f_inode file) g j" and room: "2 \<le> card (free_pages s)"
    and off: "off + 4096 < 40960" "inode_block s (f_inode file) (off div 4096) \<noteq> 0"
      "inode_block s (f_inode file) (Suc (off div 4096)) \<noteq> 0"
    and c: "unat cnt = c" and cnt: "c \<le> 4096" "4096 < off mod 4096 + c" "rest = 4096 - off mod 4096" "b + rest + c \<le> 4096"
  shows "\<exists>pg s'. file_read io file (page_va k + of_nat b) cnt (int off) s
      = Inr (int (rest + c), file\<lparr>f_offset := wrap32 (wrap32 (f_offset file + int rest) + int c)\<rparr>, s')
    \<and> reads_to s s' r fr b (file_bytes a s (f_inode file) off rest
        @ file_bytes a s (f_inode file) (4096 * Suc (off div 4096)) c) pg \<and> user_page s' r k fr"
proof -
  let ?ip = "f_inode file"
  have rest: "rest = min (4096 - (off + 0) mod 4096) (unat cnt)" "rest < c" "rest < unat cnt" "rest \<le> 4096" using c cnt by simp_all
  have n: "off + 0 < 40960" using off(1) by simp
  have ne: "free_pages s \<noteq> {}" using room by auto
  have b: "b + rest \<le> 4096" using cnt(4) by simp
  obtain p x s1 where s1: "file_read_step io file (page_va k + of_nat b) cnt (int off) (int 0) None s = Inr (Some (int rest), Some x, s1)"
    "reads_to s s1 r fr b (file_bytes a s ?ip off rest) {p}" "read_ctx s1 r k fr ?ip g j"
    "sectors a (dev s1) = sectors a (dev s)" "\<forall>i \<le> 10. inode_block s1 ?ip i = inode_block s ?ip i"
    using file_read_step_reads [OF ata ctx ne n refl _ rest(1) b, of None] off(2) by (auto simp: file_bytes_def)
  let ?file = "file\<lparr>f_offset := wrap32 (f_offset file + int rest)\<rparr>"
  have nx: "off + rest = 4096 * Suc (off div 4096)" using cnt(3) by (simp add: minus_mod_eq_mult_div [symmetric])
  have d: "(off + rest) div 4096 = Suc (off div 4096)" "(off + rest) mod 4096 = 0" by (simp_all only: nx) simp_all
  have n1: "off + rest < 40960" using off(1) rest(4) by simp
  have i: "Suc (off div 4096) \<le> 10" using off(1) by simp
  have len1: "c = min (4096 - (off + rest) mod 4096) (unat cnt)" using c cnt(1) d(2) by simp
  have "free_pages s1 = free_pages s - {p}" "p \<in> free_pages s" using s1(2) by (simp_all add: reads_to_def)
  then have ne1: "free_pages s1 \<noteq> {}" using room card_mono [of "{p}" "free_pages s"] by auto
  have ctx1: "read_ctx s1 r k fr (f_inode ?file) g j" using s1(3) by simp
  have blk: "inode_block s1 (f_inode ?file) ((off + rest) div 4096) \<noteq> 0" using s1(5) off(3) i d(1) by simp
  have bb: "block_bytes a (dev s1) x = block_bytes a (dev s) x" for x using s1(4) by (simp add: block_bytes_def)
  have l: "length (file_bytes a s ?ip off rest) = rest"
    using cnt(3) by (simp add: file_bytes_def length_block_bytes [OF ata] min_absorb2)
  obtain q y s2 where s2: "file_read_step io ?file (page_va k + of_nat (b + rest)) cnt (int off) (int rest) (Some x) s1
      = Inr (Some (int c), Some y, s2)"
    "reads_to s1 s2 r fr (b + rest) (file_bytes a s ?ip (4096 * Suc (off div 4096)) c) {q}" "read_ctx s2 r k fr ?ip g j"
    using file_read_step_reads [OF ata ctx1 ne1 n1 refl blk len1 cnt(4), of "Some x"] s1(5) i d bb
    by (auto simp: file_bytes_def)
  have "file_read io file (page_va k + of_nat b) cnt (int off) s
      = Inr (int (rest + c), ?file\<lparr>f_offset := wrap32 (f_offset ?file + int c)\<rparr>, s2)"
  proof -
    have e: "page_va k + of_nat b + of_nat rest = page_va k + of_nat (b + rest)" by (simp add: add.assoc)
    have "file_read_loop io file (page_va k + of_nat b) cnt (int off) (int 0) None s
        = file_read_loop io ?file (page_va k + of_nat (b + rest)) cnt (int off) (int rest) (Some x) s1"
      using loop_round [OF _ _ s1(1), unfolded e add_0] rest(2-4) by simp
    also have "\<dots> = Some (Inr (int (rest + c), ?file\<lparr>f_offset := wrap32 (f_offset ?file + int c)\<rparr>, s2))"
      using rest(4) cnt(1) c by (subst loop_round [OF _ rest(3) s2(1)]) (simp_all add: loop_end del: of_nat_add)
    finally show ?thesis by (simp add: file_read_def returns_def)
  qed
  moreover have "reads_to s s2 r fr b (file_bytes a s ?ip off rest @ file_bytes a s ?ip (4096 * Suc (off div 4096)) c) ({p} \<union> {q})"
    using s1(2) s2(2) cnt(1,4) l
    by (intro reads_to_trans) (simp_all add: file_bytes_def length_block_bytes [OF ata])
  ultimately show ?thesis using s2(3) by (auto simp: read_ctx_def)
qed

section \<open>Properties of reading\<close>

text \<open>C9. \<open>sys_read\<close> from a file on disk into a buffer in one user page, where the bytes asked for lie in one
  of the first ten blocks: the call returns their number, the buffer holds exactly the bytes of the file
  (the drive behaving as documented), the file's offset advances by as much; no other byte of any page
  changes except in one page of the pool, which was taken for the block and is not given back, and the address
  space stays.\<close>

theorem read_in_block:
  fixes s :: "('d, 'a) kproc_scheme"
  assumes ata: "ata io a" and fd: "get_fd fd s = Inr (Some f)" and opened: "file = filetable s ! f" "f_type file = FDFILE"
    and off: "f_offset file = int off" "off < 40960" "inode_block s (f_inode file) (off div 4096) \<noteq> 0"
    and buffer: "user_page s r k fr" "cpu_root s = r" "b + unat cnt \<le> 4096"
    and inode: "inode_at s (f_inode file) g j" "g \<noteq> fr"
    and ne: "free_pages s \<noteq> {}" and cnt: "0 < unat cnt" "off mod 4096 + unat cnt \<le> 4096"
  shows "\<exists>p s'. sys_read io fd (page_va k + of_nat b) cnt s = Inr (int (unat cnt), s')
    \<and> page_bytes (mem s') fr = take b (page_bytes (mem s) fr) @ file_bytes a s (f_inode file) off (unat cnt)
        @ drop (b + unat cnt) (page_bytes (mem s) fr)
    \<and> (\<forall>h < 2 ^ 18. h \<noteq> fr \<longrightarrow> h \<noteq> p \<longrightarrow> page_bytes (mem s') h = page_bytes (mem s) h)
    \<and> (\<forall>va. user_va va \<longrightarrow> pte_of (mem s') r va = pte_of (mem s) r va)
    \<and> p \<in> free_pages s \<and> free_pages s' = free_pages s - {p}
    \<and> filetable s' = (filetable s)[f := file\<lparr>f_offset := int (off + unat cnt)\<rparr>]"
proof -
  have ctx: "read_ctx s r k fr (f_inode file) g j" using buffer inode by (simp add: read_ctx_def)
  have l: "length (file_bytes a s (f_inode file) off (unat cnt)) = unat cnt"
    using cnt by (simp add: file_bytes_def length_block_bytes [OF ata])
  have "off + unat cnt < 2 ^ 31" using off(2) cnt(2) by simp
  then have o: "wrap32 (int off + int (unat cnt)) = int (off + unat cnt)"
    using wrap32_small [of "int (off + unat cnt)"] by (simp only: of_nat_add of_nat_less_iff [symmetric, where 'a = int] of_nat_power of_nat_numeral)
  obtain p s' where r: "file_read io file (page_va k + of_nat b) cnt (int off) s
      = Inr (int (unat cnt), file\<lparr>f_offset := int (off + unat cnt)\<rparr>, s')"
    "reads_to s s' r fr b (file_bytes a s (f_inode file) off (unat cnt)) {p}"
    using file_read_one [OF ata ctx ne off(2,3) refl cnt buffer(3)] unfolding off(1) o by blast
  have "free_pages (s'\<lparr>filetable := x\<rparr>) = free_pages s'" for x by (rule mm_cong) simp_all
  then show ?thesis
    using r fd opened off(1) l
    by (intro exI [of _ p] exI [of _ "upd_file f (\<lambda>_. file\<lparr>f_offset := int (off + unat cnt)\<rparr>) s'"])
      (simp add: sys_read_def reads_to_def upd_file_def)
qed

text \<open>C22. Where the bytes asked for reach into the next block, \<open>sys_read\<close> reads too many: with \<open>rest\<close> bytes
  left in the first block it returns \<open>rest + cnt\<close>, not \<open>cnt\<close>: it copies the rest of the block and
  then \<open>cnt\<close> bytes of the next one, because \<open>MIN(remain, count)\<close> never takes off what has been read.  The
  \<open>rest\<close> bytes behind the caller's buffer are overwritten.\<close>

theorem read_overruns:
  fixes s :: "('d, 'a) kproc_scheme"
  assumes ata: "ata io a" and fd: "get_fd fd s = Inr (Some f)" and opened: "file = filetable s ! f" "f_type file = FDFILE"
    and off: "f_offset file = int off" "off + 4096 < 40960" "inode_block s (f_inode file) (off div 4096) \<noteq> 0"
      "inode_block s (f_inode file) (Suc (off div 4096)) \<noteq> 0"
    and buffer: "user_page s r k fr" "cpu_root s = r" "b + rest + unat cnt \<le> 4096"
    and inode: "inode_at s (f_inode file) g j" "g \<noteq> fr"
    and room: "2 \<le> card (free_pages s)"
    and cnt: "unat cnt \<le> 4096" "4096 < off mod 4096 + unat cnt" "rest = 4096 - off mod 4096"
  shows "\<exists>s'. sys_read io fd (page_va k + of_nat b) cnt s = Inr (int (rest + unat cnt), s')
    \<and> page_bytes (mem s') fr = take b (page_bytes (mem s) fr) @ file_bytes a s (f_inode file) off rest
        @ file_bytes a s (f_inode file) (4096 * Suc (off div 4096)) (unat cnt) @ drop (b + rest + unat cnt) (page_bytes (mem s) fr)
    \<and> unat cnt < rest + unat cnt"
proof -
  have ctx: "read_ctx s r k fr (f_inode file) g j" using buffer inode by (simp add: read_ctx_def)
  let ?bs = "file_bytes a s (f_inode file) off rest" and ?bs' = "file_bytes a s (f_inode file) (4096 * Suc (off div 4096)) (unat cnt)"
  have l: "length ?bs = rest" "length ?bs' = unat cnt"
    using cnt by (simp_all add: file_bytes_def length_block_bytes [OF ata])
  obtain pg file' s' where r: "file_read io file (page_va k + of_nat b) cnt (int off) s = Inr (int (rest + unat cnt), file', s')"
    "reads_to s s' r fr b (?bs @ ?bs') pg"
    using file_read_two [OF ata ctx room off(2,3,4) refl cnt buffer(3)] by blast
  have "0 < rest" using cnt(3) by simp
  then show ?thesis
    using r fd opened off(1) l
    by (intro exI [of _ "upd_file f (\<lambda>_. file') s'"]) (simp add: sys_read_def reads_to_def upd_file_def add.assoc)
qed

section \<open>Witnesses\<close>

text \<open>Process 9 of the machine with an open file at descriptor 0, whose inode is in page 1 and whose blocks are all block 5.\<close>

definition read_machine :: "nat \<Rightarrow> ready_drive kvmx" where
  "read_machine off = fault_machine\<lparr>mem := store_bytes (mem fork_machine) (PAGE2VA 1 + of_nat 0) (replicate 10 0 @ [5, 0, 5, 0]),
     procs := (procs fault_machine)[9 := (procs fault_machine ! 9)\<lparr>fdtable := (replicate 32 None)[0 := Some 0]\<rparr>],
     filetable := [\<lparr>f_refcount = 1, f_offset = int off, f_inode = PAGE2VA 1, f_type = FDFILE\<rparr>]\<rparr>"

lemma read_machine_facts:
  "get_fd 0 (read_machine off) = Inr (Some 0)"
  "filetable (read_machine off) = [\<lparr>f_refcount = 1, f_offset = int off, f_inode = PAGE2VA 1, f_type = FDFILE\<rparr>]"
  "user_page (read_machine off) (PAGE2VA 0) 0x80000 2" "cpu_root (read_machine off) = PAGE2VA 0"
  "inode_at (read_machine off) (PAGE2VA 1) 1 0" "free_pages (read_machine off) = free_pages fork_machine"
  "inode_block (read_machine off) (PAGE2VA 1) 0 = 5" "inode_block (read_machine off) (PAGE2VA 1) 1 = 5"
  "dev (read_machine off) = small_drive"
proof -
  let ?m = "store_bytes (mem fork_machine) (PAGE2VA 1 + of_nat 0) (replicate 10 0 @ [5, 0, 5, 0])"
  let ?s = "fork_machine\<lparr>mem := ?m\<rparr>"
  have e: "pages (read_machine off) = pages ?s" "phead (read_machine off) = phead ?s"
    "npages (read_machine off) = npages ?s" "mem (read_machine off) = mem ?s"
    by (simp_all add: read_machine_def fault_machine_def)
  have two: "two_spaces fork_machine (PAGE2VA 0) (PAGE2VA 1)" by (rule fork_machine_facts)
  have one: "1 \<in> tables fork_machine (PAGE2VA 1)" "1 < length (pages fork_machine)" "2 < length (pages fork_machine)"
    by (auto simp: tables_def fork_machine_tables(3) intro!: exI [of _ "[]"])
  then have nt: "1 \<notin> tables fork_machine (PAGE2VA 0)" "1 \<notin> free_pages fork_machine"
    using two tables_not_free [of fork_machine "PAGE2VA 1"] by (auto simp: two_spaces_def)
  have UT: "user_va UTEXT" "vpn UTEXT = 0x80000" "UTEXT = page_va 0x80000"
    using page_va_facts [of "0x80000"] by (simp_all add: UTEXT_def page_va_def)
  have fr: "frame_of 0x2007 = 2" by (simp add: frame_of_def drop_bit_eq_div unat_div)
  have "user_page fork_machine (PAGE2VA 0) 0x80000 2"
    using fork_machine_tables fork_machine_facts(2) [OF UT(1)] fork_machine_facts(5) UT fr one by (simp add: user_page_def)
  then have up: "user_page ?s (PAGE2VA 0) 0x80000 2"
    using nt by (intro user_page_store) simp_all
  show "free_pages (read_machine off) = free_pages fork_machine" using mm_cong(2) [OF e(1-3)] by simp
  then show "user_page (read_machine off) (PAGE2VA 0) 0x80000 2"
    using up space_cong [OF e] e(1,4) by (simp add: user_page_def)
  show "inode_at (read_machine off) (PAGE2VA 1) 1 0"
    using one nt(2) e(1) mm_cong(2) [OF e(1-3)] by (simp add: inode_at_def)
  show "inode_block (read_machine off) (PAGE2VA 1) 0 = 5" "inode_block (read_machine off) (PAGE2VA 1) 1 = 5"
    by (simp_all add: inode_block_def e(4) load16_def load_bytes_def upt_conv_Cons store_bytes_def nth_append)
qed (simp_all add: read_machine_def fault_machine_def vm_machine_def proc_machine_def get_fd_def cpu_root_def PAGE2VA_def PAGE2PA_def zero_proc_def)

lemma block_5: "file_bytes ready (read_machine off) (PAGE2VA 1) n len
   = take len (drop (n mod 4096) ([1, 0] @ init_name @ replicate 4090 0))" if "n div 4096 < 2"
proof -
  have "inode_block (read_machine off) (PAGE2VA 1) (n div 4096) = 5"
    using that read_machine_facts(7,8) by (cases "n div 4096") (simp_all add: less_Suc_eq numeral_2_eq_2)
  then show ?thesis by (simp only: file_bytes_def read_machine_facts(9)) (simp add: small_fs_block)
qed

theorem read_in_block_witness:
  "\<exists>s'. sys_read ready_ports 0 (0x80000100) 4 (read_machine 2) = Inr (4, s')
     \<and> take 4 (drop 256 (page_bytes (mem s') 2)) = [0x69, 0x6E, 0x69, 0x74]"
proof -
  let ?s = "read_machine 2"
  note f = read_machine_facts [of 2]
  have ne: "free_pages ?s \<noteq> {}" using f(6) fork_machine_facts(4) by auto
  have va: "page_va 0x80000 + of_nat 256 = 0x80000100" by (simp add: page_va_def)
  have l: "length (page_bytes (mem ?s) 2) = 4096" by (simp add: page_bytes_def)
  obtain s' where s': "sys_read ready_ports 0 (page_va 0x80000 + of_nat 256) 4 ?s = Inr (int (unat (4 :: u32)), s')"
    "page_bytes (mem s') 2 = take 256 (page_bytes (mem ?s) 2) @ file_bytes ready ?s (PAGE2VA 1) 2 (unat (4 :: u32))
       @ drop (256 + unat (4 :: u32)) (page_bytes (mem ?s) 2)"
    using read_in_block [OF ata_ready f(1) refl _ _ _ _ f(3,4) _ _ _ ne, of 2 256 4 1 0] f(2,5,7) by auto
  have b: "file_bytes ready ?s (PAGE2VA 1) 2 4 = init_name" using block_5 [of 2 2 4] by (simp add: init_name_def)
  have u: "unat (4 :: u32) = 4" by simp
  have "page_bytes (mem s') 2 = take 256 (page_bytes (mem ?s) 2) @ init_name @ drop (256 + 4) (page_bytes (mem ?s) 2)"
    using s'(2) by (simp only: u b)
  then have "take 4 (drop 256 (page_bytes (mem s') 2)) = init_name" using l by (simp add: init_name_def)
  with s'(1) [unfolded va u] show ?thesis by (intro exI [of _ s']) (simp add: init_name_def)
qed

theorem read_overruns_witness:
  "\<exists>s'. sys_read ready_ports 0 (0x80000100) 4 (read_machine 4094) = Inr (6, s')
     \<and> take 6 (drop 256 (page_bytes (mem s') 2)) = [0, 0, 1, 0, 0x69, 0x6E]"
proof -
  let ?s = "read_machine 4094"
  note f = read_machine_facts [of 4094]
  have room: "2 \<le> card (free_pages ?s)" using f(6) fork_machine_facts(4) by simp
  have va: "page_va 0x80000 + of_nat 256 = 0x80000100" by (simp add: page_va_def)
  have l: "length (page_bytes (mem ?s) 2) = 4096" by (simp add: page_bytes_def)
  have o: "f_offset (filetable ?s ! 0) = int 4094" "f_inode (filetable ?s ! 0) = PAGE2VA 1" "f_type (filetable ?s ! 0) = FDFILE"
    by (simp_all add: f(2))
  have blk: "inode_block ?s (PAGE2VA 1) (4094 div 4096) \<noteq> 0" "inode_block ?s (PAGE2VA 1) (Suc (4094 div 4096)) \<noteq> 0"
    using f(7,8) by simp_all
  have c: "(4094 :: nat) + 4096 < 40960" "256 + 2 + unat (4 :: u32) \<le> 4096" "(1 :: nat) \<noteq> 2" "unat (4 :: u32) \<le> 4096"
    "4096 < 4094 mod 4096 + unat (4 :: u32)" "(2 :: nat) = 4096 - 4094 mod 4096"
    by simp_all
  note over = read_overruns [OF ata_ready f(1) refl o(3,1) c(1) _ _ f(3,4) c(2) _ c(3) room c(4-6), unfolded o(2), OF blk f(5)]
  obtain s' where s': "sys_read ready_ports 0 (page_va 0x80000 + of_nat 256) 4 ?s = Inr (int (2 + unat (4 :: u32)), s')"
    "page_bytes (mem s') 2 = take 256 (page_bytes (mem ?s) 2) @ file_bytes ready ?s (PAGE2VA 1) 4094 2
       @ file_bytes ready ?s (PAGE2VA 1) (4096 * Suc (4094 div 4096)) (unat (4 :: u32))
       @ drop (256 + 2 + unat (4 :: u32)) (page_bytes (mem ?s) 2)"
    using over by blast
  have d: "drop 4094 ([1, 0] @ init_name @ replicate 4090 (0 :: u8)) = replicate 2 0"
  proof -
    have "drop 4094 ([1, 0] @ init_name @ replicate 4090 (0 :: u8)) = drop 4088 (drop 6 ([1, 0] @ init_name @ replicate 4090 0))"
      unfolding drop_drop by (rule arg_cong2 [where f = drop]) simp_all
    also have "drop 6 ([1, 0] @ init_name @ replicate 4090 (0 :: u8)) = replicate 4090 0" by (simp add: init_name_def)
    finally show ?thesis by (simp only: drop_replicate) simp
  qed
  have m: "(4094 :: nat) mod 4096 = 4094" "(4096 :: nat) mod 4096 = 0" "(4094 :: nat) div 4096 < 2" "(4096 :: nat) div 4096 < 2"
    by simp_all
  have "file_bytes ready ?s (PAGE2VA 1) 4094 2 = take 2 (replicate 2 0)"
    unfolding block_5 [OF m(3)] m(1) d by (rule refl)
  then have b0: "file_bytes ready ?s (PAGE2VA 1) 4094 2 = [0, 0]" by (simp add: numeral_2_eq_2)
  have b1: "file_bytes ready ?s (PAGE2VA 1) 4096 4 = [1, 0, 0x69, 0x6E]"
    unfolding block_5 [OF m(4)] m(2) by (simp add: init_name_def)
  have u: "unat (4 :: u32) = 4" "4096 * Suc (4094 div 4096) = 4096" by simp_all
  have "page_bytes (mem s') 2 = take 256 (page_bytes (mem ?s) 2) @ [0, 0] @ [1, 0, 0x69, 0x6E] @ drop (256 + 2 + 4) (page_bytes (mem ?s) 2)"
    using s'(2) by (simp only: u b0 b1)
  then have "take 6 (drop 256 (page_bytes (mem s') 2)) = [0, 0, 1, 0, 0x69, 0x6E]" using l by simp
  with s'(1) [unfolded va u] show ?thesis by (intro exI [of _ s']) simp
qed

end
