(* ===== verification/Irq.thy ===== *)
theory Irq
  imports Trap
begin

text \<open>
  Interrupt controllers and the timer: the 8259 pair of \<^verbatim>\<open>kernel/pic.c\<close>, the 8254 of
  \<^verbatim>\<open>kernel/pit.c\<close>, and the local APIC and multiprocessor tables of \<^verbatim>\<open>kernel/lapic.c\<close>.  The
  controllers are reached through the port record; the local APIC is a page of memory-mapped
  registers, modelled as the sequence of writes to it and a function for reads.
\<close>

section \<open>The 8259 pair\<close>

definition MASTER_PIC_CMD :: u16 where "MASTER_PIC_CMD = 0x20"
definition MASTER_PIC_DATA :: u16 where "MASTER_PIC_DATA = 0x21"
definition SLAVE_PIC_CMD :: u16 where "SLAVE_PIC_CMD = 0xA0"
definition SLAVE_PIC_DATA :: u16 where "SLAVE_PIC_DATA = 0xA1"

lemmas pic_ports = MASTER_PIC_CMD_def MASTER_PIC_DATA_def SLAVE_PIC_CMD_def SLAVE_PIC_DATA_def

definition send_eoi :: "'d ports \<Rightarrow> u8 \<Rightarrow> 'd \<Rightarrow> 'd" where
  "send_eoi io irq d =
     (let d1 = (if 8 \<le> irq then outb io SLAVE_PIC_CMD 0x20 d else d)
      in outb io MASTER_PIC_CMD 0x20 d1)"

definition clear_imr :: "'d ports \<Rightarrow> u8 \<Rightarrow> 'd \<Rightarrow> 'd" where
  "clear_imr io irq d =
     (case inb io MASTER_PIC_DATA d of (master_imr, d1) \<Rightarrow>
      case inb io SLAVE_PIC_DATA d1 of (slave_imr, d2) \<Rightarrow>
        if irq < 8
        then let mask = NOT (push_bit (unat irq) 1) in outb io MASTER_PIC_DATA (master_imr AND mask) d2
        else let mask = NOT (push_bit (unat (irq - 8)) 1) in outb io SLAVE_PIC_DATA (slave_imr AND mask) d2)"

definition set_imr :: "'d ports \<Rightarrow> u8 \<Rightarrow> 'd \<Rightarrow> 'd" where
  "set_imr io irq d =
     (case inb io MASTER_PIC_DATA d of (master_imr, d1) \<Rightarrow>
      case inb io SLAVE_PIC_DATA d1 of (slave_imr, d2) \<Rightarrow>
        if irq < 8
        then let mask = push_bit (unat irq) 1 in outb io MASTER_PIC_DATA (master_imr OR mask) d2
        else let mask = push_bit (unat (irq - 8)) 1 in outb io SLAVE_PIC_DATA (slave_imr OR mask) d2)"

definition init_pic :: "'d ports \<Rightarrow> 'd \<Rightarrow> 'd" where
  "init_pic io d =
     (let d1 = fold (\<lambda>(p, v). outb io p v)
        [(MASTER_PIC_DATA, 0xFF), (SLAVE_PIC_DATA, 0xFF),
         (MASTER_PIC_CMD, 0x11), (SLAVE_PIC_CMD, 0x11),
         (MASTER_PIC_DATA, 0x20), (SLAVE_PIC_DATA, 0x28),
         (MASTER_PIC_DATA, 0x4), (SLAVE_PIC_DATA, 0x2),
         (MASTER_PIC_DATA, 0x3), (SLAVE_PIC_DATA, 0x1),
         (MASTER_PIC_CMD, 0x68), (MASTER_PIC_CMD, 0x0a),
         (SLAVE_PIC_CMD, 0x68), (SLAVE_PIC_CMD, 0x0a),
         (MASTER_PIC_DATA, 0xFF), (SLAVE_PIC_DATA, 0xFF)] d
      in clear_imr io 0 (clear_imr io 1 (clear_imr io 2 d1)))"

section \<open>The timer\<close>

definition LATCH :: u32 where
  "LATCH = 1193182 div 1"

definition init_pit :: "'d ports \<Rightarrow> 'd \<Rightarrow> 'd" where
  "init_pit io d =
     (let d1 = outb io 0x43 0x34 d;
          d2 = outb io 0x40 (ucast (LATCH AND 0xFF)) d1
      in outb io 0x40 (ucast (drop_bit 8 LATCH AND 0xFF)) d2)"

section \<open>The multiprocessor tables\<close>

text \<open>The four characters \<open>_MP_\<close> at \<open>a\<close>.\<close>

definition mp_signature :: "mem \<Rightarrow> u64 \<Rightarrow> bool" where
  "mp_signature m a \<longleftrightarrow> m a = 0x5F \<and> m (a + 1) = 0x4D \<and> m (a + 2) = 0x50 \<and> m (a + 3) = 0x5F"

function find_smp_loop :: "mem \<Rightarrow> u64 \<Rightarrow> nat \<Rightarrow> nat \<Rightarrow> u64 option" where
  "find_smp_loop m start i len =
     (if i < len then (if mp_signature m start then Some start else find_smp_loop m (start + 4) (i + 4) len)
      else None)"
  by pat_completeness auto
termination
  by (relation "measure (\<lambda>(m, start, i, len). len - i)") auto

declare find_smp_loop.simps [simp del]

definition find_smp_config :: "mem \<Rightarrow> u64 \<Rightarrow> u64 \<Rightarrow> u64 option" where
  "find_smp_config m addr len = find_smp_loop m (KPA2VA addr) 0 (unat len)"

text \<open>
  \<open>mpfp\<close>, \<open>mpct\<close>, the identifiers of the local APICs and their number.  The array \<open>lapic_ids\<close> has
  eight elements and the code does not check the index.
\<close>

record 'd ksmp = "'d kvmx" +
  mpfp :: u64
  mpct :: u64
  lapic_ids :: "u8 list"
  numcores :: nat
  lapic_addr :: u64
  bspdone :: u8

definition mp_entry :: "u64 \<Rightarrow> ('d, 'a) ksmp_scheme \<Rightarrow> (u64 \<times> ('d, 'a) ksmp_scheme) outcome" where
  "mp_entry pa s =
     (if mem s pa = 0 then
        (if numcores s < 8
         then Inr (pa + 20, s\<lparr>lapic_ids := (lapic_ids s)[numcores s := mem s (pa + 1)], numcores := numcores s + 1\<rparr>)
         else Inl BadIndex)
      else if mem s pa = 2 then Inr (pa + 8, s)
      else Inr (pa + 8, s))"

fun mp_entries :: "u64 \<Rightarrow> nat \<Rightarrow> ('d, 'a) ksmp_scheme \<Rightarrow> ('d, 'a) ksmp_scheme outcome" where
  "mp_entries pa 0 s = Inr s"
| "mp_entries pa (Suc n) s = bindE (mp_entry pa s) (\<lambda>(pa', s1). mp_entries pa' n s1)"

definition init_mp_config :: "('d, 'a) ksmp_scheme \<Rightarrow> ('d, 'a) ksmp_scheme outcome" where
  "init_mp_config s =
     (case (case find_smp_config (mem s) 0x0 0x400 of
              Some a \<Rightarrow> Some a
            | None \<Rightarrow> (case find_smp_config (mem s) (639 * 0x400) 0x400 of
                         Some a \<Rightarrow> Some a
                       | None \<Rightarrow> find_smp_config (mem s) 0xF0000 0x10000)) of
        None \<Rightarrow> Inr s
      | Some a \<Rightarrow>
          let s1 = s\<lparr>mpfp := a\<rparr>;
              ct = KPA2VA (ucast (load32 (mem s1) (a + 4)))
          in mp_entries (ct + 44) (unat (load16 (mem s1) (ct + 34))) (s1\<lparr>mpct := ct\<rparr>))"

section \<open>The local APIC\<close>

text \<open>
  The mapping of the APIC page; \<open>spur\<close> is the register read at \<open>va + 0xF0\<close>.  The result is the
  value written back to it.
\<close>

definition read_lapic :: "u64 \<Rightarrow> ('d, 'a) ksmp_scheme \<Rightarrow> u32" where
  "read_lapic msr s = ucast (rdmsr msr s)"

definition enable_lapic :: "u32 \<Rightarrow> ('d, 'a) ksmp_scheme \<Rightarrow> (u32 option \<times> ('d, 'a) ksmp_scheme) outcome" where
  "enable_lapic spur s =
     (let paddr = read_lapic 0x1B s AND 0xFFFFF000;
          va = (0xffffffff00000000 OR ucast paddr :: u64);
          s1 = s\<lparr>lapic_addr := va\<rparr>
      in bindE (walk_page (kpgdir s1) va 1 s1) (\<lambda>(r, pte, s2).
           if r < 0 then Inr (None, s2)
           else case pte of
             None \<Rightarrow> Inl NullPointer
           | Some a \<Rightarrow>
               Inr (Some (spur OR 0x100), s2\<lparr>mem := store64 (mem s2) a (ucast paddr OR PTE_U OR PTE_W OR PTE_P)\<rparr>)))"

text \<open>The writes of \<open>startup_smp\<close> to the APIC, offset and value, for the core of index \<open>i\<close>.\<close>

definition startup_core :: "nat \<Rightarrow> (u32 \<times> u32) list" where
  "startup_core i =
     [(0x310, push_bit 24 (of_nat i)), (0x300, 0x00C500), (0x300, 0x008500)]
     @ concat (replicate 2 [(0x310, push_bit 24 (of_nat i)), (0x300, 0x00000600 OR 0x8)])"

definition startup_smp :: "u8 \<Rightarrow> ('d, 'a) ksmp_scheme \<Rightarrow> (u32 \<times> u32) list" where
  "startup_smp bspid s =
     concat (map (\<lambda>i. if lapic_ids s ! i = bspid then [] else startup_core i) [0..<numcores s])"

definition commence_smp :: "('d, 'a) ksmp_scheme \<Rightarrow> ('d, 'a) ksmp_scheme" where
  "commence_smp s = s\<lparr>bspdone := 1\<rparr>"

definition init_smp :: "u32 \<Rightarrow> u8 \<Rightarrow> ('d, 'a) ksmp_scheme \<Rightarrow> ((u32 \<times> u32) list \<times> ('d, 'a) ksmp_scheme) outcome" where
  "init_smp spur bspid s =
     bindE (init_mp_config s) (\<lambda>s1.
     bindE (enable_lapic spur s1) (\<lambda>(w, s2).
     Inr ((case w of None \<Rightarrow> [] | Some v \<Rightarrow> [(0xF0, v)]) @ startup_smp bspid s2, commence_smp s2)))"

section \<open>The multiprocessor tables as a list\<close>

text \<open>The addresses \<open>init_mp_config\<close> looks at, in order.\<close>

definition area :: "nat \<Rightarrow> nat \<Rightarrow> u64 list" where
  "area addr len = map (\<lambda>j. KPA2VA (of_nat addr) + of_nat (4 * j)) [0..<(len + 3) div 4]"

definition mp_areas :: "u64 list" where
  "mp_areas = area 0 0x400 @ area (639 * 0x400) 0x400 @ area 0xF0000 0x10000"

lemma find_smp_loop_find:
  "find_smp_loop m start i len = find (mp_signature m) (map (\<lambda>j. start + of_nat (4 * j)) [0..<(len - i + 3) div 4])"
proof (induction m start i len rule: find_smp_loop.induct)
  case (1 m start i len)
  show ?case
  proof (cases "i < len")
    case True
    then have n: "(len - i + 3) div 4 = Suc ((len - (i + 4) + 3) div 4)" by presburger
    have u: "map (\<lambda>j. start + of_nat (4 * j)) [0..<Suc k] = start # map (\<lambda>j. start + 4 + of_nat (4 * j)) [0..<k]" for k
      by (simp add: upt_conv_Cons map_Suc_upt [symmetric] del: upt_Suc)
    show ?thesis
      unfolding n u using True 1 by (simp add: find_smp_loop.simps [of m start i len])
  next
    case False
    then show ?thesis by (simp add: find_smp_loop.simps [of m start i len])
  qed
qed

text \<open>
  The entries of a configuration table: a processor entry of 20 bytes with its APIC identifier, or
  another entry of 8 bytes.
\<close>

fun mp_table :: "mem \<Rightarrow> u64 \<Rightarrow> u8 option list \<Rightarrow> bool" where
  "mp_table m pa [] = True"
| "mp_table m pa (Some i # es) = (m pa = 0 \<and> m (pa + 1) = i \<and> mp_table m (pa + 20) es)"
| "mp_table m pa (None # es) = (m pa \<noteq> 0 \<and> mp_table m (pa + 8) es)"

fun processors :: "u8 option list \<Rightarrow> u8 list" where
  "processors [] = []"
| "processors (Some i # es) = i # processors es"
| "processors (None # es) = processors es"

definition with_cores :: "u8 list \<Rightarrow> ('d, 'a) ksmp_scheme \<Rightarrow> ('d, 'a) ksmp_scheme" where
  "with_cores ids s = s\<lparr>lapic_ids := take (numcores s) (lapic_ids s) @ ids @ drop (numcores s + length ids) (lapic_ids s),
     numcores := numcores s + length ids\<rparr>"

lemma mp_entries_list:
  "mp_table (mem s) pa es \<Longrightarrow> length (lapic_ids s) = 8 \<Longrightarrow> numcores s \<le> 8 \<Longrightarrow>
   mp_entries pa (length es) s =
     (if numcores s + length (processors es) \<le> 8 then Inr (with_cores (processors es) s) else Inl BadIndex)"
proof (induction es arbitrary: pa s rule: processors.induct)
  case 1
  then show ?case by (simp add: with_cores_def)
next
  case (2 i es)
  let ?s = "s\<lparr>lapic_ids := (lapic_ids s)[numcores s := i], numcores := numcores s + 1\<rparr>"
  show ?case
  proof (cases "numcores s < 8")
    case True
    have "with_cores (processors es) ?s = with_cores (i # processors es) s"
      using True 2(3) by (simp add: with_cores_def take_Suc_conv_app_nth)
    then show ?thesis using 2 True by (simp add: mp_entry_def)
  next
    case False
    then show ?thesis using 2 by (simp add: mp_entry_def)
  qed
next
  case (3 es)
  then show ?case by (simp add: mp_entry_def)
qed

text \<open>C25. \<open>init_mp_config\<close> on a machine with the multiprocessor tables: if the first signature in the
  three areas, in their order, is at \<open>a\<close>, and the table it points to is a sequence of processor and other
  entries, then afterwards the identifiers of the processors are in \<open>lapic_ids\<close> in table order and
  \<open>numcores\<close> is their number; but the array has eight places and nothing checks it: with a ninth
  processor the code writes behind it.\<close>

theorem mp_config_cores:
  assumes a: "find (mp_signature (mem s)) mp_areas = Some a"
    and ct: "ct = KPA2VA (ucast (load32 (mem s) (a + 4)))"
    and tab: "mp_table (mem s) (ct + 44) es" "length es = unat (load16 (mem s) (ct + 34))"
    and start: "numcores s = 0" "length (lapic_ids s) = 8"
  shows "init_mp_config s =
    (if length (processors es) \<le> 8
     then Inr (s\<lparr>mpfp := a, mpct := ct, numcores := length (processors es),
                lapic_ids := processors es @ drop (length (processors es)) (lapic_ids s)\<rparr>)
     else Inl BadIndex)"
proof -
  have smp: "find_smp_config (mem s) (of_nat x) (of_nat n) = find (mp_signature (mem s)) (area x n)" if "n < 2 ^ 64" for x n
    using that by (simp add: find_smp_config_def find_smp_loop_find area_def unat_of_nat_small)
  have "find (mp_signature (mem s)) mp_areas =
      (case find_smp_config (mem s) 0x0 0x400 of
         Some a \<Rightarrow> Some a
       | None \<Rightarrow> (case find_smp_config (mem s) (639 * 0x400) 0x400 of
                    Some a \<Rightarrow> Some a
                  | None \<Rightarrow> find_smp_config (mem s) 0xF0000 0x10000))"
    using smp [of "0x400" 0] smp [of "0x400" "639 * 0x400"] smp [of "0x10000" "0xF0000"]
    by (simp add: mp_areas_def find_append cong: option.case_cong)
  with a have f: "(case find_smp_config (mem s) 0x0 0x400 of
         Some a \<Rightarrow> Some a
       | None \<Rightarrow> (case find_smp_config (mem s) (639 * 0x400) 0x400 of
                    Some a \<Rightarrow> Some a
                  | None \<Rightarrow> find_smp_config (mem s) 0xF0000 0x10000)) = Some a" by simp
  have "mp_entries (ct + 44) (length es) (s\<lparr>mpfp := a, mpct := ct\<rparr>) =
     (if length (processors es) \<le> 8 then Inr (with_cores (processors es) (s\<lparr>mpfp := a, mpct := ct\<rparr>)) else Inl BadIndex)"
    using mp_entries_list [of "s\<lparr>mpfp := a, mpct := ct\<rparr>" "ct + 44" es] tab start by simp
  then show ?thesis
    using tab(2) ct start by (simp add: init_mp_config_def f Let_def with_cores_def)
qed

section \<open>Witness\<close>

text \<open>A floating pointer at address 0 with a table at 0x1000: two processors, an I/O APIC, a third processor.\<close>

definition smp_mem :: mem where
  "smp_mem = store_bytes (store_bytes (\<lambda>a. 1) (KPA2VA 0) [0x5F, 0x4D, 0x50, 0x5F, 0, 16, 0, 0]) (KPA2VA 0x1000)
     (replicate 34 0 @ [4, 0] @ replicate 8 0 @ ([0, 0] @ replicate 18 0) @ ([0, 1] @ replicate 18 0) @ ([2] @ replicate 7 0) @ ([0, 6] @ replicate 18 0))"

lemma smp_mem_facts:
  "find (mp_signature smp_mem) mp_areas = Some (KPA2VA 0)" "load32 smp_mem (KPA2VA 0 + 4) = 0x1000"
  "mp_table smp_mem (KPA2VA 0x1000 + 44) [Some 0, Some 1, None, Some 6]" "load16 smp_mem (KPA2VA 0x1000 + 34) = 4"
proof -
  have sig: "mp_signature smp_mem (KPA2VA 0)"
    by (simp add: mp_signature_def smp_mem_def store_bytes_def KPA2VA_def KBASE_def nth_append)
  have "area 0 0x400 = KPA2VA 0 # map (\<lambda>j. KPA2VA 0 + of_nat (4 * j)) [Suc 0..<256]"
    using upt_conv_Cons [of 0 256] by (simp add: area_def)
  then have areas: "mp_areas = KPA2VA 0 # map (\<lambda>j. KPA2VA 0 + of_nat (4 * j)) [Suc 0..<256] @ area (639 * 0x400) 0x400 @ area 0xF0000 0x10000"
    by (simp only: mp_areas_def append_Cons)
  show "find (mp_signature smp_mem) mp_areas = Some (KPA2VA 0)"
    unfolding areas using sig by simp
  show "load32 smp_mem (KPA2VA 0 + 4) = 0x1000"
    by (simp add: load32_def load_bytes_def upt_conv_Cons smp_mem_def store_bytes_def KPA2VA_def KBASE_def nth_append)
  show "mp_table smp_mem (KPA2VA 0x1000 + 44) [Some 0, Some 1, None, Some 6]"
    by (simp add: smp_mem_def store_bytes_def KPA2VA_def KBASE_def nth_append)
  show "load16 smp_mem (KPA2VA 0x1000 + 34) = 4"
    by (simp add: load16_def load_bytes_def upt_conv_Cons smp_mem_def store_bytes_def KPA2VA_def KBASE_def nth_append)
qed

definition smp_machine :: "ready_drive ksmp" where
  "smp_machine = kvmx.extend vm_machine (ksmp.fields 0 0 (replicate 8 0) 0 0 0)"

theorem mp_config_cores_witness:
  "\<exists>s'. init_mp_config (smp_machine\<lparr>mem := smp_mem\<rparr>) = Inr s' \<and> numcores s' = 3 \<and> lapic_ids s' = [0, 1, 6, 0, 0, 0, 0, 0]"
proof -
  let ?s = "smp_machine\<lparr>mem := smp_mem\<rparr>"
  have m: "mem ?s = smp_mem" "numcores ?s = 0" "length (lapic_ids ?s) = 8" "lapic_ids ?s = replicate 8 0"
    by (simp_all add: smp_machine_def kvmx.defs ksmp.defs)
  have "init_mp_config ?s =
    (if length (processors [Some 0, Some 1, None, Some 6]) \<le> 8
     then Inr (?s\<lparr>mpfp := KPA2VA 0, mpct := KPA2VA 0x1000, numcores := length (processors [Some 0, Some 1, None, Some 6]),
                lapic_ids := processors [Some 0, Some 1, None, Some 6]
                  @ drop (length (processors [Some 0, Some 1, None, Some 6])) (lapic_ids ?s)\<rparr>)
     else Inl BadIndex)"
    using smp_mem_facts by (intro mp_config_cores) (simp_all only: m, simp_all)
  then show ?thesis using m(4) by (simp add: numeral_eq_Suc)
qed

end
