(* ===== verification/User.thy ===== *)
theory User
  imports Trap
begin

text \<open>
  The user side of the system calls: the stubs of \<^verbatim>\<open>lib/syscall.c\<close> as the trap frames they make,
  \<open>int\<close> arguments sign-extended to registers, and \<open>getline\<close> of the shell \<^verbatim>\<open>user/init.c\<close> on the
  results of its \<open>read\<close> calls.
\<close>

section \<open>Stubs\<close>

text \<open>\<open>int $20\<close> with the number in EAX and the arguments in RBX, RCX, RDX, RSI and RDI.\<close>

definition syscall :: "u32 \<Rightarrow> u64 \<Rightarrow> u64 \<Rightarrow> u64 \<Rightarrow> u64 \<Rightarrow> u64 \<Rightarrow> pt_regs \<Rightarrow> pt_regs" where
  "syscall num p0 p1 p2 p3 p4 pt =
     pt\<lparr>rax := ucast num, rbx := p0, rcx := p1, rdx := p2, rsi := p3, rdi := p4, trapnum := 20\<rparr>"

definition u_open :: "u64 \<Rightarrow> u32 \<Rightarrow> u64 \<Rightarrow> pt_regs \<Rightarrow> pt_regs" where
  "u_open pathname flags mode = syscall 5 pathname (scast flags) mode 0 0"

definition u_read :: "u32 \<Rightarrow> u64 \<Rightarrow> u32 \<Rightarrow> pt_regs \<Rightarrow> pt_regs" where
  "u_read fd ubuf cnt = syscall 3 (scast fd) ubuf (ucast cnt) 0 0"

definition u_write :: "u32 \<Rightarrow> u64 \<Rightarrow> u32 \<Rightarrow> pt_regs \<Rightarrow> pt_regs" where
  "u_write fd ubuf cnt = syscall 4 (scast fd) ubuf (ucast cnt) 0 0"

definition u_lseek :: "u32 \<Rightarrow> u32 \<Rightarrow> u32 \<Rightarrow> pt_regs \<Rightarrow> pt_regs" where
  "u_lseek fd offset whence = syscall 9 (scast fd) (scast offset) (scast whence) 0 0"

definition u_close :: "u32 \<Rightarrow> pt_regs \<Rightarrow> pt_regs" where
  "u_close fd = syscall 6 0 0 0 0 0"

definition u_getpid :: "pt_regs \<Rightarrow> pt_regs" where
  "u_getpid = syscall 10 0 0 0 0 0"

definition u_fork :: "pt_regs \<Rightarrow> pt_regs" where
  "u_fork = syscall 2 0 0 0 0 0"

definition u_tprintf :: "pt_regs \<Rightarrow> pt_regs" where
  "u_tprintf = syscall 105 0 0 0 0 0"

definition u_yield :: "pt_regs \<Rightarrow> pt_regs" where
  "u_yield = syscall 11 0 0 0 0 0"

definition user_exit :: "pt_regs \<Rightarrow> pt_regs" where
  "user_exit = syscall 1 0 0 0 0 0"

definition u_execve :: "u64 \<Rightarrow> u64 \<Rightarrow> u64 \<Rightarrow> pt_regs \<Rightarrow> pt_regs" where
  "u_execve filename argv envp = syscall 8 filename argv envp 0 0"

definition u_waitpid :: "u32 \<Rightarrow> pt_regs \<Rightarrow> pt_regs" where
  "u_waitpid n = syscall 7 (scast n) 0 0 0 0"

definition u_opencons :: "pt_regs \<Rightarrow> pt_regs" where
  "u_opencons = syscall 100 0 0 0 0 0"

definition u_alloc_vm_mem :: "u64 \<Rightarrow> pt_regs \<Rightarrow> pt_regs" where
  "u_alloc_vm_mem phys = syscall 101 phys 0 0 0 0"

definition u_create_vcpu :: "pt_regs \<Rightarrow> pt_regs" where
  "u_create_vcpu = syscall 102 0 0 0 0 0"

definition u_run_vm :: "pt_regs \<Rightarrow> pt_regs" where
  "u_run_vm = syscall 103 0 0 0 0 0"

definition u_mmap_mem :: "u64 \<Rightarrow> u64 \<Rightarrow> u64 \<Rightarrow> u32 \<Rightarrow> pt_regs \<Rightarrow> pt_regs" where
  "u_mmap_mem addr len gpa prot = syscall 104 addr len gpa (scast prot) 0"

lemmas stub_defs = u_open_def u_read_def u_write_def u_lseek_def u_close_def u_getpid_def u_fork_def u_tprintf_def
  u_yield_def user_exit_def u_execve_def u_waitpid_def u_opencons_def u_alloc_vm_mem_def u_create_vcpu_def
  u_run_vm_def u_mmap_mem_def

section \<open>Reading a line\<close>

text \<open>
  The loop of \<open>getline\<close> on the results of its \<open>read\<close> calls, each with the character it put into
  \<open>ch\<close> if it returned 1: the buffer so far and the number of bytes in it.  \<open>None\<close> is a loop that
  still waits when the results are used up.
\<close>

fun getline_loop :: "(int \<times> u8) list \<Rightarrow> nat \<Rightarrow> u8 \<Rightarrow> u8 list \<Rightarrow> u8 list option" where
  "getline_loop rs n ch line =
     (if ch \<noteq> 0x0A \<and> length line < n
      then (case rs of
              [] \<Rightarrow> None
            | (r, c) # rs' \<Rightarrow>
                if r = 0 then getline_loop rs' n ch line
                else let ch' = (if r = 1 then c else ch) in getline_loop rs' n ch' (line @ [ch']))
      else Some line)"

declare getline_loop.simps [simp del]

definition getline :: "(int \<times> u8) list \<Rightarrow> nat \<Rightarrow> u8 list option" where
  "getline rs n = getline_loop rs n 0 []"

section \<open>From a stub to its handler\<close>

text \<open>
  The stub \<open>u\<close> reaches the handler \<open>h\<close>: the trap saves the registers in the process table, runs the
  handler, and returns its result in RAX.
\<close>

definition saved :: "pt_regs \<Rightarrow> ('d, 'a) kproc_scheme \<Rightarrow> ('d, 'a) kproc_scheme" where
  "saved pt s = (case current s of None \<Rightarrow> s | Some c \<Rightarrow> upd_proc c (\<lambda>p. p\<lparr>pregs := pt\<rparr>) s)"

definition enters :: "('d, ('d, 'a) kvmx_scheme) kernel_env \<Rightarrow> (pt_regs \<Rightarrow> pt_regs)
    \<Rightarrow> (('d, 'a) kvmx_scheme \<Rightarrow> (int, ('d, 'a) kvmx_scheme) kres) \<Rightarrow> bool" where
  "enters env u h \<longleftrightarrow> (\<forall>cr2 pt s. do_trap env cr2 (u pt) s
     = bindK (h (saved (u pt) s)) (\<lambda>r s2. Ret ((u pt)\<lparr>rax := word_of_int r\<rparr>) s2))"

lemma int_arg_scast: "int_arg (scast (x :: u32)) = sint x"
proof -
  have "(ucast (scast x :: u64) :: u32) = x"
    by (rule bit_word_eqI) (auto simp: bit_simps)
  then show ?thesis by (simp add: int_arg_def)
qed

lemma ucast_arg: "(ucast (ucast (x :: u32) :: u64) :: u32) = x"
  by (rule bit_word_eqI) (auto simp: bit_simps)

lemma enters_syscall:
  assumes "\<And>s. do_syscall env num p0 p1 p2 p3 p4 s = h s"
  shows "enters env (syscall num p0 p1 p2 p3 p4) h"
  unfolding enters_def saved_def syscall_def
  by (simp add: do_trap_def Let_def ucast_arg assms)

text \<open>C14. Every stub of \<^verbatim>\<open>lib/syscall.c\<close> is, through the trap, its handler: the number it
  passes selects the handler of that name, every argument arrives at its type (signed
  descriptors and offsets included), and the handler's result is what the program finds in RAX.  The
  exceptions are the stubs of \<open>close\<close> and \<open>getpid\<close>, whose numbers the dispatcher does not know: they
  return 0 and do nothing.\<close>

theorem stubs_reach_handlers:
  "enters env (u_open path flags mode) (\<lambda>s. liftK (sys_open (kports env) path s))
   \<and> enters env (u_read fd ubuf cnt) (\<lambda>s. liftK (sys_read (kports env) (sint fd) ubuf cnt s))
   \<and> enters env (u_write fd ubuf cnt) (\<lambda>s. liftK (sys_write (kports env) (sint fd) ubuf cnt s))
   \<and> enters env (u_lseek fd off whence) (\<lambda>s. liftK (sys_lseek (sint fd) (sint off) (sint whence) s))
   \<and> enters env u_fork (\<lambda>s. liftK (sys_fork s)) \<and> enters env u_yield sys_yield \<and> enters env user_exit sys_exit
   \<and> enters env (u_execve fname argv envp) (sys_execve (kports env) (exec_binary env) (exec_junk env) fname)
   \<and> enters env (u_waitpid n) (sys_waitpid (sint n)) \<and> enters env u_tprintf sys_tprintf
   \<and> enters env u_opencons (\<lambda>s. liftK (sys_opencons s))
   \<and> enters env (u_alloc_vm_mem phys) (\<lambda>s. liftK (sys_alloc_vm_mem phys s))
   \<and> enters env u_create_vcpu (\<lambda>s. liftK (sys_create_vcpu (khost env) s))
   \<and> enters env u_run_vm (\<lambda>s. liftK (sys_run_vm (kguest env) s))
   \<and> enters env (u_mmap_mem addr len gpa prot) (\<lambda>s. liftK (sys_mmap_mem addr len gpa (sint prot) s))
   \<and> enters env (u_close fd) (Ret 0) \<and> enters env u_getpid (Ret 0)"
  unfolding stub_defs
  by (intro conjI enters_syscall) (simp_all add: do_syscall_def int_arg_scast ucast_arg)

end
