(* ===== verification/Destroy.thy ===== *)
theory Destroy
  imports Fault
begin

text \<open>
  The release of an address space (\<open>destroy_vm\<close> and \<open>free_pgtable\<close> of \<open>src/kernel/proc.c\<close>): the
  pages between \<open>UTEXT\<close> and \<open>USTACKTOP\<close> are unmapped, then the three loops of \<open>free_pgtable\<close> give the
  tables back to the page allocator, then the page directory goes.  The address space is confined to
  that window, which \<open>insert_page\<close> preserves; then no table page is left behind and every frame has
  lost as many references as pages named it.
\<close>

section \<open>Removing the user pages\<close>

text \<open>
  What \<open>remove_page\<close> does to a page that is mapped or not: its entry is 0 afterwards, and if it was
  mapped its frame has lost a reference.
\<close>

definition unmaps :: "'a kmm_scheme \<Rightarrow> 'a kmm_scheme \<Rightarrow> u64 \<Rightarrow> (u64 \<Rightarrow> bool) \<Rightarrow> (nat \<Rightarrow> int) \<Rightarrow> bool" where
  "unmaps s s' r V x \<longleftrightarrow> pt_inv s' r \<and> tables s' r = tables s r
     \<and> (\<forall>js. upath js \<longrightarrow> node (mem s') r js = node (mem s) r js) \<and> same_inner r (mem s) (mem s')
     \<and> (\<forall>va. user_va va \<longrightarrow> pte_of (mem s') r va = (if V (vpn va) then 0 else pte_of (mem s) r va))
     \<and> (\<forall>q. page_refs s' q = page_refs s q - x q) \<and> keeps (mem s) (mem s') (tables s r)
     \<and> length (pages s') = length (pages s) \<and> kmm.more s' = kmm.more s \<and> kpgdir s' = kpgdir s"

lemma unmaps_trans:
  assumes "unmaps s s1 r V x" "unmaps s1 s2 r W y"
  shows "unmaps s s2 r (\<lambda>v. V v \<or> W v) (\<lambda>q. x q + y q)"
  using assms keeps_trans [of "mem s" "mem s1" "tables s r" "mem s2" "tables s r" "tables s r"]
  unfolding unmaps_def same_inner_def by auto

lemma remove_page_any:
  assumes inv: "pt_inv s r" and va: "user_va va"
    and e: "pte_of (mem s) r va = e" "e \<noteq> 0 \<Longrightarrow> e AND 1 \<noteq> 0 \<and> frame_of e \<notin> tables s r \<and> 0 < page_refs s (frame_of e)"
  shows "\<exists>x s'. remove_page r va s = Inr (x, s')
    \<and> unmaps s s' r (\<lambda>v. v = vpn va) (\<lambda>q. if e \<noteq> 0 \<and> q = frame_of e then 1 else 0)"
proof (cases "pte_addr (mem s) r va")
  case None
  then have e0: "e = 0" using e(1) by (simp add: pte_of_def)
  have rm: "remove_page r va s = Inr (- 1, s)" using None by (simp add: remove_page_def walk_page_lookup)
  have "pte_of (mem s) r va' = 0" if "vpn va' = vpn va" for va'
    using pte_of_page [OF that] e(1) e0 by simp
  then show ?thesis
    using rm inv e0 by (intro exI [of _ "- 1"] exI [of _ s]) (auto simp: unmaps_def same_inner_def)
next
  case (Some a)
  then have ld: "load64 (mem s) a = e" using e(1) by (simp add: pte_of_def)
  show ?thesis
  proof (cases "e = 0")
    case True
    let ?s = "s\<lparr>mem := store64 (mem s) a 0\<rparr>"
    have "remove_page r va s = Inr (0, ?s)"
      using Some ld True by (simp add: remove_page_def walk_page_lookup Let_def)
    moreover have "unmaps s ?s r (\<lambda>v. v = vpn va) (\<lambda>q. 0)"
      using pt_inv_leaf_store [OF inv va Some, of 0] node_leaf_store [OF inv va Some, of _ 0]
        pte_leaf_store [OF inv va Some, of _ 0] leaf_store_inner [OF inv va Some, of 0]
        keeps_leaf [OF inv va Some, of 0]
      by (simp add: unmaps_def)
    ultimately show ?thesis using True by auto
  next
    case False
    note e' = e(2) [OF False]
    have le: "load64 (mem s) a AND 1 \<noteq> 0" "frame_of e = unat (drop_bit 12 (load64 (mem s) a))"
      using e' ld by (simp_all add: frame_of_def)
    note rm = remove_page_full [OF inv va Some le(1) le(2) conjunct2 [OF conjunct2 [OF e']] conjunct1 [OF conjunct2 [OF e']]]
    have il: "frame_of e < length (pages s)" "0 < count (pages s ! frame_of e)"
      using e' by (auto simp: page_refs_def split: if_splits)
    note fp = free_page_Some [OF pt_inv_mm [OF inv] il refl]
    have "unmaps s ((free_page (Some (frame_of e)) s)\<lparr>mem := store64 (mem s) a 0\<rparr>) r (\<lambda>v. v = vpn va)
        (\<lambda>q. if q = frame_of e then 1 else 0)"
      using rm node_leaf_store [OF inv va Some, of _ 0] leaf_store_inner [OF inv va Some, of 0] fp
        keeps_leaf [OF inv va Some, of 0]
      by (simp add: unmaps_def)
    then show ?thesis using rm(1) False by auto
  qed
qed

definition plain_leaves :: "'a kmm_scheme \<Rightarrow> u64 \<Rightarrow> nat \<Rightarrow> nat \<Rightarrow> bool" where
  "plain_leaves s r b n \<longleftrightarrow> (\<forall>k \<in> mapped s r b n. pte_of (mem s) r (page_va k) AND 1 \<noteq> 0
     \<and> frame_of (pte_of (mem s) r (page_va k)) \<notin> tables s r)
   \<and> (\<forall>q. int (card (sharers s r b n q)) \<le> page_refs s q)"

lemma remove_pages_unmaps:
  assumes "pt_inv s r" and "b + n \<le> 2 ^ 35" and "plain_leaves s r b n"
  shows "\<exists>s'. remove_pages r (page_va b) n s = Inr s'
    \<and> unmaps s s' r (\<lambda>v. b \<le> unat v \<and> unat v < b + n) (\<lambda>q. int (card (sharers s r b n q)))"
  using assms
proof (induction n arbitrary: b s)
  case 0
  then show ?case by (auto simp: unmaps_def same_inner_def sharers_def mapped_def)
next
  case (Suc n)
  have b: "b < 2 ^ 35" using Suc.prems(2) by simp
  note va = page_va_facts [OF b]
  have bu: "unat (of_nat b :: u64) = b" using b by (intro unat_of_nat_small) simp
  let ?e = "pte_of (mem s) r (page_va b)"
  note cs = card_mapped_Suc(2) [of s r b n]
  have e: "?e AND 1 \<noteq> 0 \<and> frame_of ?e \<notin> tables s r \<and> 0 < page_refs s (frame_of ?e)" if "?e \<noteq> 0"
  proof -
    have "b \<in> mapped s r b (Suc n)" using that by (simp add: mapped_def)
    moreover have "int (card (sharers s r b (Suc n) (frame_of ?e))) \<le> page_refs s (frame_of ?e)"
      using Suc.prems(3) by (simp add: plain_leaves_def)
    ultimately show ?thesis using Suc.prems(3) cs [of "frame_of ?e"] that unfolding plain_leaves_def by auto
  qed
  from remove_page_any [OF Suc.prems(1) va(2) refl e] obtain x s1 where
    s1: "remove_page r (page_va b) s = Inr (x, s1)"
      "unmaps s s1 r (\<lambda>v. v = of_nat b) (\<lambda>q. if ?e \<noteq> 0 \<and> q = frame_of ?e then 1 else 0)"
    unfolding va(1) by blast
  have same: "pte_of (mem s1) r (page_va k) = pte_of (mem s) r (page_va k)" if "Suc b \<le> k" "k < b + Suc n" for k
  proof -
    have k: "k < 2 ^ 35" using that Suc.prems(2) by simp
    then have "unat (of_nat k :: u64) = k" by (intro unat_of_nat_small) simp
    then have "(of_nat k :: u64) \<noteq> of_nat b" using bu that(1) by (metis Suc_n_not_le_n)
    then show ?thesis using s1(2) page_va_facts [OF k] by (simp add: unmaps_def)
  qed
  have m: "mapped s1 r (Suc b) n = mapped s r (Suc b) n"
    unfolding mapped_def by (intro Collect_cong) (use same in auto)
  then have sh: "sharers s1 r (Suc b) n q = sharers s r (Suc b) n q" for q
    unfolding sharers_def m by (intro Collect_cong conj_cong refl) (simp add: same mapped_def)
  have "plain_leaves s1 r (Suc b) n"
    unfolding plain_leaves_def m sh
  proof (intro conjI ballI allI)
    fix k assume k: "k \<in> mapped s r (Suc b) n"
    then have "k \<in> mapped s r b (Suc n)" by (simp add: mapped_def)
    then show "pte_of (mem s1) r (page_va k) AND 1 \<noteq> 0" "frame_of (pte_of (mem s1) r (page_va k)) \<notin> tables s1 r"
      using k Suc.prems(3) same [of k] s1(2) by (auto simp: plain_leaves_def mapped_def unmaps_def)
  next
    fix q
    have "int (card (sharers s r b (Suc n) q)) \<le> page_refs s q" using Suc.prems(3) by (simp add: plain_leaves_def)
    then show "int (card (sharers s r (Suc b) n q)) \<le> page_refs s1 q"
      using cs [of q] s1(2) by (auto simp: unmaps_def split: if_splits)
  qed
  moreover have "Suc b + n \<le> 2 ^ 35" "pt_inv s1 r" using Suc.prems(2) s1(2) by (simp_all add: unmaps_def)
  ultimately obtain s2 where s2: "remove_pages r (page_va (Suc b)) n s1 = Inr s2"
    "unmaps s1 s2 r (\<lambda>v. Suc b \<le> unat v \<and> unat v < Suc b + n) (\<lambda>q. int (card (sharers s r (Suc b) n q)))"
    using Suc.IH [of s1 "Suc b"] unfolding sh by blast
  have cs': "int (card (sharers s r b (Suc n) q)) = (if ?e \<noteq> 0 \<and> q = frame_of ?e then 1 else 0)
      + int (card (sharers s r (Suc b) n q))" for q
    by (simp add: cs)
  have next_va: "page_va b + 4096 = page_va (Suc b)" by (simp add: page_va_def)
  have "(v = of_nat b \<or> (Suc b \<le> unat v \<and> unat v < Suc b + n)) = (b \<le> unat v \<and> unat v < b + Suc n)" for v :: u64
    using bu by (metis (no_types, opaque_lifting) Suc_le_eq add_Suc_right add_Suc le_less less_add_Suc1 word_unat_eq_iff)
  then have "unmaps s s2 r (\<lambda>v. b \<le> unat v \<and> unat v < b + Suc n) (\<lambda>q. int (card (sharers s r b (Suc n) q)))"
    using unmaps_trans [OF s1(2) s2(2)] cs' by simp
  then show ?case using s1(1) s2(1) next_va by simp
qed

section \<open>Freeing the tables\<close>

lemma free_entry_one:
  assumes mm: "mm_inv s" and q: "page_refs s (frame_of (load64 (mem s) a)) = 1"
  shows "\<exists>s'. free_entry a s = Inr s' \<and> mm_inv s' \<and> mem s' = store64 (mem s) a 0
    \<and> page_refs s' = (page_refs s)(frame_of (load64 (mem s) a) := 0) \<and> length (pages s') = length (pages s)
    \<and> kmm.more s' = kmm.more s \<and> kpgdir s' = kpgdir s"
proof -
  let ?q = "frame_of (load64 (mem s) a)"
  have il: "?q < length (pages s)" "0 < count (pages s ! ?q)" using q by (auto simp: page_refs_def split: if_splits)
  note fp = free_page_Some [OF mm il refl]
  have "page_refs (free_page (Some ?q) s) = (page_refs s)(?q := 0)"
    using page_refs_free [OF mm, of ?q] q by simp
  then show ?thesis
    using il fp by (simp add: free_entry_def frame_of_def [symmetric] Let_def)
qed

text \<open>The addresses the innermost loop visits: one for each 2 MB of the user half.\<close>

definition pgd_va :: "nat \<Rightarrow> u64" where
  "pgd_va i = of_nat (0x80000000 + i * 2 ^ 21)"

lemma pgd_va_unat: "i \<le> 512 \<Longrightarrow> unat (pgd_va i) = 0x80000000 + i * 2 ^ 21"
  unfolding pgd_va_def by (intro unat_of_nat_small) simp

lemma next_aligned_unat:
  assumes "unat a + 2 ^ sh < 2 ^ 64" "sh < 64"
  shows "unat (next_aligned sh a) = (unat a + 2 ^ sh) div 2 ^ sh * 2 ^ sh"
proof -
  have m: "push_bit sh 1 - 1 = (mask sh :: u64)" by (simp add: mask_eq_exp_minus_1 push_bit_eq_mult)
  have "x AND NOT (mask sh) = push_bit sh (drop_bit sh x)" for x :: u64
    by (rule bit_word_eqI) (auto simp: bit_simps)
  then have n: "next_aligned sh a = push_bit sh (drop_bit sh (a + push_bit sh 1))"
    by (simp only: next_aligned_def m)
  have "(2 :: nat) ^ sh < 2 ^ 64" using assms(2) by (intro power_strict_increasing) simp_all
  then have "unat (of_nat (2 ^ sh) :: u64) = 2 ^ sh" by (intro unat_of_nat_small) simp
  then have p: "unat (2 ^ sh :: u64) = 2 ^ sh" "unat (push_bit sh (1 :: u64)) = 2 ^ sh" by (simp_all add: push_bit_eq_mult)
  then have s: "unat (a + push_bit sh 1) = unat a + 2 ^ sh" using assms(1) by (simp only: unat_word_ariths) simp
  have w: "unat (drop_bit sh (a + push_bit sh 1)) = (unat a + 2 ^ sh) div 2 ^ sh"
    by (simp only: drop_bit_eq_div unat_div s p)
  have "unat (push_bit sh b) = unat b * 2 ^ sh mod 2 ^ 64" for b :: u64
    by (simp only: push_bit_eq_mult unat_word_ariths(2) p) simp
  moreover have "(unat a + 2 ^ sh) div 2 ^ sh * 2 ^ sh < 2 ^ 64"
    using assms(1) div_times_less_eq_dividend [of "unat a + 2 ^ sh" "2 ^ sh"] by linarith
  ultimately show ?thesis unfolding n by (simp only: w mod_less)
qed

lemma pgd_va_facts:
  assumes "i < 128"
  shows "idx 21 (pgd_va i) = of_nat i" and "next_aligned 21 (pgd_va i) = pgd_va (Suc i)"
    and "USTACKTOP \<le> pgd_va (Suc i) \<longleftrightarrow> i = 127"
proof -
  have u: "unat (pgd_va i) = 0x80000000 + i * 2 ^ 21" "unat (pgd_va (Suc i)) = 0x80000000 + Suc i * 2 ^ 21"
    using assms by (simp_all only: pgd_va_unat)
  have "unat (idx 21 (pgd_va i)) = take_bit 9 ((0x80000000 + i * 2 ^ 21) div 2 ^ 21)"
    by (simp only: idx_take unsigned_take_bit_eq unat_drop_bit_eq u) (simp only: drop_bit_eq_div)
  also have "\<dots> = i" using assms mod_mult_self1 [of i 2 512] by (simp add: take_bit_eq_mod add.commute)
  finally have "unat (idx 21 (pgd_va i)) = i" .
  then show "idx 21 (pgd_va i) = of_nat i" by (metis of_nat_unat ucast_id)
  have "unat (next_aligned 21 (pgd_va i)) = unat (pgd_va (Suc i))"
    using assms next_aligned_unat [of "pgd_va i" 21] unfolding u by simp
  then show "next_aligned 21 (pgd_va i) = pgd_va (Suc i)" by (simp add: word_unat_eq_iff)
  show "USTACKTOP \<le> pgd_va (Suc i) \<longleftrightarrow> i = 127"
    using assms by (auto simp: word_le_nat_alt u USTACKTOP_def)
qed

lemma entry_not_last:
  assumes "i < 511"
  shows "(PAGE2VA f + 8 * of_nat i + 8) AND 0xFFF \<noteq> 0"
proof -
  have m: "(0xFFF :: u64) = mask 12" by (simp add: mask_eq_exp_minus_1)
  have "PAGE2VA f + 8 * of_nat i + 8 = KBASE + of_nat (4096 * f + 8 * Suc i)"
    by (simp add: PAGE2VA_offset)
  then have "unat (PAGE2VA f + 8 * of_nat i + 8) mod 4096 = (unat KBASE + (4096 * f + 8 * Suc i)) mod 2 ^ 64 mod 4096"
    by (simp only: unat_word_ariths unat_of_nat) (simp add: take_bit_eq_mod mod_add_right_eq)
  also have "\<dots> = (unat KBASE + (4096 * f + 8 * Suc i)) mod 4096" by (simp add: mod_mod_cancel)
  also have "\<dots> = (8 * Suc i) mod 4096"
  proof -
    have "unat KBASE + (4096 * f + 8 * Suc i) = 8 * Suc i + 4096 * (unat KBASE div 4096 + f)" by (simp add: KBASE_def)
    then show ?thesis by (simp only: mod_mult_self2)
  qed
  also have "\<dots> \<noteq> 0" using assms by simp
  finally have "unat (PAGE2VA f + 8 * of_nat i + 8) mod 4096 \<noteq> 0" .
  moreover have "unat ((PAGE2VA f + 8 * of_nat i + 8) AND 0xFFF) = unat (PAGE2VA f + 8 * of_nat i + 8) mod 4096"
    by (simp only: m take_bit_eq_mask [symmetric] unsigned_take_bit_eq) (simp add: take_bit_eq_mod)
  ultimately show ?thesis by (metis unat_0)
qed

text \<open>
  Freeing the tables named by entries: every frame in \<open>F\<close> goes back to the pool, no other count
  changes, and of the memory only entries of the page \<open>g\<close>.
\<close>

definition frees :: "'a kmm_scheme \<Rightarrow> 'a kmm_scheme \<Rightarrow> nat set \<Rightarrow> nat set \<Rightarrow> bool" where
  "frees s s' F G \<longleftrightarrow> mm_inv s' \<and> page_refs s' = (\<lambda>q. if q \<in> F then 0 else page_refs s q)
     \<and> (\<forall>h < 2 ^ 18. \<forall>j < 512. h \<notin> G \<longrightarrow> load64 (mem s') (PAGE2VA h + 8 * j) = load64 (mem s) (PAGE2VA h + 8 * j))
     \<and> length (pages s') = length (pages s) \<and> kmm.more s' = kmm.more s \<and> kpgdir s' = kpgdir s"

lemma frees_refl: "mm_inv s \<Longrightarrow> frees s s {} G"
  by (simp add: frees_def)

lemma frees_keeps: "frees s s' F G \<Longrightarrow> keeps (mem s) (mem s') G"
  by (simp add: frees_def keeps_def)

lemma frees_trans: "frees s s1 F G \<Longrightarrow> frees s1 s2 F' G' \<Longrightarrow> frees s s2 (F \<union> F') (G \<union> G')"
  by (auto simp: frees_def fun_eq_iff)

lemma free_entry_frees:
  assumes mm: "mm_inv s" and g: "g < 2 ^ 18" "i < 512"
    and q: "page_refs s (frame_of (load64 (mem s) (PAGE2VA g + 8 * i))) = 1"
  shows "\<exists>s'. free_entry (PAGE2VA g + 8 * i) s = Inr s'
    \<and> frees s s' {frame_of (load64 (mem s) (PAGE2VA g + 8 * i))} {g}
    \<and> (\<forall>j < 512. j \<noteq> i \<longrightarrow> load64 (mem s') (PAGE2VA g + 8 * j) = load64 (mem s) (PAGE2VA g + 8 * j))"
proof -
  obtain s' where s': "free_entry (PAGE2VA g + 8 * i) s = Inr s'" "mm_inv s'" "mem s' = store64 (mem s) (PAGE2VA g + 8 * i) 0"
    "page_refs s' = (page_refs s)(frame_of (load64 (mem s) (PAGE2VA g + 8 * i)) := 0)"
    "length (pages s') = length (pages s)" "kmm.more s' = kmm.more s" "kpgdir s' = kpgdir s"
    using free_entry_one [OF mm q] by blast
  have "load64 (mem s') (PAGE2VA h + 8 * j) = load64 (mem s) (PAGE2VA h + 8 * j)"
    if "h < 2 ^ 18" "j < 512" "h \<noteq> g \<or> j \<noteq> i" for h j
    unfolding s'(3) using that g by (intro load64_store64_disj entry_disj) auto
  then show ?thesis using s'(1,2,4-7) g by (auto simp: frees_def fun_upd_def)
qed

text \<open>The frames of the entries \<open>i\<close> to 127 of the page \<open>g\<close>.\<close>

definition pgd_frames :: "'a kmm_scheme \<Rightarrow> nat \<Rightarrow> nat \<Rightarrow> nat set" where
  "pgd_frames s g i = (\<lambda>k. frame_of (load64 (mem s) (PAGE2VA g + 8 * of_nat k)))
     ` {k. i \<le> k \<and> k < 128 \<and> load64 (mem s) (PAGE2VA g + 8 * of_nat k) \<noteq> 0}"

lemma pgd_frames_Suc:
  "i < 128 \<Longrightarrow> pgd_frames s g i = (if load64 (mem s) (PAGE2VA g + 8 * of_nat i) \<noteq> 0
     then insert (frame_of (load64 (mem s) (PAGE2VA g + 8 * of_nat i))) (pgd_frames s g (Suc i)) else pgd_frames s g (Suc i))"
  unfolding pgd_frames_def by (auto simp: le_less Suc_le_eq)

lemma pgd_frames_cong:
  assumes "\<And>k. i \<le> k \<Longrightarrow> k < 128 \<Longrightarrow> load64 (mem s') (PAGE2VA g + 8 * of_nat k) = load64 (mem s) (PAGE2VA g + 8 * of_nat k)"
  shows "pgd_frames s' g i = pgd_frames s g i"
  unfolding pgd_frames_def using assms by (intro image_cong Collect_cong) auto

abbreviation pgd_entry :: "'a kmm_scheme \<Rightarrow> nat \<Rightarrow> nat \<Rightarrow> u64" where
  "pgd_entry s g k \<equiv> load64 (mem s) (PAGE2VA g + 8 * of_nat k)"

lemma pgd_round:
  assumes "table_of (load64 (mem s) a) = PAGE2VA g" and "i < 128"
  shows "pgd_loop a (pgd_va i) s =
    (case (if pgd_entry s g i = 0 then Inr s else free_entry (PAGE2VA g + 8 * of_nat i) s) of
       Inl e \<Rightarrow> Some (Inl e)
     | Inr s1 \<Rightarrow> if i = 127 then Some (Inr (True, pgd_va (Suc i), s1)) else pgd_loop a (pgd_va (Suc i)) s1)"
proof -
  have "i < 511" using assms(2) by simp
  note e = entry_not_last [OF this, of g]
  show ?thesis
    by (subst pgd_loop.simps) (simp only: Let_def assms(1) pgd_va_facts [OF assms(2)] e not_False_eq_True if_True)
qed

lemma pgd_round_frees:
  assumes mm: "mm_inv s" and g: "g < 2 ^ 18" "i < 128"
    and refs: "\<And>q. q \<in> pgd_frames s g i \<Longrightarrow> page_refs s q = 1"
  shows "\<exists>s1. (if pgd_entry s g i = 0 then Inr s else free_entry (PAGE2VA g + 8 * of_nat i) s) = Inr s1
    \<and> frees s s1 (if pgd_entry s g i = 0 then {} else {frame_of (pgd_entry s g i)}) {g}
    \<and> (\<forall>k. Suc i \<le> k \<longrightarrow> k < 128 \<longrightarrow> pgd_entry s1 g k = pgd_entry s g k)"
proof (cases "pgd_entry s g i = 0")
  case True
  then show ?thesis using frees_refl [OF mm] by auto
next
  case False
  have u: "unat (of_nat k :: u64) = k" if "k < 128" for k using that by (intro unat_of_nat_small) simp
  have i: "(of_nat i :: u64) < 512" using u [OF g(2)] g(2) by (simp add: word_less_nat_alt)
  have "page_refs s (frame_of (pgd_entry s g i)) = 1" using refs False g(2) by (simp add: pgd_frames_Suc)
  from free_entry_frees [OF mm g(1) i this] obtain s1 where s1:
    "free_entry (PAGE2VA g + 8 * of_nat i) s = Inr s1" "frees s s1 {frame_of (pgd_entry s g i)} {g}"
    "\<forall>j < 512. j \<noteq> of_nat i \<longrightarrow> load64 (mem s1) (PAGE2VA g + 8 * j) = load64 (mem s) (PAGE2VA g + 8 * j)"
    by blast
  have "pgd_entry s1 g k = pgd_entry s g k" if k: "Suc i \<le> k" "k < 128" for k
  proof -
    have "(of_nat k :: u64) \<noteq> of_nat i" using u [OF k(2)] u [OF g(2)] k(1) by (metis Suc_n_not_le_n)
    moreover have "(of_nat k :: u64) < 512" using u [OF k(2)] k(2) by (simp add: word_less_nat_alt)
    ultimately show ?thesis using s1(3) by blast
  qed
  then show ?thesis using s1 False by auto
qed

lemma pgd_loop_frees:
  assumes "mm_inv s" and "g < 2 ^ 18" "h < 2 ^ 18" "h \<noteq> g" "j < 512"
    and "table_of (load64 (mem s) (PAGE2VA h + 8 * j)) = PAGE2VA g" and "i + n = 127"
    and "inj_on (\<lambda>k. frame_of (pgd_entry s g k)) {k. i \<le> k \<and> k < 128 \<and> pgd_entry s g k \<noteq> 0}"
    and "\<And>q. q \<in> pgd_frames s g i \<Longrightarrow> page_refs s q = 1"
  shows "\<exists>s'. pgd_loop (PAGE2VA h + 8 * j) (pgd_va i) s = Some (Inr (True, pgd_va 128, s'))
    \<and> frees s s' (pgd_frames s g i) {g}"
  using assms
proof (induction n arbitrary: i s)
  case 0
  then have i: "i = 127" "i < 128" by simp_all
  obtain s1 where s1: "(if pgd_entry s g i = 0 then Inr s else free_entry (PAGE2VA g + 8 * of_nat i) s) = Inr s1"
    "frees s s1 (if pgd_entry s g i = 0 then {} else {frame_of (pgd_entry s g i)}) {g}"
    using pgd_round_frees [OF 0(1,2) i(2) 0(9)] by blast
  have "pgd_frames s g (Suc i) = {}" using i by (simp add: pgd_frames_def)
  then show ?case
    using s1(2) unfolding pgd_round [OF 0(6) i(2)] s1(1) using i by (auto simp: pgd_frames_Suc split: if_splits)
next
  case (Suc n)
  then have i: "i < 127" "i < 128" "Suc i + n = 127" by simp_all
  obtain s1 where s1: "(if pgd_entry s g i = 0 then Inr s else free_entry (PAGE2VA g + 8 * of_nat i) s) = Inr s1"
    "frees s s1 (if pgd_entry s g i = 0 then {} else {frame_of (pgd_entry s g i)}) {g}"
    "\<forall>k. Suc i \<le> k \<longrightarrow> k < 128 \<longrightarrow> pgd_entry s1 g k = pgd_entry s g k"
    using pgd_round_frees [OF Suc.prems(1,2) i(2) Suc.prems(9)] by blast
  have pf: "pgd_frames s1 g (Suc i) = pgd_frames s g (Suc i)" using s1(3) by (intro pgd_frames_cong) blast
  have tab: "table_of (load64 (mem s1) (PAGE2VA h + 8 * j)) = PAGE2VA g"
    using s1(2) Suc.prems(3-6) by (simp add: frees_def)
  have set: "{k. Suc i \<le> k \<and> k < 128 \<and> pgd_entry s1 g k \<noteq> 0} = {k. Suc i \<le> k \<and> k < 128 \<and> pgd_entry s g k \<noteq> 0}"
    using s1(3) by auto
  have inj: "inj_on (\<lambda>k. frame_of (pgd_entry s1 g k)) {k. Suc i \<le> k \<and> k < 128 \<and> pgd_entry s1 g k \<noteq> 0}"
    unfolding set
  proof (rule inj_onI)
    fix k k' assume k: "k \<in> {k. Suc i \<le> k \<and> k < 128 \<and> pgd_entry s g k \<noteq> 0}"
      "k' \<in> {k. Suc i \<le> k \<and> k < 128 \<and> pgd_entry s g k \<noteq> 0}" "frame_of (pgd_entry s1 g k) = frame_of (pgd_entry s1 g k')"
    then have "frame_of (pgd_entry s g k) = frame_of (pgd_entry s g k')" using s1(3) by auto
    then show "k = k'" using inj_onD [OF Suc.prems(8)] k(1,2) by auto
  qed
  have new: "frame_of (pgd_entry s g i) \<notin> pgd_frames s g (Suc i)" if "pgd_entry s g i \<noteq> 0"
  proof
    assume "frame_of (pgd_entry s g i) \<in> pgd_frames s g (Suc i)"
    then obtain k where "Suc i \<le> k" "k < 128" "pgd_entry s g k \<noteq> 0" "frame_of (pgd_entry s g i) = frame_of (pgd_entry s g k)"
      by (auto simp: pgd_frames_def)
    then show False using inj_onD [OF Suc.prems(8), of i k] that i by auto
  qed
  have refs: "page_refs s1 q = 1" if q: "q \<in> pgd_frames s1 g (Suc i)" for q
  proof -
    have "q \<in> pgd_frames s g i" using q i(2) by (simp add: pf pgd_frames_Suc)
    then have "page_refs s q = 1" by (rule Suc.prems(9))
    moreover have "q \<notin> (if pgd_entry s g i = 0 then {} else {frame_of (pgd_entry s g i)})" using new q pf by auto
    ultimately show ?thesis using s1(2) by (simp add: frees_def)
  qed
  have "mm_inv s1" using s1(2) by (simp add: frees_def)
  from Suc.IH [OF this Suc.prems(2-5) tab i(3) inj refs] obtain s' where s':
    "pgd_loop (PAGE2VA h + 8 * j) (pgd_va (Suc i)) s1 = Some (Inr (True, pgd_va 128, s'))"
    "frees s1 s' (pgd_frames s g (Suc i)) {g}" unfolding pf by blast
  have "frees s s' (pgd_frames s g i) {g}"
    using frees_trans [OF s1(2) s'(2)] i(2) by (auto simp: pgd_frames_Suc split: if_splits)
  then show ?case unfolding pgd_round [OF Suc.prems(6) i(2)] s1(1) using s'(1) i(1) by simp
qed

section \<open>Address spaces confined to the window\<close>

lemma frame_of_less: "frame_of e < 2 ^ 52"
proof -
  have "unat e < 2 ^ 64" by (rule order_less_le_trans [OF unsigned_less]) simp
  then show ?thesis by (simp add: frame_of_def drop_bit_eq_div unat_div less_mult_imp_div_less)
qed

lemma frame_of_table:
  assumes "table_of e = PAGE2VA f" "f < 2 ^ 18"
  shows "frame_of e = f"
proof -
  have "(of_nat (4096 * frame_of e) :: u64) = of_nat (4096 * f)"
    using assms(1) unfolding table_of_frame PAGE2VA_offset by simp
  moreover have "unat (of_nat (4096 * frame_of e) :: u64) = 4096 * frame_of e"
    using frame_of_less [of e] by (intro unat_of_nat_small) simp
  moreover have "unat (of_nat (4096 * f) :: u64) = 4096 * f" using assms(2) by (intro unat_of_nat_small) simp
  ultimately show ?thesis by simp
qed

text \<open>The table behind an entry that is not 0.\<close>

lemma entry_table:
  assumes inv: "pt_inv s r" and conf: "confined (mem s) r" and js: "upath (js @ [i])" "node (mem s) r js = Some b"
    and e: "load64 (mem s) (b + 8 * i) \<noteq> 0"
  shows "node (mem s) r (js @ [i]) = Some (PAGE2VA (frame_of (load64 (mem s) (b + 8 * i))))"
    and "frame_of (load64 (mem s) (b + 8 * i)) \<in> tables s r" "frame_of (load64 (mem s) (b + 8 * i)) < 2 ^ 18"
    and "table_of (load64 (mem s) (b + 8 * i)) = PAGE2VA (frame_of (load64 (mem s) (b + 8 * i)))"
proof -
  let ?e = "load64 (mem s) (b + 8 * i)"
  have "?e AND 1 \<noteq> 0" using conf js e unfolding confined_def by blast
  then have n: "node (mem s) r (js @ [i]) = Some (table_of ?e)"
    using js(2) by (simp add: node_snoc tbl_def Let_def)
  obtain f where f: "f < 2 ^ 18" "f < length (pages s)" "table_of ?e = PAGE2VA f"
    by (rule pt_inv_node [OF inv js(1) n])
  note fe = frame_of_table [OF f(3,1)]
  show "node (mem s) r (js @ [i]) = Some (PAGE2VA (frame_of ?e))" "frame_of ?e < 2 ^ 18" "table_of ?e = PAGE2VA (frame_of ?e)"
    using n f fe by simp_all
  show "frame_of ?e \<in> tables s r" using n f js(1) by (auto simp: tables_def fe)
qed

lemma UTEXT_facts: "idx 39 UTEXT = 0" "idx 30 UTEXT = 2" "UTEXT = pgd_va 0"
  "USTACKTOP \<le> next_aligned 39 UTEXT" "USTACKTOP \<le> next_aligned 30 UTEXT"
  by (simp_all add: idx_def UTEXT_def pgd_va_def next_aligned_def USTACKTOP_def drop_bit_eq_div take_bit_eq_mod)

lemma nat_index: "i < 128 \<Longrightarrow> (of_nat i :: u64) < 512" "i < 128 \<Longrightarrow> unat (of_nat i :: u64) = i"
proof -
  assume "i < 128"
  then show u: "unat (of_nat i :: u64) = i" by (intro unat_of_nat_small) simp
  then show "(of_nat i :: u64) < 512" using \<open>i < 128\<close> by (simp add: word_less_nat_alt)
qed

text \<open>The tables of a confined address space, level by level.\<close>

lemma confined_tables:
  assumes inv: "pt_inv s (PAGE2VA f)" and f: "f < 2 ^ 18" and conf: "confined (mem s) (PAGE2VA f)"
  defines "e1 \<equiv> load64 (mem s) (PAGE2VA f + 8 * 0)"
  defines "e2 \<equiv> load64 (mem s) (PAGE2VA (frame_of e1) + 8 * 2)"
  shows "e1 = 0 \<Longrightarrow> tables s (PAGE2VA f) = {f}"
    and "e1 \<noteq> 0 \<Longrightarrow> e2 = 0 \<Longrightarrow> tables s (PAGE2VA f) = {f, frame_of e1}"
    and "e1 \<noteq> 0 \<Longrightarrow> e2 \<noteq> 0 \<Longrightarrow> tables s (PAGE2VA f) = {f, frame_of e1, frame_of e2} \<union> pgd_frames s (frame_of e2) 0"
    and "e1 \<noteq> 0 \<Longrightarrow> node (mem s) (PAGE2VA f) [0] = Some (PAGE2VA (frame_of e1))"
    and "e1 \<noteq> 0 \<Longrightarrow> e2 \<noteq> 0 \<Longrightarrow> node (mem s) (PAGE2VA f) [0, 2] = Some (PAGE2VA (frame_of e2))"
    and "e1 \<noteq> 0 \<Longrightarrow> frame_of e1 < 2 ^ 18" and "e1 \<noteq> 0 \<Longrightarrow> e2 \<noteq> 0 \<Longrightarrow> frame_of e2 < 2 ^ 18"
    and "e1 \<noteq> 0 \<Longrightarrow> table_of e1 = PAGE2VA (frame_of e1)"
    and "e1 \<noteq> 0 \<Longrightarrow> e2 \<noteq> 0 \<Longrightarrow> table_of e2 = PAGE2VA (frame_of e2)"
    and "e1 \<noteq> 0 \<Longrightarrow> e2 \<noteq> 0 \<Longrightarrow> i < 128 \<Longrightarrow> pgd_entry s (frame_of e2) i \<noteq> 0 \<Longrightarrow>
      node (mem s) (PAGE2VA f) [0, 2, of_nat i] = Some (PAGE2VA (frame_of (pgd_entry s (frame_of e2) i)))"
proof -
  let ?r = "PAGE2VA f"
  have len: "length (pages s) \<le> 2 ^ 18" using pt_inv_mm [OF inv] by (simp add: mm_inv_def)
  have up: "upath ([] @ [0])" "upath ([0] @ [2])" "\<And>i. i < 512 \<Longrightarrow> upath ([0, 2] @ [i])" by (auto simp: upath_def)
  have root: "node (mem s) ?r [] = Some ?r" by simp
  note t1 = entry_table [OF inv conf up(1) root, folded e1_def, unfolded append_Nil]
  show n1: "e1 \<noteq> 0 \<Longrightarrow> node (mem s) ?r [0] = Some (PAGE2VA (frame_of e1))" by (rule t1)
  show f1: "e1 \<noteq> 0 \<Longrightarrow> frame_of e1 < 2 ^ 18" and "e1 \<noteq> 0 \<Longrightarrow> table_of e1 = PAGE2VA (frame_of e1)" by (rule t1; assumption)+
  note t2 = entry_table [OF inv conf up(2) n1, folded e2_def, unfolded append.simps]
  show n2: "e1 \<noteq> 0 \<Longrightarrow> e2 \<noteq> 0 \<Longrightarrow> node (mem s) ?r [0, 2] = Some (PAGE2VA (frame_of e2))" by (rule t2)
  show f2: "e1 \<noteq> 0 \<Longrightarrow> e2 \<noteq> 0 \<Longrightarrow> frame_of e2 < 2 ^ 18" and "e1 \<noteq> 0 \<Longrightarrow> e2 \<noteq> 0 \<Longrightarrow> table_of e2 = PAGE2VA (frame_of e2)"
    by (rule t2; assumption)+
  have t3: "node (mem s) ?r [0, 2, of_nat i] = Some (PAGE2VA (frame_of (pgd_entry s (frame_of e2) i)))"
    "frame_of (pgd_entry s (frame_of e2) i) \<in> tables s ?r"
    if "e1 \<noteq> 0" "e2 \<noteq> 0" "i < 128" "pgd_entry s (frame_of e2) i \<noteq> 0" for i
    using entry_table [OF inv conf up(3) [OF nat_index(1) [OF that(3)]] n2 [OF that(1,2)] that(4)] by simp_all
  show "e1 \<noteq> 0 \<Longrightarrow> e2 \<noteq> 0 \<Longrightarrow> i < 128 \<Longrightarrow> pgd_entry s (frame_of e2) i \<noteq> 0 \<Longrightarrow>
      node (mem s) ?r [0, 2, of_nat i] = Some (PAGE2VA (frame_of (pgd_entry s (frame_of e2) i)))" by (rule t3)
  obtain f' where f': "f' < 2 ^ 18" "f' < length (pages s)" "?r = PAGE2VA f'" by (rule pt_inv_node [OF inv upath_Nil root])
  then have ft: "f \<in> tables s ?r" using f root by (auto simp: tables_def PAGE2VA_inj intro!: exI [of _ "[]"])
  have z1: "e1 = 0 \<Longrightarrow> node (mem s) ?r (0 # js) = None" for js by (simp add: tbl_def Let_def e1_def [simplified])
  have z2: "e1 \<noteq> 0 \<Longrightarrow> e2 = 0 \<Longrightarrow> node (mem s) ?r [0, 2] = None"
    using n1 node_snoc [of "mem s" ?r "[0]" 2] by (simp add: tbl_def e2_def del: node.simps)
  have z2': "e1 \<noteq> 0 \<Longrightarrow> e2 = 0 \<Longrightarrow> node (mem s) ?r [0, 2, i] = None" for i
    using z2 node_snoc [of "mem s" ?r "[0, 2]" i] by (simp del: node.simps)
  have z3: "e1 \<noteq> 0 \<Longrightarrow> e2 \<noteq> 0 \<Longrightarrow> pgd_entry s (frame_of e2) i = 0 \<Longrightarrow> node (mem s) ?r [0, 2, of_nat i] = None" for i
    using n2 node_snoc [of "mem s" ?r "[0, 2]" "of_nat i"] by (simp add: tbl_def del: node.simps)
  have q: "q = f \<or> (e1 \<noteq> 0 \<and> (q = frame_of e1 \<or> (e2 \<noteq> 0 \<and> (q = frame_of e2 \<or> q \<in> pgd_frames s (frame_of e2) 0))))"
    if tq: "q \<in> tables s ?r" for q
  proof -
    obtain js where js: "q < 2 ^ 18" "upath js" "node (mem s) ?r js = Some (PAGE2VA q)"
      using tq len by (auto simp: tables_def)
    have inj: "g < 2 ^ 18 \<Longrightarrow> PAGE2VA g = PAGE2VA q \<Longrightarrow> q = g" for g using js(1) by (simp add: PAGE2VA_inj)
    consider "js = []" | "js = [0]" | "js = [0, 2]" | i where "i < 128" "js = [0, 2, of_nat i]"
      using conf js(2,3) unfolding confined_def window_def by blast
    then show ?thesis
    proof cases
      case 1
      then show ?thesis using js(3) inj [OF f] by simp
    next
      case 2
      then have "e1 \<noteq> 0" using js(3) z1 [of "[]"] by auto
      then show ?thesis using js(3) 2 n1 inj [OF f1] by simp
    next
      case 3
      then have "e1 \<noteq> 0" "e2 \<noteq> 0" using js(3) z1 [of "[2]"] z2 by auto
      then show ?thesis using js(3) 3 n2 inj [OF f2] by simp
    next
      case (4 i)
      then have e: "e1 \<noteq> 0" "e2 \<noteq> 0" using js(3) z1 [of "[2, of_nat i]"] z2' [of "of_nat i"] by auto
      then have ei: "pgd_entry s (frame_of e2) i \<noteq> 0" using js(3) 4 z3 [of i] by auto
      have "frame_of (pgd_entry s (frame_of e2) i) < 2 ^ 18"
        using t3(2) [OF e 4(1) ei] len by (auto simp: tables_def)
      moreover have "PAGE2VA (frame_of (pgd_entry s (frame_of e2) i)) = PAGE2VA q"
        using trans [OF t3(1) [OF e 4(1) ei, symmetric, folded 4(2)] js(3)] by (rule option.inject [THEN iffD1])
      ultimately have "q = frame_of (pgd_entry s (frame_of e2) i)" by (rule inj)
      then have "q \<in> pgd_frames s (frame_of e2) 0"
        unfolding pgd_frames_def using ei 4(1) by (intro image_eqI [where x = i]) simp_all
      then show ?thesis using e by blast
    qed
  qed
  show "e1 = 0 \<Longrightarrow> tables s ?r = {f}" using q ft by blast
  show "e1 \<noteq> 0 \<Longrightarrow> e2 = 0 \<Longrightarrow> tables s ?r = {f, frame_of e1}" using q ft t1(2) by blast
  assume e: "e1 \<noteq> 0" "e2 \<noteq> 0"
  have "pgd_frames s (frame_of e2) 0 \<subseteq> tables s ?r" 
    unfolding pgd_frames_def by (intro image_subsetI) (simp add: t3(2) [OF e])
  then show "tables s ?r = {f, frame_of e1, frame_of e2} \<union> pgd_frames s (frame_of e2) 0"
    using q ft t1(2) [OF e(1)] t2(2) [OF e] by blast
qed

lemma frees_load:
  "frees s s' F G \<Longrightarrow> h < 2 ^ 18 \<Longrightarrow> j < 512 \<Longrightarrow> h \<notin> G \<Longrightarrow>
     load64 (mem s') (PAGE2VA h + 8 * j) = load64 (mem s) (PAGE2VA h + 8 * j)"
  by (simp add: frees_def)

lemma frees_no_directory:
  assumes "mm_inv s" and "load64 (mem s) (PAGE2VA f + 8 * 0) = 0"
  shows "free_pgtable (PAGE2VA f) s = Inr s"
  unfolding free_pgtable_def
  by (subst pml_loop.simps) (simp only: Let_def UTEXT_facts(1,2,4,5) pml_entry_def assms(2) simp_thms if_True if_False
      option.simps sum.simps prod.case)

lemma frees_no_table:
  assumes mm: "mm_inv s" and f: "f < 2 ^ 18"
    and e1: "load64 (mem s) (PAGE2VA f + 8 * 0) = e" "e \<noteq> 0" "table_of e = PAGE2VA (frame_of e)" "page_refs s (frame_of e) = 1"
    and e2: "load64 (mem s) (PAGE2VA (frame_of e) + 8 * 2) = 0"
  shows "\<exists>s'. free_pgtable (PAGE2VA f) s = Inr s' \<and> frees s s' {frame_of e} {f}"
proof -
  have "pdp_loop (PAGE2VA f + 8 * 0) UTEXT s = Some (Inr (True, next_aligned 30 UTEXT, s))"
    by (subst pdp_loop.simps) (simp only: Let_def UTEXT_facts(1,2,4,5) pdp_entry_def e1(1,3) e2 simp_thms if_True if_False
        option.simps sum.simps prod.case)
  then have p: "pml_entry (PAGE2VA f + 8 * 0) UTEXT s = (case free_entry (PAGE2VA f + 8 * 0) s of
      Inl e \<Rightarrow> Some (Inl e) | Inr s2 \<Rightarrow> Some (Inr (True, next_aligned 30 UTEXT, s2)))"
    unfolding pml_entry_def e1(1) by (simp only: e1(2) if_False option.simps sum.simps prod.case)
  obtain s' where s': "free_entry (PAGE2VA f + 8 * 0) s = Inr s'" "frees s s' {frame_of e} {f}"
    using free_entry_frees [OF mm f, of 0] e1(1,4) by auto
  have "free_pgtable (PAGE2VA f) s = Inr s'"
    unfolding free_pgtable_def
    by (subst pml_loop.simps) (simp only: Let_def UTEXT_facts(1,2,4,5) p s'(1) if_True option.simps sum.simps prod.case)
  then show ?thesis using s'(2) by blast
qed

lemma frees_all_levels:
  assumes mm: "mm_inv s" and f: "f < 2 ^ 18" "h < 2 ^ 18" "g < 2 ^ 18" and ne: "f \<noteq> h" "f \<noteq> g" "h \<noteq> g"
    and e1: "load64 (mem s) (PAGE2VA f + 8 * 0) = e" "e \<noteq> 0" "table_of e = PAGE2VA h" "frame_of e = h" "page_refs s h = 1"
    and e2: "load64 (mem s) (PAGE2VA h + 8 * 2) = d" "d \<noteq> 0" "table_of d = PAGE2VA g" "frame_of d = g" "page_refs s g = 1"
    and inj: "inj_on (\<lambda>k. frame_of (pgd_entry s g k)) {k. 0 \<le> k \<and> k < 128 \<and> pgd_entry s g k \<noteq> 0}"
    and refs: "\<And>q. q \<in> pgd_frames s g 0 \<Longrightarrow> page_refs s q = 1 \<and> q \<noteq> g \<and> q \<noteq> h"
  shows "\<exists>s'. free_pgtable (PAGE2VA f) s = Inr s' \<and> frees s s' ({h, g} \<union> pgd_frames s g 0) {f, h, g}"
proof -
  have d: "table_of (load64 (mem s) (PAGE2VA h + 8 * 2)) = PAGE2VA g" using e2 by simp
  have one: "\<And>q. q \<in> pgd_frames s g 0 \<Longrightarrow> page_refs s q = 1" using refs by blast
  obtain s1 where s1: "pgd_loop (PAGE2VA h + 8 * 2) UTEXT s = Some (Inr (True, pgd_va 128, s1))"
    "frees s s1 (pgd_frames s g 0) {g}"
    using pgd_loop_frees [OF mm f(3) f(2) ne(3) _ d _ inj one, of 127] UTEXT_facts(3) by auto
  have ld1: "load64 (mem s1) (PAGE2VA h + 8 * 2) = d" "load64 (mem s1) (PAGE2VA f + 8 * 0) = e"
    using frees_load [OF s1(2) f(2), of 2] frees_load [OF s1(2) f(1), of 0] f ne e1(1) e2(1) by simp_all
  have r1: "page_refs s1 g = 1" "page_refs s1 h = 1" "mm_inv s1" using s1(2) refs e1(5) e2(5) by (auto simp: frees_def)
  obtain s2 where s2: "free_entry (PAGE2VA h + 8 * 2) s1 = Inr s2" "frees s1 s2 {g} {h}"
    using free_entry_frees [OF r1(3) f(2), of 2] r1(1) ld1(1) e2(4) by auto
  have ld2: "load64 (mem s2) (PAGE2VA f + 8 * 0) = e"
    using frees_load [OF s2(2) f(1), of 0] ne ld1(2) by simp
  have r2: "page_refs s2 h = 1" "mm_inv s2" using s2(2) ne r1 by (auto simp: frees_def)
  obtain s3 where s3: "free_entry (PAGE2VA f + 8 * 0) s2 = Inr s3" "frees s2 s3 {h} {f}"
    using free_entry_frees [OF r2(2) f(1), of 0] r2(1) ld2 e1(4) by auto
  have "pdp_entry (PAGE2VA h + 8 * 2) UTEXT s = Some (Inr (True, pgd_va 128, s2))"
    by (simp only: pdp_entry_def e2(1,2) s1(1) s2(1) if_False option.simps sum.simps prod.case)
  then have "pdp_loop (PAGE2VA f + 8 * 0) UTEXT s = Some (Inr (True, pgd_va 128, s2))"
    by (subst pdp_loop.simps) (simp only: Let_def UTEXT_facts(1,2,4,5) e1(1,3) if_True option.simps sum.simps prod.case)
  then have "pml_entry (PAGE2VA f + 8 * 0) UTEXT s = Some (Inr (True, pgd_va 128, s3))"
    by (simp only: pml_entry_def e1(1,2) s3(1) if_False option.simps sum.simps prod.case)
  then have "free_pgtable (PAGE2VA f) s = Inr s3"
    unfolding free_pgtable_def
    by (subst pml_loop.simps) (simp only: Let_def UTEXT_facts(1,2,4,5) if_True option.simps sum.simps prod.case)
  moreover have "frees s s3 ({h, g} \<union> pgd_frames s g 0) {f, h, g}"
    using frees_trans [OF frees_trans [OF s1(2) s2(2)] s3(2)] by (simp add: Un_commute Un_left_commute insert_commute)
  ultimately show ?thesis by blast
qed

lemma free_pgtable_frees:
  assumes inv: "pt_inv s (PAGE2VA f)" and f: "f < 2 ^ 18" and conf: "confined (mem s) (PAGE2VA f)"
    and refs: "\<forall>q \<in> tables s (PAGE2VA f). page_refs s q = 1"
  shows "\<exists>s' G. free_pgtable (PAGE2VA f) s = Inr s' \<and> frees s s' (tables s (PAGE2VA f) - {f}) G
    \<and> G \<subseteq> tables s (PAGE2VA f)"
proof -
  let ?r = "PAGE2VA f"
  define e1 where "e1 = load64 (mem s) (PAGE2VA f + 8 * 0)"
  define e2 where "e2 = load64 (mem s) (PAGE2VA (frame_of e1) + 8 * 2)"
  note ct = confined_tables [OF inv f conf, folded e1_def, folded e2_def]
  note uniq = pt_inv_unique [OF inv]
  have up: "upath [0]" "upath [0, 2]" "\<And>i. i < 128 \<Longrightarrow> upath [0, 2, of_nat i]" using nat_index by (auto simp: upath_def)
  consider "e1 = 0" | "e1 \<noteq> 0" "e2 = 0" | "e1 \<noteq> 0" "e2 \<noteq> 0" by blast
  then show ?thesis
  proof cases
    case 1
    then show ?thesis
      using frees_no_directory [OF pt_inv_mm [OF inv]] frees_refl [OF pt_inv_mm [OF inv]] ct(1)
      by (auto simp: e1_def)
  next
    case 2
    have t: "tables s ?r = {f, frame_of e1}" by (rule ct(2) [OF 2])
    have ne: "frame_of e1 \<noteq> f" using uniq [OF up(1) upath_Nil ct(4) [OF 2(1)]] by auto
    have "tables s ?r - {f} = {frame_of e1}" using t ne by auto
    moreover have "page_refs s (frame_of e1) = 1" using refs t by blast
    ultimately show ?thesis
      using frees_no_table [OF pt_inv_mm [OF inv] f e1_def [symmetric] 2(1) ct(8) [OF 2(1)]] 2(2) t unfolding e2_def
      by (metis insertI1 singleton_insert_inj_eq subsetI subset_insertI2 empty_subsetI insert_subset)
  next
    case 3
    have t: "tables s ?r = {f, frame_of e1, frame_of e2} \<union> pgd_frames s (frame_of e2) 0" by (rule ct(3) [OF 3])
    note n1 = ct(4) [OF 3(1)] and n2 = ct(5) [OF 3] and n3 = ct(10) [OF 3]
    have ne: "f \<noteq> frame_of e1" "f \<noteq> frame_of e2" "frame_of e1 \<noteq> frame_of e2"
      using uniq [OF up(1) upath_Nil n1] uniq [OF up(2) upath_Nil n2] uniq [OF up(1,2) n1] n2 by auto
    have pg: "page_refs s q = 1 \<and> q \<noteq> frame_of e2 \<and> q \<noteq> frame_of e1 \<and> q \<noteq> f"
      if q: "q \<in> pgd_frames s (frame_of e2) 0" for q
    proof -
      obtain i where i: "i < 128" "pgd_entry s (frame_of e2) i \<noteq> 0" "q = frame_of (pgd_entry s (frame_of e2) i)"
        using q by (auto simp: pgd_frames_def)
      note n = n3 [OF i(1,2), folded i(3)]
      show ?thesis
        using refs q t uniq [OF up(3) [OF i(1)] up(2) n] uniq [OF up(3) [OF i(1)] up(1) n] uniq [OF up(3) [OF i(1)] upath_Nil n] n1 n2
        by auto
    qed
    have inj: "inj_on (\<lambda>k. frame_of (pgd_entry s (frame_of e2) k)) {k. 0 \<le> k \<and> k < 128 \<and> pgd_entry s (frame_of e2) k \<noteq> 0}"
    proof (rule inj_onI)
      fix k k' assume k: "k \<in> {k. 0 \<le> k \<and> k < 128 \<and> pgd_entry s (frame_of e2) k \<noteq> 0}"
        "k' \<in> {k. 0 \<le> k \<and> k < 128 \<and> pgd_entry s (frame_of e2) k \<noteq> 0}"
        "frame_of (pgd_entry s (frame_of e2) k) = frame_of (pgd_entry s (frame_of e2) k')"
      then have l: "k < 128" "k' < 128" "pgd_entry s (frame_of e2) k \<noteq> 0" "pgd_entry s (frame_of e2) k' \<noteq> 0" by simp_all
      have "[0, 2, of_nat k] = [0, 2, of_nat k' :: u64]"
        by (rule uniq [OF up(3) up(3) n3 [OF l(1,3), unfolded k(3)] n3 [OF l(2,4)]]) (rule l)+
      then show "k = k'" using nat_index(2) l(1,2) by (metis list.inject)
    qed
    have one: "page_refs s (frame_of e1) = 1" "page_refs s (frame_of e2) = 1" using refs t by blast+
    obtain s' where s': "free_pgtable ?r s = Inr s'"
      "frees s s' ({frame_of e1, frame_of e2} \<union> pgd_frames s (frame_of e2) 0) {f, frame_of e1, frame_of e2}"
      using frees_all_levels [OF pt_inv_mm [OF inv] f ct(6) [OF 3(1)] ct(7) [OF 3] ne e1_def [symmetric] 3(1) ct(8) [OF 3(1)]
        refl one(1) e2_def [symmetric] 3(2) ct(9) [OF 3] refl one(2) inj] pg by blast
    moreover have "tables s ?r - {f} = {frame_of e1, frame_of e2} \<union> pgd_frames s (frame_of e2) 0"
      "{f, frame_of e1, frame_of e2} \<subseteq> tables s ?r" using t ne pg by auto
    ultimately show ?thesis by metis
  qed
qed

section \<open>Destroying an address space\<close>

lemma va2page_PAGE2VA: "f < 2 ^ 18 \<Longrightarrow> va2page (PAGE2VA f) = f"
proof -
  assume f: "f < 2 ^ 18"
  have "unat (of_nat (4096 * f) :: u64) = 4096 * f" using f by (intro unat_of_nat_small) simp
  then show ?thesis by (simp only: va2page_def PAGE2VA_offset add_diff_cancel_left' unat_drop_bit_eq) (simp add: drop_bit_eq_div)
qed

lemma unmaps_confined: "unmaps s s' r V x \<Longrightarrow> confined (mem s) r \<Longrightarrow> confined (mem s') r"
  unfolding unmaps_def by (rule confined_cong [of "mem s" r]) blast+

lemma kproc_procs: 
  fixes s t :: "('d, 'a) kproc_scheme"
  assumes "kmm.more s = kmm.more t"
  shows "procs s = procs t"
  using assms by (cases s; cases t) simp

lemma plain_leaves_table: "plain_leaves s r b n \<Longrightarrow> q \<in> tables s r \<Longrightarrow> card (sharers s r b n q) = 0"
  by (auto simp: plain_leaves_def sharers_def)

lemma destroy_vm_full:
  fixes s :: "('d, 'a) kproc_scheme"
  assumes dir: "p < length (procs s)" "pgdir (procs s ! p) = PAGE2VA f" "f < 2 ^ 18"
    and inv: "pt_inv s (PAGE2VA f)" and conf: "confined (mem s) (PAGE2VA f)"
    and plain: "plain_leaves s (PAGE2VA f) 0x80000 user_pages"
    and refs: "\<forall>q \<in> tables s (PAGE2VA f). page_refs s q = 1"
  shows "\<exists>s'. destroy_vm p s = Inr s' \<and> mm_inv s'
    \<and> procs s' = (procs s)[p := (procs s ! p)\<lparr>pgdir := 0\<rparr>]
    \<and> (\<forall>q. page_refs s' q = (if q \<in> tables s (PAGE2VA f) then 0
          else page_refs s q - int (card (sharers s (PAGE2VA f) 0x80000 user_pages q))))
    \<and> free_pages s' = {q. q < length (pages s) \<and> (q \<in> tables s (PAGE2VA f)
          \<or> page_refs s q = int (card (sharers s (PAGE2VA f) 0x80000 user_pages q)))}
    \<and> keeps (mem s) (mem s') (tables s (PAGE2VA f)) \<and> length (pages s') = length (pages s) \<and> kpgdir s' = kpgdir s
    \<and> kmm.more s' = kmm.more (upd_proc p (\<lambda>pr. pr\<lparr>pgdir := 0\<rparr>) s)"
proof -
  let ?r = "PAGE2VA f" and ?n = "\<lambda>q. int (card (sharers s (PAGE2VA f) 0x80000 user_pages q))"
  have len: "0x80000 + user_pages \<le> 2 ^ 35" by (simp add: user_pages_def USTACKTOP_def UTEXT_def unat_div)
  have ut: "UTEXT = page_va 0x80000" by (simp add: UTEXT_def page_va_def)
  obtain s1 where s1: "remove_pages ?r UTEXT user_pages s = Inr s1"
    "unmaps s s1 ?r (\<lambda>v. 0x80000 \<le> unat v \<and> unat v < 0x80000 + user_pages) ?n"
    using remove_pages_unmaps [OF inv len plain] unfolding ut by blast
  have t1: "pt_inv s1 ?r" "tables s1 ?r = tables s ?r" "\<And>q. page_refs s1 q = page_refs s q - ?n q"
    "length (pages s1) = length (pages s)" "procs s1 = procs s"
    using s1(2) kproc_procs [of s1 s] by (simp_all add: unmaps_def)
  have "\<forall>q \<in> tables s1 ?r. page_refs s1 q = 1"
    using refs plain_leaves_table [OF plain] by (simp add: t1(2,3))
  from free_pgtable_frees [OF t1(1) dir(3) unmaps_confined [OF s1(2) conf] this] obtain s2 G where
    s2: "free_pgtable ?r s1 = Inr s2" "frees s1 s2 (tables s ?r - {f}) G" "G \<subseteq> tables s ?r" unfolding t1(2) by blast
  have ft: "f \<in> tables s ?r"
  proof -
    obtain g where g: "g < 2 ^ 18" "g < length (pages s)" "?r = PAGE2VA g" by (rule pt_inv_node [OF inv upath_Nil]) simp
    then show ?thesis using dir(3) by (auto simp: tables_def PAGE2VA_inj intro!: exI [of _ "[]"])
  qed
  have t2: "mm_inv s2" "length (pages s2) = length (pages s)" "procs s2 = procs s"
    "\<And>q. page_refs s2 q = (if q \<in> tables s ?r - {f} then 0 else page_refs s q - ?n q)"
    using s2(2) t1 kproc_procs [of s2 s1] by (simp_all add: frees_def)
  have f2: "page_refs s2 f = 1" "f < length (pages s)"
    using t2(4) [of f] refs ft plain_leaves_table [OF plain ft] by (auto simp: tables_def)
  then have c2: "0 < count (pages s2 ! f)" "f < length (pages s2)" using t2(2) by (simp_all add: page_refs_def)
  note fp = free_page_Some [OF t2(1) c2(2,1) refl]
  let ?s3 = "free_page (Some f) s2"
  have pr: "procs ?s3 = procs s" using kproc_procs [OF fp(8)] t2(3) by simp
  have r3: "page_refs ?s3 q = (if q \<in> tables s ?r then 0 else page_refs s q - ?n q)" for q
    using page_refs_free [OF t2(1), of f] f2(1) t2(4) ft by auto
  let ?s' = "upd_proc p (\<lambda>pr. pr\<lparr>pgdir := 0\<rparr>) ?s3"
  have "destroy_vm p s = Inr ?s'"
    using s1(1) s2(1) f2(2) by (simp add: destroy_vm_def dir(2) t1(5) t2(2,3) va2page_PAGE2VA [OF dir(3)] bindE_def)
  moreover have "free_pages ?s' = {q. q < length (pages s) \<and> page_refs ?s3 q = 0}"
    using fp(6) t2(2) by (auto simp: upd_proc_mm(2) free_pages_def [of ?s3] page_refs_def [of ?s3])
  then have "free_pages ?s' = {q. q < length (pages s) \<and> (q \<in> tables s ?r \<or> page_refs s q = ?n q)}"
    unfolding r3 by auto
  moreover have "procs ?s' = (procs s)[p := (procs s ! p)\<lparr>pgdir := 0\<rparr>]" using pr by (simp add: upd_proc_def)
  moreover have "mm_inv ?s'" "page_refs ?s' = page_refs ?s3" using fp(1) by (simp_all only: upd_proc_mm)
  moreover have "keeps (mem s) (mem ?s') (tables s ?r)"
  proof -
    have "keeps (mem s) (mem s1) (tables s ?r)" "keeps (mem s1) (mem s2) (tables s ?r)"
      using s1(2) keeps_mono [OF frees_keeps [OF s2(2)] s2(3)] by (simp_all add: unmaps_def)
    then have "keeps (mem s) (mem s2) (tables s ?r)" by (rule keeps_trans) simp_all
    then show ?thesis using fp(5) by (simp add: upd_proc_def)
  qed
  moreover have "length (pages ?s') = length (pages s)" "kpgdir ?s' = kpgdir s"
    using fp(6,9) t2(2) s1(2) s2(2) by (simp_all add: upd_proc_def unmaps_def frees_def)
  moreover have "kmm.more ?s' = kmm.more (upd_proc p (\<lambda>pr. pr\<lparr>pgdir := 0\<rparr>) s)"
  proof -
    have "kmm.more ?s3 = kmm.more s" using fp(8) s1(2) s2(2) by (simp add: unmaps_def frees_def)
    then show ?thesis by (cases s; cases ?s3; simp add: upd_proc_def)
  qed
  ultimately show ?thesis using r3 by (intro exI [of _ ?s']) simp
qed

text \<open>
  C6.  Destroying the address space of a process whose tables lie on the paths of the
  window from \<open>UTEXT\<close> to \<open>USTACKTOP\<close> leaves no page behind: \<open>destroy_vm\<close> returns (the loops of
  \<open>free_pgtable\<close> end and no index is out of range), every table page is back in the pool with count 0,
  every other frame has lost exactly one reference for each page that mapped it, the free pages are the
  tables and the frames nobody else refers to, and only the page directory of the process is cleared.
\<close>

theorem destroy_vm_releases:
  fixes s :: "('d, 'a) kproc_scheme"
  assumes dir: "p < length (procs s)" "pgdir (procs s ! p) = PAGE2VA f" "f < 2 ^ 18"
    and inv: "pt_inv s (PAGE2VA f)" and conf: "confined (mem s) (PAGE2VA f)"
    and plain: "plain_leaves s (PAGE2VA f) 0x80000 user_pages"
    and refs: "\<forall>q \<in> tables s (PAGE2VA f). page_refs s q = 1"
  shows "\<exists>s'. destroy_vm p s = Inr s' \<and> mm_inv s'
    \<and> procs s' = (procs s)[p := (procs s ! p)\<lparr>pgdir := 0\<rparr>]
    \<and> (\<forall>q. page_refs s' q = (if q \<in> tables s (PAGE2VA f) then 0
          else page_refs s q - int (card (sharers s (PAGE2VA f) 0x80000 user_pages q))))
    \<and> free_pages s' = {q. q < length (pages s) \<and> (q \<in> tables s (PAGE2VA f)
          \<or> page_refs s q = int (card (sharers s (PAGE2VA f) 0x80000 user_pages q)))}"
  using destroy_vm_full [OF assms] by blast

lemma fork_machine_leaf: "k < 2 ^ 35 \<Longrightarrow> pte_of (mem fork_machine) (PAGE2VA 0) (page_va k) = (if k = 0x80000 then 0x2007 else 0)"
proof -
  assume k: "k < 2 ^ 35"
  then have "unat (of_nat k :: u64) = k" by (intro unat_of_nat_small) simp
  then have "(of_nat k :: u64) = 0x80000 \<longleftrightarrow> k = 0x80000" by (simp add: word_unat_eq_iff)
  then show ?thesis using fork_machine_facts(2) [of "page_va k"] page_va_facts [OF k] by simp
qed

lemma fork_machine_confined: "confined (mem fork_machine) (PAGE2VA 0)"
  "\<forall>q \<in> tables fork_machine (PAGE2VA 0). page_refs fork_machine q = 1"
proof -
  have inv: "pt_inv (machine 3 30) (PAGE2VA 0)" using spaces_30(1) by simp
  have va: "UTEXT \<le> UTEXT" "UTEXT < USTACKTOP" by (simp_all add: UTEXT_def USTACKTOP_def)
  have room: "3 \<le> card (free_pages (machine 3 30))" by (simp add: machine_30)
  obtain s' where s': "insert_page (PAGE2VA 0) UTEXT (Some 2) 7 (machine 3 30) = Inr (0, s')"
    "tables s' (PAGE2VA 0) = tables (machine 3 30) (PAGE2VA 0) \<union> (free_pages (machine 3 30) - free_pages s')"
    "\<And>q. page_refs s' q = (if q \<in> free_pages (machine 3 30) - free_pages s' then 1 else page_refs (machine 3 30) q)"
    by (rule insert_page_full [OF inv window_path(4) [OF va] room]) (rule that; assumption)
  have m: "fork_machine = s'" by (simp add: fork_machine_def s'(1))
  show "confined (mem fork_machine) (PAGE2VA 0)"
    unfolding m by (rule insert_page_confined [OF inv va room _ s'(1)]) (simp add: machine_30 confined_zero)
  have "page_refs (machine 3 30) 0 = 1" by (simp add: page_refs_def machine_def)
  then show "\<forall>q \<in> tables fork_machine (PAGE2VA 0). page_refs fork_machine q = 1"
    unfolding m using s'(2,3) by (auto simp: spaces_30(2))
qed

theorem destroy_vm_releases_witness:
  "\<exists>s'. destroy_vm 9 fault_machine = Inr s' \<and> pgdir (procs s' ! 9) = 0
     \<and> page_refs s' 0 = 0 \<and> page_refs s' 2 = 0"
proof -
  note f = fault_machine_facts
  have up: "0x80000 + user_pages \<le> 2 ^ 35" "0 < user_pages" by (simp_all add: user_pages_def USTACKTOP_def UTEXT_def unat_div)
  have pte: "pte_of (mem fault_machine) (PAGE2VA 0) (page_va k) = (if k = 0x80000 then 0x2007 else 0)"
    if "k < 2 ^ 35" for k using fork_machine_leaf [OF that] by (simp add: f(7))
  have m: "mapped fault_machine (PAGE2VA 0) 0x80000 user_pages = {0x80000}"
    using pte up by (auto simp: mapped_def split: if_splits)
  have fr: "frame_of 0x2007 = 2" by (simp add: frame_of_def drop_bit_eq_div unat_div)
  have sh: "sharers fault_machine (PAGE2VA 0) 0x80000 user_pages q = (if q = 2 then {0x80000} else {})" for q
    unfolding sharers_def m using pte [of "0x80000"] fr by auto
  have t: "tables fault_machine (PAGE2VA 0) = tables fork_machine (PAGE2VA 0)"
    by (rule space_cong) (simp_all add: fault_machine_def)
  have nn: "0 \<le> page_refs fault_machine q" for q
    using pt_inv_mm [OF f(4)] by (auto simp: page_refs_def mm_inv_def)
  have plain: "plain_leaves fault_machine (PAGE2VA 0) 0x80000 user_pages"
    unfolding plain_leaves_def m sh using pte [of "0x80000"] fr f(5) nn fork_machine_facts(3) f(6) by auto
  have conf: "confined (mem fault_machine) (PAGE2VA 0)" using fork_machine_confined(1) by (simp add: f(7))
  have refs: "\<forall>q \<in> tables fault_machine (PAGE2VA 0). page_refs fault_machine q = 1"
    using fork_machine_confined(2) by (simp add: t f(6))
  have nine: "9 < length (procs fault_machine)" by (simp add: fault_machine_def proc_machine_def)
  obtain s' where s': "destroy_vm 9 fault_machine = Inr s'"
    "procs s' = (procs fault_machine)[9 := (procs fault_machine ! 9)\<lparr>pgdir := 0\<rparr>]"
    "\<forall>q. page_refs s' q = (if q \<in> tables fault_machine (PAGE2VA 0) then 0
          else page_refs fault_machine q - int (card (sharers fault_machine (PAGE2VA 0) 0x80000 user_pages q)))"
    using destroy_vm_releases [OF nine f(2) _ f(4) conf plain refs] by auto
  have zero: "0 \<in> tables fault_machine (PAGE2VA 0)"
  proof -
    have "0 < length (pages fault_machine)" using fork_machine_tables(3) by (simp add: fault_machine_def)
    then show ?thesis by (auto simp: tables_def intro!: exI [of _ "[]"])
  qed
  show ?thesis
    using s' zero f(5,6) fork_machine_facts(3) nine sh by auto
qed

end
