(* ===== verification/Sharing.thy ===== *)
theory Sharing
  imports Destroy
begin

text \<open>
  Which frames the page-table entries of all processes name, apart from any state: how the entries may share
  frames and what the reference counts then are, when a page is mapped, when a process is copied and when it
  gives its pages back.
\<close>

section \<open>Who maps a frame\<close>

text \<open>
  The entries of all processes, \<open>L p k\<close> for page number \<open>k\<close> of process \<open>p\<close>, the reference counts \<open>C\<close> and the frames \<open>X\<close>
  of the kernel.  Entries lie in the window and name frames outside \<open>X\<close>, the count of a mapped frame is the number of entries that name it, and
  a frame with a writable entry has no other.
\<close>

type_synonym leaves = "nat \<Rightarrow> nat \<Rightarrow> u64"

definition win :: "nat set" where
  "win = {0x80000..<0x8FFFF}"

definition holders :: "leaves \<Rightarrow> nat \<Rightarrow> (nat \<times> nat) set" where
  "holders L f = {(p, k). L p k \<noteq> 0 \<and> frame_of (L p k) = f}"

definition sharing_ok :: "leaves \<Rightarrow> (nat \<Rightarrow> int) \<Rightarrow> nat set \<Rightarrow> bool" where
  "sharing_ok L C X \<longleftrightarrow> (\<forall>p k. L p k \<noteq> 0 \<longrightarrow> k \<in> win \<and> L p k AND 1 \<noteq> 0 \<and> frame_of (L p k) \<notin> X)
     \<and> (\<forall>f. finite (holders L f) \<and> (holders L f \<noteq> {} \<longrightarrow> C f = int (card (holders L f))))
     \<and> (\<forall>p k. L p k AND 2 \<noteq> 0 \<longrightarrow> holders L (frame_of (L p k)) = {(p, k)})"

definition set_leaf :: "leaves \<Rightarrow> nat \<Rightarrow> nat \<Rightarrow> u64 \<Rightarrow> leaves" where
  "set_leaf L p k e = L(p := (L p)(k := e))"

lemma set_leaf_at: "set_leaf L p k e q j = (if q = p \<and> j = k then e else L q j)"
  by (simp add: set_leaf_def)

lemma holders_set_leaf:
  "holders (set_leaf L p k e) f = (if e \<noteq> 0 \<and> frame_of e = f then insert (p, k) (holders L f) else holders L f - {(p, k)})"
  by (auto simp: holders_def set_leaf_at split: if_splits)

lemma sharing_leaf:
  assumes "sharing_ok L C X" and "L p k \<noteq> 0"
  shows "k \<in> win" "L p k AND 1 \<noteq> 0" "frame_of (L p k) \<notin> X" "(p, k) \<in> holders L (frame_of (L p k))"
    "0 < C (frame_of (L p k))" "C (frame_of (L p k)) = int (card (holders L (frame_of (L p k))))"
proof -
  show k: "k \<in> win" "L p k AND 1 \<noteq> 0" "frame_of (L p k) \<notin> X" using assms by (simp_all add: sharing_ok_def)
  show h: "(p, k) \<in> holders L (frame_of (L p k))" using assms(2) by (simp add: holders_def)
  then show c: "C (frame_of (L p k)) = int (card (holders L (frame_of (L p k))))" using assms(1) by (auto simp: sharing_ok_def)
  have "finite (holders L (frame_of (L p k)))" using assms(1) by (simp add: sharing_ok_def)
  then show "0 < C (frame_of (L p k))" using h c by (auto simp: card_gt_0_iff)
qed

lemma sharing_unused: "sharing_ok L C X \<Longrightarrow> C f \<le> 0 \<Longrightarrow> holders L f = {}"
  unfolding sharing_ok_def by (metis card_gt_0_iff not_le of_nat_0_less_iff)

lemma sharing_writable: "sharing_ok L C X \<Longrightarrow> L p k AND 2 \<noteq> 0 \<Longrightarrow> holders L (frame_of (L p k)) = {(p, k)}"
  by (simp add: sharing_ok_def)

lemma sharing_finite: "sharing_ok L C X \<Longrightarrow> finite (holders L f)"
  by (simp add: sharing_ok_def)

lemma sharing_count: "sharing_ok L C X \<Longrightarrow> holders L f \<noteq> {} \<Longrightarrow> C f = int (card (holders L f))"
  by (simp add: sharing_ok_def)

lemma sharingI:
  assumes "\<And>p k. L p k \<noteq> 0 \<Longrightarrow> k \<in> win \<and> L p k AND 1 \<noteq> 0 \<and> frame_of (L p k) \<notin> X"
    and "\<And>f. finite (holders L f)" and "\<And>f. holders L f \<noteq> {} \<Longrightarrow> C f = int (card (holders L f))"
    and "\<And>p k. L p k AND 2 \<noteq> 0 \<Longrightarrow> holders L (frame_of (L p k)) = {(p, k)}"
  shows "sharing_ok L C X"
  using assms by (simp add: sharing_ok_def)

text \<open>A fresh frame is mapped: by a process that had no page there, or instead of the one it had.\<close>

lemma sharing_set_fresh:
  assumes ok: "sharing_ok L C X" and k: "k \<in> win" and e: "e AND 1 \<noteq> 0" "frame_of e = f"
    and f: "C f = 0" "f \<notin> X'" "C' f = 1"
    and X': "\<And>q. q \<in> X' \<Longrightarrow> q \<in> X \<or> C q = 0"
    and C': "\<And>q. q \<noteq> f \<Longrightarrow> C q \<noteq> 0 \<Longrightarrow> C' q = (if L p k \<noteq> 0 \<and> q = frame_of (L p k) then C q - 1 else C q)"
  shows "sharing_ok (set_leaf L p k e) C' X'"
proof (rule sharingI)
  let ?L = "set_leaf L p k e"
  have nz: "e \<noteq> 0" using e(1) by auto
  have hf: "holders L f = {}" using sharing_unused [OF ok] f(1) by simp
  have h: "holders ?L q = (if q = f then {(p, k)} else holders L q - {(p, k)})" for q
    using hf e(2) nz by (auto simp: holders_set_leaf)
  fix q j
  show "j \<in> win \<and> ?L q j AND 1 \<noteq> 0 \<and> frame_of (?L q j) \<notin> X'" if n: "?L q j \<noteq> 0"
  proof (cases "q = p \<and> j = k")
    case True
    then show ?thesis using k e f(2) by (simp add: set_leaf_at)
  next
    case False
    then have "L q j \<noteq> 0" "?L q j = L q j" using n by (auto simp: set_leaf_at)
    then show ?thesis using sharing_leaf [OF ok, of q j] X' by fastforce
  qed
  show "holders ?L (frame_of (?L q j)) = {(q, j)}" if w: "?L q j AND 2 \<noteq> 0"
  proof (cases "q = p \<and> j = k")
    case True
    then show ?thesis using e(2) by (simp add: set_leaf_at h)
  next
    case False
    then have l: "?L q j = L q j" "L q j \<noteq> 0" using w by (auto simp: set_leaf_at)
    then have "holders L (frame_of (L q j)) = {(q, j)}" using sharing_writable [OF ok] w by simp
    moreover from this have "frame_of (L q j) \<noteq> f" using hf by auto
    ultimately show ?thesis using False unfolding l(1) h by auto
  qed
next
  fix q
  have nz: "e \<noteq> 0" using e(1) by auto
  have hf: "holders L f = {}" using sharing_unused [OF ok] f(1) by simp
  have h: "holders (set_leaf L p k e) q = (if q = f then {(p, k)} else holders L q - {(p, k)})"
    using hf e(2) nz by (auto simp: holders_set_leaf)
  note fin = sharing_finite [OF ok, of q]
  show "finite (holders (set_leaf L p k e) q)" using fin by (simp add: h)
  assume ne: "holders (set_leaf L p k e) q \<noteq> {}"
  show "C' q = int (card (holders (set_leaf L p k e) q))"
  proof (cases "q = f")
    case True
    then show ?thesis using f(3) h by simp
  next
    case False
    then have hq: "holders L q \<noteq> {}" using ne h by auto
    then have c: "C q = int (card (holders L q))" by (rule sharing_count [OF ok])
    then have "C q \<noteq> 0" using hq fin by simp
    note c' = C' [OF False this]
    have "(p, k) \<in> holders L q \<longleftrightarrow> L p k \<noteq> 0 \<and> q = frame_of (L p k)" by (auto simp: holders_def)
    then show ?thesis using c c' False hq fin card_gt_0_iff [of "holders L q"] by (auto simp: h card_Diff_singleton of_nat_diff)
  qed
qed

text \<open>An entry that is not writable, for one that is: the frames stay.\<close>

lemma sharing_cong:
  assumes "sharing_ok L C X" and "\<And>q. holders L q \<noteq> {} \<Longrightarrow> C' q = C q" and "\<And>q. holders L q \<noteq> {} \<Longrightarrow> q \<in> X' \<Longrightarrow> q \<in> X"
  shows "sharing_ok L C' X'"
proof (rule sharingI)
  fix p k assume n: "L p k \<noteq> 0"
  note l = sharing_leaf [OF assms(1) n]
  have "holders L (frame_of (L p k)) \<noteq> {}" using l(4) by auto
  then show "k \<in> win \<and> L p k AND 1 \<noteq> 0 \<and> frame_of (L p k) \<notin> X'" using l(1-3) assms(3) by blast
next
  fix f assume "holders L f \<noteq> {}"
  then show "C' f = int (card (holders L f))" using assms(2) sharing_count [OF assms(1)] by simp
qed (use sharing_finite [OF assms(1)] sharing_writable [OF assms(1)] in auto)

text \<open>A process is given the pages \<open>V\<close> of another, read-only for both.\<close>

definition share_leaves :: "leaves \<Rightarrow> nat \<Rightarrow> nat \<Rightarrow> nat set \<Rightarrow> leaves" where
  "share_leaves L p c V = (\<lambda>q k. if (q = p \<or> q = c) \<and> k \<in> V \<and> L p k \<noteq> 0 then share (L p k) else L q k)"

lemma share_facts: "share e AND 1 \<noteq> 0" "share e AND 2 = 0" "frame_of (share e) = frame_of e" "share e \<noteq> 0"
proof -
  have s: "share e = PAGE2PA (frame_of e) OR 0x805"
    by (simp add: share_def PAGE2PA_frame PTE_U_def PTE_P_def PTE_COW_def or.assoc)
  have b: "bit (PAGE2PA f :: u64) n \<longleftrightarrow> 12 \<le> n \<and> n < 64 \<and> bit f (n - 12)" for f n
    by (auto simp: PAGE2PA_def bit_simps)
  have "bit (share e AND 1) 0" unfolding s by (simp add: bit_simps)
  then show 1: "share e AND 1 \<noteq> 0" by (rule contrapos_pn) (simp only:, simp)
  then show "share e \<noteq> 0" by auto
  show "share e AND 2 = 0"
  proof (rule bit_word_eqI)
    fix n
    have "bit (2 :: u64) n \<longleftrightarrow> n = 1" by (auto simp: bit_simps)
    moreover have "\<not> bit (share e) 1" unfolding s by (simp add: bit_or_iff b bit_numeral_rec)
    ultimately show "bit (share e AND 2) n = bit 0 n" by (auto simp: bit_and_iff)
  qed
  show "frame_of (share e) = frame_of e"
  proof -
    have "frame_of e < 2 ^ 52" by (rule frame_of_less)
    then have "drop_bit 12 (PAGE2PA (frame_of e) OR 0x805) = of_nat (frame_of e)" by (intro PAGE2PA_OR_drop) simp_all
    moreover have "unat (of_nat (frame_of e) :: u64) = frame_of e" using frame_of_less [of e] by (intro unat_of_nat_small) simp
    ultimately show ?thesis unfolding s by (simp add: frame_of_def)
  qed
qed

lemma holders_share:
  assumes c: "L c = (\<lambda>k. 0)" "c \<noteq> p"
  shows "holders (share_leaves L p c V) f = holders L f \<union> Pair c ` {k \<in> V. L p k \<noteq> 0 \<and> frame_of (L p k) = f}"
    and "holders L f \<inter> Pair c ` {k \<in> V. L p k \<noteq> 0 \<and> frame_of (L p k) = f} = {}"
  using c by (auto simp: holders_def share_leaves_def share_facts split: if_splits)

lemma sharing_fork:
  assumes ok: "sharing_ok L C X" and c: "L c = (\<lambda>k. 0)" "c \<noteq> p"
    and X': "\<And>q. q \<in> X' \<Longrightarrow> q \<in> X \<or> C q = 0"
    and C': "\<And>q. C q \<noteq> 0 \<Longrightarrow> C' q = C q + int (card {k \<in> V. L p k \<noteq> 0 \<and> frame_of (L p k) = q})"
  shows "sharing_ok (share_leaves L p c V) C' X'"
proof (rule sharingI)
  let ?L = "share_leaves L p c V"
  note h = holders_share [where L = L and c = c and p = p and V = V, OF c]
  fix q j
  have l: "?L q j = L q j \<or> (L p j \<noteq> 0 \<and> ?L q j = share (L p j))" by (auto simp: share_leaves_def)
  show "j \<in> win \<and> ?L q j AND 1 \<noteq> 0 \<and> frame_of (?L q j) \<notin> X'" if n: "?L q j \<noteq> 0"
  proof -
    obtain i where i: "L i j \<noteq> 0" "frame_of (?L q j) = frame_of (L i j)" "?L q j AND 1 \<noteq> 0"
      using l n sharing_leaf(2) [OF ok] by (metis share_facts(1,3))
    then show ?thesis using sharing_leaf [OF ok i(1)] X' by fastforce
  qed
  show "holders ?L (frame_of (?L q j)) = {(q, j)}" if w: "?L q j AND 2 \<noteq> 0"
  proof -
    have e: "?L q j = L q j" "L q j \<noteq> 0" using l w share_facts(2) by auto
    then have one: "holders L (frame_of (L q j)) = {(q, j)}" using sharing_writable [OF ok] w by simp
    have "{k \<in> V. L p k \<noteq> 0 \<and> frame_of (L p k) = frame_of (L q j)} = {}"
    proof (rule ccontr)
      assume "\<not> ?thesis"
      then obtain k where k: "k \<in> V" "L p k \<noteq> 0" "frame_of (L p k) = frame_of (L q j)" by auto
      then have "(p, k) \<in> holders L (frame_of (L q j))" by (simp add: holders_def)
      then have "p = q" "k = j" using one by auto
      then have "?L q j = share (L p k)" using k by (simp add: share_leaves_def)
      then show False using w share_facts(2) by simp
    qed
    then show ?thesis using one unfolding e(1) h(1) by (simp only: image_empty Un_empty_right)
  qed
next
  fix q
  let ?V = "{k \<in> V. L p k \<noteq> 0 \<and> frame_of (L p k) = q}"
  note h = holders_share [where L = L and c = c and p = p and V = V, OF c]
  note fin = sharing_finite [OF ok, of q]
  have "Pair p ` ?V \<subseteq> holders L q" by (auto simp: holders_def)
  then have "finite (Pair p ` ?V)" using fin by (rule finite_subset)
  then have finV: "finite ?V" by (rule finite_imageD) (simp add: inj_on_def)
  show "finite (holders (share_leaves L p c V) q)" using fin finV by (simp add: h)
  assume ne: "holders (share_leaves L p c V) q \<noteq> {}"
  then have hq: "holders L q \<noteq> {}" unfolding h(1) using \<open>Pair p ` ?V \<subseteq> holders L q\<close> by auto
  have c1: "C q = int (card (holders L q))" using sharing_count [OF ok hq] .
  then have "C q \<noteq> 0" using hq fin by simp
  have "card (Pair c ` ?V) = card ?V" by (rule card_image) (simp add: inj_on_def)
  then show "C' q = int (card (holders (share_leaves L p c V) q))"
    unfolding h(1) using C' [OF \<open>C q \<noteq> 0\<close>] c1 fin finV h(2) by (simp add: card_Un_disjoint)
qed

text \<open>A process gives all its pages back.\<close>

lemma holders_exit: "holders (L(p := \<lambda>k. 0)) f = holders L f - {p} \<times> UNIV"
  by (auto simp: holders_def split: if_splits)

lemma sharing_exit:
  assumes ok: "sharing_ok L C X"
    and X': "X' \<subseteq> X" and C': "\<And>q. q \<notin> X \<Longrightarrow> C' q = C q - int (card {k. L p k \<noteq> 0 \<and> frame_of (L p k) = q})"
  shows "sharing_ok (L(p := \<lambda>k. 0)) C' X'"
proof (rule sharingI)
  let ?L = "L(p := \<lambda>k. 0)"
  fix q j
  show "j \<in> win \<and> ?L q j AND 1 \<noteq> 0 \<and> frame_of (?L q j) \<notin> X'" if n: "?L q j \<noteq> 0"
    using n sharing_leaf [OF ok, of q j] X' by (auto split: if_splits)
  show "holders ?L (frame_of (?L q j)) = {(q, j)}" if w: "?L q j AND 2 \<noteq> 0"
  proof -
    have e: "q \<noteq> p" "L q j AND 2 \<noteq> 0" using w by (auto split: if_splits)
    then show ?thesis using sharing_writable [OF ok e(2)] by (auto simp: holders_exit)
  qed
next
  fix q
  let ?V = "{k. L p k \<noteq> 0 \<and> frame_of (L p k) = q}"
  note fin = sharing_finite [OF ok, of q]
  show "finite (holders (L(p := \<lambda>k. 0)) q)" using fin by (simp add: holders_exit)
  assume ne: "holders (L(p := \<lambda>k. 0)) q \<noteq> {}"
  then obtain i j where ij: "(i, j) \<in> holders L q" by (auto simp: holders_exit)
  then have "L i j \<noteq> 0" "frame_of (L i j) = q" by (simp_all add: holders_def)
  then have "q \<notin> X" "C q = int (card (holders L q))" using sharing_leaf(3,6) [OF ok, of i j] by simp_all
  moreover have sub: "Pair p ` ?V \<subseteq> holders L q" "holders L q - {p} \<times> UNIV = holders L q - Pair p ` ?V"
    by (auto simp: holders_def)
  moreover have "card (Pair p ` ?V) = card ?V" by (rule card_image) (simp add: inj_on_def)
  moreover have "finite (Pair p ` ?V)" using fin sub(1) finite_subset by blast
  ultimately show "C' q = int (card (holders (L(p := \<lambda>k. 0)) q))"
    using C' [of q] card_mono [OF fin sub(1)] by (simp add: holders_exit card_Diff_subset of_nat_diff)
qed

end
