(* ===== verification/Guest.thy ===== *)
theory Guest
  imports Destroy
begin

text \<open>
  Guest memory filled by a user program: \<open>sys_mmap_mem\<close> of \<^verbatim>\<open>kernel/amd64/vmx.c\<close> copies through the
  page tables of the caller into a fresh page and maps that page into the guest.
\<close>

section \<open>Copying from user memory\<close>

text \<open>The \<open>n\<close> bytes of a user program from \<open>a\<close> on, through its page tables.\<close>

definition vbytes :: "mem \<Rightarrow> u64 \<Rightarrow> u64 \<Rightarrow> nat \<Rightarrow> u8 list" where
  "vbytes m root a n = map (\<lambda>i. case vread root m (a + of_nat i) of None \<Rightarrow> 0 | Some b \<Rightarrow> b) [0..<n]"

lemma length_vbytes [simp]: "length (vbytes m root a n) = n"
  by (simp add: vbytes_def)

text \<open>Each of them is mapped to a page in use.\<close>

definition user_range :: "'a kmm_scheme \<Rightarrow> u64 \<Rightarrow> u64 \<Rightarrow> nat \<Rightarrow> bool" where
  "user_range s r a n \<longleftrightarrow> (\<forall>i < n. user_va (a + of_nat i) \<and> a + of_nat i < KBASE
     \<and> pte_of (mem s) r (a + of_nat i) AND 1 \<noteq> 0 \<and> frame_of (pte_of (mem s) r (a + of_nat i)) < length (pages s)
     \<and> frame_of (pte_of (mem s) r (a + of_nat i)) \<notin> free_pages s)"

text \<open>
  A copy whose destination translates to the range at \<open>da\<close> and whose source bytes stay what they
  are is one store of these bytes.
\<close>

lemma vmemcpy_loop_gather:
  assumes dst: "\<And>m i. P m \<Longrightarrow> i < n \<Longrightarrow> mmu m root (d + of_nat i) = Some (da + of_nat i)"
    and src: "\<And>m i. P m \<Longrightarrow> i < n \<Longrightarrow> vread root m (s + of_nat i) = Some (bs ! i)"
    and keep: "\<And>m i b. P m \<Longrightarrow> i < n \<Longrightarrow> P (m(da + of_nat i := b))"
    and n: "n < 2 ^ 64" "length bs = n"
  shows "k \<le> n \<Longrightarrow> P m \<Longrightarrow>
    vmemcpy_loop root (d + of_nat (n - k)) (s + of_nat (n - k)) k m
      = Inr (store_bytes m (da + of_nat (n - k)) (drop (n - k) bs))"
proof (induction k arbitrary: m)
  case 0
  then show ?case using n(2) by (simp add: store_bytes_cong)
next
  case (Suc k)
  have i: "n - Suc k < n" using Suc.prems(1) by simp
  have e: "(of_nat (n - k) :: u64) = of_nat (n - Suc k) + 1" "n - k = Suc (n - Suc k)"
    using Suc.prems(1) by (metis Suc_diff_Suc Suc_le_lessD of_nat_Suc add.commute) (use Suc.prems(1) in simp)
  let ?m = "m(da + of_nat (n - Suc k) := bs ! (n - Suc k))"
  have "k \<le> n" using Suc.prems(1) by simp
  note IH = Suc.IH [OF this keep [OF Suc.prems(2) i, of "bs ! (n - Suc k)"], unfolded e(1)]
  have step: "vmemcpy_loop root (d + of_nat (n - Suc k)) (s + of_nat (n - Suc k)) (Suc k) m
      = vmemcpy_loop root (d + of_nat (n - Suc k) + 1) (s + of_nat (n - Suc k) + 1) k ?m"
    by (simp only: vmemcpy_loop.simps src [OF Suc.prems(2) i] vwrite_mmu [OF dst [OF Suc.prems(2) i]] option.case bindE_Inr)
  have "store_bytes ?m (da + of_nat (n - Suc k) + 1) (drop (n - k) bs)
      = store_bytes m (da + of_nat (n - Suc k)) (bs ! (n - Suc k) # drop (n - k) bs)"
    using n by (intro store_bytes_Cons) simp
  also have "bs ! (n - Suc k) # drop (n - k) bs = drop (n - Suc k) bs"
    using i n(2) by (simp add: Cons_nth_drop_Suc e(2))
  finally show ?case using IH by (simp only: step add.assoc)
qed

text \<open>A store inside a page that is no table of an address space leaves that space alone.\<close>

lemma page_store_apart:
  assumes "p < 2 ^ 18" "g < 2 ^ 18" "g \<noteq> p" "q + n \<le> 4096" "r + k \<le> 4096"
  shows "apart (PAGE2VA p + of_nat q) n (PAGE2VA g + of_nat r) k"
proof -
  have "apart (KBASE + of_nat (4096 * p + q)) n (KBASE + of_nat (4096 * g + r)) k"
    using assms by (intro apart_offset) (auto simp: nat_neq_iff)
  then show ?thesis by (simp add: PAGE2VA_offset add.assoc)
qed

lemma entry_as_offset: "8 * i = of_nat (8 * unat (i :: u64))"
  by simp

lemma patch_space:
  assumes inv: "pt_inv s r" and p: "p < 2 ^ 18" "p \<notin> tables s r" and q: "q + length bs \<le> 4096"
  defines "m' \<equiv> store_bytes (mem s) (PAGE2VA p + of_nat q) bs"
  shows "pt_inv (s\<lparr>mem := m'\<rparr>) r" "tables (s\<lparr>mem := m'\<rparr>) r = tables s r"
    and "user_va va \<Longrightarrow> pte_of m' r va = pte_of (mem s) r va"
    and "g < 2 ^ 18 \<Longrightarrow> g \<noteq> p \<Longrightarrow> i < 512 \<Longrightarrow> load64 m' (PAGE2VA g + 8 * i) = load64 (mem s) (PAGE2VA g + 8 * i)"
proof -
  have look: "load64 m' (PAGE2VA g + 8 * i) = load64 (mem s) (PAGE2VA g + 8 * i)" if g: "g < 2 ^ 18" "g \<noteq> p" "i < 512" for g i
  proof -
    have "8 * unat i + 8 \<le> 4096" using g(3) by (simp add: unat_less_512)
    from page_store_apart [OF p(1) g(1,2) q this] show ?thesis
      unfolding m'_def entry_as_offset by (rule load64_store_bytes_disj)
  qed
  then show "g < 2 ^ 18 \<Longrightarrow> g \<noteq> p \<Longrightarrow> i < 512 \<Longrightarrow> load64 m' (PAGE2VA g + 8 * i) = load64 (mem s) (PAGE2VA g + 8 * i)" .
  have len: "length (pages s) \<le> 2 ^ 18" using pt_inv_mm [OF inv] by (simp add: mm_inv_def)
  have tab: "load64 m' (PAGE2VA g + 8 * i) = load64 (mem s) (PAGE2VA g + 8 * i)" if "g \<in> tables s r" "i < 512" for g i
    using that p(2) len by (intro look) (auto simp: tables_def)
  note fr = pt_frame [OF inv, of m', OF tab]
  show "user_va va \<Longrightarrow> pte_of m' r va = pte_of (mem s) r va" by (rule fr(2))
  show "pt_inv (s\<lparr>mem := m'\<rparr>) r" "tables (s\<lparr>mem := m'\<rparr>) r = tables s r"
    using pt_inv_cong [OF inv, of "s\<lparr>mem := m'\<rparr>"] fr(1) pt_inv_mm [OF inv] tables_not_free [OF inv] by simp_all
qed

lemma page_byte_outside:
  assumes "p < 2 ^ 18" "g < 2 ^ 18" "g \<noteq> p" "q + n \<le> 4096" "r < 4096"
  shows "\<not> unat (PAGE2VA g + of_nat r - (PAGE2VA p + of_nat q)) < n"
proof -
  have "r + 1 \<le> 4096" using assms(5) by simp
  from page_store_apart [OF assms(1-4) this] show ?thesis unfolding apart_def by force
qed

lemma low12_less: "unat (va AND 0xFFF :: u64) < 4096"
proof -
  have "(va AND 0xFFF) = take_bit 12 va" by (simp add: take_bit_eq_mask mask_eq_exp_minus_1)
  moreover have "unat (take_bit 12 va) < 4096" by (simp only: unsigned_take_bit_eq) (simp add: take_bit_eq_mod)
  ultimately show ?thesis by (simp only:)
qed

lemma vread_entry:
  "pte_of m r va = e \<Longrightarrow> e AND 1 \<noteq> 0 \<Longrightarrow> va < KBASE \<Longrightarrow> vread r m va = Some (m (PAGE2VA (frame_of e) + (va AND 0xFFF)))"
  by (simp add: vread_def mmu_user table_of_frame)

lemma vmemcpy_user:
  assumes inv: "pt_inv s c" and rng: "user_range s c a n" and p: "p < 2 ^ 18" "p \<notin> tables s c"
    and ne: "\<And>i. i < n \<Longrightarrow> frame_of (pte_of (mem s) c (a + of_nat i)) \<noteq> p" and q: "q + n \<le> 4096" and len: "unat len = n"
  shows "vmemcpy c (PAGE2VA p + of_nat q) a len (mem s)
    = Inr (store_bytes (mem s) (PAGE2VA p + of_nat q) (vbytes (mem s) c a n))"
proof -
  let ?da = "PAGE2VA p + of_nat q"
  define P where "P m \<longleftrightarrow> (\<forall>x. \<not> unat (x - ?da) < n \<longrightarrow> m x = mem s x)" for m :: mem
  have plen: "length (pages s) \<le> 2 ^ 18" using pt_inv_mm [OF inv] by (simp add: mm_inv_def)
  have bytes: "m (PAGE2VA g + of_nat r) = mem s (PAGE2VA g + of_nat r)" if "P m" "g < 2 ^ 18" "g \<noteq> p" "r < 4096" for m g r
    using that(1) page_byte_outside [OF p(1) that(2,3) q that(4)] unfolding P_def by blast
  have tab: "load64 m (PAGE2VA g + 8 * i) = load64 (mem s) (PAGE2VA g + 8 * i)" if m: "P m" and g: "g \<in> tables s c" "i < 512" for m g i
  proof -
    have gp: "g < 2 ^ 18" "g \<noteq> p" using g(1) p(2) plen by (auto simp: tables_def)
    have i8: "8 * unat i + 8 \<le> 4096" using g(2) by (simp add: unat_less_512)
    have "load_bytes m (PAGE2VA g + of_nat (8 * unat i)) 8 = load_bytes (mem s) (PAGE2VA g + of_nat (8 * unat i)) 8"
      unfolding load_bytes_def
    proof (rule map_cong [OF refl])
      fix j assume "j \<in> set [0..<8 :: nat]"
      then have "8 * unat i + j < 4096" using i8 by simp
      from bytes [OF m gp this] show "m (PAGE2VA g + of_nat (8 * unat i) + of_nat j) = mem s (PAGE2VA g + of_nat (8 * unat i) + of_nat j)"
        by (simp add: add.assoc)
    qed
    then show ?thesis by (simp add: load64_def)
  qed
  have "vmemcpy_loop c (?da + of_nat (n - n)) (a + of_nat (n - n)) n (mem s)
      = Inr (store_bytes (mem s) (?da + of_nat (n - n)) (drop (n - n) (vbytes (mem s) c a n)))"
  proof (rule vmemcpy_loop_gather [where P = P])
    fix m and i :: nat assume m: "P m" and i: "i < n"
    have "q + i < 4096" using q i by simp
    then have "KBASE \<le> PAGE2VA p + of_nat (q + i)" by (rule kernel_page_byte [OF p(1)])
    then show "mmu m c (?da + of_nat i) = Some (?da + of_nat i)" by (intro mmu_kernel) (simp add: add.assoc)
    let ?va = "a + of_nat i" and ?e = "pte_of (mem s) c (a + of_nat i)"
    have va: "user_va ?va" "?va < KBASE" "?e AND 1 \<noteq> 0" "frame_of ?e < length (pages s)" using rng i by (simp_all add: user_range_def)
    have e: "pte_of m c ?va = ?e" using tab [OF m] by (rule pt_frame(2) [OF inv _ va(1)])
    have "frame_of ?e < 2 ^ 18" using va(4) plen by simp
    then have "m (PAGE2VA (frame_of ?e) + (?va AND 0xFFF)) = mem s (PAGE2VA (frame_of ?e) + (?va AND 0xFFF))"
      using bytes [OF m _ ne [OF i] low12_less [of ?va]] by simp
    then show "vread c m ?va = Some (vbytes (mem s) c a n ! i)"
      using vread_entry [OF e va(3,2)] vread_entry [OF refl va(3,2)] i by (simp add: vbytes_def)
  next
    fix m i b assume m: "P m" and i: "i < n"
    have "unat (of_nat i :: u64) = i" using i q by (intro unat_of_nat_small) simp
    then show "P (m(?da + of_nat i := b))" using m i unfolding P_def by auto
  qed (use q in \<open>simp_all add: P_def\<close>)
  then show ?thesis by (simp add: vmemcpy_def len)
qed

text \<open>The bytes of a page as its 64-bit entries determine them.\<close>

lemma bit_word_of_bytes: "bit (word_of_bytes bs :: u64) n \<Longrightarrow> n < 8 * length bs"
proof (induction bs arbitrary: n)
  case (Cons b bs)
  then have "n < 8 \<or> bit (word_of_bytes bs :: u64) (n - 8)"
    by (auto simp: bit_simps dest: bit_imp_le_length)
  then show ?case using Cons.IH [of "n - 8"] by auto
qed simp

lemma bytes_of_word_of_bytes: "length bs \<le> 8 \<Longrightarrow> bytes_of_word (length bs) (word_of_bytes bs :: u64) = bs"
proof (induction bs)
  case (Cons b bs)
  have "(ucast (ucast b OR push_bit 8 (word_of_bytes bs) :: u64) :: u8) = b"
    by (rule bit_word_eqI) (auto simp: bit_simps)
  moreover have "drop_bit 8 (ucast b OR push_bit 8 (word_of_bytes bs) :: u64) = word_of_bytes bs"
    using Cons.prems by (intro bit_word_eqI) (auto simp: bit_simps dest: bit_imp_le_length bit_word_of_bytes)
  ultimately show ?case using Cons by simp
qed simp

lemma load64_bytes: "bytes_of_word 8 (load64 m a) = load_bytes m a 8"
  using bytes_of_word_of_bytes [of "load_bytes m a 8"] by (simp add: load64_def)

lemma page_bytes_load64:
  assumes "\<And>i. i < 512 \<Longrightarrow> load64 m' (PAGE2VA p + 8 * i) = load64 m (PAGE2VA p + 8 * i)"
  shows "page_bytes m' p = page_bytes m p"
  unfolding page_bytes_def
proof (rule nth_equalityI)
  fix k assume "k < length (load_bytes m' (PAGE2VA p) 4096)"
  then have k: "k < 4096" by simp
  let ?i = "of_nat (k div 8) :: u64"
  have d: "k div 8 < 512" using k by (simp add: less_mult_imp_div_less)
  then have "unat ?i = k div 8" by (intro unat_of_nat_small) simp
  then have "?i < 512" using d by (simp add: word_less_nat_alt)
  then have "load_bytes m' (PAGE2VA p + 8 * ?i) 8 = load_bytes m (PAGE2VA p + 8 * ?i) 8"
    using assms load64_bytes by metis
  then have "load_bytes m' (PAGE2VA p + 8 * ?i) 8 ! (k mod 8) = load_bytes m (PAGE2VA p + 8 * ?i) 8 ! (k mod 8)" by simp
  moreover have "8 * ?i + of_nat (k mod 8) = of_nat k"
    by (metis mult_div_mod_eq of_nat_add of_nat_mult of_nat_numeral)
  ultimately show "load_bytes m' (PAGE2VA p) 4096 ! k = load_bytes m (PAGE2VA p) 4096 ! k"
    using k by (simp add: load_bytes_def add.assoc)
qed simp

section \<open>Guest memory from a user program\<close>

lemma cpu_root_more:
  fixes s s' :: "('d, 'a) kvmx_scheme"
  assumes "kmm.more s' = kmm.more s"
  shows "cpu_root s' = cpu_root s"
  using assms by (cases s; cases s'; simp add: cpu_root_def)

text \<open>Allocating a page does not touch the bytes of the program.\<close>

lemma user_bytes_alloc:
  assumes inv: "pt_inv s c" and rng: "user_range s c a n" and al: "alloc_page 1 s = (Some p, s1)"
  shows "user_range s1 c a n" and "vbytes (mem s1) c a n = vbytes (mem s) c a n"
    and "i < n \<Longrightarrow> frame_of (pte_of (mem s1) c (a + of_nat i)) \<noteq> p"
proof -
  note f = alloc_page_Some [OF pt_inv_mm [OF inv] al] and b = alloc_page_space [OF inv al]
  have plen: "length (pages s) \<le> 2 ^ 18" using pt_inv_mm [OF inv] by (simp add: mm_inv_def)
  have src: "user_va (a + of_nat i)" "a + of_nat i < KBASE" "pte_of (mem s) c (a + of_nat i) AND 1 \<noteq> 0"
    "frame_of (pte_of (mem s) c (a + of_nat i)) < length (pages s)" "frame_of (pte_of (mem s) c (a + of_nat i)) \<noteq> p"
    "frame_of (pte_of (mem s) c (a + of_nat i)) \<notin> free_pages s"
    if "i < n" for i using rng that f(1) unfolding user_range_def by auto
  show "user_range s1 c a n"
    using src b(5) f(3,7) unfolding user_range_def by simp
  show "i < n \<Longrightarrow> frame_of (pte_of (mem s1) c (a + of_nat i)) \<noteq> p" using src(5) b(5) [OF src(1)] by simp
  show "vbytes (mem s1) c a n = vbytes (mem s) c a n"
    unfolding vbytes_def
  proof (rule map_cong [OF refl])
    fix i assume "i \<in> set [0..<n]"
    then have i: "i < n" by simp
    let ?va = "a + of_nat i" and ?f = "frame_of (pte_of (mem s) c (a + of_nat i))"
    have "?f < 2 ^ 18" "?f \<noteq> p" using src(4,5) [OF i] plen by simp_all
    then have "page_bytes (mem s1) ?f = page_bytes (mem s) ?f" using b(4) by (simp add: f(6) page_bytes_other)
    then have "page_bytes (mem s1) ?f ! unat (?va AND 0xFFF) = page_bytes (mem s) ?f ! unat (?va AND 0xFFF)" by simp
    then have "mem s1 (PAGE2VA ?f + (?va AND 0xFFF)) = mem s (PAGE2VA ?f + (?va AND 0xFFF))"
      using low12_less [of ?va] by (simp add: page_bytes_def load_bytes_def)
    then show "(case vread c (mem s1) ?va of None \<Rightarrow> 0 | Some x \<Rightarrow> x) = (case vread c (mem s) ?va of None \<Rightarrow> 0 | Some x \<Rightarrow> x)"
      using vread_entry [OF b(5) [OF src(1) [OF i]] src(3,2) [OF i]] vread_entry [OF refl src(3,2) [OF i]] by simp
  qed
qed

lemma page_patch:
  assumes p: "p < 2 ^ 18" and q: "q + length bs \<le> 4096"
  shows "page_bytes (store_bytes m (PAGE2VA p + of_nat q) bs) p
    = take q (page_bytes m p) @ bs @ drop (q + length bs) (page_bytes m p)"
proof (rule nth_equalityI)
  show "length (page_bytes (store_bytes m (PAGE2VA p + of_nat q) bs) p)
      = length (take q (page_bytes m p) @ bs @ drop (q + length bs) (page_bytes m p))"
    using q by (simp add: page_bytes_def)
  fix k assume "k < length (page_bytes (store_bytes m (PAGE2VA p + of_nat q) bs) p)"
  then have k: "k < 4096" by (simp add: page_bytes_def)
  have l: "page_bytes m' p ! k = m' (PAGE2VA p + of_nat k)" for m' using k by (simp add: page_bytes_def load_bytes_def)
  show "page_bytes (store_bytes m (PAGE2VA p + of_nat q) bs) p ! k
      = (take q (page_bytes m p) @ bs @ drop (q + length bs) (page_bytes m p)) ! k"
  proof (cases "q \<le> k")
    case True
    then have "unat (PAGE2VA p + of_nat k - (PAGE2VA p + of_nat q)) = k - q" using k by (intro unat_diff_offset) simp_all
    then show ?thesis using True k q by (auto simp: l store_bytes_def nth_append page_bytes_def load_bytes_def)
  next
    case False
    then have "apart (PAGE2VA p + of_nat q) (length bs) (PAGE2VA p + of_nat k) 1"
      using q k by (intro apart_offset) auto
    then have "\<not> unat (PAGE2VA p + of_nat k - (PAGE2VA p + of_nat q)) < length bs"
      by (auto simp: apart_def dest!: spec [of _ "PAGE2VA p + of_nat k"])
    then show ?thesis using False k q by (simp add: l store_bytes_def nth_append page_bytes_def load_bytes_def)
  qed
qed

lemma mmap_mem_effect:
  fixes s :: "('d, 'a) kvmx_scheme"
  assumes inv: "pt_inv s (cpu_root s)" "pt_inv s (ept_pgdir s)" and gpa: "user_va gpa"
    and rng: "user_range s (cpu_root s) addr n" and len: "len = of_nat n" "unat (gpa mod 4096) + n \<le> 4096"
    and room: "4 \<le> card (free_pages s)"
  obtains p s' where "sys_mmap_mem addr len gpa prot s = Inr (0, s')" "p \<in> free_pages s - free_pages s'" "pt_inv s' (ept_pgdir s)"
    "\<And>va. user_va va \<Longrightarrow> pte_of (mem s') (ept_pgdir s) va = (if vpn va = vpn gpa then PAGE2PA p OR 7 else pte_of (mem s) (ept_pgdir s) va)"
    "page_bytes (mem s') p = replicate (unat (gpa mod 4096)) 0 @ vbytes (mem s) (cpu_root s) addr n
       @ replicate (4096 - unat (gpa mod 4096) - n) 0"
    "\<And>q. page_refs s' q = (if q \<in> free_pages s - free_pages s' then 1 else page_refs s q)" "free_pages s' \<subseteq> free_pages s"
    "card (free_pages s) \<le> card (free_pages s') + 4" "tables s' (ept_pgdir s) \<subseteq> tables s (ept_pgdir s) \<union> (free_pages s - free_pages s')"
    "p \<notin> tables s' (ept_pgdir s)" "keeps (mem s) (mem s') (free_pages s \<union> tables s (ept_pgdir s))"
    "length (pages s') = length (pages s)" "kmm.more s' = kmm.more s"
proof -
  let ?c = "cpu_root s" and ?r = "ept_pgdir s" and ?q = "unat (gpa mod 4096)" and ?bs = "vbytes (mem s) (cpu_root s) addr n"
  have "free_pages s \<noteq> {}" using room by auto
  then obtain p s1 where al: "alloc_page 1 s = (Some p, s1)" using mm.alloc_succeeds [OF pt_inv_mm [OF inv(1)]] by blast
  note a = alloc_page_Some [OF pt_inv_mm [OF inv(1)] al] and b = alloc_page_space [OF inv(1) al] and c = alloc_page_space [OF inv(2) al]
  have more1: "cpu_root s1 = ?c" "ept_pgdir s1 = ?r" using cpu_root_more [OF a(9)] kvmx_more(1) [OF a(9)] by simp_all
  note ub = user_bytes_alloc [OF inv(1) rng al]
  have off: "ucast (ucast (gpa - gpa div 4096 * 4096) :: u32) = (of_nat ?q :: u64)"
  proof -
    have "unat (gpa mod 4096) < 2 ^ 32" using len(2) by simp
    from ucast_u32_u64 [OF this] show ?thesis by (simp add: minus_div_mult_eq_mod)
  qed
  have n32: "unat (ucast len :: u32) = n" unfolding len(1) using len(2) by (simp add: ucast_of_nat_small unat_of_nat_small)
  let ?m = "store_bytes (mem s1) (PAGE2VA p + of_nat ?q) ?bs"
  have cp: "vmemcpy ?c (PAGE2VA p + of_nat ?q) addr (ucast len) (mem s1) = Inr ?m"
    using vmemcpy_user [OF b(1) ub(1) b(4) _ ub(3) len(2) n32] b(2,3) unfolding ub(2) by simp
  define s2 where "s2 = s1\<lparr>mem := ?m\<rparr>"
  have "?q + length ?bs \<le> 4096" using len(2) by simp
  note ps = patch_space [OF c(1) b(4) _ this, unfolded c(2), OF c(3), folded s2_def]
  have e2: "mem s2 = ?m" "free_pages s2 = free_pages s - {p}" "page_refs s2 = page_refs s1" "kmm.more s2 = kmm.more s1"
    using a(3) by (simp_all add: s2_def)
  have room2: "3 \<le> card (free_pages s2)" using room a(1) e2(2) by simp
  obtain s' where s': "insert_page ?r gpa (Some p) 7 s2 = Inr (0, s')" "pt_inv s' ?r"
    "\<And>va'. user_va va' \<Longrightarrow> pte_of (mem s') ?r va' = (if vpn va' = vpn gpa then PAGE2PA p OR 7 else pte_of (mem s2) ?r va')"
    "free_pages s' \<subseteq> free_pages s2" "\<And>q. page_refs s' q = (if q \<in> free_pages s2 - free_pages s' then 1 else page_refs s2 q)"
    "\<And>f i. f \<notin> free_pages s2 \<Longrightarrow> f \<notin> tables s2 ?r \<Longrightarrow> f < 2 ^ 18 \<Longrightarrow> i < 512 \<Longrightarrow>
      load64 (mem s') (PAGE2VA f + 8 * i) = load64 (mem s2) (PAGE2VA f + 8 * i)" "kmm.more s' = kmm.more s2"
    "tables s' ?r = tables s2 ?r \<union> (free_pages s2 - free_pages s')" "card (free_pages s2) \<le> card (free_pages s') + 3"
    "length (pages s') = length (pages s2)"
    by (rule insert_page_full [OF ps(1) gpa room2]) (rule that; assumption)
  have pb: "page_bytes (mem s') p = page_bytes ?m p"
    unfolding e2(1) [symmetric] using c(3,4) e2(2) ps(2) by (intro page_bytes_load64 s'(6)) simp_all
  have "page_bytes (mem s1) p = replicate 4096 0"
    using page_patch [OF b(4), of 0 "replicate 4096 0" "mem s"] by (simp add: a(6) page_bytes_def)
  then have bytes: "page_bytes ?m p = replicate ?q 0 @ ?bs @ replicate (4096 - ?q - n) 0"
    using page_patch [OF b(4), of ?q ?bs "mem s1"] len(2) by simp
  have run: "sys_mmap_mem addr len gpa prot s = Inr (0, s')"
    unfolding sys_mmap_mem_def Let_def off al prod.case option.case more1 cp bindE_Inr VMX_EPT_PTE_FULL_def
    using s'(1) by (simp add: s2_def)
  have refs: "page_refs s' q = (if q \<in> free_pages s - free_pages s' then 1 else page_refs s q)" for q
    unfolding s'(5) e2(2,3) page_refs_alloc [OF pt_inv_mm [OF inv(1)] al] using a(1) s'(4) e2(2) by auto
  have pte: "pte_of (mem s') ?r va = (if vpn va = vpn gpa then PAGE2PA p OR 7 else pte_of (mem s) ?r va)" if "user_va va" for va
    using s'(3) [OF that] ps(3) [OF that] c(5) [OF that] by (simp add: e2(1))
  have k1: "keeps (mem s) (mem s2) {p}" unfolding keeps_def e2(1) using ps(4) b(4,6) by simp
  have k2: "keeps (mem s2) (mem s') (free_pages s2 \<union> tables s ?r)" unfolding keeps_def using s'(6) ps(2) by simp
  have kp: "keeps (mem s) (mem s') (free_pages s \<union> tables s ?r)"
    by (rule keeps_trans [OF k1 k2]) (use a(1) e2(2) in auto)
  have "card (free_pages s) = Suc (card (free_pages s2))" using a(1) card_Suc_Diff1 [of "free_pages s" p] by (simp add: e2(2))
  then have cd: "card (free_pages s) \<le> card (free_pages s') + 4" using s'(9) by simp
  have pp: "p \<in> free_pages s - free_pages s'" using a(1) s'(4) e2(2) by auto
  show thesis
  proof (rule that [OF run pp s'(2) pte _ refs _ cd _ _ kp])
    show "page_bytes (mem s') p = replicate ?q 0 @ ?bs @ replicate (4096 - ?q - n) 0" using pb bytes by simp
    show "tables s' ?r \<subseteq> tables s ?r \<union> (free_pages s - free_pages s')" "p \<notin> tables s' ?r"
      using s'(8) ps(2) e2(2) c(3) by auto
    show "length (pages s') = length (pages s)" "kmm.more s' = kmm.more s" using s'(7,10) e2(4) a(7,9) by (simp_all add: s2_def)
  qed (use s'(4) e2(2) in auto)
qed

text \<open>
  C12.  \<open>sys_mmap_mem\<close> with mapped source bytes that fit into the page of \<open>gpa\<close>: it returns
  0 and gives the guest a fresh page there, which holds exactly the bytes of the caller at the offset
  of \<open>gpa\<close> and zeros around them; every other guest entry stays.  No page in use loses a reference, so
  a page the guest had there before is neither kept in the guest nor given back to the pool.
\<close>

theorem mmap_mem_copies:
  fixes s :: "('d, 'a) kvmx_scheme"
  assumes inv: "pt_inv s (cpu_root s)" "pt_inv s (ept_pgdir s)" and gpa: "user_va gpa"
    and rng: "user_range s (cpu_root s) addr n" and len: "len = of_nat n" "unat (gpa mod 4096) + n \<le> 4096"
    and room: "4 \<le> card (free_pages s)"
  shows "\<exists>p s'. sys_mmap_mem addr len gpa prot s = Inr (0, s') \<and> p \<in> free_pages s - free_pages s' \<and> pt_inv s' (ept_pgdir s)
    \<and> (\<forall>va. user_va va \<longrightarrow> pte_of (mem s') (ept_pgdir s) va =
         (if vpn va = vpn gpa then PAGE2PA p OR 7 else pte_of (mem s) (ept_pgdir s) va))
    \<and> page_bytes (mem s') p = replicate (unat (gpa mod 4096)) 0 @ vbytes (mem s) (cpu_root s) addr n
         @ replicate (4096 - unat (gpa mod 4096) - n) 0
    \<and> (\<forall>q. q \<notin> free_pages s \<longrightarrow> page_refs s' q = page_refs s q) \<and> ept_pgdir s' = ept_pgdir s"
proof -
  let ?r = "ept_pgdir s"
  obtain p s' where e: "sys_mmap_mem addr len gpa prot s = Inr (0, s')" "p \<in> free_pages s - free_pages s'" "pt_inv s' ?r"
    "\<And>va. user_va va \<Longrightarrow> pte_of (mem s') ?r va = (if vpn va = vpn gpa then PAGE2PA p OR 7 else pte_of (mem s) ?r va)"
    "page_bytes (mem s') p = replicate (unat (gpa mod 4096)) 0 @ vbytes (mem s) (cpu_root s) addr n
       @ replicate (4096 - unat (gpa mod 4096) - n) 0"
    "\<And>q. page_refs s' q = (if q \<in> free_pages s - free_pages s' then 1 else page_refs s q)" "kmm.more s' = kmm.more s"
    by (rule mmap_mem_effect [OF inv gpa rng len room]) (rule that; assumption)
  show ?thesis
    using e(1-6) kvmx_more(1) [OF e(7)] by (intro exI [of _ p] exI [of _ s']) simp
qed

section \<open>Witness\<close>

text \<open>Process 9 with its page at \<open>UTEXT\<close> and a guest without memory.\<close>

definition guest_machine :: "ready_drive kvmx" where
  "guest_machine = fault_machine\<lparr>ept_pgdir := PAGE2VA 1\<rparr>"

lemma guest_machine_facts:
  "cpu_root guest_machine = PAGE2VA 0" "ept_pgdir guest_machine = PAGE2VA 1" "mem guest_machine = mem fork_machine"
  "pt_inv guest_machine (PAGE2VA 0)" "pt_inv guest_machine (PAGE2VA 1)" "free_pages guest_machine = free_pages fork_machine"
  "length (pages guest_machine) = 30"
proof -
  have e: "pages guest_machine = pages fork_machine" "phead guest_machine = phead fork_machine"
    "npages guest_machine = npages fork_machine" "mem guest_machine = mem fork_machine"
    by (simp_all add: guest_machine_def fault_machine_def)
  show "pt_inv guest_machine (PAGE2VA 0)" "pt_inv guest_machine (PAGE2VA 1)"
    using space_cong(1) [OF e] fork_machine_facts(1) by (simp_all add: two_spaces_def)
  show "free_pages guest_machine = free_pages fork_machine" using mm_cong(2) [OF e(1-3)] .
  show "length (pages guest_machine) = 30" using fork_machine_tables(3) by (simp add: e(1))
  show "mem guest_machine = mem fork_machine" by (rule e)
  show "cpu_root guest_machine = PAGE2VA 0" "ept_pgdir guest_machine = PAGE2VA 1"
    using fault_machine_facts(3) by (simp_all add: guest_machine_def cpu_root_def)
qed

theorem mmap_mem_copies_witness:
  "\<exists>(p :: nat) s'. sys_mmap_mem 0x80000000 3 0x7c00 7 guest_machine = Inr (0, s')
     \<and> pte_of (mem s') (PAGE2VA 1) 0x7c00 = PAGE2PA p OR 7
     \<and> page_bytes (mem s') p = replicate 0xc00 0 @ vbytes (mem guest_machine) (PAGE2VA 0) 0x80000000 3 @ replicate 0x3fd 0"
proof -
  note f = guest_machine_facts
  have fr: "frame_of 0x2007 = 2" by (simp add: frame_of_def drop_bit_eq_div unat_div)
  have pte: "user_va (0x80000000 + of_nat i)" "0x80000000 + of_nat i < KBASE"
    "pte_of (mem guest_machine) (PAGE2VA 0) (0x80000000 + of_nat i) = 0x2007" if "i < 3" for i
  proof -
    have "(0x80000000 :: u64) = page_va 0x80000" by (simp add: page_va_def)
    moreover have "i < 4096" using that by simp
    ultimately show "user_va (0x80000000 + of_nat i)" "0x80000000 + of_nat i < KBASE"
      "pte_of (mem guest_machine) (PAGE2VA 0) (0x80000000 + of_nat i) = 0x2007"
      using page_va_inside [of "0x80000" i] fork_machine_facts(2) [of "page_va 0x80000 + of_nat i"] by (simp_all add: f(3))
  qed
  have rng: "user_range guest_machine (cpu_root guest_machine) 0x80000000 3"
    unfolding user_range_def f(1) using pte fr fork_machine_facts(5) by (simp add: f(6,7))
  have gpa: "user_va 0x7c00" by (simp add: user_va_def idx_def take_bit_eq_mod drop_bit_eq_div)
  have q: "unat ((0x7c00 :: u64) mod 4096) = 0xc00" by simp
  have "4 \<le> card (free_pages guest_machine)" using fork_machine_facts(4) by (simp add: f(6))
  from mmap_mem_copies [OF _ _ gpa rng _ _ this, of 3 7] f(1,2,4,5) gpa show ?thesis unfolding q by fastforce
qed

end
