(* ===== verification/Spaces.thy ===== *)
theory Spaces
  imports Sharing Guest
begin

text \<open>
  The address spaces of all processes together: an invariant over their page tables, the reference counts and
  the page tables of the kernel, and what demand paging, copy on write, the parts of \<open>sys_fork\<close> and
  \<open>destroy_vm\<close> make of it and of the memories the processes see.
\<close>

section \<open>The address spaces of all processes\<close>

text \<open>\<open>D p\<close> is the page directory of process \<open>p\<close>.\<close>

type_synonym directories = "nat \<Rightarrow> u64 option"

definition leaf :: "mem \<Rightarrow> u64 \<Rightarrow> nat \<Rightarrow> u64" where
  "leaf m r k = (if k < 2 ^ 35 then pte_of m r (page_va k) else 0)"

definition entries :: "mem \<Rightarrow> directories \<Rightarrow> leaves" where
  "entries m D p = (case D p of None \<Rightarrow> (\<lambda>k. 0) | Some r \<Rightarrow> leaf m r)"

text \<open>The frames of the kernel that concern processes outside \<open>P\<close>: its page directory and their tables.\<close>

definition kernel_frames :: "'a kmm_scheme \<Rightarrow> directories \<Rightarrow> nat set \<Rightarrow> nat set" where
  "kernel_frames s D P = {f. f < 2 ^ 18 \<and> kpgdir s = PAGE2VA f} \<union> {f. \<exists>q r. q \<notin> P \<and> D q = Some r \<and> f \<in> tables s r}"

definition kernel_root :: "'a kmm_scheme \<Rightarrow> bool" where
  "kernel_root s \<longleftrightarrow> (\<exists>f < length (pages s). f \<notin> free_pages s \<and> kpgdir s = PAGE2VA f
     \<and> (\<forall>i < 256. load64 (mem s) (PAGE2VA f + 8 * i) = 0))"

definition own_space :: "'a kmm_scheme \<Rightarrow> u64 \<Rightarrow> bool" where
  "own_space s r \<longleftrightarrow> pt_inv s r \<and> confined (mem s) r \<and> (\<forall>f \<in> tables s r. page_refs s f = 1)
     \<and> (\<forall>f < 2 ^ 18. kpgdir s = PAGE2VA f \<longrightarrow> f \<notin> tables s r)"

definition spaces_ok :: "'a kmm_scheme \<Rightarrow> directories \<Rightarrow> bool" where
  "spaces_ok s D \<longleftrightarrow> mm_inv s \<and> kernel_root s \<and> (\<forall>p r. D p = Some r \<longrightarrow> own_space s r)
     \<and> (\<forall>p q r r'. D p = Some r \<longrightarrow> D q = Some r' \<longrightarrow> p \<noteq> q \<longrightarrow> tables s r \<inter> tables s r' = {})
     \<and> sharing_ok (entries (mem s) D) (page_refs s) (kernel_frames s D {})"

lemma refs_not_free: "0 < page_refs s f \<Longrightarrow> f \<notin> free_pages s \<and> f < length (pages s)"
  by (auto simp: page_refs_def free_pages_def split: if_splits)

lemma free_no_refs: "f \<in> free_pages s \<Longrightarrow> page_refs s f = 0"
  by (simp add: page_refs_def free_pages_def)

lemma used_refs: "mm_inv s \<Longrightarrow> f < length (pages s) \<Longrightarrow> f \<notin> free_pages s \<Longrightarrow> 0 < page_refs s f"
  by (force simp: page_refs_def free_pages_def mm_inv_def)

lemma kernel_frames_used:
  assumes ok: "spaces_ok s D" and f: "f \<in> kernel_frames s D P"
  shows "f < 2 ^ 18" "f \<notin> free_pages s" "0 < page_refs s f"
proof -
  have mm: "mm_inv s" "length (pages s) \<le> 2 ^ 18" using ok by (auto simp: spaces_ok_def mm_inv_def)
  obtain g where g: "g < length (pages s)" "g \<notin> free_pages s" "kpgdir s = PAGE2VA g"
    using ok by (auto simp: spaces_ok_def kernel_root_def)
  have "f < length (pages s) \<and> f \<notin> free_pages s"
  proof (cases "f < 2 ^ 18 \<and> kpgdir s = PAGE2VA f")
    case True
    then have "f = g" using g mm(2) by (auto simp: PAGE2VA_inj)
    then show ?thesis using g by simp
  next
    case False
    then obtain q r where r: "D q = Some r" "f \<in> tables s r" using f by (auto simp: kernel_frames_def)
    then have "pt_inv s r" using ok by (auto simp: spaces_ok_def own_space_def)
    then show ?thesis using r(2) tables_not_free by (auto simp: tables_def)
  qed
  then show "f < 2 ^ 18" "f \<notin> free_pages s" "0 < page_refs s f" using mm used_refs by auto
qed

text \<open>
  From \<open>s\<close> to \<open>s'\<close> only the tables of the processes in \<open>P\<close> and frames of no table are touched.
\<close>

definition touches :: "'a kmm_scheme \<Rightarrow> 'a kmm_scheme \<Rightarrow> directories \<Rightarrow> directories \<Rightarrow> nat set \<Rightarrow> nat set \<Rightarrow> bool" where
  "touches s s' D D' P F \<longleftrightarrow> mm_inv s' \<and> length (pages s') = length (pages s) \<and> kpgdir s' = kpgdir s
     \<and> (\<forall>q. q \<notin> P \<longrightarrow> D' q = D q) \<and> keeps (mem s) (mem s') F \<and> F \<inter> kernel_frames s D P = {}
     \<and> (\<forall>f \<in> kernel_frames s D P. page_refs s' f = page_refs s f)"

lemma touches_other:
  assumes ok: "spaces_ok s D" and t: "touches s s' D D' P F" and q: "q \<notin> P"
  shows "entries (mem s') D' q = entries (mem s) D q"
    and "D' q = Some r \<Longrightarrow> own_space s' r" "D' q = Some r \<Longrightarrow> tables s' r = tables s r"
proof -
  have D: "D' q = D q" using t q by (simp add: touches_def)
  have all: "own_space s' r \<and> tables s' r = tables s r \<and> leaf (mem s') r = leaf (mem s) r" if r: "D q = Some r" for r
  proof -
    have o: "own_space s r" using ok r by (auto simp: spaces_ok_def)
    have in_k: "tables s r \<subseteq> kernel_frames s D P" using r q by (auto simp: kernel_frames_def)
    have refs: "\<forall>f \<in> tables s r. page_refs s' f = 1" using in_k t o by (auto simp: touches_def own_space_def)
    have "tables s r \<inter> free_pages s' = {}" using refs free_no_refs by fastforce
    moreover have "tables s r \<inter> F = {}" using in_k t by (auto simp: touches_def)
    ultimately have k: "pt_inv s' r" "tables s' r = tables s r"
      "\<And>va. user_va va \<Longrightarrow> pte_of (mem s') r va = pte_of (mem s) r va" "confined (mem s') r"
      using space_kept [of s r s' F] t o by (simp_all add: touches_def own_space_def)
    have "leaf (mem s') r = leaf (mem s) r"
      using k(3) page_va_facts(2) by (auto simp: leaf_def fun_eq_iff)
    then show ?thesis using k refs t o by (auto simp: own_space_def touches_def)
  qed
  show "entries (mem s') D' q = entries (mem s) D q"
    using all by (cases "D q") (auto simp: entries_def D)
  show "D' q = Some r \<Longrightarrow> own_space s' r" "D' q = Some r \<Longrightarrow> tables s' r = tables s r" using all by (simp_all add: D)
qed

lemma touches_frames:
  assumes ok: "spaces_ok s D" and t: "touches s s' D D' P F"
  shows "kernel_frames s' D' {} = kernel_frames s D P \<union> {f. \<exists>p r. p \<in> P \<and> D' p = Some r \<and> f \<in> tables s' r}"
proof -
  have "kpgdir s' = kpgdir s" "\<And>q. q \<notin> P \<Longrightarrow> D' q = D q" using t by (simp_all add: touches_def)
  then show ?thesis
    using touches_other(3) [OF ok t] unfolding kernel_frames_def by auto metis+
qed

lemma touches_ok:
  assumes ok: "spaces_ok s D" and t: "touches s s' D D' P F"
    and own: "\<And>p r. p \<in> P \<Longrightarrow> D' p = Some r \<Longrightarrow> pt_inv s' r \<and> confined (mem s') r \<and> (\<forall>f \<in> tables s' r. page_refs s' f = 1)
       \<and> tables s' r \<inter> kernel_frames s D P = {}"
    and disj: "\<And>p q r r'. p \<in> P \<Longrightarrow> q \<in> P \<Longrightarrow> p \<noteq> q \<Longrightarrow> D' p = Some r \<Longrightarrow> D' q = Some r' \<Longrightarrow> tables s' r \<inter> tables s' r' = {}"
    and sh: "sharing_ok (entries (mem s') D') (page_refs s') (kernel_frames s' D' {})"
  shows "spaces_ok s' D'"
  unfolding spaces_ok_def
proof (intro conjI allI impI)
  show mm: "mm_inv s'" using t by (simp add: touches_def)
  obtain f where f: "f < length (pages s)" "f \<notin> free_pages s" "kpgdir s = PAGE2VA f"
    "\<forall>i < 256. load64 (mem s) (PAGE2VA f + 8 * i) = 0"
    using ok by (auto simp: spaces_ok_def kernel_root_def)
  have fk: "f \<in> kernel_frames s D P" "f < 2 ^ 18" using f ok by (auto simp: kernel_frames_def spaces_ok_def mm_inv_def)
  have "0 < page_refs s' f" using fk(1) t kernel_frames_used(3) [OF ok fk(1)] by (simp add: touches_def)
  then have "f \<notin> free_pages s'" "f < length (pages s')" using refs_not_free by auto
  moreover have "load64 (mem s') (PAGE2VA f + 8 * i) = 0" if i: "i < 256" for i
  proof -
    have "f \<notin> F" using fk(1) t by (auto simp: touches_def)
    moreover have "i < 512" using i by (rule less_trans) simp
    ultimately show ?thesis using t fk(2) f(4) i by (simp add: touches_def keeps_def)
  qed
  ultimately show "kernel_root s'" using f(3) t by (auto simp: kernel_root_def touches_def)
  show "own_space s' r" if r: "D' p = Some r" for p r
  proof (cases "p \<in> P")
    case True
    have "kpgdir s' = kpgdir s" using t by (simp add: touches_def)
    then show ?thesis using own [OF True r] by (auto simp: own_space_def kernel_frames_def)
  next
    case False
    then show ?thesis using touches_other(2) [OF ok t False r] by simp
  qed
  show "tables s' r \<inter> tables s' r' = {}" if r: "D' p = Some r" "D' q = Some r'" "p \<noteq> q" for p q r r'
  proof -
    have k: "tables s r \<subseteq> kernel_frames s D P" if "p \<notin> P" "D p = Some r" for p r
      using that by (auto simp: kernel_frames_def)
    have D: "D' q = D q" if "q \<notin> P" for q using that t by (simp add: touches_def)
    show ?thesis
    proof (cases "p \<in> P"; cases "q \<in> P")
      assume "p \<in> P" "q \<in> P"
      then show ?thesis using disj r by blast
    next
      assume a: "p \<in> P" "q \<notin> P"
      then show ?thesis using own [OF a(1) r(1)] k [of q r'] D touches_other(3) [OF ok t a(2) r(2)] r by auto
    next
      assume a: "p \<notin> P" "q \<in> P"
      then show ?thesis using own [OF a(2) r(2)] k [of p r] D touches_other(3) [OF ok t a(1) r(1)] r by auto
    next
      assume a: "p \<notin> P" "q \<notin> P"
      then show ?thesis
        using ok r D touches_other(3) [OF ok t a(1) r(1)] touches_other(3) [OF ok t a(2) r(2)]
        unfolding spaces_ok_def by metis
    qed
  qed
qed (rule sh)

section \<open>Private memories\<close>

text \<open>What a process sees: the contents of its pages.\<close>

type_synonym space = "nat \<Rightarrow> u8 list option"

definition contents :: "mem \<Rightarrow> (nat \<Rightarrow> u64) \<Rightarrow> space" where
  "contents m l k = (if l k = 0 then None else Some (page_bytes m (frame_of (l k))))"

definition memories :: "'a kmm_scheme \<Rightarrow> directories \<Rightarrow> nat \<Rightarrow> space option" where
  "memories s D p = map_option (\<lambda>r. contents (mem s) (leaf (mem s) r)) (D p)"

lemma entries_leaf: "D p = Some r \<Longrightarrow> entries m D p = leaf m r"
  by (simp add: entries_def)

lemma page_bytes_keeps: "keeps m m' F \<Longrightarrow> f < 2 ^ 18 \<Longrightarrow> f \<notin> F \<Longrightarrow> page_bytes m' f = page_bytes m f"
  by (rule page_bytes_load64) (simp add: keeps_def)

lemma mapped_frame:
  assumes ok: "spaces_ok s D" and n: "entries (mem s) D p k \<noteq> 0"
  defines "f \<equiv> frame_of (entries (mem s) D p k)"
  shows "f < 2 ^ 18" "f \<notin> free_pages s" "f \<notin> kernel_frames s D {}" "0 < page_refs s f" "k \<in> win"
    "entries (mem s) D p k AND 1 \<noteq> 0"
proof -
  have sh: "sharing_ok (entries (mem s) D) (page_refs s) (kernel_frames s D {})" using ok by (simp add: spaces_ok_def)
  note l = sharing_leaf [OF sh n, folded f_def]
  show "0 < page_refs s f" "f \<notin> kernel_frames s D {}" "k \<in> win" "entries (mem s) D p k AND 1 \<noteq> 0" by (rule l)+
  then show "f < 2 ^ 18" "f \<notin> free_pages s" using refs_not_free [OF l(5)] ok by (auto simp: spaces_ok_def mm_inv_def)
qed

text \<open>The contents of entries that stay, when no mapped frame is among the pages written.\<close>

lemma contents_kept:
  assumes ok: "spaces_ok s D" and k: "keeps (mem s) m' F"
    and F: "\<And>f. f \<in> F \<Longrightarrow> f \<in> free_pages s \<or> f \<in> kernel_frames s D {}"
  shows "contents m' (entries (mem s) D p) = contents (mem s) (entries (mem s) D p)"
proof (rule ext)
  fix j
  show "contents m' (entries (mem s) D p) j = contents (mem s) (entries (mem s) D p) j"
  proof (cases "entries (mem s) D p j = 0")
    case False
    note mf = mapped_frame [OF ok False]
    then show ?thesis using page_bytes_keeps [OF k mf(1)] F by (auto simp: contents_def)
  qed (simp add: contents_def)
qed

lemma memories_other:
  assumes ok: "spaces_ok s D" and t: "touches s s' D D' P F" and q: "q \<notin> P"
    and F: "\<And>f. f \<in> F \<Longrightarrow> f \<in> free_pages s \<or> f \<in> kernel_frames s D {}"
  shows "memories s' D' q = memories s D q"
proof (cases "D q")
  case None
  then show ?thesis using t q by (simp add: memories_def touches_def)
next
  case (Some r)
  have k: "keeps (mem s) (mem s') F" and D: "D' q = Some r" using t q Some by (simp_all add: touches_def)
  show ?thesis
    using contents_kept [OF ok k F, of q] touches_other(1) [OF ok t q] entries_leaf [of D q, OF Some] entries_leaf [of D' q, OF D]
    by (simp add: memories_def Some D)
qed

section \<open>A page for a process\<close>

lemma own_apart:
  assumes ok: "spaces_ok s D" and r: "D p = Some r" "p \<in> P"
  shows "tables s r \<inter> kernel_frames s D P = {}"
proof -
  have "own_space s r" using ok r by (auto simp: spaces_ok_def)
  moreover have "tables s r \<inter> tables s r' = {}" if "D q = Some r'" "q \<notin> P" for q r'
    using ok r that unfolding spaces_ok_def by metis
  ultimately show ?thesis unfolding kernel_frames_def own_space_def by blast
qed

lemma kernel_frames_all: "kernel_frames s D P \<subseteq> kernel_frames s D {}"
  "D p = Some r \<Longrightarrow> tables s r \<subseteq> kernel_frames s D {}"
  by (auto simp: kernel_frames_def)

lemma page_va_eq: "j < 2 ^ 35 \<Longrightarrow> k < 2 ^ 35 \<Longrightarrow> vpn (page_va j) = of_nat k \<longleftrightarrow> j = k"
proof -
  assume j: "j < 2 ^ 35" "k < 2 ^ 35"
  have u: "unat (of_nat j :: u64) = j" "unat (of_nat k :: u64) = k" using j by (simp_all add: unat_of_nat_small)
  show "vpn (page_va j) = of_nat k \<longleftrightarrow> j = k"
    unfolding page_va_facts(1) [OF j(1)] using u by (metis)
qed

lemma leaf_upd:
  assumes "\<And>va. user_va va \<Longrightarrow> pte_of m' r va = (if vpn va = of_nat k then e else pte_of m r va)" and "k < 2 ^ 35"
  shows "leaf m' r = (leaf m r)(k := e)"
proof (rule ext)
  fix j
  show "leaf m' r j = ((leaf m r)(k := e)) j"
  proof (cases "j < 2 ^ 35")
    case True
    then show ?thesis
      using assms(1) [OF page_va_facts(2) [OF True]] page_va_eq [OF True assms(2)] by (simp add: leaf_def)
  next
    case False
    then show ?thesis using assms(2) by (auto simp: leaf_def)
  qed
qed

lemma win_35: "k \<in> win \<Longrightarrow> k < 2 ^ 35"
  by (simp add: win_def)

lemma frame_of_entry: "f < 2 ^ 18 \<Longrightarrow> fl < 4096 \<Longrightarrow> frame_of (PAGE2PA f OR fl) = f"
proof -
  assume f: "f < 2 ^ 18" and fl: "fl < 4096"
  have "drop_bit 12 (PAGE2PA f OR fl) = of_nat f" using f fl by (intro PAGE2PA_OR_drop) simp_all
  moreover have "unat (of_nat f :: u64) = f" using f by (intro unat_of_nat_small) simp
  ultimately show ?thesis by (simp add: frame_of_def)
qed

lemma entry_7: "(PAGE2PA f OR 7) AND 1 \<noteq> 0"
  using entry_present [of f] by (simp add: PTE_FULL_def)

lemma contents_upd: "e \<noteq> 0 \<Longrightarrow> contents m (l(k := e)) = (contents m l)(k \<mapsto> page_bytes m (frame_of e))"
  by (auto simp: contents_def fun_eq_iff)

lemma spaces_set_page:
  assumes ok: "spaces_ok s D" and p: "D p = Some r" and k: "k \<in> win"
    and t: "touches s s' D D {p} F" and F: "F \<subseteq> free_pages s \<union> tables s r"
    and own: "pt_inv s' r" "confined (mem s') r" "tables s' r \<subseteq> tables s r \<union> free_pages s" "\<forall>q \<in> tables s' r. page_refs s' q = 1"
    and pte: "\<And>va. user_va va \<Longrightarrow> pte_of (mem s') r va = (if vpn va = of_nat k then e else pte_of (mem s) r va)"
    and e: "e AND 1 \<noteq> 0" "frame_of e = f" and f: "f \<in> free_pages s" "f \<notin> tables s' r" "page_refs s' f = 1"
    and refs: "\<And>q. q \<noteq> f \<Longrightarrow> page_refs s q \<noteq> 0 \<Longrightarrow> page_refs s' q
        = (if leaf (mem s) r k \<noteq> 0 \<and> q = frame_of (leaf (mem s) r k) then page_refs s q - 1 else page_refs s q)"
  shows "spaces_ok s' D" and "entries (mem s') D = set_leaf (entries (mem s) D) p k e"
    and "memories s' D = (memories s D)(p \<mapsto> (contents (mem s) (leaf (mem s) r))(k \<mapsto> page_bytes (mem s') f))"
proof -
  have sh: "sharing_ok (entries (mem s) D) (page_refs s) (kernel_frames s D {})" using ok by (simp add: spaces_ok_def)
  note ent = entries_leaf [of D p, OF p]
  have l: "leaf (mem s') r = (leaf (mem s) r)(k := e)" by (rule leaf_upd [OF pte win_35 [OF k]])
  show en: "entries (mem s') D = set_leaf (entries (mem s) D) p k e"
  proof (rule ext)
    fix q
    show "entries (mem s') D q = set_leaf (entries (mem s) D) p k e q"
      using touches_other(1) [OF ok t, of q] by (cases "q = p") (simp_all add: set_leaf_def ent l)
  qed
  have fr: "kernel_frames s' D {} = kernel_frames s D {p} \<union> tables s' r"
    unfolding touches_frames [OF ok t] using p by auto
  have used: "q \<notin> free_pages s" if "q \<in> kernel_frames s D P" for q P using kernel_frames_used(2) [OF ok that] .
  have sharing: "sharing_ok (set_leaf (entries (mem s) D) p k e) (page_refs s') (kernel_frames s' D {})"
  proof (rule sharing_set_fresh [where f = f and C = "page_refs s" and C' = "page_refs s'" and L = "entries (mem s) D", OF sh k e free_no_refs [OF f(1)] _ f(3)])
    show "f \<notin> kernel_frames s' D {}" using fr f used by blast
    show "q \<in> kernel_frames s D {} \<or> page_refs s q = 0" if "q \<in> kernel_frames s' D {}" for q
      using that fr own(3) kernel_frames_all(1) [of s D "{p}"] kernel_frames_all(2) [of D p, OF p] free_no_refs [of q s] by blast
    show "page_refs s' q = (if entries (mem s) D p k \<noteq> 0 \<and> q = frame_of (entries (mem s) D p k) then page_refs s q - 1 else page_refs s q)"
      if "q \<noteq> f" "page_refs s q \<noteq> 0" for q
      using refs [OF that] unfolding ent .
  qed
  show "spaces_ok s' D"
  proof (rule touches_ok [OF ok t])
    fix q r' assume "q \<in> {p}" "D q = Some r'"
    then have "r' = r" using p by simp
    moreover have "tables s' r \<inter> kernel_frames s D {p} = {}"
      using own_apart [where s = s and D = D and p = p and P = "{p}", OF ok p] own(3) used [of _ "{p}"] by blast
    moreover note own
    ultimately show "pt_inv s' r' \<and> confined (mem s') r' \<and> (\<forall>f \<in> tables s' r'. page_refs s' f = 1) \<and> tables s' r' \<inter> kernel_frames s D {p} = {}"
      by blast
  next
    show "sharing_ok (entries (mem s') D) (page_refs s') (kernel_frames s' D {})" unfolding en by (rule sharing)
  qed simp
  have Fk: "q \<in> free_pages s \<or> q \<in> kernel_frames s D {}" if "q \<in> F" for q
    using that F kernel_frames_all(2) [of D p, OF p] by blast
  show "memories s' D = (memories s D)(p \<mapsto> (contents (mem s) (leaf (mem s) r))(k \<mapsto> page_bytes (mem s') f))"
  proof (rule ext)
    fix q
    show "memories s' D q = ((memories s D)(p \<mapsto> (contents (mem s) (leaf (mem s) r))(k \<mapsto> page_bytes (mem s') f))) q"
    proof (cases "q = p")
      case True
      have keep: "keeps (mem s) (mem s') F" using t by (simp add: touches_def)
      have nz: "e \<noteq> 0" using e(1) by auto
      have "contents (mem s') (leaf (mem s') r) = (contents (mem s) (leaf (mem s) r))(k \<mapsto> page_bytes (mem s') f)"
        using contents_kept [where p = p, OF ok keep Fk] unfolding l contents_upd [OF nz] e(2) ent by simp
      then show ?thesis using True by (simp add: memories_def p)
    next
      case False
      then show ?thesis using memories_other [OF ok t _ Fk, of q] by simp
    qed
  qed
qed

lemma page_bytes_zero:
  assumes "\<And>i. i < 512 \<Longrightarrow> load64 m (PAGE2VA f + 8 * i) = 0"
  shows "page_bytes m f = replicate 4096 0"
proof -
  have "page_bytes m f = page_bytes (\<lambda>a. 0) f" using assms by (intro page_bytes_load64) (simp add: load64_zero)
  also have "\<dots> = replicate 4096 0" by (simp add: page_bytes_def load_bytes_def map_replicate_const)
  finally show ?thesis .
qed

lemma win_va: "k \<in> win \<Longrightarrow> UTEXT \<le> page_va k" "k \<in> win \<Longrightarrow> page_va k < USTACKTOP"
proof -
  assume k: "k \<in> win"
  then have "unat (page_va k) = 4096 * k" by (intro page_va_unat) (simp add: win_def)
  then show "UTEXT \<le> page_va k" "page_va k < USTACKTOP"
    using k by (simp_all add: win_def UTEXT_def USTACKTOP_def word_le_nat_alt word_less_nat_alt)
qed

text \<open>A page is taken from the pool, and nobody has it yet.\<close>

lemma taken_page_spaces:
  assumes ok: "spaces_ok s D" and al: "alloc_page 1 s = (Some f, s1)"
  shows "spaces_ok s1 D" and "memories s1 D = memories s D" and "entries (mem s1) D = entries (mem s) D"
proof -
  have mm: "mm_inv s" using ok by (simp add: spaces_ok_def)
  note a = alloc_page_Some [OF mm al]
  have f: "f < 2 ^ 18" using a(1) mm by (auto simp: free_pages_def mm_inv_def)
  have kp: "keeps (mem s) (mem s1) {f}"
    unfolding keeps_def using f page_entry_disj by (simp add: a(6) load64_store_bytes_disj)
  have t: "touches s s1 D D {} {f}"
    unfolding touches_def using a kp page_refs_alloc [OF mm al] kernel_frames_used(2) [OF ok, of _ "{}"] by auto
  have en: "entries (mem s1) D q = entries (mem s) D q" for q using touches_other(1) [OF ok t, of q] by simp
  then show en': "entries (mem s1) D = entries (mem s) D" by blast
  show "memories s1 D = memories s D" using memories_other [OF ok t] a(1) by (auto simp: fun_eq_iff)
  have fr: "kernel_frames s1 D {} = kernel_frames s D {}" using touches_frames [OF ok t] by simp
  have sh: "sharing_ok (entries (mem s) D) (page_refs s) (kernel_frames s D {})" using ok by (simp add: spaces_ok_def)
  have "holders (entries (mem s) D) f = {}" using sharing_unused [OF sh] free_no_refs [OF a(1)] by simp
  then have "sharing_ok (entries (mem s) D) (page_refs s1) (kernel_frames s D {})"
    using sh unfolding page_refs_alloc [OF mm al] sharing_ok_def by auto
  then show "spaces_ok s1 D" by (intro touches_ok [OF ok t]) (simp_all add: en' fr)
qed

text \<open>A demanded page.\<close>

lemma new_page_spaces:
  assumes ok: "spaces_ok s D" and p: "D p = Some r" and k: "k \<in> win" and none: "leaf (mem s) r k = 0"
    and room: "4 \<le> card (free_pages s)"
  obtains f s1 s' where "alloc_page 1 s = (Some f, s1)" "insert_page r (page_va k) (Some f) 7 s1 = Inr (0, s')"
    "spaces_ok s' D" "memories s' D = (memories s D)(p \<mapsto> (contents (mem s) (leaf (mem s) r))(k \<mapsto> replicate 4096 0))"
    "kmm.more s' = kmm.more s" "kmm.more s1 = kmm.more s" "leaf (mem s') r k = PAGE2PA f OR 7" "card (free_pages s) \<le> card (free_pages s') + 4"
proof -
  have own: "own_space s r" and mm: "mm_inv s" using ok p by (auto simp: spaces_ok_def)
  then have inv: "pt_inv s r" by (simp add: own_space_def)
  note va = window_path(4) [OF win_va [OF k]]
  obtain f s1 s' where n: "alloc_page 1 s = (Some f, s1)" "insert_page r (page_va k) (Some f) 7 s1 = Inr (0, s')"
    "new_page s s' r (page_va k) f 7" "\<And>i. i < 512 \<Longrightarrow> load64 (mem s') (PAGE2VA f + 8 * i) = 0"
    by (rule map_new_page [OF inv va room]) (rule that; assumption)
  note np = n(3) [unfolded new_page_def]
  have f: "f \<in> free_pages s" "f \<notin> tables s' r" "f < 2 ^ 18" and len: "length (pages s') = length (pages s)"
    and more: "kmm.more s' = kmm.more s" and kp: "kpgdir s' = kpgdir s" and inv': "pt_inv s' r"
    and tab: "tables s' r \<subseteq> tables s r \<union> (free_pages s - free_pages s')"
    and refs: "\<And>q. page_refs s' q = (if q \<in> free_pages s - free_pages s' then 1 else page_refs s q)"
    and fs': "f \<notin> free_pages s'"
    using np mm by (auto simp: mm_inv_def free_pages_def)
  have conf: "confined (mem s') r"
  proof -
    note a = alloc_page_Some [OF mm n(1)] and b = alloc_page_space [OF inv n(1)]
    have "keeps (mem s) (mem s1) {f}" unfolding keeps_def using b(6) by simp
    then have "confined (mem s1) r"
      using space_kept(4) [OF inv a(2) a(7), of "{f}"] a(3) b(3) tables_not_free [OF inv] own by (auto simp: own_space_def)
    moreover have "3 \<le> card (free_pages s1)" using a(1) room unfolding a(3) by simp
    ultimately show ?thesis using insert_page_confined [OF b(1) win_va [OF k]] n(2) by blast
  qed
  have t: "touches s s' D D {p} (free_pages s \<union> tables s r)"
    unfolding touches_def using pt_inv_mm [OF inv'] len kp new_page_keeps [OF n(3)] own_apart [of s D p r "{p}"] ok p refs
      kernel_frames_used(2) [OF ok, of _ "{p}"] by auto
  have pte: "pte_of (mem s') r va = (if vpn va = of_nat k then PAGE2PA f OR 7 else pte_of (mem s) r va)" if "user_va va" for va
    using np that page_va_facts(1) [OF win_35 [OF k]] by simp
  have r1: "\<forall>q \<in> tables s' r. page_refs s' q = 1" using tab refs own by (auto simp: own_space_def)
  have "page_refs s' f = 1" using refs f(1) fs' by simp
  moreover have "tables s' r \<subseteq> tables s r \<union> free_pages s" using tab by blast
  moreover have "page_refs s' q = (if leaf (mem s) r k \<noteq> 0 \<and> q = frame_of (leaf (mem s) r k) then page_refs s q - 1 else page_refs s q)"
    if "page_refs s q \<noteq> 0" for q
    using refs that free_no_refs [of q s] none by auto
  ultimately have "spaces_ok s' D"
    "memories s' D = (memories s D)(p \<mapsto> (contents (mem s) (leaf (mem s) r))(k \<mapsto> page_bytes (mem s') f))"
    using spaces_set_page [OF ok p k t order_refl inv' conf _ r1 pte entry_7 frame_of_entry [OF f(3)] f(1,2)] by simp_all
  then show thesis
    using that [OF n(1,2)] page_bytes_zero [OF n(4)] more alloc_page_Some(9) [OF mm n(1)] np pte page_va_facts [OF win_35 [OF k]] win_35 [OF k]
    by (simp add: leaf_def)
qed

text \<open>A write fault: the frame is replaced by a copy, the memory stays.\<close>

lemma cow_spaces:
  fixes s :: "('d, 'a) kproc_scheme"
  assumes ok: "spaces_ok s D" and p: "D p = Some r" and k: "k \<in> win" and e: "leaf (mem s) r k = e" "e \<noteq> 0"
    and ne: "free_pages s \<noteq> {}" and cpu: "current s = Some c" "pgdir (procs s ! c) = r" "cpu_root s = r"
    and err: "err AND 1 \<noteq> 0" "err AND 2 \<noteq> 0"
  shows "\<exists>s'. user_fault err (page_va k) s = Inr s' \<and> spaces_ok s' D \<and> memories s' D = memories s D \<and> kmm.more s' = kmm.more s"
proof -
  note ent = entries_leaf [of D p, OF p]
  have own: "own_space s r" and mm: "mm_inv s" using ok p by (auto simp: spaces_ok_def)
  then have inv: "pt_inv s r" by (simp add: own_space_def)
  have "entries (mem s) D p k \<noteq> 0" using e by (simp add: ent)
  note mf = mapped_frame [OF ok this, unfolded ent e(1)]
  have k35: "k < 2 ^ 35" by (rule win_35 [OF k])
  have pe: "pte_of (mem s) r (page_va k) = e" using e(1) k35 by (simp add: leaf_def)
  have nt: "frame_of e \<notin> tables s r" using mf(3) p by (auto simp: kernel_frames_def)
  obtain f s' where s': "user_fault err (page_va k) s = Inr s'" "f \<in> free_pages s" "pt_inv s' r"
    "\<And>va. user_va va \<Longrightarrow> pte_of (mem s') r va = (if vpn va = of_nat k then PAGE2PA f OR 7 else pte_of (mem s) r va)"
    "page_bytes (mem s') f = page_bytes (mem s) (frame_of e)"
    "page_refs s' = (page_refs s)(f := 1, frame_of e := page_refs s (frame_of e) - 1)"
    "tables s' r = tables s r" "keeps (mem s) (mem s') (insert f (tables s r))" "confined (mem s) r \<longrightarrow> confined (mem s') r"
    "length (pages s') = length (pages s)" "kmm.more s' = kmm.more s" "kpgdir s' = kpgdir s"
    using cow_copies [OF inv k35 pe mf(6) nt mf(4) ne cpu err] by blast
  have fe: "frame_of e \<noteq> f" using mf(2) s'(2) by auto
  have f18: "f < 2 ^ 18" using free_pages_less [OF s'(2)] mm by (simp add: mm_inv_def)
  have used: "q \<noteq> f" "q \<noteq> frame_of e" if "q \<in> kernel_frames s D {}" for q
    using that kernel_frames_used(2) [OF ok that] s'(2) mf(3) by auto
  have refs: "page_refs s' q = page_refs s q" if "q \<in> kernel_frames s D {}" for q using used [OF that] by (simp add: s'(6))
  have sub: "tables s r \<subseteq> kernel_frames s D {}" using kernel_frames_all(2) [of D p, OF p] .
  have t: "touches s s' D D {p} (insert f (tables s r))"
    unfolding touches_def
  proof (intro conjI)
    show "mm_inv s'" by (rule pt_inv_mm [OF s'(3)])
    have "f \<notin> kernel_frames s D {p}" using used(1) kernel_frames_all(1) [of s D "{p}"] by blast
    then show "insert f (tables s r) \<inter> kernel_frames s D {p} = {}" using own_apart [of s D p r "{p}"] ok p by simp
    show "\<forall>q \<in> kernel_frames s D {p}. page_refs s' q = page_refs s q" using refs kernel_frames_all(1) [of s D "{p}"] by blast
  qed (use s'(8,10,12) in simp_all)
  have r1: "\<forall>q \<in> tables s' r. page_refs s' q = 1" using refs sub own by (auto simp: s'(7) own_space_def)
  have "f \<notin> tables s' r" using sub used(1) by (auto simp: s'(7))
  then have "spaces_ok s' D"
    "memories s' D = (memories s D)(p \<mapsto> (contents (mem s) (leaf (mem s) r))(k \<mapsto> page_bytes (mem s') f))"
    using spaces_set_page [OF ok p k t _ s'(3) _ _ r1 s'(4) entry_7 frame_of_entry [OF f18] s'(2)] own fe e
    by (simp_all add: s'(2,6,7,9) own_space_def subset_insertI2 le_supI1 le_supI2)
  moreover have "(memories s D)(p \<mapsto> (contents (mem s) (leaf (mem s) r))(k \<mapsto> page_bytes (mem s') f)) = memories s D"
    using p e s'(5) by (auto simp: memories_def contents_def fun_eq_iff)
  ultimately show ?thesis using s'(1,11) by auto
qed

section \<open>A new process\<close>

lemma new_space_spaces:
  fixes s :: "'a kmm_scheme"
  assumes ok: "spaces_ok s D" and c: "D c = None" and ne: "free_pages s \<noteq> {}"
  obtains f s' where "alloc_vm (kpgdir s) s = (PAGE2VA f, s')" "f < 2 ^ 18" "f \<in> free_pages s" "free_pages s' = free_pages s - {f}"
    "spaces_ok s' (D(c \<mapsto> PAGE2VA f))" "memories s' (D(c \<mapsto> PAGE2VA f)) = (memories s D)(c \<mapsto> (\<lambda>k. None))"
    "entries (mem s') (D(c \<mapsto> PAGE2VA f)) = entries (mem s) D" "kmm.more s' = kmm.more s"
proof -
  have mm: "mm_inv s" and sh: "sharing_ok (entries (mem s) D) (page_refs s) (kernel_frames s D {})"
    using ok by (simp_all add: spaces_ok_def)
  obtain kf where kf: "kf < length (pages s)" "kf \<notin> free_pages s" "kpgdir s = PAGE2VA kf"
    "\<forall>i < 256. load64 (mem s) (PAGE2VA kf + 8 * i) = 0"
    using ok by (auto simp: spaces_ok_def kernel_root_def)
  have ab: "\<forall>i < 256. load64 (mem s) (PAGE2VA kf + 8 * i) AND 1 = 0" using kf(4) by simp
  obtain f s' where s': "alloc_vm (PAGE2VA kf) s = (PAGE2VA f, s')" "f \<in> free_pages s" "free_pages s' = free_pages s - {f}"
    "page_refs s' = (page_refs s)(f := 1)" "pt_inv s' (PAGE2VA f)" "tables s' (PAGE2VA f) = {f}"
    "\<And>va. user_va va \<Longrightarrow> pte_of (mem s') (PAGE2VA f) va = 0"
    "\<And>i. i < 512 \<Longrightarrow> load64 (mem s') (PAGE2VA f + 8 * i) = load64 (mem s) (PAGE2VA kf + 8 * i)"
    "kmm.more s' = kmm.more s" "kpgdir s' = kpgdir s" "length (pages s') = length (pages s)" "keeps (mem s) (mem s') {f}"
    by (rule new_space [OF mm kf(1,2) ab ne]) (rule that; assumption)
  let ?r = "PAGE2VA f" and ?D = "D(c \<mapsto> PAGE2VA f)"
  have f18: "f < 2 ^ 18" using free_pages_less [OF s'(2)] mm by (simp add: mm_inv_def)
  have used: "q \<noteq> f" if "q \<in> kernel_frames s D P" for q P using kernel_frames_used(2) [OF ok that] s'(2) by auto
  have t: "touches s s' D ?D {c} {f}"
    unfolding touches_def using pt_inv_mm [OF s'(5)] s'(4,10-12) used by auto
  have zero: "load64 (mem s') (?r + 8 * i) = 0" if i: "i < 256" for i
  proof -
    have "i < 512" using i by (rule less_trans) simp
    then show ?thesis using s'(8) kf(4) i by simp
  qed
  have conf: "confined (mem s') ?r"
  proof -
    have n: "node (mem s') ?r js = None" if "upath js" "js \<noteq> []" for js
    proof (cases js)
      case (Cons i ks)
      then have "i < 256" using that(1) by (simp add: upath_def)
      then have "tbl (mem s') (?r + 8 * i) = None" using zero by (simp add: tbl_def)
      then show ?thesis by (simp only: Cons node.simps option.case)
    qed (use that in simp)
    show ?thesis
      unfolding confined_def
    proof (intro conjI allI impI)
      show "window js" if "upath js" "node (mem s') ?r js \<noteq> None" for js
        using n [OF that(1)] that(2) by (auto simp: window_def)
      show "load64 (mem s') (b + 8 * i) = 0"
        if js: "upath (js @ [i])" "node (mem s') ?r js = Some b" for js b i
      proof -
        have "js = []" using n [OF upath_butlast [OF js(1)]] js(2) by auto
        then show ?thesis using js zero by (auto simp: upath_def)
      qed
    qed
  qed
  have leaf0: "leaf (mem s') ?r = (\<lambda>k. 0)" using s'(7) page_va_facts(2) by (auto simp: leaf_def)
  have en: "entries (mem s') ?D = entries (mem s) D"
  proof (rule ext)
    fix q
    show "entries (mem s') ?D q = entries (mem s) D q"
      using touches_other(1) [OF ok t, of q] c leaf0 by (cases "q = c") (simp_all add: entries_def)
  qed
  have fr: "kernel_frames s' ?D {} = kernel_frames s D {c} \<union> {f}"
    unfolding touches_frames [OF ok t] using s'(6) by auto
  have sharing: "sharing_ok (entries (mem s) D) (page_refs s') (kernel_frames s' ?D {})"
  proof (rule sharing_cong [OF sh])
    have h: "q \<noteq> f" if "holders (entries (mem s) D) q \<noteq> {}" for q
      using sharing_unused [OF sh, of f] free_no_refs [OF s'(2)] that by auto
    show "page_refs s' q = page_refs s q" if "holders (entries (mem s) D) q \<noteq> {}" for q using h [OF that] s'(4) by simp
    show "q \<in> kernel_frames s D {}" if "holders (entries (mem s) D) q \<noteq> {}" "q \<in> kernel_frames s' ?D {}" for q
      using h [OF that(1)] that(2) fr kernel_frames_all(1) by blast
  qed
  have ok': "spaces_ok s' ?D"
  proof (rule touches_ok [OF ok t])
    fix q r' assume "q \<in> {c}" "?D q = Some r'"
    then have "r' = ?r" by simp
    moreover have "tables s' ?r \<inter> kernel_frames s D {c} = {}" "\<forall>q \<in> tables s' ?r. page_refs s' q = 1"
      using used s'(4,6) by auto
    moreover note s'(5) conf
    ultimately show "pt_inv s' r' \<and> confined (mem s') r' \<and> (\<forall>f \<in> tables s' r'. page_refs s' f = 1) \<and> tables s' r' \<inter> kernel_frames s D {c} = {}"
      by blast
  next
    show "sharing_ok (entries (mem s') ?D) (page_refs s') (kernel_frames s' ?D {})" unfolding en by (rule sharing)
  qed simp
  have mem': "memories s' ?D = (memories s D)(c \<mapsto> (\<lambda>k. None))"
  proof (rule ext)
    fix q
    show "memories s' ?D q = ((memories s D)(c \<mapsto> (\<lambda>k. None))) q"
      using memories_other [OF ok t, of q] s'(2) leaf0
      by (cases "q = c") (auto simp: memories_def contents_def)
  qed
  show thesis
    using that [OF _ f18 s'(2,3) ok' mem' en s'(9)] s'(1) kf(3) by simp
qed

text \<open>The pages of the text and data are shared.\<close>

definition text_pages :: "nat set" where
  "text_pages = {0x80000..<0x8FFFE}"

lemma user_pages_eq: "user_pages = 65535"
  by (simp add: user_pages_def USTACKTOP_def UTEXT_def unat_div)

lemma fork_pages_spaces:
  fixes s :: "'a kmm_scheme"
  assumes ok: "spaces_ok s D" and p: "D p = Some r" and c: "D c = Some d" "c \<noteq> p" "entries (mem s) D c = (\<lambda>k. 0)"
    and room: "3 * card {k \<in> text_pages. leaf (mem s) r k \<noteq> 0} \<le> card (free_pages s)"
  obtains s' where "fork_pages r d UTEXT (user_pages - 1) s = Inr (0, s')" "spaces_ok s' D"
    "memories s' D = (memories s D)(c \<mapsto> (\<lambda>k. if k \<in> text_pages then contents (mem s) (leaf (mem s) r) k else None))"
    "entries (mem s') D = share_leaves (entries (mem s) D) p c text_pages"
    "card (free_pages s) \<le> card (free_pages s') + 3 * card {k \<in> text_pages. leaf (mem s) r k \<noteq> 0}"
    "kmm.more s' = kmm.more s" "kpgdir s' = kpgdir s"
proof -
  let ?n = "user_pages - 1"
  note entp = entries_leaf [of D p, OF p] and entc = entries_leaf [of D c, OF c(1)]
  have mm: "mm_inv s" and sh: "sharing_ok (entries (mem s) D) (page_refs s) (kernel_frames s D {})"
    using ok by (simp_all add: spaces_ok_def)
  have own: "own_space s r" "own_space s d" and dis: "tables s r \<inter> tables s d = {}"
    using ok p c by (auto simp: spaces_ok_def)
  have two: "two_spaces s r d" using own dis by (simp add: two_spaces_def own_space_def)
  have mapped: "mapped s r 0x80000 ?n = {k \<in> text_pages. leaf (mem s) r k \<noteq> 0}"
    by (auto simp: mapped_def text_pages_def leaf_def user_pages_eq)
  have sharers: "sharers s r 0x80000 ?n q = {k \<in> text_pages. entries (mem s) D p k \<noteq> 0 \<and> frame_of (entries (mem s) D p k) = q}" for q
    unfolding sharers_def mapped entp by (auto simp: leaf_def text_pages_def)
  have refs: "0 < page_refs s (frame_of (pte_of (mem s) r (page_va k)))" if "k \<in> mapped s r 0x80000 ?n" for k
  proof -
    have k: "leaf (mem s) r k \<noteq> 0" "k < 2 ^ 35" using that unfolding mapped by (auto simp: text_pages_def)
    then show ?thesis using mapped_frame(4) [OF ok, of p k] by (simp add: entp leaf_def)
  qed
  have ut: "UTEXT = page_va 0x80000" by (simp add: UTEXT_def page_va_def)
  have b: "(0x80000 :: nat) \<le> 0x80000" "0x80000 + ?n \<le> 0x8FFFF" by (simp_all add: user_pages_eq)
  have rm: "3 * card (mapped s r 0x80000 ?n) \<le> card (free_pages s)" using room unfolding mapped .
  obtain s' where run: "fork_pages r d UTEXT ?n s = Inr (0, s')"
    and shr: "shares s s' r d (\<lambda>v. 0x80000 \<le> unat v \<and> unat v < 0x80000 + ?n) (\<lambda>q. int (card (sharers s r 0x80000 ?n q)))
        (card (mapped s r 0x80000 ?n))"
    and ap: "apart_from s s' r d"
    using fork_pages_shares [OF two b rm refs] unfolding ut by blast
  note S = shr [unfolded shares_def] and A = ap [unfolded apart_from_def]
  have tab: "tables s' r = tables s r" "tables s' d = tables s d \<union> (free_pages s - free_pages s')" "free_pages s' \<subseteq> free_pages s"
    and k: "keeps (mem s) (mem s') (free_pages s \<union> tables s r \<union> tables s d)"
    and conf: "confined (mem s') r" "confined (mem s') d"
    and len: "length (pages s') = length (pages s)" and more: "kmm.more s' = kmm.more s" and kp: "kpgdir s' = kpgdir s"
    using A own by (auto simp: own_space_def)
  have inv': "pt_inv s' r" "pt_inv s' d" "tables s' r \<inter> tables s' d = {}" using S by (auto simp: two_spaces_def)
  have C': "page_refs s' q = (if q \<in> free_pages s - free_pages s' then 1 else page_refs s q)
      + int (card {k \<in> text_pages. entries (mem s) D p k \<noteq> 0 \<and> frame_of (entries (mem s) D p k) = q})" for q
    using S unfolding sharers by blast
  have none: "{k \<in> text_pages. entries (mem s) D p k \<noteq> 0 \<and> frame_of (entries (mem s) D p k) = q} = {}"
    if q: "q \<in> kernel_frames s D {} \<or> q \<in> free_pages s" for q
    using mapped_frame(2,3) [OF ok, of p] q by blast
  have refs_k: "page_refs s' q = page_refs s q" if "q \<in> kernel_frames s D {}" for q
    using C' [of q] kernel_frames_used(2) [OF ok that] unfolding none [OF disjI1 [OF that]] by simp
  have t: "touches s s' D D {p, c} (free_pages s \<union> tables s r \<union> tables s d)"
    unfolding touches_def
  proof (intro conjI)
    show "mm_inv s'" by (rule pt_inv_mm [OF inv'(1)])
    have "tables s r \<inter> kernel_frames s D {p, c} = {}" "tables s d \<inter> kernel_frames s D {p, c} = {}"
      using own_apart [of s D p r "{p, c}"] own_apart [of s D c d "{p, c}"] ok p c(1) by simp_all
    then show "(free_pages s \<union> tables s r \<union> tables s d) \<inter> kernel_frames s D {p, c} = {}"
      using kernel_frames_used(2) [OF ok, of _ "{p, c}"] by blast
    show "\<forall>f \<in> kernel_frames s D {p, c}. page_refs s' f = page_refs s f"
      using refs_k kernel_frames_all(1) [of s D "{p, c}"] by blast
  qed (use len kp k in simp_all)
  have v: "0x80000 \<le> unat (vpn (page_va j)) \<and> unat (vpn (page_va j)) < 0x80000 + ?n \<longleftrightarrow> j \<in> text_pages" if "j < 2 ^ 35" for j
  proof -
    have "unat (vpn (page_va j)) = j" unfolding page_va_facts(1) [OF that] using that by (intro unat_of_nat_small) simp
    then show ?thesis by (auto simp: text_pages_def user_pages_eq)
  qed
  have en: "entries (mem s') D = share_leaves (entries (mem s) D) p c text_pages"
  proof (intro ext)
    fix q j
    have pr: "\<forall>va. user_va va \<longrightarrow> pte_of (mem s') r va =
        (if (0x80000 \<le> unat (vpn va) \<and> unat (vpn va) < 0x80000 + ?n) \<and> pte_of (mem s) r va \<noteq> 0 then share (pte_of (mem s) r va) else pte_of (mem s) r va)"
      and pd: "\<forall>va. user_va va \<longrightarrow> pte_of (mem s') d va =
        (if (0x80000 \<le> unat (vpn va) \<and> unat (vpn va) < 0x80000 + ?n) \<and> pte_of (mem s) r va \<noteq> 0 then share (pte_of (mem s) r va) else pte_of (mem s) d va)"
      using S by blast+
    show "entries (mem s') D q j = share_leaves (entries (mem s) D) p c text_pages q j"
    proof (cases "q = p \<or> q = c")
      case True
      have "leaf (mem s') r j = (if j \<in> text_pages \<and> leaf (mem s) r j \<noteq> 0 then share (leaf (mem s) r j) else leaf (mem s) r j)
        \<and> leaf (mem s') d j = (if j \<in> text_pages \<and> leaf (mem s) r j \<noteq> 0 then share (leaf (mem s) r j) else leaf (mem s) d j)"
      proof (cases "j < 2 ^ 35")
        case True
        note va = page_va_facts(2) [OF True]
        show ?thesis using mp [OF spec [OF pr] va] mp [OF spec [OF pd] va] unfolding v [OF True] by (simp add: leaf_def True)
      qed (simp add: leaf_def)
      then show ?thesis using True c(2) entries_leaf [of D p, OF p, of "mem s'"] entries_leaf [of D c, OF c(1), of "mem s'"]
        by (auto simp: share_leaves_def entp entc)
    next
      case False
      then show ?thesis using touches_other(1) [OF ok t, of q] by (simp add: share_leaves_def)
    qed
  qed
  have fr: "kernel_frames s' D {} = kernel_frames s D {p, c} \<union> tables s' r \<union> tables s' d"
    unfolding touches_frames [OF ok t] using p c(1) by auto
  have subs: "tables s r \<subseteq> kernel_frames s D {}" "tables s d \<subseteq> kernel_frames s D {}"
    using kernel_frames_all(2) [of D p, OF p] kernel_frames_all(2) [of D c, OF c(1)] by blast+
  have sharing: "sharing_ok (share_leaves (entries (mem s) D) p c text_pages) (page_refs s') (kernel_frames s' D {})"
  proof (rule sharing_fork [OF sh c(3,2)])
    show "q \<in> kernel_frames s D {} \<or> page_refs s q = 0" if "q \<in> kernel_frames s' D {}" for q
      using that fr tab subs kernel_frames_all(1) [of s D "{p, c}"] free_no_refs [of q s] by blast
    show "page_refs s' q = page_refs s q + int (card {k \<in> text_pages. entries (mem s) D p k \<noteq> 0 \<and> frame_of (entries (mem s) D p k) = q})"
      if "page_refs s q \<noteq> 0" for q
      using C' [of q] that free_no_refs [of q s] by auto
  qed
  have refs1: "page_refs s' q = 1" if q: "q \<in> tables s' r \<union> tables s' d" for q
  proof (cases "q \<in> free_pages s")
    case True
    then have "q \<in> free_pages s - free_pages s'" using q inv' tables_not_free by blast
    then show ?thesis using C' [of q] none [of q] True by simp
  next
    case False
    then have "q \<in> tables s r \<union> tables s d" using q tab by blast
    then show ?thesis using refs_k [of q] subs own by (auto simp: own_space_def)
  qed
  have tk: "tables s' x \<inter> kernel_frames s D {p, c} = {}" if "x = r \<or> x = d" for x
  proof -
    have "tables s' x \<subseteq> tables s r \<union> tables s d \<union> free_pages s" using that tab by auto
    then show ?thesis
      using t by (auto simp: touches_def)
  qed
  have ok': "spaces_ok s' D"
  proof (rule touches_ok [OF ok t])
    fix q x assume "q \<in> {p, c}" "D q = Some x"
    then have x: "x = r \<or> x = d" using p c(1) by auto
    then have "pt_inv s' x" "confined (mem s') x" "\<forall>f \<in> tables s' x. page_refs s' f = 1"
      using inv' conf refs1 by auto
    then show "pt_inv s' x \<and> confined (mem s') x \<and> (\<forall>f \<in> tables s' x. page_refs s' f = 1) \<and> tables s' x \<inter> kernel_frames s D {p, c} = {}"
      using tk [OF x] by blast
  next
    show "tables s' x \<inter> tables s' y = {}" if "i \<in> {p, c}" "j \<in> {p, c}" "i \<noteq> j" "D i = Some x" "D j = Some y" for i j x y
      using that p c(1) inv'(3) by auto
  next
    show "sharing_ok (entries (mem s') D) (page_refs s') (kernel_frames s' D {})" unfolding en by (rule sharing)
  qed
  have Fk: "q \<in> free_pages s \<or> q \<in> kernel_frames s D {}" if "q \<in> free_pages s \<union> tables s r \<union> tables s d" for q
    using that subs by blast
  note ck = contents_kept [where p = p, OF ok k Fk, unfolded entp]
  have same_frame: "contents m (share_leaves (entries (mem s) D) p c text_pages q) j =
      (if q = c \<and> j \<notin> text_pages then None else contents m (leaf (mem s) r) j)" if "q = p \<or> q = c" for m q j
    using that c(2,3) share_facts(3,4) by (auto simp: contents_def share_leaves_def entp)
  have mem': "memories s' D = (memories s D)(c \<mapsto> (\<lambda>k. if k \<in> text_pages then contents (mem s) (leaf (mem s) r) k else None))"
  proof (rule ext)
    fix q
    show "memories s' D q = ((memories s D)(c \<mapsto> (\<lambda>k. if k \<in> text_pages then contents (mem s) (leaf (mem s) r) k else None))) q"
    proof (cases "q = p \<or> q = c")
      case True
      have l: "leaf (mem s') r = share_leaves (entries (mem s) D) p c text_pages p"
        "leaf (mem s') d = share_leaves (entries (mem s) D) p c text_pages c"
        using en entries_leaf [of D p, OF p, of "mem s'"] entries_leaf [of D c, OF c(1), of "mem s'"] by simp_all
      have "contents (mem s') (leaf (mem s') r) = contents (mem s) (leaf (mem s) r)"
        "contents (mem s') (leaf (mem s') d) = (\<lambda>k. if k \<in> text_pages then contents (mem s) (leaf (mem s) r) k else None)"
        unfolding l by (rule ext; use same_frame [of p] same_frame [of c] ck c(2) in simp)+
      then show ?thesis using True p c(1,2) by (auto simp: memories_def)
    next
      case False
      then show ?thesis using memories_other [OF ok t _ Fk, of q] by simp
    qed
  qed
  have "card (free_pages s) \<le> card (free_pages s') + 3 * card {k \<in> text_pages. leaf (mem s) r k \<noteq> 0}"
    using S unfolding mapped by blast
  then show thesis using that [OF run ok' mem' en _ more kp] by blast
qed

text \<open>A page of one process is copied for another.\<close>

lemma vmemcpy_unmapped:
  assumes "leaf m r k = 0" "k < 2 ^ 35"
  shows "vmemcpy r d (page_va k) 4096 m = Inl BadAddress"
proof -
  have lt: "page_va k < KBASE" using page_va_inside(4) [OF assms(2), of 0] by simp
  have "mmu m r (page_va k) = None"
    using assms lt by (auto simp: mmu_def leaf_def pte_of_def split: option.splits)
  then have v: "vread r m (page_va k) = None" by (simp add: vread_def)
  have "unat (4096 :: u32) = Suc 4095" by simp
  then show ?thesis unfolding vmemcpy_def by (simp only: vmemcpy_loop.simps v option.case)
qed

lemma copy_page_spaces:
  fixes s :: "'a kmm_scheme"
  assumes ok: "spaces_ok s D" and p: "D p = Some r" and c: "D c = Some d" and k: "k \<in> win" and none: "leaf (mem s) d k = 0"
    and nz: "leaf (mem s) r k \<noteq> 0"
    and room: "4 \<le> card (free_pages s)" and al: "alloc_page 1 s = (Some f, s1)"
  obtains m s' where "vmemcpy r (PAGE2VA f) (page_va k) 4096 (mem s1) = Inr m"
    "insert_page d (page_va k) (Some f) 7 (s1\<lparr>mem := m\<rparr>) = Inr (0, s')" "spaces_ok s' D"
    "memories s' D = (memories s D)(c \<mapsto> (contents (mem s) (leaf (mem s) d))(k := contents (mem s) (leaf (mem s) r) k))"
    "kmm.more s' = kmm.more s" "entries (mem s') D = set_leaf (entries (mem s) D) c k (PAGE2PA f OR 7)"
proof -
  let ?e = "leaf (mem s) r k"
  note entp = entries_leaf [of D p, OF p]
  have own: "own_space s r" "own_space s d" and mm: "mm_inv s" using ok p c by (auto simp: spaces_ok_def)
  then have inv: "pt_inv s r" "pt_inv s d" by (simp_all add: own_space_def)
  note a = alloc_page_Some [OF mm al] and br = alloc_page_space [OF inv(1) al] and bd = alloc_page_space [OF inv(2) al]
  have k35: "k < 2 ^ 35" by (rule win_35 [OF k])
  note va = page_va_facts [OF k35]
  have l1: "leaf (mem s1) r k = ?e" using br(5) [OF va(2)] by (simp add: leaf_def)
  have "entries (mem s) D p k \<noteq> 0" using nz by (simp add: entp)
  note mf = mapped_frame [OF ok this, unfolded entp]
  let ?g = "frame_of ?e"
  have gf: "?g \<noteq> f" using mf(2) a(1) by auto
  have e1: "pte_of (mem s1) r (page_va k) = ?e" using l1 k35 by (simp add: leaf_def)
  define m where m: "m = memcpy (mem s1) (PAGE2VA f) (PAGE2VA ?g) 4096"
  have cp: "vmemcpy r (PAGE2VA f) (page_va k) 4096 (mem s1) = Inr m"
    using copy_user_page [OF br(1) k35 e1 mf(6) br(4)] br(2,3) mf(1) gf by (simp add: m)
  let ?s2 = "s1\<lparr>mem := m\<rparr>"
  have k2: "keeps (mem s) (mem ?s2) {f}"
    unfolding keeps_def m using br(4,6) mf(1) gf by (simp add: memcpy_page(2))
  have mm2: "mm_inv ?s2" "length (pages ?s2) = length (pages s)" "free_pages ?s2 = free_pages s - {f}"
    "page_refs ?s2 = (page_refs s)(f := 1)"
    using a page_refs_alloc [OF mm al] by simp_all
  have "tables s d \<inter> {f} = {}" "tables s d \<inter> free_pages ?s2 = {}" using bd(3) tables_not_free [OF inv(2)] mm2(3) by auto
  note kept = space_kept [OF inv(2) mm2(1,2) k2 this]
  have room2: "3 \<le> card (free_pages ?s2)" using a(1) room unfolding mm2(3) by simp
  obtain s3 where full: "insert_page d (page_va k) (Some f) 7 ?s2 = Inr (0, s3)" "pt_inv s3 d"
    "tables s3 d = tables ?s2 d \<union> (free_pages ?s2 - free_pages s3)"
    "\<And>va'. user_va va' \<Longrightarrow> pte_of (mem s3) d va' = (if vpn va' = vpn (page_va k) then PAGE2PA f OR 7 else pte_of (mem ?s2) d va')"
    "free_pages s3 \<subseteq> free_pages ?s2"
    "\<And>q. page_refs s3 q = (if q \<in> free_pages ?s2 - free_pages s3 then 1 else page_refs ?s2 q)"
    "\<And>f i. f \<notin> free_pages ?s2 \<Longrightarrow> f \<notin> tables ?s2 d \<Longrightarrow> f < 2 ^ 18 \<Longrightarrow> i < 512 \<Longrightarrow>
      load64 (mem s3) (PAGE2VA f + 8 * i) = load64 (mem ?s2) (PAGE2VA f + 8 * i)"
    "length (pages s3) = length (pages ?s2)" "kmm.more s3 = kmm.more ?s2" "kpgdir s3 = kpgdir ?s2"
    by (rule insert_page_full [OF kept(1) va(2) room2]) (rule that; assumption)
  define s' where s': "s' = s3"
  have "confined (mem s) d" using own by (simp add: own_space_def)
  from insert_page_confined [OF kept(1) win_va [OF k] room2 kept(4) [OF this] full(1)] have conf: "confined (mem s') d" unfolding s' .
  have tab: "tables s' d = tables s d \<union> (free_pages ?s2 - free_pages s')" using full(3) kept(2) by (simp add: s')
  have k3: "keeps m (mem s') (free_pages ?s2 \<union> tables s d)" using full(7) kept(2) by (simp add: keeps_def s')
  have sub: "tables s d \<subseteq> kernel_frames s D {}" using kernel_frames_all(2) [of D c, OF c] .
  have f_k: "f \<notin> kernel_frames s D P" for P using kernel_frames_used(2) [OF ok, of f P] a(1) by blast
  have refs: "page_refs s' q = (if q \<in> free_pages s - free_pages s' then 1 else page_refs s q)" for q
    using full(5) [unfolded mm2(3)] a(1) unfolding s' full(6) mm2(3,4) by auto
  have len: "length (pages s') = length (pages s)" and kp: "kpgdir s' = kpgdir s" and more: "kmm.more s' = kmm.more s"
    using full(8-10) a by (simp_all add: s')
  have t: "touches s s' D D {c} (free_pages s \<union> tables s d)"
    unfolding touches_def
  proof (intro conjI)
    show "mm_inv s'" using pt_inv_mm [OF full(2)] by (simp add: s')
    show "keeps (mem s) (mem s') (free_pages s \<union> tables s d)"
      by (rule keeps_trans [of "mem s" m "{f}" "mem s'" "free_pages ?s2 \<union> tables s d"])
        (use k2 k3 a(1) mm2(3) in auto)
    have "tables s d \<inter> kernel_frames s D {c} = {}" using own_apart [of s D c d "{c}"] ok c by simp
    then show "(free_pages s \<union> tables s d) \<inter> kernel_frames s D {c} = {}"
      using kernel_frames_used(2) [OF ok, of _ "{c}"] by blast
    show "\<forall>q \<in> kernel_frames s D {c}. page_refs s' q = page_refs s q"
      using refs kernel_frames_used(2) [OF ok, of _ "{c}"] by auto
  qed (use len kp in simp_all)
  have pte: "pte_of (mem s') d va = (if vpn va = of_nat k then PAGE2PA f OR 7 else pte_of (mem s) d va)" if "user_va va" for va
    using full(4) [OF that] kept(3) [OF that] va(1) by (simp add: s')
  have ft: "f \<notin> tables s' d" "page_refs s' f = 1"
    using tab bd(3) mm2(3) refs a(1) full(5) by (auto simp: s')
  have r1: "\<forall>q \<in> tables s' d. page_refs s' q = 1"
    using tab refs own mm2(3) by (auto simp: own_space_def)
  have tsub: "tables s' d \<subseteq> tables s d \<union> free_pages s" using tab mm2(3) by auto
  have c': "page_refs s' q = (if leaf (mem s) d k \<noteq> 0 \<and> q = frame_of (leaf (mem s) d k) then page_refs s q - 1 else page_refs s q)"
    if "q \<noteq> f" "page_refs s q \<noteq> 0" for q
    using refs that free_no_refs [of q s] none by auto
  have inv': "pt_inv s' d" using full(2) by (simp add: s')
  have fe: "frame_of (PAGE2PA f OR 7) = f" by (rule frame_of_entry [OF br(4)]) simp
  note set = spaces_set_page [OF ok c k t order_refl inv' conf tsub r1 pte entry_7 fe a(1) ft c']
  have "page_bytes (mem s') f = page_bytes (mem s) ?g"
  proof -
    have "page_bytes (mem s') f = page_bytes m f"
      using mm2(3) bd(3) by (intro page_bytes_keeps [OF k3 br(4)]) simp
    also have "\<dots> = page_bytes (mem s1) ?g" unfolding m by (rule page_bytes_memcpy(1) [OF mf(1) br(4) gf])
    also have "\<dots> = page_bytes (mem s) ?g" using br(6) mf(1) gf by (intro page_bytes_load64) simp
    finally show ?thesis .
  qed
  then have "memories s' D = (memories s D)(c \<mapsto> (contents (mem s) (leaf (mem s) d))(k := contents (mem s) (leaf (mem s) r) k))"
    using set(3) nz by (simp add: contents_def [of "mem s" "leaf (mem s) r"])
  then show thesis using that [OF cp _ set(1) _ more set(2)] full(1) by (simp add: s')
qed

section \<open>The end of a process\<close>

lemma destroy_spaces:
  fixes s :: "('d, 'a) kproc_scheme"
  assumes ok: "spaces_ok s D" and p: "D p = Some r" "p < length (procs s)" "pgdir (procs s ! p) = r"
  shows "\<exists>s'. destroy_vm p s = Inr s' \<and> spaces_ok s' (D(p := None)) \<and> memories s' (D(p := None)) = (memories s D)(p := None)
    \<and> kmm.more s' = kmm.more (upd_proc p (\<lambda>pr. pr\<lparr>pgdir := 0\<rparr>) s)"
proof -
  let ?D = "D(p := None)"
  note entp = entries_leaf [of D p, OF p(1)]
  have own: "own_space s r" and mm: "mm_inv s" and sh: "sharing_ok (entries (mem s) D) (page_refs s) (kernel_frames s D {})"
    using ok p(1) by (auto simp: spaces_ok_def)
  then have inv: "pt_inv s r" and conf: "confined (mem s) r" and one: "\<forall>q \<in> tables s r. page_refs s q = 1"
    by (simp_all add: own_space_def)
  obtain f where f: "f < 2 ^ 18" "r = PAGE2VA f" by (rule pt_inv_node [OF inv upath_Nil]) simp
  have mapped: "mapped s r 0x80000 user_pages = {k. entries (mem s) D p k \<noteq> 0}"
  proof -
    have "k \<in> win" "k < 2 ^ 35" if "entries (mem s) D p k \<noteq> 0" for k using mapped_frame(5) [OF ok that] win_35 by auto
    then show ?thesis unfolding entp by (auto simp: mapped_def user_pages_eq win_def leaf_def)
  qed
  have sharers: "sharers s r 0x80000 user_pages q = {k. entries (mem s) D p k \<noteq> 0 \<and> frame_of (entries (mem s) D p k) = q}" for q
  proof -
    have "pte_of (mem s) r (page_va k) = entries (mem s) D p k" if "entries (mem s) D p k \<noteq> 0" for k
      using that unfolding entp by (simp add: leaf_def split: if_splits)
    then show ?thesis unfolding sharers_def mapped by auto
  qed
  have sub: "tables s r \<subseteq> kernel_frames s D {}" using kernel_frames_all(2) [of D p, OF p(1)] .
  have count: "int (card {k. entries (mem s) D p k \<noteq> 0 \<and> frame_of (entries (mem s) D p k) = q}) \<le> page_refs s q" for q
  proof (cases "{k. entries (mem s) D p k \<noteq> 0 \<and> frame_of (entries (mem s) D p k) = q} = {}")
    case True
    have "0 \<le> page_refs s q" using mm by (simp add: page_refs_def mm_inv_def)
    then show ?thesis unfolding True by simp
  next
    case False
    let ?V = "{k. entries (mem s) D p k \<noteq> 0 \<and> frame_of (entries (mem s) D p k) = q}"
    have s: "Pair p ` ?V \<subseteq> holders (entries (mem s) D) q" by (auto simp: holders_def)
    have "card ?V = card (Pair p ` ?V)" by (rule card_image [symmetric]) (simp add: inj_on_def)
    also have "\<dots> \<le> card (holders (entries (mem s) D) q)" by (rule card_mono [OF sharing_finite [OF sh] s])
    finally have "int (card ?V) \<le> int (card (holders (entries (mem s) D) q))" by simp
    moreover have "holders (entries (mem s) D) q \<noteq> {}" using s False by auto
    ultimately show ?thesis using sharing_count [OF sh] by simp
  qed
  have plain: "plain_leaves s r 0x80000 user_pages"
    unfolding plain_leaves_def mapped sharers
  proof (intro conjI ballI allI)
    fix k assume k: "k \<in> {k. entries (mem s) D p k \<noteq> 0}"
    then have e: "pte_of (mem s) r (page_va k) = entries (mem s) D p k" unfolding entp by (auto simp: leaf_def split: if_splits)
    show "pte_of (mem s) r (page_va k) AND 1 \<noteq> 0" "frame_of (pte_of (mem s) r (page_va k)) \<notin> tables s r"
      using mapped_frame(3,6) [OF ok, of p k] k sub unfolding e by auto
  qed (rule count)
  obtain s' where s': "destroy_vm p s = Inr s'" "mm_inv s'"
    "\<And>q. page_refs s' q = (if q \<in> tables s r then 0
        else page_refs s q - int (card {k. entries (mem s) D p k \<noteq> 0 \<and> frame_of (entries (mem s) D p k) = q}))"
    "keeps (mem s) (mem s') (tables s r)" "length (pages s') = length (pages s)" "kpgdir s' = kpgdir s"
    "kmm.more s' = kmm.more (upd_proc p (\<lambda>pr. pr\<lparr>pgdir := 0\<rparr>) s)"
    using destroy_vm_full [OF p(2) p(3) [unfolded f(2)] f(1) inv [unfolded f(2)] conf [unfolded f(2)] plain [unfolded f(2)]
        one [unfolded f(2)]]
    unfolding f(2) [symmetric] sharers by blast
  have none: "{k. entries (mem s) D p k \<noteq> 0 \<and> frame_of (entries (mem s) D p k) = q} = {}" if "q \<in> kernel_frames s D {}" for q
    using mapped_frame(3) [OF ok, of p] that by blast
  have apart: "tables s r \<inter> kernel_frames s D {p} = {}" using own_apart [of s D p r "{p}"] ok p by simp
  have t: "touches s s' D ?D {p} (tables s r)"
    unfolding touches_def
  proof (intro conjI)
    show "\<forall>q \<in> kernel_frames s D {p}. page_refs s' q = page_refs s q"
    proof
      fix q assume q: "q \<in> kernel_frames s D {p}"
      then have "q \<in> kernel_frames s D {}" "q \<notin> tables s r" using kernel_frames_all(1) [of s D "{p}"] apart by blast+
      then show "page_refs s' q = page_refs s q" using s'(3) [of q] none [of q] by simp
    qed
  qed (use s' apart in simp_all)
  have en: "entries (mem s') ?D = (entries (mem s) D)(p := \<lambda>k. 0)"
  proof (rule ext)
    fix q
    show "entries (mem s') ?D q = ((entries (mem s) D)(p := \<lambda>k. 0)) q"
      using touches_other(1) [OF ok t, of q] by (cases "q = p") (simp_all add: entries_def)
  qed
  have fr: "kernel_frames s' ?D {} = kernel_frames s D {p}" unfolding touches_frames [OF ok t] by auto
  have ok': "spaces_ok s' ?D"
  proof (rule touches_ok [OF ok t])
    show "sharing_ok (entries (mem s') ?D) (page_refs s') (kernel_frames s' ?D {})"
      unfolding en fr
    proof (rule sharing_exit [OF sh kernel_frames_all(1)])
      fix q assume "q \<notin> kernel_frames s D {}"
      then have "q \<notin> tables s r" using sub by blast
      then show "page_refs s' q = page_refs s q - int (card {k. entries (mem s) D p k \<noteq> 0 \<and> frame_of (entries (mem s) D p k) = q})"
        using s'(3) [of q] by simp
    qed
  qed auto
  have "memories s' ?D = (memories s D)(p := None)"
  proof (rule ext)
    fix q
    show "memories s' ?D q = ((memories s D)(p := None)) q"
    proof (cases "q = p")
      case False
      then show ?thesis using memories_other [OF ok t, of q] sub by auto
    qed (simp add: memories_def)
  qed
  then show ?thesis using s'(1,7) ok' by blast
qed

end
