(* ===== verification/System.thy ===== *)
theory System
  imports Spaces
begin

text \<open>
  The invariant of the process table and the address spaces together, kept by the scheduler, by \<open>sys_exit\<close> and
  by \<open>sys_fork\<close>, with what they make of the memories: a process leaves, or a copy of one appears.
\<close>

section \<open>The system\<close>

definition directories_of :: "('d, 'a) kproc_scheme \<Rightarrow> directories" where
  "directories_of s p = (if p < length (procs s) \<and> pgdir (procs s ! p) \<noteq> 0 then Some (pgdir (procs s ! p)) else None)"

text \<open>
  The spaces of the processes are in order, the slots of the table that have one are among the ten of the table and know
  their number, a runnable process has a space, the slots on the free list have none, and the processor uses the
  space of the current process.
\<close>

definition system_ok :: "('d, 'a) kproc_scheme \<Rightarrow> bool" where
  "system_ok s \<longleftrightarrow> spaces_ok s (directories_of s) \<and> 10 < length (procs s)
     \<and> (\<forall>p < length (procs s). pgdir (procs s ! p) \<noteq> 0 \<longrightarrow> p < 10 \<and> pid (procs s ! p) = of_nat p)
     \<and> (\<forall>p < length (procs s). status (procs s ! p) = RUNNABLE \<longrightarrow> pgdir (procs s ! p) \<noteq> 0)
     \<and> (\<exists>xs. free_procs s xs \<and> (\<forall>x \<in> set xs. x < 10 \<and> pgdir (procs s ! x) = 0))
     \<and> (\<forall>c. current s = Some c \<longrightarrow> c < length (procs s) \<and> pgdir (procs s ! c) \<noteq> 0 \<and> cpu_root s = pgdir (procs s ! c))"

definition system_memories :: "('d, 'a) kproc_scheme \<Rightarrow> nat \<Rightarrow> space option" where
  "system_memories s = memories s (directories_of s)"

lemma spaces_ok_cong:
  assumes "pages s = pages t" "phead s = phead t" "npages s = npages t" "mem s = mem t" "kpgdir s = kpgdir t"
  shows "spaces_ok s D = spaces_ok t D" and "memories s D = memories t D"
proof -
  note mm = mm_cong [OF assms(1-3)] and sp = space_cong [OF assms(1-4)]
  have "kernel_frames s D {} = kernel_frames t D {}" by (simp add: kernel_frames_def sp assms(5))
  moreover have "own_space s r = own_space t r" for r by (simp add: own_space_def sp mm assms(4,5))
  moreover have "kernel_root s = kernel_root t" by (simp add: kernel_root_def mm assms)
  ultimately show "spaces_ok s D = spaces_ok t D" by (simp add: spaces_ok_def mm sp assms(4))
  show "memories s D = memories t D" by (simp add: memories_def assms(4) fun_eq_iff)
qed

text \<open>What of a process the invariant looks at.\<close>

definition proc_key :: "proc \<Rightarrow> u64 \<times> u32 \<times> nat option" where
  "proc_key p = (pgdir p, pid p, proc_link p)"

lemma system_ok_cong:
  fixes s t :: "('d, 'a) kproc_scheme"
  assumes ok: "system_ok s" and sp: "spaces_ok t (directories_of s)"
    and pr: "map proc_key (procs t) = map proc_key (procs s)"
    and st: "\<And>i. i < length (procs s) \<Longrightarrow> status (procs t ! i) = RUNNABLE \<Longrightarrow> status (procs s ! i) = RUNNABLE \<or> pgdir (procs s ! i) \<noteq> 0"
    and cur: "current t = None \<or> current t = current s \<and> cr3 t = cr3 s" and hd: "proc_head t = proc_head s"
  shows "system_ok t" and "directories_of t = directories_of s"
proof -
  have len: "length (procs t) = length (procs s)" using pr by (metis length_map)
  have key: "pgdir (procs t ! i) = pgdir (procs s ! i)" "pid (procs t ! i) = pid (procs s ! i)" "proc_link (procs t ! i) = proc_link (procs s ! i)"
    if i: "i < length (procs s)" for i
    using arg_cong [OF pr, of "\<lambda>l. l ! i"] i len by (simp_all add: proc_key_def)
  show d: "directories_of t = directories_of s" using key len by (auto simp: directories_of_def fun_eq_iff)
  obtain xs where xs: "free_procs s xs" "\<forall>x \<in> set xs. x < 10 \<and> pgdir (procs s ! x) = 0"
    using ok by (auto simp: system_ok_def)
  have in_len: "x < length (procs s)" if "x \<in> set xs" for x using xs(1) that by (auto simp: free_procs_def)
  have "chain (\<lambda>i. proc_link (procs t ! i)) (proc_head s) xs = chain (\<lambda>i. proc_link (procs s ! i)) (proc_head s) xs"
    using key(3) in_len by (intro chain_cong) simp
  then have fp: "free_procs t xs" "\<forall>x \<in> set xs. x < 10 \<and> pgdir (procs t ! x) = 0"
    using xs hd len key(1) in_len by (simp_all add: free_procs_def)
  show "system_ok t"
    unfolding system_ok_def d len
  proof (intro conjI allI impI)
    fix p assume p: "p < length (procs s)"
    show "p < 10" "pid (procs t ! p) = of_nat p" if "pgdir (procs t ! p) \<noteq> 0"
      using that ok p unfolding key(1,2) [OF p] by (simp_all add: system_ok_def)
    show "pgdir (procs t ! p) \<noteq> 0" if "status (procs t ! p) = RUNNABLE"
      using st [OF p that] ok p unfolding key(1) [OF p] by (auto simp: system_ok_def)
  next
    fix c assume c: "current t = Some c"
    then have e: "current s = Some c" "cpu_root t = cpu_root s" using cur by (auto simp: cpu_root_def)
    then have "c < length (procs s)" "pgdir (procs s ! c) \<noteq> 0" "cpu_root s = pgdir (procs s ! c)"
      using ok by (simp_all add: system_ok_def)
    then show "c < length (procs s)" "pgdir (procs t ! c) \<noteq> 0" "cpu_root t = pgdir (procs t ! c)"
      using key(1) [of c] e(2) by simp_all
  qed (use ok sp fp in \<open>auto simp: system_ok_def\<close>)
qed

lemma system_more:
  fixes s t :: "('d, 'a) kproc_scheme"
  assumes "kmm.more t = kmm.more s"
  shows "procs t = procs s" "current t = current s" "cr3 t = cr3 s" "proc_head t = proc_head s"
  using assms by (cases s; cases t; simp)+

lemma system_ok_more:
  fixes s t :: "('d, 'a) kproc_scheme"
  assumes ok: "system_ok s" and sp: "spaces_ok t (directories_of s)" and more: "kmm.more t = kmm.more s"
  shows "system_ok t" and "directories_of t = directories_of s"
  by (rule system_ok_cong [OF ok sp]; simp add: system_more [OF more])+

lemma list_update_key: "f x = f (xs ! i) \<Longrightarrow> (map f xs)[i := f x] = map f xs"
  by (cases "i < length xs") (simp_all add: list_update_same_conv list_update_beyond)

lemma save_regs_ok:
  fixes s t :: "('d, 'a) kproc_scheme"
  assumes ok: "system_ok s" and t_def: "t = upd_proc c (\<lambda>p. p\<lparr>pregs := pt\<rparr>) s"
  shows "system_ok t" and "directories_of t = directories_of s" and "system_memories t = system_memories s"
proof -
  have sp: "spaces_ok t D = spaces_ok s D" "memories t D = memories s D" for D
    by (rule spaces_ok_cong; simp add: t_def upd_proc_def)+
  have pr: "map proc_key (procs t) = map proc_key (procs s)"
    unfolding t_def upd_proc_def by (simp add: map_update) (rule list_update_key, simp add: proc_key_def)
  have st: "status (procs t ! i) = status (procs s ! i)" if "i < length (procs s)" for i
    using that by (cases "i = c") (auto simp: t_def upd_proc_def)
  have cr: "current t = current s" "cr3 t = cr3 s" "proc_head t = proc_head s" by (simp_all add: t_def upd_proc_def)
  have spo: "spaces_ok t (directories_of s)" using ok by (simp add: sp(1) system_ok_def)
  note c = system_ok_cong [OF ok spo pr]
  show "system_ok t" by (rule c(1)) (use st cr in auto)
  show d: "directories_of t = directories_of s" by (rule c(2)) (use st cr in auto)
  show "system_memories t = system_memories s" by (simp add: system_memories_def d sp(2))
qed

section \<open>The scheduler\<close>

lemma sched_order_less: "c < 10 \<Longrightarrow> p \<in> set (sched_order c) \<Longrightarrow> p \<le> 10"
  by (auto simp: sched_order_def split: if_splits)

lemma schedule_picks:
  fixes s :: "('d, 'a) kproc_scheme"
  assumes ok: "system_ok s"
  shows "\<exists>q t. schedule s = Run q t \<or> schedule s = Idle t"
    and "schedule s = Run q s' \<or> schedule s = Idle s' \<Longrightarrow> s' = s\<lparr>current := None\<rparr> \<or> (q < length (procs s) \<and> pgdir (procs s ! q) \<noteq> 0 \<and> s' = s\<lparr>cr3 := pgdir (procs s ! q) - KBASE, current := Some q\<rparr>)"
proof -
  have picked: "p < length (procs s) \<and> pgdir (procs s ! p) \<noteq> 0"
    if "find (\<lambda>i. status (procs s ! i) = RUNNABLE) (sched_order c) = Some p" "c < 10" for c p
  proof -
    have "p \<le> 10" "status (procs s ! p) = RUNNABLE"
      using that sched_order_less [OF that(2), of p] by (auto simp: find_Some_iff in_set_conv_nth)
    then show ?thesis using ok by (auto simp: system_ok_def)
  qed
  have "\<exists>c < 10. schedule s = (case find (\<lambda>i. status (procs s ! i) = RUNNABLE) (sched_order c) of
      Some p \<Rightarrow> run_proc p s | None \<Rightarrow> Idle (s\<lparr>current := None\<rparr>))"
  proof (cases "current s")
    case None
    have o: "sched_order 0 = butlast (sched_order 0) @ [0]" by (simp add: sched_order_def butlast_append)
    have "schedule s = (case find (\<lambda>i. status (procs s ! i) = RUNNABLE) (butlast (sched_order 0) @ [0]) of
        Some p \<Rightarrow> run_proc p s | None \<Rightarrow> Idle (s\<lparr>current := None\<rparr>))"
      using sched_loop_order [of 0 "procs s"] by (simp add: schedule_def None find_append split: option.split)
    then show ?thesis using o by (intro exI [of _ 0]) simp
  next
    case (Some c)
    then have "c < 10" "pid (procs s ! c) = of_nat c" using ok by (auto simp: system_ok_def)
    then show ?thesis using schedule_order [OF Some] by blast
  qed
  then obtain c where c: "c < 10" "schedule s = (case find (\<lambda>i. status (procs s ! i) = RUNNABLE) (sched_order c) of
      Some p \<Rightarrow> run_proc p s | None \<Rightarrow> Idle (s\<lparr>current := None\<rparr>))" by blast
  show "\<exists>q t. schedule s = Run q t \<or> schedule s = Idle t" using c(2) by (auto simp: run_proc_def split: option.splits)
  assume r: "schedule s = Run q s' \<or> schedule s = Idle s'"
  then show "s' = s\<lparr>current := None\<rparr> \<or> (q < length (procs s) \<and> pgdir (procs s ! q) \<noteq> 0 \<and> s' = s\<lparr>cr3 := pgdir (procs s ! q) - KBASE, current := Some q\<rparr>)"
    using c(2) picked [OF _ c(1)] by (auto simp: run_proc_def lcr3_def split: option.splits)
qed

lemma schedule_system:
  assumes ok: "system_ok s" and r: "schedule s = Run q s' \<or> schedule s = Idle s'"
  shows "system_ok s'" and "system_memories s' = system_memories s"
proof -
  have sp: "spaces_ok s' D = spaces_ok s D" "memories s' D = memories s D" for D
    by (rule spaces_ok_cong; use schedule_picks(2) [OF ok r] in auto)+
  have e: "procs s' = procs s" "proc_head s' = proc_head s" using schedule_picks(2) [OF ok r] by auto
  have d: "directories_of s' = directories_of s" by (simp add: directories_of_def e fun_eq_iff)
  then show "system_memories s' = system_memories s" by (simp add: system_memories_def sp(2))
  have fp: "free_procs s' xs = free_procs s xs" for xs by (simp add: free_procs_def e)
  have "current s' = Some c \<Longrightarrow> c < length (procs s) \<and> pgdir (procs s ! c) \<noteq> 0 \<and> cpu_root s' = pgdir (procs s ! c)" for c
    using schedule_picks(2) [OF ok r] by (auto simp: cpu_root_def)
  then show "system_ok s'" using ok unfolding system_ok_def by (simp add: sp(1) d e fp)
qed

section \<open>Open files do not matter\<close>

definition files_only :: "('d, 'a) kproc_scheme \<Rightarrow> ('d, 'a) kproc_scheme \<Rightarrow> bool" where
  "files_only s t \<longleftrightarrow> (\<exists>ps ft. t = s\<lparr>procs := ps, filetable := ft\<rparr>
     \<and> map (\<lambda>p. p\<lparr>fdtable := []\<rparr>) ps = map (\<lambda>p. p\<lparr>fdtable := []\<rparr>) (procs s))"

lemma files_only_refl: "files_only s s"
  unfolding files_only_def by (intro exI [of _ "procs s"] exI [of _ "filetable s"]) simp

lemma files_only_trans: "files_only s t \<Longrightarrow> files_only t u \<Longrightarrow> files_only s u"
  unfolding files_only_def by fastforce

lemma files_only_fds: "files_only s (upd_proc p (\<lambda>pr. pr\<lparr>fdtable := f pr\<rparr>) s)"
  unfolding files_only_def upd_proc_def
  by (intro exI [of _ "(procs s)[p := (procs s ! p)\<lparr>fdtable := f (procs s ! p)\<rparr>]"] exI [of _ "filetable s"] conjI, simp)
    (simp only: map_update, rule list_update_key, simp)

lemma files_only_table: "files_only s (s\<lparr>filetable := ft\<rparr>)"
  unfolding files_only_def by (intro exI [of _ "procs s"] exI [of _ ft]) simp

lemma release_files_only: "files_only s (release_files p i n s)"
proof (induction n arbitrary: i s)
  case (Suc n)
  have tab: "files_only s (release_files p j n (s\<lparr>filetable := ft\<rparr>))" for j ft
    by (rule files_only_trans [OF files_only_table Suc.IH])
  have both: "files_only s (release_files p j n (upd_proc q (\<lambda>pr. pr\<lparr>fdtable := f pr\<rparr>) (s\<lparr>filetable := ft\<rparr>)))" for j q f ft
    by (rule files_only_trans [OF files_only_trans [OF files_only_table files_only_fds] Suc.IH])
  show ?case using Suc.IH tab both by (auto simp: Let_def split: option.split)
qed (simp add: files_only_refl)

lemma fork_files_only: "files_only s (fork_files c p i n s)"
proof (induction n arbitrary: i s)
  case (Suc n)
  have both: "files_only s (fork_files c p j n ((upd_proc q (\<lambda>pr. pr\<lparr>fdtable := f pr\<rparr>) s)\<lparr>filetable := ft\<rparr>))" for j q f ft
    by (rule files_only_trans [OF files_only_trans [OF files_only_fds files_only_table] Suc.IH])
  show ?case using Suc.IH both by (auto simp: Let_def split: option.split)
qed (simp add: files_only_refl)

lemma files_only_facts:
  assumes "files_only s t"
  shows "map proc_key (procs t) = map proc_key (procs s)" "length (procs t) = length (procs s)"
    "i < length (procs s) \<Longrightarrow> status (procs t ! i) = status (procs s ! i)"
    "current t = current s" "cr3 t = cr3 s" "proc_head t = proc_head s"
    "spaces_ok t D = spaces_ok s D" "memories t D = memories s D" "mem t = mem s"
proof -
  obtain ps ft where t: "t = s\<lparr>procs := ps, filetable := ft\<rparr>"
    "map (\<lambda>p. p\<lparr>fdtable := []\<rparr>) ps = map (\<lambda>p. p\<lparr>fdtable := []\<rparr>) (procs s)"
    using assms by (auto simp: files_only_def)
  show len: "length (procs t) = length (procs s)" using arg_cong [OF t(2), of length] by (simp add: t(1))
  have e: "(ps ! i)\<lparr>fdtable := []\<rparr> = (procs s ! i)\<lparr>fdtable := []\<rparr>" if "i < length (procs s)" for i
    using arg_cong [OF t(2), of "\<lambda>l. l ! i"] that len by (simp add: t(1))
  have k: "proc_key (ps ! i) = proc_key (procs s ! i)" "status (ps ! i) = status (procs s ! i)" if "i < length (procs s)" for i
    using e [OF that] by (cases "ps ! i"; cases "procs s ! i"; simp add: proc_key_def)+
  show "map proc_key (procs t) = map proc_key (procs s)"
    by (rule nth_equalityI) (use k len in \<open>auto simp: t(1)\<close>)
  show "i < length (procs s) \<Longrightarrow> status (procs t ! i) = status (procs s ! i)" using k by (simp add: t(1))
  show "current t = current s" "cr3 t = cr3 s" "proc_head t = proc_head s" "mem t = mem s" by (simp_all add: t(1))
  show "spaces_ok t D = spaces_ok s D" "memories t D = memories s D" by (rule spaces_ok_cong; simp add: t(1))+
qed

text \<open>The state an activation leaves behind, if it does not crash.\<close>

fun left_in :: "('r, 's) kres \<Rightarrow> 's option" where
  "left_in (Ret r s) = Some s"
| "left_in (Run p s) = Some s"
| "left_in (Idle s) = Some s"
| "left_in (Crash e) = None"

lemma left_in_bind: "left_in (bindK m (\<lambda>r s. Ret (f r) s)) = left_in m"
  by (cases m) simp_all

lemma schedule_left:
  assumes "left_in (schedule s) = Some s'"
  obtains q where "schedule s = Run q s' \<or> schedule s = Idle s'"
proof -
  have "\<nexists>r t. schedule s = Ret r t" by (auto simp: schedule_def run_proc_def Let_def split: option.splits)
  then show thesis using assms that by (cases "schedule s") auto
qed

section \<open>Exit\<close>

lemma free_procs_cong:
  assumes "map proc_link (procs t) = map proc_link (procs s)" "proc_head t = proc_head s"
  shows "free_procs t xs = free_procs s xs"
proof -
  have len: "length (procs t) = length (procs s)" using assms(1) by (metis length_map)
  have l: "proc_link (procs t ! i) = proc_link (procs s ! i)" if "i < length (procs s)" for i
    using arg_cong [OF assms(1), of "\<lambda>l. l ! i"] that len by simp
  have "chain (\<lambda>i. proc_link (procs t ! i)) q xs = chain (\<lambda>i. proc_link (procs s ! i)) q xs" if "set xs \<subseteq> {..<length (procs s)}" for q
    using that l by (intro chain_cong) auto
  then show ?thesis using assms(2) len by (auto simp: free_procs_def)
qed

lemma exit_system:
  fixes s :: "('d, 'a) kproc_scheme"
  assumes ok: "system_ok s" and c: "current s = Some c"
  shows "\<exists>q s'. (sys_exit s = Run q s' \<or> sys_exit s = Idle s') \<and> system_ok s' \<and> system_memories s' = (system_memories s)(c := None)"
proof -
  let ?D = "directories_of s"
  have sp: "spaces_ok s ?D" and cl: "c < length (procs s)" "pgdir (procs s ! c) \<noteq> 0"
    using ok c by (simp_all add: system_ok_def)
  have Dc: "?D c = Some (pgdir (procs s ! c))" using cl by (simp add: directories_of_def)
  obtain s1 where s1: "destroy_vm c s = Inr s1" "spaces_ok s1 (?D(c := None))"
    "memories s1 (?D(c := None)) = (memories s ?D)(c := None)"
    "kmm.more s1 = kmm.more (upd_proc c (\<lambda>pr. pr\<lparr>pgdir := 0\<rparr>) s)"
    using destroy_spaces [OF sp Dc cl(1) refl] by blast
  note m1 = system_more [OF s1(4)]
  have p1: "procs s1 = (procs s)[c := (procs s ! c)\<lparr>pgdir := 0\<rparr>]" "current s1 = Some c" "proc_head s1 = proc_head s"
    using m1 c by (simp_all add: upd_proc_def)
  define s2 where "s2 = release_files c 0 32 s1"
  note f2 = files_only_facts [OF release_files_only [of s1 c 0 32, folded s2_def]]
  define s3 where "s3 = free_proc c s2"
  define s4 where "s4 = upd_proc c (\<lambda>q. q\<lparr>status := STOP\<rparr>) s3"
  define s5 where "s5 = s4\<lparr>current := None\<rparr>"
  have cur4: "current s4 = Some c" using f2(4) p1(2) by (simp add: s4_def s3_def free_proc_def upd_proc_def)
  have "destroy_proc (Some c) s = schedule s5"
    using s1(1) cur4 by (simp add: destroy_proc_def s2_def s3_def s4_def s5_def Let_def)
  then have run: "sys_exit s = bindK (schedule s5) (\<lambda>_ s1. Ret 0 s1)" by (simp add: sys_exit_def c)
  have len: "length (procs s2) = length (procs s)" using f2(2) p1(1) by simp
  have key2: "proc_key (procs s2 ! i) = proc_key (procs s1 ! i)" if "i < length (procs s)" for i
    using arg_cong [OF f2(1), of "\<lambda>l. l ! i"] that len p1(1) by simp
  have pr5: "procs s5 = (procs s2)[c := (procs s2 ! c)\<lparr>proc_link := proc_head s2, status := STOP\<rparr>]"
    using cl(1) len by (simp add: s5_def s4_def s3_def free_proc_def upd_proc_def)
  have len5: "length (procs s5) = length (procs s)" by (simp add: pr5 len)
  have at: "pgdir (procs s5 ! i) = (if i = c then 0 else pgdir (procs s ! i))"
    "i \<noteq> c \<Longrightarrow> pid (procs s5 ! i) = pid (procs s ! i)"
    "status (procs s5 ! i) = (if i = c then STOP else status (procs s ! i))"
    if i: "i < length (procs s)" for i
    using key2 [OF i] f2(3) [of i] i cl(1) len p1(1) by (auto simp: pr5 proc_key_def nth_list_update)
  have d5: "directories_of s5 = ?D(c := None)"
    using at(1) cl by (auto simp: directories_of_def len5 fun_eq_iff split: if_splits)
  have sp5: "spaces_ok s5 D = spaces_ok s1 D" "memories s5 D = memories s1 D" for D
  proof -
    have "spaces_ok s5 D = spaces_ok s2 D" "memories s5 D = memories s2 D"
      by (rule spaces_ok_cong; simp add: s5_def s4_def s3_def free_proc_def upd_proc_def)+
    then show "spaces_ok s5 D = spaces_ok s1 D" "memories s5 D = memories s1 D" using f2(7,8) by simp_all
  qed
  obtain xs where xs: "free_procs s xs" "\<forall>x \<in> set xs. x < 10 \<and> pgdir (procs s ! x) = 0"
    using ok by (auto simp: system_ok_def)
  have cx: "c \<notin> set xs" using xs(2) cl(2) by auto
  have "map proc_link (procs s2) = map proc_link (procs s)"
  proof (rule nth_equalityI)
    fix i assume "i < length (map proc_link (procs s2))"
    then show "map proc_link (procs s2) ! i = map proc_link (procs s) ! i"
      using key2 [of i] len p1(1) by (cases "i = c") (auto simp: proc_key_def)
  qed (simp add: len)
  moreover have "proc_head s2 = proc_head s" using f2(6) p1(3) by simp
  ultimately have "free_procs s2 xs" using xs(1) free_procs_cong by blast
  then have "free_procs s3 (c # xs)" unfolding s3_def using cl(1) len cx by (intro free_proc_puts) simp_all
  moreover have "map proc_link (procs s5) = map proc_link (procs s3)" "proc_head s5 = proc_head s3"
    by (simp add: s5_def s4_def upd_proc_def map_update, rule list_update_key, simp)
      (simp add: s5_def s4_def upd_proc_def)
  ultimately have fp: "free_procs s5 (c # xs)" using free_procs_cong by blast
  have ok5: "system_ok s5"
    unfolding system_ok_def d5 sp5(1)
  proof (intro conjI allI impI)
    show "10 < length (procs s5)" using ok by (simp add: len5 system_ok_def)
    fix p assume "p < length (procs s5)"
    then have p: "p < length (procs s)" by (simp add: len5)
    show "p < 10" "pid (procs s5 ! p) = of_nat p" if "pgdir (procs s5 ! p) \<noteq> 0"
      using that at [OF p] ok p by (auto simp: system_ok_def split: if_splits)
    show "pgdir (procs s5 ! p) \<noteq> 0" if "status (procs s5 ! p) = RUNNABLE"
      using that at [OF p] ok p by (auto simp: system_ok_def split: if_splits)
  next
    have "\<forall>x \<in> set (c # xs). x < 10 \<and> pgdir (procs s5 ! x) = 0"
    proof
      fix x assume x: "x \<in> set (c # xs)"
      have "x < length (procs s)" using fp x len5 by (auto simp: free_procs_def)
      moreover have "c < 10" using ok cl by (simp add: system_ok_def)
      ultimately show "x < 10 \<and> pgdir (procs s5 ! x) = 0" using x xs(2) at(1) by auto
    qed
    then show "\<exists>ys. free_procs s5 ys \<and> (\<forall>x \<in> set ys. x < 10 \<and> pgdir (procs s5 ! x) = 0)" using fp by blast
  qed (use s1(2) in \<open>simp_all add: s5_def\<close>)
  obtain q s' where run5: "schedule s5 = Run q s' \<or> schedule s5 = Idle s'" using schedule_picks(1) [OF ok5] by blast
  have "system_memories s' = system_memories s5" by (rule schedule_system(2) [OF ok5 run5])
  then have "system_memories s' = (system_memories s)(c := None)"
    by (simp add: system_memories_def d5 sp5(2) s1(3))
  then show ?thesis using schedule_system(1) [OF ok5 run5] run5 run by (intro exI [of _ q] exI [of _ s']) auto
qed

section \<open>Fork\<close>

lemma stack_page: "USTACKTOP - 4096 = page_va 0x8FFFE" "0x8FFFE \<in> win" "win = insert 0x8FFFE text_pages"
  by (auto simp: USTACKTOP_def page_va_def win_def text_pages_def)

lemma flags_7: "PTE_U OR PTE_W OR PTE_P = 7"
  by (simp add: PTE_U_def PTE_P_def PTE_W_def)

lemma fork_system:
  fixes s :: "('d, 'a) kproc_scheme"
  assumes ok: "system_ok s" and c: "current s = Some c"
    and room: "3 * card {k \<in> text_pages. leaf (mem s) (pgdir (procs s ! c)) k \<noteq> 0} + 5 \<le> card (free_pages s)"
    and slot: "proc_head s \<noteq> None"
  shows "leaf (mem s) (pgdir (procs s ! c)) 0x8FFFE = 0 \<Longrightarrow> sys_fork s = Inl BadAddress"
    and "leaf (mem s) (pgdir (procs s ! c)) 0x8FFFE \<noteq> 0 \<Longrightarrow> \<exists>p s'. sys_fork s = Inr (int p, s') \<and> system_memories s p = None
      \<and> system_ok s' \<and> system_memories s' = (system_memories s)(p := system_memories s c) \<and> current s' = current s \<and> p \<noteq> c
      \<and> (\<forall>k \<in> text_pages. entries (mem s') (directories_of s') p k = entries (mem s') (directories_of s') c k)"
proof -
  let ?D = "directories_of s" and ?r = "pgdir (procs s ! c)"
  have sp: "spaces_ok s ?D" and cl: "c < length (procs s)" "?r \<noteq> 0" "cpu_root s = ?r"
    using ok c by (simp_all add: system_ok_def)
  have Dc: "?D c = Some ?r" using cl by (simp add: directories_of_def)
  obtain ys where ys: "free_procs s ys" "\<forall>x \<in> set ys. x < 10 \<and> pgdir (procs s ! x) = 0"
    using ok by (auto simp: system_ok_def)
  have "ys \<noteq> []" using slot ys(1) by (auto simp: free_procs_def)
  then obtain p xs where px: "ys = p # xs" by (cases ys) auto
  have pl: "p < length (procs s)" "p < 10" "pgdir (procs s ! p) = 0" "p \<noteq> c" using ys px cl(2) by (auto simp: free_procs_def)
  have Dp: "?D p = None" using pl by (simp add: directories_of_def)
  define s1 where "s1 = s\<lparr>procs := (procs s)[p := new_proc p], proc_head := proc_link (procs s ! p)\<rparr>"
  note al = alloc_proc_takes [OF ys(1) [unfolded px], folded s1_def]
  have c1: "current s1 = Some c" using c by (simp add: s1_def)
  define s2 where "s2 = upd_proc p (\<lambda>pr. pr\<lparr>pregs := (pregs (procs s1 ! c))\<lparr>rax := 0\<rparr>\<rparr>) s1"
  have p2: "procs s2 = (procs s)[p := (new_proc p)\<lparr>pregs := (pregs (procs s1 ! c))\<lparr>rax := 0\<rparr>\<rparr>]" "current s2 = Some c"
    "proc_head s2 = proc_head s1" "cr3 s2 = cr3 s" "kpgdir s2 = kpgdir s" "free_pages s2 = free_pages s" "mem s2 = mem s"
    using pl(1) c by (simp_all add: s2_def s1_def upd_proc_def free_pages_def)
  have sp2: "spaces_ok s2 D = spaces_ok s D" "memories s2 D = memories s D" for D
    by (rule spaces_ok_cong; simp add: s2_def s1_def upd_proc_def)+
  have ok2: "spaces_ok s2 ?D" using sp sp2(1) by simp
  have ne: "free_pages s2 \<noteq> {}" using room p2(6) by auto
  obtain f s3 where s3: "alloc_vm (kpgdir s2) s2 = (PAGE2VA f, s3)" "f < 2 ^ 18" "f \<in> free_pages s2"
    "free_pages s3 = free_pages s2 - {f}" "spaces_ok s3 (?D(p \<mapsto> PAGE2VA f))"
    "memories s3 (?D(p \<mapsto> PAGE2VA f)) = (memories s2 ?D)(p \<mapsto> (\<lambda>k. None))"
    "entries (mem s3) (?D(p \<mapsto> PAGE2VA f)) = entries (mem s2) ?D" "kmm.more s3 = kmm.more s2"
    by (rule new_space_spaces [OF ok2 Dp ne]) (rule that; assumption)
  let ?d = "PAGE2VA f" and ?E = "?D(p \<mapsto> PAGE2VA f)"
  have d0: "?d \<noteq> 0"
  proof -
    have "KBASE \<le> PAGE2VA f + of_nat 0" by (rule kernel_page_byte [OF s3(2)]) simp
    then show ?thesis by (auto simp: KBASE_def)
  qed
  note m3 = system_more [OF s3(8)]
  define s4 where "s4 = upd_proc p (\<lambda>pr. pr\<lparr>pgdir := ?d\<rparr>) s3"
  have sp4: "spaces_ok s4 D = spaces_ok s3 D" "memories s4 D = memories s3 D" for D
    by (rule spaces_ok_cong; simp add: s4_def upd_proc_def)+
  have fp4: "free_pages s4 = free_pages s3" "mem s4 = mem s3" by (simp_all add: s4_def upd_proc_def free_pages_def)
  have root4: "pgdir (procs s4 ! c) = ?r" using pl(4) m3(1) p2(1) by (simp add: s4_def upd_proc_def)
  have leaf4: "leaf (mem s4) ?r = leaf (mem s) ?r"
    using fun_cong [OF s3(7), of c] pl(4) Dc by (simp add: entries_def fp4 p2(7))
  have Ec: "?E c = Some ?r" and Ep: "?E p = Some ?d" and ok4: "spaces_ok s4 ?E" using pl(4) Dc s3(5) sp4 by simp_all
  have e0: "entries (mem s4) ?E p = (\<lambda>k. 0)" using s3(7) Dp fp4(2) by (simp add: entries_def)
  have card4: "card (free_pages s) = Suc (card (free_pages s4))"
    using s3(3,4) fp4(1) p2(6) card_Suc_Diff1 [of "free_pages s" f] by simp
  have room4: "3 * card {k \<in> text_pages. leaf (mem s4) ?r k \<noteq> 0} \<le> card (free_pages s4)"
    using room card4 unfolding leaf4 by simp
  obtain s5 where s5: "fork_pages ?r ?d UTEXT (user_pages - 1) s4 = Inr (0, s5)" "spaces_ok s5 ?E"
    "memories s5 ?E = (memories s4 ?E)(p \<mapsto> (\<lambda>k. if k \<in> text_pages then contents (mem s4) (leaf (mem s4) ?r) k else None))"
    "entries (mem s5) ?E = share_leaves (entries (mem s4) ?E) c p text_pages"
    "card (free_pages s4) \<le> card (free_pages s5) + 3 * card {k \<in> text_pages. leaf (mem s4) ?r k \<noteq> 0}"
    "kmm.more s5 = kmm.more s4" "kpgdir s5 = kpgdir s4"
    by (rule fork_pages_spaces [OF ok4 Ec Ep pl(4) e0 room4]) (rule that; assumption)
  have room5: "4 \<le> card (free_pages s5)" using s5(5) room card4 unfolding leaf4 by simp
  note m5 = system_more [OF s5(6)]
  have none5: "leaf (mem s5) ?d 0x8FFFE = 0"
    using fun_cong [OF fun_cong [OF s5(4), of p], of "0x8FFFE"] e0 Ep by (simp add: entries_def share_leaves_def text_pages_def)
  define rest where "rest dir v = (case alloc_page 1 v of
       (None, s6) \<Rightarrow> Inl NullPointer
     | (Some pg, s6) \<Rightarrow>
         bindE (vmemcpy (cpu_root s6) (PAGE2VA pg) (USTACKTOP - 4096) 4096 (mem s6)) (\<lambda>m.
         bindE (insert_page dir (USTACKTOP - 4096) (Some pg) (PTE_U OR PTE_W OR PTE_P) (s6\<lparr>mem := m\<rparr>)) (\<lambda>(r2, s7).
         let s8 = upd_proc p (\<lambda>pr. pr\<lparr>status := RUNNABLE\<rparr>) (fork_files c p 0 32 s7)
         in Inr (uint (pid (procs s8 ! p)), s8))))" for dir and v :: "('d, 'a) kproc_scheme"
  have "sys_fork s = (case alloc_vm (kpgdir s2) s2 of (dir, s3) \<Rightarrow>
       let s4 = upd_proc p (\<lambda>pr. pr\<lparr>pgdir := dir\<rparr>) s3 in
       if dir = 0 then Inr (- 1, s4)
       else bindE (fork_pages (pgdir (procs s4 ! c)) dir UTEXT (user_pages - 1) s4) (\<lambda>(r, s5).
         if r < 0 then Inr (r, s5) else rest dir s5))"
    unfolding sys_fork_def al(1) s2_def rest_def using c1 by (simp add: Let_def)
  then have run5: "sys_fork s = rest ?d s5" using s5(1) d0 root4 by (simp add: s3(1) s4_def [symmetric])
  have mm5: "mm_inv s5" using s5(2) by (simp add: spaces_ok_def)
  have "fst (alloc_page 1 s5) \<noteq> None" using room5 alloc_page_None_iff [OF mm5, of 1] by auto
  then obtain pg s6 where s6: "alloc_page 1 s5 = (Some pg, s6)" by (cases "alloc_page 1 s5") auto
  note m6 = system_more [OF alloc_page_Some(9) [OF mm5 s6]]
  have root6: "cpu_root s6 = ?r" using m6(3) m5(3) m3(3) p2(4) cl(3) by (simp add: cpu_root_def s4_def upd_proc_def)
  have leaf5: "leaf (mem s5) ?r 0x8FFFE = leaf (mem s) ?r 0x8FFFE"
    using fun_cong [OF fun_cong [OF s5(4), of c], of "0x8FFFE"] Ec leaf4 by (simp add: entries_def share_leaves_def text_pages_def)
  have leaf6: "leaf (mem s6) ?r 0x8FFFE = leaf (mem s) ?r 0x8FFFE"
  proof -
    have "pt_inv s5 ?r" using s5(2) Ec by (auto simp: spaces_ok_def own_space_def)
    moreover have "user_va (page_va 0x8FFFE)" by (rule page_va_facts) simp
    ultimately have "pte_of (mem s6) ?r (page_va 0x8FFFE) = pte_of (mem s5) ?r (page_va 0x8FFFE)"
      using alloc_page_space(5) s6 by blast
    then show ?thesis using leaf5 by (simp add: leaf_def)
  qed
  show "sys_fork s = Inl BadAddress" if "leaf (mem s) ?r 0x8FFFE = 0"
    using vmemcpy_unmapped [of "mem s6" ?r "0x8FFFE"] that unfolding run5 rest_def s6 prod.case option.case root6 stack_page(1) leaf6
    by simp
  assume mapped: "leaf (mem s) ?r 0x8FFFE \<noteq> 0"
  then have nz: "leaf (mem s5) ?r 0x8FFFE \<noteq> 0" by (simp add: leaf5)
  obtain m s7 where cp0: "vmemcpy ?r (PAGE2VA pg) (page_va 0x8FFFE) 4096 (mem s6) = Inr m"
    "insert_page ?d (page_va 0x8FFFE) (Some pg) 7 (s6\<lparr>mem := m\<rparr>) = Inr (0, s7)"
    and cp: "spaces_ok s7 ?E" "memories s7 ?E = (memories s5 ?E)(p \<mapsto> (contents (mem s5) (leaf (mem s5) ?d))(0x8FFFE := contents (mem s5) (leaf (mem s5) ?r) 0x8FFFE))"
    "kmm.more s7 = kmm.more s5" "entries (mem s7) ?E = set_leaf (entries (mem s5) ?E) p 0x8FFFE (PAGE2PA pg OR 7)"
    by (rule copy_page_spaces [OF s5(2) Ec Ep stack_page(2) none5 nz room5 s6]) (rule that; assumption)
  define s' where "s' = upd_proc p (\<lambda>pr. pr\<lparr>status := RUNNABLE\<rparr>) (fork_files c p 0 32 s7)"
  have result: "sys_fork s = Inr (uint (pid (procs s' ! p)), s')"
    unfolding run5 rest_def s6 prod.case option.case root6 stack_page(1) flags_7 cp0 bindE_Inr Let_def s'_def by simp
  note m7 = system_more [OF cp(3)]
  define s8 where "s8 = fork_files c p 0 32 s7"
  note f8 = files_only_facts [OF fork_files_only [of s7 c p 0 32, folded s8_def]]
  have s': "s' = upd_proc p (\<lambda>pr. pr\<lparr>status := RUNNABLE\<rparr>) s8" by (simp add: s'_def s8_def)
  have p7: "procs s7 = (procs s2)[p := (procs s2 ! p)\<lparr>pgdir := ?d\<rparr>]"
    using m7(1) m5(1) m3(1) by (simp add: s4_def upd_proc_def)
  have other: "current s7 = Some c" "cr3 s7 = cr3 s" "proc_head s7 = proc_head s1"
    using m7 m5 m3 p2 by (simp_all add: s4_def upd_proc_def)
  have len: "length (procs s8) = length (procs s)" using f8(2) p7 p2(1) by simp
  have key: "proc_key (procs s8 ! i) = (if i = p then (?d, of_nat p, None) else proc_key (procs s ! i))"
    "status (procs s8 ! i) = (if i = p then STOP else status (procs s ! i))" if i: "i < length (procs s)" for i
  proof -
    have "proc_key (procs s8 ! i) = proc_key (procs s7 ! i)"
      using arg_cong [OF f8(1), of "\<lambda>l. l ! i"] i len f8(2) by simp
    then show "proc_key (procs s8 ! i) = (if i = p then (?d, of_nat p, None) else proc_key (procs s ! i))"
      using i pl(1) by (simp add: p7 p2(1) proc_key_def new_proc_def zero_proc_def nth_list_update)
    show "status (procs s8 ! i) = (if i = p then STOP else status (procs s ! i))"
      using f8(3) [of i] i pl(1) by (simp add: p7 p2(1) new_proc_def zero_proc_def nth_list_update)
  qed
  have pr': "procs s' = (procs s8)[p := (procs s8 ! p)\<lparr>status := RUNNABLE\<rparr>]" by (simp add: s' upd_proc_def)
  have at: "pgdir (procs s' ! i) = (if i = p then ?d else pgdir (procs s ! i))"
    "pid (procs s' ! i) = (if i = p then of_nat p else pid (procs s ! i))"
    "proc_link (procs s' ! i) = (if i = p then None else proc_link (procs s ! i))"
    "status (procs s' ! i) = (if i = p then RUNNABLE else status (procs s ! i))"
    if i: "i < length (procs s)" for i
    using key [OF i] i pl(1) len by (auto simp: pr' proc_key_def nth_list_update split: if_splits)
  have len': "length (procs s') = length (procs s)" using len by (simp add: pr')
  have d': "directories_of s' = ?E" using at(1) pl d0 by (auto simp: directories_of_def len' fun_eq_iff split: if_splits)
  have sp': "spaces_ok s' D = spaces_ok s7 D" "memories s' D = memories s7 D" for D
  proof -
    have "spaces_ok s' D = spaces_ok s8 D" "memories s' D = memories s8 D"
      by (rule spaces_ok_cong; simp add: s' upd_proc_def)+
    then show "spaces_ok s' D = spaces_ok s7 D" "memories s' D = memories s7 D" using f8(7,8) by simp_all
  qed
  have ch: "chain (\<lambda>i. proc_link (procs s' ! i)) (proc_head s') xs" "distinct xs" "set xs \<subseteq> {..<length (procs s)}" "p \<notin> set xs"
  proof -
    show "distinct xs" "p \<notin> set xs" using ys(1) px by (auto simp: free_procs_def)
    show sx: "set xs \<subseteq> {..<length (procs s)}" using ys(1) px by (auto simp: free_procs_def)
    have "proc_head s' = proc_link (procs s ! p)" using f8(6) other(3) by (simp add: s' upd_proc_def s1_def)
    moreover have "chain (\<lambda>i. proc_link (procs s ! i)) (proc_link (procs s ! p)) xs" using ys(1) px by (auto simp: free_procs_def)
    moreover have "chain (\<lambda>i. proc_link (procs s' ! i)) q xs = chain (\<lambda>i. proc_link (procs s ! i)) q xs" for q
      using at(3) sx \<open>p \<notin> set xs\<close> by (intro chain_cong) auto
    ultimately show "chain (\<lambda>i. proc_link (procs s' ! i)) (proc_head s') xs" by simp
  qed
  have cur': "current s' = Some c" "cpu_root s' = ?r"
    using f8(4,5) other(1,2) cl(3) by (simp_all add: s' upd_proc_def cpu_root_def)
  have ok': "system_ok s'"
    unfolding system_ok_def d' sp'(1) len'
  proof (intro conjI allI impI)
    fix i assume i: "i < length (procs s)"
    show "i < 10" "pid (procs s' ! i) = of_nat i" if "pgdir (procs s' ! i) \<noteq> 0"
      using that at [OF i] ok i pl(2) by (auto simp: system_ok_def split: if_splits)
    show "pgdir (procs s' ! i) \<noteq> 0" if "status (procs s' ! i) = RUNNABLE"
      using that at [OF i] ok i d0 by (auto simp: system_ok_def split: if_splits)
  next
    have "free_procs s' xs" using ch len' by (simp add: free_procs_def)
    moreover have "\<forall>x \<in> set xs. x < 10 \<and> pgdir (procs s' ! x) = 0"
      using ch(3,4) ys(2) px at(1) by auto
    ultimately show "\<exists>xs. free_procs s' xs \<and> (\<forall>x \<in> set xs. x < 10 \<and> pgdir (procs s' ! x) = 0)" by blast
  next
    fix a assume "current s' = Some a"
    then have "a = c" using cur' by simp
    then show "a < length (procs s)" "pgdir (procs s' ! a) \<noteq> 0" "cpu_root s' = pgdir (procs s' ! a)"
      using cl cur' at(1) [OF cl(1)] pl(4) by simp_all
  next
    show "spaces_ok s7 ?E" by (rule cp(1))
    show "10 < length (procs s)" using ok by (simp add: system_ok_def)
  qed
  have Mc: "system_memories s c = Some (contents (mem s) (leaf (mem s) ?r))" by (simp add: system_memories_def memories_def Dc)
  have cont: "contents (mem s4) (leaf (mem s4) ?r) = contents (mem s) (leaf (mem s) ?r)"
    "contents (mem s5) (leaf (mem s5) ?r) = contents (mem s) (leaf (mem s) ?r)"
    "contents (mem s5) (leaf (mem s5) ?d) = (\<lambda>k. if k \<in> text_pages then contents (mem s) (leaf (mem s) ?r) k else None)"
  proof -
    have "memories s3 ?E c = memories s2 ?D c" unfolding s3(6) using pl(4) by simp
    then have a: "memories s4 ?E c = memories s ?D c" using sp4 sp2 by simp
    then show 4: "contents (mem s4) (leaf (mem s4) ?r) = contents (mem s) (leaf (mem s) ?r)"
      using Dc Ec by (simp add: memories_def)
    have "memories s5 ?E c = memories s ?D c" unfolding s5(3) using pl(4) a by simp
    then show "contents (mem s5) (leaf (mem s5) ?r) = contents (mem s) (leaf (mem s) ?r)"
      using Dc Ec by (simp add: memories_def)
    have "memories s5 ?E p = Some (\<lambda>k. if k \<in> text_pages then contents (mem s) (leaf (mem s) ?r) k else None)"
      unfolding s5(3) 4 by simp
    then show "contents (mem s5) (leaf (mem s5) ?d) = (\<lambda>k. if k \<in> text_pages then contents (mem s) (leaf (mem s) ?r) k else None)"
      using Ep by (simp add: memories_def)
  qed
  have outside: "contents (mem s) (leaf (mem s) ?r) k = None" if "k \<notin> win" for k
  proof -
    have "leaf (mem s) ?r k = 0"
      using mapped_frame(5) [OF sp, of c k] entries_leaf [of ?D c, OF Dc, of "mem s"] that by auto
    then show ?thesis by (simp add: contents_def)
  qed
  have child: "(contents (mem s5) (leaf (mem s5) ?d))(0x8FFFE := contents (mem s5) (leaf (mem s5) ?r) 0x8FFFE)
      = contents (mem s) (leaf (mem s) ?r)"
    unfolding cont using outside stack_page(3) by (auto simp: fun_eq_iff)
  have "system_memories s' = (system_memories s)(p := system_memories s c)"
    unfolding system_memories_def [of s'] d' sp'(2) cp(2) child Mc
    by (rule ext) (simp add: s5(3) sp4(2) s3(6) sp2(2) system_memories_def)
  moreover have "uint (pid (procs s' ! p)) = int p"
  proof -
    have "unat (of_nat p :: u32) = p" using pl(2) by (intro unat_of_nat_small) simp
    then show ?thesis using at(2) [OF pl(1)] by (metis uint_nat)
  qed
  moreover have "system_memories s p = None" by (simp add: system_memories_def memories_def Dp)
  moreover have shared: "entries (mem s') (directories_of s') p k = entries (mem s') (directories_of s') c k" if k: "k \<in> text_pages" for k
  proof -
    have "mem s' = mem s7" using f8(9) by (simp add: s' upd_proc_def)
    moreover have "k \<noteq> 0x8FFFE" using k by (auto simp: text_pages_def)
    ultimately show ?thesis
      using k pl(4) e0 by (simp add: d' cp(4) set_leaf_at s5(4) share_leaves_def)
  qed
  ultimately show "\<exists>p s'. sys_fork s = Inr (int p, s') \<and> system_memories s p = None
      \<and> system_ok s' \<and> system_memories s' = (system_memories s)(p := system_memories s c) \<and> current s' = current s \<and> p \<noteq> c
      \<and> (\<forall>k \<in> text_pages. entries (mem s') (directories_of s') p k = entries (mem s') (directories_of s') c k)"
    using result ok' cur' c pl(4) shared by (intro exI [of _ p] exI [of _ s']) simp
qed

end
