(* ===== verification/Isolation.thy ===== *)
theory Isolation
  imports System
begin

text \<open>
  The trap handler seen from the user programs: a run of user stores and of kernel activations of certain kinds, each from its
  beginning to its end, is a run of processes with private memories, and the memory of a process that does not run stays.
  Two ways around it: a store of the kernel itself, which does not look at the write bit, and an interrupt inside the handler of
  a page fault, whose gate leaves interrupts enabled.
\<close>

section \<open>Loads and stores of the running program\<close>

text \<open>
  The processor in user mode: the address lies in the lower half and its entry has the present and user bits, for a store the
  write bit too; the entries above it always have all three.
\<close>

definition user_load :: "u64 \<Rightarrow> u64 \<Rightarrow> mem \<Rightarrow> u8 option" where
  "user_load root va m = (if va < 2 ^ 47 \<and> pte_of m root va AND 5 = 5 then vread root m va else None)"

definition user_store :: "u64 \<Rightarrow> u64 \<Rightarrow> u8 \<Rightarrow> mem \<Rightarrow> mem outcome" where
  "user_store root va b m = (if va < 2 ^ 47 \<and> pte_of m root va AND 7 = 7 then vwrite root va b m else Inl BadAddress)"

text \<open>A byte of a private memory.\<close>

definition space_byte :: "space \<Rightarrow> u64 \<Rightarrow> u8 option" where
  "space_byte v va = map_option (\<lambda>bs. bs ! (unat va mod 4096)) (v (unat va div 4096))"

lemma va_split:
  assumes "va < 2 ^ 47"
  shows "unat va div 4096 < 2 ^ 35" "va = page_va (unat va div 4096) + of_nat (unat va mod 4096)"
proof -
  have "unat va < 2 ^ 47" using assms by (simp add: word_less_nat_alt)
  then show "unat va div 4096 < 2 ^ 35" by simp
  have "4096 * (unat va div 4096) + unat va mod 4096 = unat va" by (rule mult_div_mod_eq)
  then have "of_nat (4096 * (unat va div 4096) + unat va mod 4096) = va" by (simp only: of_nat_unat ucast_id)
  then show "va = page_va (unat va div 4096) + of_nat (unat va mod 4096)" by (simp only: page_va_def of_nat_add)
qed

lemma user_translation:
  assumes va: "va < 2 ^ 47" and e: "pte_of m r va = e" "e AND 1 \<noteq> 0"
  shows "leaf m r (unat va div 4096) = e" and "mmu m r va = Some (PAGE2VA (frame_of e) + of_nat (unat va mod 4096))"
proof -
  note v = va_split [OF va]
  have "unat va mod 4096 < 4096" by simp
  note p = page_va_inside [OF v(1) this, folded v(2)]
  have "vpn va = vpn (page_va (unat va div 4096))" using p(1) page_va_facts(1) [OF v(1)] by simp
  from pte_of_page [OF this, of m r] have "pte_of m r (page_va (unat va div 4096)) = e" unfolding e(1) by (rule sym)
  then show "leaf m r (unat va div 4096) = e" unfolding leaf_def if_P [OF v(1)] .
  show "mmu m r va = Some (PAGE2VA (frame_of e) + of_nat (unat va mod 4096))"
    using mmu_user [OF e p(4)] unfolding table_of_frame p(3) .
qed

lemma entry_bits: "(e :: u64) AND 5 = 5 \<Longrightarrow> e AND 1 \<noteq> 0" "(e :: u64) AND 7 = 7 \<Longrightarrow> e AND 1 \<noteq> 0" "(e :: u64) AND 7 = 7 \<Longrightarrow> e AND 2 \<noteq> 0"
proof -
  have m: "(e :: u64) AND 1 = (e AND 5) AND 1" "(e :: u64) AND 1 = (e AND 7) AND 1" "(e :: u64) AND 2 = (e AND 7) AND 2"
    by (simp_all add: and.assoc)
  show "(e :: u64) AND 5 = 5 \<Longrightarrow> e AND 1 \<noteq> 0" unfolding m(1) by simp
  show "(e :: u64) AND 7 = 7 \<Longrightarrow> e AND 1 \<noteq> 0" unfolding m(2) by simp
  show "(e :: u64) AND 7 = 7 \<Longrightarrow> e AND 2 \<noteq> 0" unfolding m(3) by simp
qed

lemma page_bytes_nth: "i < 4096 \<Longrightarrow> page_bytes m f ! i = m (PAGE2VA f + of_nat i)"
  by (simp add: page_bytes_def load_bytes_def)

lemma length_page_bytes: "length (page_bytes m f) = 4096"
  by (simp add: page_bytes_def)

lemma page_bytes_set:
  assumes i: "i < 4096"
  shows "page_bytes (m(PAGE2VA f + of_nat i := b)) f = (page_bytes m f)[i := b]"
proof (rule nth_equalityI)
  fix j assume "j < length (page_bytes (m(PAGE2VA f + of_nat i := b)) f)"
  then have j: "j < 4096" by (simp add: page_bytes_def)
  have "unat (of_nat i :: u64) = i" "unat (of_nat j :: u64) = j"
    using i j by (intro unat_of_nat_small, simp)+
  then have "((of_nat j :: u64) = of_nat i) = (i = j)" by metis
  then show "page_bytes (m(PAGE2VA f + of_nat i := b)) f ! j = (page_bytes m f)[i := b] ! j"
    using i j by (cases "i = j") (simp_all add: page_bytes_nth length_page_bytes)
qed (simp add: page_bytes_def)

lemma load_memory:
  assumes p: "D p = Some r" and l: "user_load r va (mem s) = Some b"
  shows "\<exists>v. memories s D p = Some v \<and> space_byte v va = Some b"
proof -
  let ?e = "pte_of (mem s) r va"
  have va: "va < 2 ^ 47" "?e AND 5 = 5" and rd: "vread r (mem s) va = Some b"
    using l by (auto simp: user_load_def split: if_splits)
  note t = user_translation [OF va(1) refl entry_bits(1) [OF va(2)]]
  have "?e \<noteq> 0" using va(2) by auto
  moreover have "unat va mod 4096 < 4096" by simp
  ultimately have "space_byte (contents (mem s) (leaf (mem s) r)) va = Some (mem s (PAGE2VA (frame_of ?e) + of_nat (unat va mod 4096)))"
    unfolding space_byte_def contents_def t(1) by (simp add: page_bytes_nth)
  also have "\<dots> = Some b" using rd vread_mmu [OF t(2)] by simp
  finally show ?thesis using p by (simp add: memories_def)
qed

text \<open>A byte of a mapped frame is written: no table is touched.\<close>

lemma byte_written:
  fixes s :: "'a kmm_scheme"
  assumes ok: "spaces_ok s D" and e: "entries (mem s) D p k = e" "e \<noteq> 0" and i: "i < 4096"
    and m: "m = (mem s)(PAGE2VA (frame_of e) + of_nat i := b)"
  shows "touches s (s\<lparr>mem := m\<rparr>) D D {} {frame_of e}" and "entries m D = entries (mem s) D"
    and "keeps (mem s) m {frame_of e}" and "page_bytes m (frame_of e) = (page_bytes (mem s) (frame_of e))[i := b]"
    and "memories (s\<lparr>mem := m\<rparr>) D q = map_option (\<lambda>r. contents m (entries (mem s) D q)) (D q)"
proof -
  let ?s = "s\<lparr>mem := m\<rparr>"
  have "entries (mem s) D p k \<noteq> 0" using e by simp
  note mf = mapped_frame [OF ok this, unfolded e(1)]
  show kp: "keeps (mem s) m {frame_of e}"
    unfolding keeps_def m using load64_byte_disj [OF _ mf(1) _ i] by simp
  have "page_refs ?s = page_refs s" "mm_inv ?s" using ok mm_cong [of ?s s] by (simp_all add: spaces_ok_def)
  then show tch: "touches s ?s D D {} {frame_of e}"
    unfolding touches_def using kp mf(3) by simp
  have en: "entries m D q = entries (mem s) D q" for q using touches_other(1) [OF ok tch, of q] by simp
  then show "entries m D = entries (mem s) D" by blast
  show "page_bytes m (frame_of e) = (page_bytes (mem s) (frame_of e))[i := b]" unfolding m by (rule page_bytes_set [OF i])
  show "memories ?s D q = map_option (\<lambda>r. contents m (entries (mem s) D q)) (D q)"
    using en entries_leaf [of D q _ m] by (cases "D q") (simp_all add: memories_def)
qed

lemma memories_entries: "memories s D q = map_option (\<lambda>r. contents (mem s) (entries (mem s) D q)) (D q)"
  using entries_leaf [of D q _ "mem s"] by (cases "D q") (simp_all add: memories_def)

lemma store_spaces:
  fixes s :: "('d, 'a) kproc_scheme"
  assumes ok: "spaces_ok s D" and p: "D p = Some r" and st: "user_store r va b (mem s) = Inr m"
  shows "spaces_ok (s\<lparr>mem := m\<rparr>) D" and "\<exists>v bs. memories s D p = Some v \<and> v (unat va div 4096) = Some bs
     \<and> memories (s\<lparr>mem := m\<rparr>) D = (memories s D)(p \<mapsto> v(unat va div 4096 \<mapsto> bs[unat va mod 4096 := b]))"
    and "entries m D = entries (mem s) D"
proof -
  let ?e = "pte_of (mem s) r va" and ?k = "unat va div 4096" and ?i = "unat va mod 4096" and ?s = "s\<lparr>mem := m\<rparr>"
  have va: "va < 2 ^ 47" "?e AND 7 = 7" and wr: "vwrite r va b (mem s) = Inr m"
    using st by (auto simp: user_store_def split: if_splits)
  note t = user_translation [OF va(1) refl entry_bits(2) [OF va(2)]]
  have nz: "?e \<noteq> 0" using va(2) by auto
  have ent: "entries (mem s) D p ?k = ?e" using t(1) entries_leaf [of D p, OF p] by simp
  have "entries (mem s) D p ?k \<noteq> 0" using nz by (simp add: ent)
  note mf = mapped_frame [OF ok this, unfolded ent]
  let ?f = "frame_of ?e"
  have m: "m = (mem s)(PAGE2VA ?f + of_nat ?i := b)" using wr vwrite_mmu [OF t(2)] by simp
  have i: "?i < 4096" by simp
  have "entries (mem s) D p ?k = ?e" by (rule ent)
  note bw = byte_written [OF ok this nz i m]
  show ent': "entries m D = entries (mem s) D" by (rule bw(2))
  have refs: "page_refs ?s = page_refs s" using mm_cong [of ?s s] by simp
  note tch = bw(1) and kp = bw(3)
  have fr: "kernel_frames ?s D {} = kernel_frames s D {}" using touches_frames [OF ok tch] by simp
  show "spaces_ok ?s D"
  proof (rule touches_ok [OF ok tch])
    show "sharing_ok (entries (mem ?s) D) (page_refs ?s) (kernel_frames ?s D {})"
      using ok by (simp add: ent' refs fr spaces_ok_def)
  qed simp_all
  have sh: "sharing_ok (entries (mem s) D) (page_refs s) (kernel_frames s D {})" using ok by (simp add: spaces_ok_def)
  have one: "holders (entries (mem s) D) ?f = {(p, ?k)}"
    using sharing_writable [OF sh, of p ?k] entry_bits(3) [OF va(2)] by (simp add: ent)
  have same: "contents m (entries (mem s) D q) j = (if q = p \<and> j = ?k then Some ((page_bytes (mem s) ?f)[?i := b])
      else contents (mem s) (entries (mem s) D q) j)" for q j
  proof (cases "q = p \<and> j = ?k")
    case True
    show ?thesis using True nz ent bw(4) by (simp add: contents_def)
  next
    case False
    then have "(q, j) \<notin> holders (entries (mem s) D) ?f" using one by auto
    moreover have "entries (mem s) D q j \<noteq> 0 \<Longrightarrow> frame_of (entries (mem s) D q j) < 2 ^ 18" using mapped_frame(1) [OF ok] .
    ultimately show ?thesis using False page_bytes_keeps [OF kp] by (auto simp: contents_def holders_def)
  qed
  let ?v = "contents (mem s) (entries (mem s) D p)"
  have "memories s D p = Some ?v" "?v ?k = Some (page_bytes (mem s) ?f)"
    using memories_entries [of s D p] p nz ent by (simp_all add: contents_def)
  moreover have "memories ?s D = (memories s D)(p \<mapsto> ?v(?k \<mapsto> (page_bytes (mem s) ?f)[?i := b]))"
  proof
    fix q
    have "contents m (entries (mem s) D q) = (if q = p then ?v(?k \<mapsto> (page_bytes (mem s) ?f)[?i := b]) else contents (mem s) (entries (mem s) D q))"
      by (rule ext) (simp add: same)
    then show "memories ?s D q = ((memories s D)(p \<mapsto> ?v(?k \<mapsto> (page_bytes (mem s) ?f)[?i := b]))) q"
      using p by (simp add: bw(5) memories_entries [of s D q])
  qed
  ultimately show "\<exists>v bs. memories s D p = Some v \<and> v ?k = Some bs \<and> memories ?s D = (memories s D)(p \<mapsto> v(?k \<mapsto> bs[?i := b]))"
    by blast
qed

section \<open>Processes with a memory of their own\<close>

text \<open>
  What the processes see of it all: each has a memory of its own.  A step of process \<open>c\<close> gives it a zeroed page, stores a byte
  in a page it has, gives a new process a copy of its memory, or ends it.
\<close>

inductive private_step :: "nat \<Rightarrow> (nat \<Rightarrow> space option) \<Rightarrow> (nat \<Rightarrow> space option) \<Rightarrow> bool" for c where
  private_touch: "M c = Some v \<Longrightarrow> v k = None \<Longrightarrow> private_step c M (M(c \<mapsto> v(k \<mapsto> replicate 4096 0)))"
| private_store: "M c = Some v \<Longrightarrow> v k = Some bs \<Longrightarrow> private_step c M (M(c \<mapsto> v(k \<mapsto> bs[i := b])))"
| private_fork: "M c = Some v \<Longrightarrow> M p = None \<Longrightarrow> private_step c M (M(p \<mapsto> v))"
| private_exit: "private_step c M (M(c := None))"

inductive_cases private_stepE: "private_step c M M'"

lemma private_step_other: "private_step c M M' \<Longrightarrow> q \<noteq> c \<Longrightarrow> M q = Some v \<Longrightarrow> M' q = Some v"
  by (auto elim!: private_stepE)

text \<open>
  Steps of a machine whose invariant \<open>ok\<close> they keep, and which are for the client of the view \<open>abs\<close> either invisible or a step
  \<open>own c\<close> of the process \<open>c\<close> that runs, where such a step leaves what other processes have.
\<close>

locale private_view =
  fixes ok :: "'s \<Rightarrow> bool" and step :: "'s \<Rightarrow> 's \<Rightarrow> bool" and abs :: "'s \<Rightarrow> nat \<Rightarrow> 'v option" and cur :: "'s \<Rightarrow> nat option"
    and own :: "nat \<Rightarrow> (nat \<Rightarrow> 'v option) \<Rightarrow> (nat \<Rightarrow> 'v option) \<Rightarrow> bool"
  assumes running: "step s s' \<Longrightarrow> cur s \<noteq> None"
    and simulated: "ok s \<Longrightarrow> step s s' \<Longrightarrow> cur s = Some c \<Longrightarrow> ok s' \<and> (abs s' = abs s \<or> own c (abs s) (abs s'))"
    and own_frame: "own c M M' \<Longrightarrow> q \<noteq> c \<Longrightarrow> M q = Some v \<Longrightarrow> M' q = Some v"
begin

lemma run_refines: "step\<^sup>*\<^sup>* s s' \<Longrightarrow> ok s \<Longrightarrow> ok s' \<and> (\<lambda>M M'. \<exists>c. own c M M')\<^sup>*\<^sup>* (abs s) (abs s')"
proof (induction rule: rtranclp_induct)
  case (step t u)
  then obtain c where c: "cur t = Some c" using running by fastforce
  have "ok u \<and> (abs u = abs t \<or> own c (abs t) (abs u))" using simulated [OF _ step.hyps(2) c] step by blast
  moreover have "(\<lambda>M M'. \<exists>c. own c M M')\<^sup>*\<^sup>* (abs s) (abs t)" using step by blast
  ultimately show ?case by (metis (mono_tags, lifting) rtranclp.rtrancl_into_rtrancl)
qed simp

lemma run_frame: "(\<lambda>s s'. step s s' \<and> cur s \<noteq> Some q)\<^sup>*\<^sup>* s s' \<Longrightarrow> ok s \<Longrightarrow> abs s q = Some v \<Longrightarrow> ok s' \<and> abs s' q = Some v"
proof (induction rule: rtranclp_induct)
  case (step t u)
  then obtain c where c: "cur t = Some c" "c \<noteq> q" using running by fastforce
  have "ok u \<and> (abs u = abs t \<or> own c (abs t) (abs u))" using simulated [OF _ _ c(1)] step by blast
  then show ?case using own_frame [of c "abs t" "abs u" q v] c(2) step by auto
qed simp

end

section \<open>Kernel activations\<close>

text \<open>
  The steps covered are: a store of the running program; the timer and the keyboard interrupt; a page fault of a user program in the
  window, reported as the entry has it, while four pages are free; and a system call \<open>exit\<close>, \<open>fork\<close> (three free pages for each of
  the parent's pages and five more), \<open>yield\<close>, \<open>waitpid\<close>, \<open>lseek\<close>, \<open>tprintf\<close>, \<open>opencons\<close> or with a number that has no handler.

  A step runs the trap handler from its beginning to its end.  For the interrupts and the system calls the processor sees to that,
  their gates being interrupt gates; the gate of the page fault is a trap gate, so for it it means that no interrupt
  comes while the handler runs.  Not covered are besides: the calls \<open>read\<close>, \<open>write\<close>, \<open>open\<close> and \<open>execve\<close>, those of the virtual machine, and faults
  outside the window or without free pages.
\<close>

definition other_calls :: "u32 set" where
  "other_calls = {3, 4, 5, 8, 101, 102, 103, 104}"

inductive uninterrupted_step :: "('d, ('d, 'a) kvmx_scheme) kernel_env \<Rightarrow> ('d, 'a) kvmx_scheme \<Rightarrow> ('d, 'a) kvmx_scheme \<Rightarrow> bool" for env where
  user_store_step: "current s = Some c \<Longrightarrow> user_store (cpu_root s) va b (mem s) = Inr m \<Longrightarrow> uninterrupted_step env s (s\<lparr>mem := m\<rparr>)"
| irq_step: "current s \<noteq> None \<Longrightarrow> trapnum pt = 0x20 \<or> trapnum pt = 0x21 \<Longrightarrow> left_in (do_trap env cr2 pt s) = Some s'
    \<Longrightarrow> uninterrupted_step env s s'"
| fault_step: "current s \<noteq> None \<Longrightarrow> trapnum pt = 14 \<Longrightarrow> err_code pt AND 4 \<noteq> 0 \<Longrightarrow> cr2 div 4096 * 4096 = page_va k \<Longrightarrow> k \<in> win
    \<Longrightarrow> (err_code pt AND 1 \<noteq> 0) = (leaf (mem s) (cpu_root s) k \<noteq> 0) \<Longrightarrow> 4 \<le> card (free_pages s)
    \<Longrightarrow> left_in (do_trap env cr2 pt s) = Some s' \<Longrightarrow> uninterrupted_step env s s'"
| call_step: "current s \<noteq> None \<Longrightarrow> trapnum pt = 20 \<Longrightarrow> ucast (rax pt) \<notin> other_calls
    \<Longrightarrow> (ucast (rax pt) = (2 :: u32) \<longrightarrow> 3 * card {k \<in> text_pages. leaf (mem s) (cpu_root s) k \<noteq> 0} + 5 \<le> card (free_pages s))
    \<Longrightarrow> left_in (do_trap env cr2 pt s) = Some s' \<Longrightarrow> uninterrupted_step env s s'"

inductive_cases uninterrupted_stepE: "uninterrupted_step env s s'"

section \<open>Each activation is a step of the private memories, or none\<close>

definition private_to :: "nat \<Rightarrow> ('d, 'a) kproc_scheme \<Rightarrow> ('d, 'a) kproc_scheme \<Rightarrow> bool" where
  "private_to c s s' \<longleftrightarrow> system_ok s' \<and> (system_memories s' = system_memories s \<or> private_step c (system_memories s) (system_memories s'))"

lemma private_same: "system_ok s' \<Longrightarrow> system_memories s' = system_memories s \<Longrightarrow> private_to c s s'"
  by (simp add: private_to_def)

lemma private_silent: "private_to c t s' \<Longrightarrow> system_memories t = system_memories s \<Longrightarrow> private_to c s s'"
  by (simp add: private_to_def)

lemma schedule_private:
  assumes "system_ok s" and "left_in (schedule s) = Some s'"
  shows "private_to c s s'"
proof -
  obtain q where "schedule s = Run q s' \<or> schedule s = Idle s'" using schedule_left [OF assms(2)] .
  then show ?thesis using schedule_system [OF assms(1)] by (blast intro: private_same)
qed

text \<open>The console, the drive and the open files are apart from the memories.\<close>

lemma quiet_private:
  fixes s :: "('d, 'a) kproc_scheme"
  assumes ok: "system_ok s" and t: "files_only s (t\<lparr>kcon := kcon s, dev := dev s\<rparr>)"
  shows "private_to c s t"
proof -
  let ?t = "t\<lparr>kcon := kcon s, dev := dev s\<rparr>"
  note f = files_only_facts [OF t]
  have sp: "spaces_ok t D = spaces_ok s D" "memories t D = memories s D" for D
  proof -
    have "spaces_ok t D = spaces_ok ?t D" "memories t D = memories ?t D" by (rule spaces_ok_cong; simp)+
    then show "spaces_ok t D = spaces_ok s D" "memories t D = memories s D" using f(7,8) by simp_all
  qed
  have spo: "spaces_ok t (directories_of s)" using ok by (simp add: sp(1) system_ok_def)
  have pr: "map proc_key (procs t) = map proc_key (procs s)" using f(1) by simp
  note c = system_ok_cong [OF ok spo pr]
  have "system_ok t" "directories_of t = directories_of s"
    by (rule c; use f in auto)+
  then show ?thesis by (intro private_same) (simp_all add: system_memories_def sp(2))
qed

lemma quiet_files: "files_only s t \<Longrightarrow> files_only s (t\<lparr>kcon := kcon s, dev := dev s\<rparr>)"
  unfolding files_only_def by fastforce

lemma quiet_devices: "files_only s ((s\<lparr>kcon := k, dev := d\<rparr>)\<lparr>kcon := kcon s, dev := dev s\<rparr>)"
  using files_only_refl [of s] by simp

lemma files_only_upd: "files_only s (upd_file f g s)"
  unfolding upd_file_def by (rule files_only_table)

lemma sys_lseek_files: "sys_lseek fd off wh s = Inr (n, t) \<Longrightarrow> files_only s t"
  by (auto simp: sys_lseek_def bindE_eq_Inr files_only_refl files_only_upd split: option.splits if_splits)

lemma allocfile_files: "allocfile s = (r, t) \<Longrightarrow> files_only s t"
  by (auto simp: allocfile_def files_only_refl files_only_table split: option.splits)

lemma set_fd_files: "set_fd fd v s = Inr t \<Longrightarrow> files_only s t"
  by (auto simp: set_fd_def files_only_fds split: option.splits if_splits)

lemma new_file_files: "allocfile s = (r, s1) \<Longrightarrow> set_fd fd v (upd_file f g s1) = Inr t \<Longrightarrow> files_only s t"
  by (rule files_only_trans [OF files_only_trans [OF allocfile_files files_only_upd] set_fd_files])

lemma sys_opencons_files: "sys_opencons s = Inr (n, t) \<Longrightarrow> files_only s t"
  by (auto simp: sys_opencons_def bindE_eq_Inr Let_def files_only_refl allocfile_files new_file_files
    split: option.splits if_splits prod.splits)

text \<open>The calls that do not touch the memories.\<close>

lemma plain_call_private:
  fixes s :: "('d, 'a) kvmx_scheme"
  assumes ok: "system_ok s" and n: "num \<notin> other_calls" "num \<noteq> 1" "num \<noteq> 2"
    and run: "left_in (do_syscall env num p0 p1 p2 p3 p4 s) = Some s'"
  shows "private_to c s s'"
proof -
  consider "num = 11" | "num = 7" | "num = 9" | "num = 105" | "num = 100" | "num \<notin> {11, 7, 9, 105, 100}"
    by blast
  then show ?thesis
  proof cases
    case 1
    then have "left_in (schedule s) = Some s'" using run by (simp add: do_syscall_def sys_yield_def left_in_bind [where f = "\<lambda>_. 0"])
    then show ?thesis by (rule schedule_private [OF ok])
  next
    case 2
    then have "s' = s \<or> left_in (schedule s) = Some s'"
      using run by (cases "schedule s") (auto simp: do_syscall_def sys_waitpid_def split: if_splits)
    then show ?thesis using schedule_private [OF ok] private_same [OF ok refl] by auto
  next
    case 3
    then obtain n where "sys_lseek (int_arg p0) (int_arg p1) (int_arg p2) s = Inr (n, s')"
      using run by (cases "sys_lseek (int_arg p0) (int_arg p1) (int_arg p2) s") (auto simp: do_syscall_def)
    then show ?thesis using sys_lseek_files by (intro quiet_private [OF ok] quiet_files)
  next
    case 4
    then obtain k where "s' = s\<lparr>kcon := k\<rparr>"
      using run by (auto simp: do_syscall_def sys_tprintf_def split: option.splits sum.splits)
    then show ?thesis using quiet_devices [of s "dev s" k] by (intro quiet_private [OF ok]) simp
  next
    case 5
    then obtain n where "sys_opencons s = Inr (n, s')"
      using run by (cases "sys_opencons s") (auto simp: do_syscall_def)
    then show ?thesis using sys_opencons_files by (intro quiet_private [OF ok] quiet_files)
  next
    case 6
    then have "do_syscall env num p0 p1 p2 p3 p4 s = Ret 0 s" using n by (simp add: do_syscall_def other_calls_def)
    then show ?thesis using run private_same [OF ok refl] by simp
  qed
qed

lemma store_private:
  assumes ok: "system_ok s" and c: "current s = Some c" and st: "user_store (cpu_root s) va b (mem s) = Inr m"
  shows "private_to c s (s\<lparr>mem := m\<rparr>)"
proof -
  let ?s = "s\<lparr>mem := m\<rparr>" and ?D = "directories_of s"
  have sp: "spaces_ok s ?D" and D: "?D c = Some (cpu_root s)" using ok c by (simp_all add: system_ok_def directories_of_def)
  note t = store_spaces [OF sp D st]
  have more: "kmm.more ?s = kmm.more s" by simp
  note sys = system_ok_more [OF ok t(1) more]
  obtain v bs where v: "memories s ?D c = Some v" "v (unat va div 4096) = Some bs"
    "memories ?s ?D = (memories s ?D)(c \<mapsto> v(unat va div 4096 \<mapsto> bs[unat va mod 4096 := b]))"
    using t(2) by blast
  have "private_step c (memories s ?D) (memories ?s ?D)" unfolding v(3) using v(1,2) by (rule private_store)
  then show ?thesis using sys by (simp add: private_to_def system_memories_def)
qed

text \<open>A fault on an absent page: a page of zeros, writable, for at most four of the pool.\<close>

lemma fault_fresh:
  fixes t :: "('d, 'a) kproc_scheme"
  assumes ok: "system_ok t" and c: "current t = Some c" and k: "k \<in> win" "leaf (mem t) (cpu_root t) k = 0"
    and err: "err AND 1 = 0" and room: "4 \<le> card (free_pages t)"
  obtains v s' where "user_fault err (page_va k) t = Inr s'" "system_ok s'" "system_memories t c = Some v" "v k = None"
    "system_memories s' = (system_memories t)(c \<mapsto> v(k \<mapsto> replicate 4096 0))" "leaf (mem s') (cpu_root t) k AND 7 = 7"
    "card (free_pages t) \<le> card (free_pages s') + 4" "kmm.more s' = kmm.more t"
proof -
  let ?D = "directories_of t" and ?r = "cpu_root t"
  have sp: "spaces_ok t ?D" and r: "pgdir (procs t ! c) = ?r" "?D c = Some ?r"
    using ok c by (simp_all add: system_ok_def directories_of_def)
  obtain f s1 s' where n: "alloc_page 1 t = (Some f, s1)" "insert_page ?r (page_va k) (Some f) 7 s1 = Inr (0, s')"
    "spaces_ok s' ?D" "memories s' ?D = (memories t ?D)(c \<mapsto> (contents (mem t) (leaf (mem t) ?r))(k \<mapsto> replicate 4096 0))"
    "kmm.more s' = kmm.more t" "kmm.more s1 = kmm.more t" "leaf (mem s') ?r k = PAGE2PA f OR 7" "card (free_pages t) \<le> card (free_pages s') + 4"
    by (rule new_page_spaces [OF sp r(2) k room]) (rule that; assumption)
  have "user_fault err (page_va k) t = Inr s'"
    using n(1,2) err c r(1) system_more [OF n(6)] by (simp add: user_fault_def fault_flags)
  moreover have "system_memories t c = Some (contents (mem t) (leaf (mem t) ?r))" "contents (mem t) (leaf (mem t) ?r) k = None"
    by (simp_all add: system_memories_def memories_def r(2) contents_def k(2))
  moreover have "(PAGE2PA f OR 7) AND 7 = (7 :: u64)" by (rule bit_word_eqI) (auto simp: bit_and_iff bit_or_iff)
  ultimately show thesis
    using that system_ok_more [OF ok n(3,5)] n(4,5,7,8) by (simp add: system_memories_def)
qed

lemma fault_private:
  fixes t :: "('d, 'a) kproc_scheme"
  assumes ok: "system_ok t" and c: "current t = Some c" and k: "k \<in> win"
    and err: "(err AND 1 \<noteq> 0) = (leaf (mem t) (cpu_root t) k \<noteq> 0)" and room: "4 \<le> card (free_pages t)"
  shows "\<exists>s'. user_fault err (page_va k) t = Inr s' \<and> private_to c t s'"
proof -
  let ?D = "directories_of t" and ?r = "cpu_root t"
  have sp: "spaces_ok t ?D" and r: "pgdir (procs t ! c) = ?r" "?D c = Some ?r"
    using ok c by (simp_all add: system_ok_def directories_of_def)
  consider "leaf (mem t) ?r k = 0" | "leaf (mem t) ?r k \<noteq> 0" "err AND 2 \<noteq> 0" | "leaf (mem t) ?r k \<noteq> 0" "err AND 2 = 0" by blast
  then show ?thesis
  proof cases
    case 1
    have "err AND 1 = 0" using err 1 by simp
    then obtain v s' where n: "user_fault err (page_va k) t = Inr s'" "system_ok s'" "system_memories t c = Some v" "v k = None"
      "system_memories s' = (system_memories t)(c \<mapsto> v(k \<mapsto> replicate 4096 0))"
      by (rule fault_fresh [OF ok c k 1 _ room]) (rule that; assumption)
    then show ?thesis using private_touch [of "system_memories t" c v k] by (auto simp: private_to_def)
  next
    case 2
    have "free_pages t \<noteq> {}" using room by auto
    then obtain s' where n: "user_fault err (page_va k) t = Inr s'" "spaces_ok s' ?D" "memories s' ?D = memories t ?D" "kmm.more s' = kmm.more t"
      using cow_spaces [OF sp r(2) k refl 2(1) _ c r(1) refl _ 2(2)] err 2(1) by blast
    then show ?thesis
      using system_ok_more [OF ok n(2,4)] by (intro exI [of _ s']) (simp add: private_to_def system_memories_def)
  next
    case 3
    then show ?thesis using err private_same [OF ok refl] by (simp add: user_fault_def)
  qed
qed

lemma fork_private:
  fixes t :: "('d, 'a) kproc_scheme"
  assumes ok: "system_ok t" and c: "current t = Some c" and run: "sys_fork t = Inr (n, s')"
    and room: "3 * card {k \<in> text_pages. leaf (mem t) (cpu_root t) k \<noteq> 0} + 5 \<le> card (free_pages t)"
  shows "private_to c t s'"
proof -
  have r: "pgdir (procs t ! c) = cpu_root t" and Mc: "\<exists>v. system_memories t c = Some v"
    using ok c by (auto simp: system_ok_def system_memories_def memories_def directories_of_def)
  obtain xs where xs: "free_procs t xs" using ok by (auto simp: system_ok_def)
  have slot: "proc_head t \<noteq> None"
  proof
    assume "proc_head t = None"
    then have "free_procs t []" by (simp add: free_procs_def)
    then show False using alloc_proc_empty [of t] run by (simp add: sys_fork_def)
  qed
  note f = fork_system [OF ok c room [folded r] slot]
  obtain p where "system_memories t p = None" "system_ok s'" "system_memories s' = (system_memories t)(p := system_memories t c)"
    using f run by (cases "leaf (mem t) (pgdir (procs t ! c)) 0x8FFFE = 0") auto
  then show ?thesis using Mc private_fork [of "system_memories t" c _ p] by (auto simp: private_to_def)
qed

lemma uninterrupted_step_private:
  fixes s :: "('d, 'a) kvmx_scheme"
  assumes ok: "system_ok s" and c: "current s = Some c" and st: "uninterrupted_step env s s'"
  shows "private_to c s s'"
  using st
proof cases
  case (user_store_step c' va b m)
  then show ?thesis using store_private [OF ok c] by simp
next
  case (irq_step pt cr2)
  define t where "t = upd_proc c (\<lambda>p. p\<lparr>pregs := pt\<rparr>) s"
  note so = save_regs_ok [OF ok t_def]
  from irq_step(2) have "private_to c t s'"
  proof
    assume "trapnum pt = 0x20"
    then have "left_in (schedule t) = Some s'" using irq_step(3) c by (simp add: do_trap_def t_def [symmetric] left_in_bind [where f = "\<lambda>_. pt"])
    then show ?thesis by (rule schedule_private [OF so(1)])
  next
    assume "trapnum pt = 0x21"
    then obtain k d where "s' = t\<lparr>kcon := k, dev := d\<rparr>"
      using irq_step(3) c by (auto simp: do_trap_def t_def [symmetric] split: option.splits sum.splits)
    then show ?thesis using quiet_devices [of t d k] by (intro quiet_private [OF so(1)]) simp
  qed
  then show ?thesis using so(3) by (rule private_silent)
next
  case (fault_step pt cr2 k)
  define t where "t = upd_proc c (\<lambda>p. p\<lparr>pregs := pt\<rparr>) s"
  note so = save_regs_ok [OF ok t_def]
  have t: "current t = Some c" "mem t = mem s" "cpu_root t = cpu_root s" "free_pages t = free_pages s"
    using c by (simp_all add: t_def upd_proc_def cpu_root_def free_pages_def)
  obtain s1 where s1: "user_fault (err_code pt) (page_va k) t = Inr s1" "private_to c t s1"
    using fault_private [OF so(1) t(1) fault_step(5), of "err_code pt"] fault_step(6,7) unfolding t(2-4) by blast
  then have "do_trap env cr2 pt s = Ret pt s1"
    using fault_step(2,3,4) c by (simp add: do_trap_def page_fault_def t_def [symmetric])
  then have "s' = s1" using fault_step(8) by simp
  then show ?thesis using private_silent [OF s1(2) so(3)] by simp
next
  case (call_step pt cr2)
  define t where "t = upd_proc c (\<lambda>p. p\<lparr>pregs := pt\<rparr>) s"
  note so = save_regs_ok [OF ok t_def]
  have t: "current t = Some c" "mem t = mem s" "cpu_root t = cpu_root s" "free_pages t = free_pages s"
    using c by (simp_all add: t_def upd_proc_def cpu_root_def free_pages_def)
  have run: "left_in (do_syscall env (ucast (rax pt)) (rbx pt) (rcx pt) (rdx pt) (rsi pt) (rdi pt) t) = Some s'"
    using call_step(2,5) c by (simp add: do_trap_def t_def [symmetric] left_in_bind [where f = "\<lambda>r. pt\<lparr>rax := word_of_int r\<rparr>"])
  have "private_to c t s'"
  proof (cases "ucast (rax pt) \<in> {1, 2 :: u32}")
    case False
    then show ?thesis using plain_call_private [OF so(1) call_step(3) _ _ run] by simp
  next
    case True
    then consider "ucast (rax pt) = (1 :: u32)" | "ucast (rax pt) = (2 :: u32)" by blast
    then show ?thesis
    proof cases
      case 1
      then have "left_in (sys_exit t) = Some s'" using run by (simp add: do_syscall_def)
      moreover obtain q u where "sys_exit t = Run q u \<or> sys_exit t = Idle u" "system_ok u" "system_memories u = (system_memories t)(c := None)"
        using exit_system [OF so(1) t(1)] by blast
      moreover from this have "s' = u" using calculation by auto
      ultimately show ?thesis using private_exit by (simp add: private_to_def)
    next
      case 2
      then have "left_in (liftK (sys_fork t)) = Some s'" using run by (simp add: do_syscall_def)
      then obtain n where "sys_fork t = Inr (n, s')" by (cases "sys_fork t") auto
      then show ?thesis using call_step(4) 2 by (intro fork_private [OF so(1) t(1)]) (simp_all add: t)
    qed
  qed
  then show ?thesis using so(3) by (rule private_silent)
qed

section \<open>A system\<close>

text \<open>
  Processes 3 and 9 with empty memories, 9 running.  It touches the page below the end of its stack, stores a byte there,
  and forks.
\<close>

definition small_system :: "ready_drive kvmx" where
  "small_system = vm_machine\<lparr>cr3 := PAGE2PA 2\<rparr>"

lemma small_system_procs:
  "length (procs small_system) = 11" "current small_system = Some 9" "cpu_root small_system = PAGE2VA 2"
  "pgdir (procs small_system ! 3) = PAGE2VA 1" "pgdir (procs small_system ! 9) = PAGE2VA 2"
  "p < 11 \<Longrightarrow> p \<noteq> 3 \<Longrightarrow> p \<noteq> 9 \<Longrightarrow> pgdir (procs small_system ! p) = 0 \<and> status (procs small_system ! p) \<noteq> RUNNABLE"
  "pid (procs small_system ! 3) = 3" "pid (procs small_system ! 9) = 9" "proc_head small_system = Some 0" "proc_link (procs small_system ! 0) = None"
  by (simp_all add: small_system_def vm_machine_def proc_machine_def zero_proc_def cpu_root_def PAGE2VA_def nth_list_update)

lemma small_system_ok: "system_ok small_system" "free_pages small_system = {8..<2000}"
  "system_memories small_system = [3 \<mapsto> (\<lambda>k. None), 9 \<mapsto> (\<lambda>k. None)]"
proof -
  let ?s = small_system
  have e: "pages ?s = pages (machine 8 2000)" "phead ?s = phead (machine 8 2000)" "npages ?s = npages (machine 8 2000)"
    "mem ?s = (\<lambda>a. 0)" "kpgdir ?s = PAGE2VA 0"
    by (simp_all add: small_system_def vm_machine_def)
  show free: "free_pages ?s = {8..<2000}" using mm_cong(2) [OF e(1-3)] machine_facts(1) [of 8 2000] by simp
  have mm: "mm_inv ?s" using mm_cong(1) [OF e(1-3)] machine_facts(2) [of 8 2000] by simp
  have len: "length (pages ?s) = 2000" by (simp add: e machine_def)
  have refs: "f < 8 \<Longrightarrow> page_refs ?s f = 1" for f by (simp add: page_refs_def e(1) machine_def)
  have root: "own_space ?s (PAGE2VA f)" "tables ?s (PAGE2VA f) = {f}" if f: "f \<in> {1, 2}" for f
  proof -
    have inv: "pt_inv ?s (PAGE2VA f)" using f by (intro pt_inv_zero [OF mm e(4)]) (auto simp: len free)
    show t: "tables ?s (PAGE2VA f) = {f}"
      using f by (auto simp: tables_def e(4) node_zero PAGE2VA_inj upath_def len split: if_splits)
    show "own_space ?s (PAGE2VA f)"
      using inv f refs [of f] by (auto simp: own_space_def t e(4,5) confined_zero PAGE2VA_inj)
  qed
  have D: "directories_of ?s = [3 \<mapsto> PAGE2VA 1, 9 \<mapsto> PAGE2VA 2]"
  proof (rule ext)
    fix p
    have nz: "(PAGE2VA 1 :: u64) \<noteq> 0" "(PAGE2VA 2 :: u64) \<noteq> 0" by (simp_all add: PAGE2VA_def PAGE2PA_def KBASE_def)
    show "directories_of ?s p = [3 \<mapsto> PAGE2VA 1, 9 \<mapsto> PAGE2VA 2] p"
      using small_system_procs(6) [of p] nz
      by (cases "p = 3"; cases "p = 9"; cases "p < 11") (simp_all add: directories_of_def small_system_procs)
  qed
  have z: "leaf (mem ?s) r k = 0" for r k
    by (auto simp: leaf_def e(4) pte_of_def pte_addr_def vpath_def node_zero split: option.splits)
  have ent: "entries (mem ?s) (directories_of ?s) = (\<lambda>p k. 0)"
    by (auto simp: fun_eq_iff entries_def z split: option.splits)
  show "system_memories ?s = [3 \<mapsto> (\<lambda>k. None), 9 \<mapsto> (\<lambda>k. None)]"
    by (rule ext) (simp add: system_memories_def memories_def D contents_def z fun_eq_iff)
  have "spaces_ok ?s (directories_of ?s)"
    unfolding spaces_ok_def
  proof (intro conjI allI impI)
    show "kernel_root ?s"
      unfolding kernel_root_def e(5) by (intro exI [of _ 0]) (simp add: free e(4) load64_zero len)
    show "sharing_ok (entries (mem ?s) (directories_of ?s)) (page_refs ?s) (kernel_frames ?s (directories_of ?s) {})"
      unfolding ent by (rule sharingI) (simp_all add: holders_def)
    fix p r assume r: "directories_of ?s p = Some r"
    then show "own_space ?s r" using root(1) by (auto simp: D split: if_splits)
    fix q r' assume r': "directories_of ?s q = Some r'" "p \<noteq> q"
    show "tables ?s r \<inter> tables ?s r' = {}" using r r' root(2) [of 1] root(2) [of 2] by (auto simp: D split: if_splits)
  qed (rule mm)
  then show "system_ok ?s"
    unfolding system_ok_def
  proof (intro conjI allI impI)
    fix p assume p: "p < length (procs ?s)"
    show "p < 10" "pid (procs ?s ! p) = of_nat p" if "pgdir (procs ?s ! p) \<noteq> 0"
      using that p small_system_procs by (cases "p = 3"; cases "p = 9"; simp)+
    show "pgdir (procs ?s ! p) \<noteq> 0" if "status (procs ?s ! p) = RUNNABLE"
      using that p small_system_procs by (cases "p = 3"; cases "p = 9"; simp add: PAGE2VA_def PAGE2PA_def KBASE_def)
  next
    show "\<exists>xs. free_procs ?s xs \<and> (\<forall>x \<in> set xs. x < 10 \<and> pgdir (procs ?s ! x) = 0)"
      by (intro exI [of _ "[0]"]) (simp add: free_procs_def small_system_procs)
  next
    fix c assume "current ?s = Some c"
    then have "c = 9" using small_system_procs(2) by simp
    then show "c < length (procs ?s)" "pgdir (procs ?s ! c) \<noteq> 0" "cpu_root ?s = pgdir (procs ?s ! c)"
      using small_system_procs by (simp_all add: PAGE2VA_def PAGE2PA_def KBASE_def)
  qed (simp_all add: small_system_procs)
qed

lemma fault_fresh_step:
  fixes s :: "('d, 'a) kvmx_scheme"
  assumes ok: "system_ok s" and c: "current s = Some c" and k: "k \<in> win" "leaf (mem s) (cpu_root s) k = 0"
    and cr2: "cr2 div 4096 * 4096 = page_va k" and room: "4 \<le> card (free_pages s)"
  obtains v s' where "uninterrupted_step env s s'" "system_ok s'" "system_memories s c = Some v" "v k = None"
    "system_memories s' = (system_memories s)(c \<mapsto> v(k \<mapsto> replicate 4096 0))" "leaf (mem s') (cpu_root s') k AND 7 = 7"
    "card (free_pages s) \<le> card (free_pages s') + 4" "current s' = Some c" "proc_head s' = proc_head s"
proof -
  define t where "t = upd_proc c (\<lambda>p. p\<lparr>pregs := fault_regs 6\<rparr>) s"
  note so = save_regs_ok [OF ok t_def]
  have t: "current t = Some c" "mem t = mem s" "cpu_root t = cpu_root s" "free_pages t = free_pages s" "proc_head t = proc_head s" "cr3 t = cr3 s"
    using c by (simp_all add: t_def upd_proc_def cpu_root_def free_pages_def)
  have err: "(6 :: u64) AND 1 = 0" "(6 :: u64) AND 4 \<noteq> 0" by simp_all
  obtain v s' where n: "user_fault 6 (page_va k) t = Inr s'" "system_ok s'" "system_memories t c = Some v" "v k = None"
    "system_memories s' = (system_memories t)(c \<mapsto> v(k \<mapsto> replicate 4096 0))" "leaf (mem s') (cpu_root t) k AND 7 = 7"
    "card (free_pages t) \<le> card (free_pages s') + 4" "kmm.more s' = kmm.more t"
    using fault_fresh [OF so(1) t(1) k(1) k(2) [folded t(2,3)] err(1) room [folded t(4)]] by blast
  have "do_trap env cr2 (fault_regs 6) s = Ret (fault_regs 6) s'"
    using n(1) c cr2 unfolding t_def by (intro do_trap_page_fault) (simp_all add: fault_regs_def)
  then have "uninterrupted_step env s s'"
    using c k room cr2 by (intro uninterrupted_step.fault_step [of s "fault_regs 6" cr2 k]) (simp_all add: fault_regs_def)
  moreover have "cpu_root s' = cpu_root s" "current s' = Some c" "proc_head s' = proc_head s"
    using system_more [OF n(8)] t by (simp_all add: cpu_root_def)
  ultimately show thesis using that n(2-7) t so(3) by simp
qed

lemma no_page_leaf: "system_ok s \<Longrightarrow> current s = Some c \<Longrightarrow> system_memories s c = Some v \<Longrightarrow> v k = None \<longleftrightarrow> leaf (mem s) (cpu_root s) k = 0"
  by (auto simp: system_ok_def system_memories_def memories_def directories_of_def contents_def split: if_splits)

text \<open>The system call of a process \<open>c\<close> that forks, at a page of its own stack.\<close>

lemma fork_call:
  fixes s :: "('d, 'a) kvmx_scheme"
  assumes ok: "system_ok s" and c: "current s = Some c" and M: "system_memories s c = Some v" "v 0x8FFFE \<noteq> None" and slot: "proc_head s \<noteq> None"
    and room: "3 * card {k \<in> text_pages. v k \<noteq> None} + 5 \<le> card (free_pages s)"
    and pt: "trapnum pt = 20" "ucast (rax pt) = (2 :: u32)"
  obtains p s' where "do_trap env cr2 pt s = Ret (pt\<lparr>rax := of_nat p\<rparr>) s'" "uninterrupted_step env s s'" "system_ok s'" "p \<noteq> c"
    "system_memories s p = None" "system_memories s' = (system_memories s)(p \<mapsto> v)" "current s' = Some c"
    "\<And>k. k \<in> text_pages \<Longrightarrow> entries (mem s') (directories_of s') p k = entries (mem s') (directories_of s') c k"
proof -
  define t where "t = upd_proc c (\<lambda>p. p\<lparr>pregs := pt\<rparr>) s"
  note so = save_regs_ok [OF ok t_def]
  have t: "current t = Some c" "mem t = mem s" "cpu_root t = cpu_root s" "free_pages t = free_pages s" "proc_head t = proc_head s" "cr3 t = cr3 s"
    using c by (simp_all add: t_def upd_proc_def cpu_root_def free_pages_def)
  have r: "pgdir (procs t ! c) = cpu_root s" using so(1) t(1,3) by (simp add: system_ok_def)
  have l: "{k \<in> text_pages. leaf (mem s) (cpu_root s) k \<noteq> 0} = {k \<in> text_pages. v k \<noteq> None}"
    "leaf (mem s) (cpu_root s) 0x8FFFE \<noteq> 0"
    using no_page_leaf [OF ok c M(1)] M(2) by auto
  have slot': "proc_head t \<noteq> None" using slot t(5) by simp
  obtain p s' where f: "sys_fork t = Inr (int p, s')" "system_memories t p = None" "system_ok s'"
    "system_memories s' = (system_memories t)(p := system_memories t c)" "current s' = Some c" "p \<noteq> c"
    "\<forall>k \<in> text_pages. entries (mem s') (directories_of s') p k = entries (mem s') (directories_of s') c k"
    using fork_system(2) [OF so(1) t(1) _ slot', unfolded r t, OF room [folded l(1)] l(2)] t(1) by blast
  have run: "do_trap env cr2 pt s = Ret (pt\<lparr>rax := of_nat p\<rparr>) s'" for cr2
    using f(1) c pt by (simp add: do_trap_def t_def [symmetric] do_syscall_def)
  then have "left_in (do_trap env cr2 pt s) = Some s'" by simp
  then have "uninterrupted_step env s s'"
    using c room l(1) pt by (intro uninterrupted_step.call_step [of s pt]) (simp_all add: other_calls_def)
  then show thesis using that [OF run _ f(3,6) _ _ f(5)] f(2,4,7) so(3) t(1) M(1) by simp
qed

text \<open>The run: two pages, a byte, a child.\<close>

lemma small_run:
  fixes env :: "(ready_drive, ready_drive kvmx) kernel_env"
  obtains s2 v where "(uninterrupted_step env)\<^sup>*\<^sup>* small_system s2" "system_ok s2" "current s2 = Some 9" "proc_head s2 \<noteq> None"
    "v = [0x80000 \<mapsto> replicate 4096 0, 0x8FFFE \<mapsto> (replicate 4096 0)[8 := 42]]"
    "user_load (cpu_root s2) 0x8FFFE008 (mem s2) = Some 42" "system_memories s2 = [3 \<mapsto> (\<lambda>k. None), 9 \<mapsto> v]"
    "3 * card {k \<in> text_pages. v k \<noteq> None} + 5 \<le> card (free_pages s2)"
proof -
  note sm = small_system_ok
  have M0: "system_memories small_system 9 = Some (\<lambda>k. None)" by (simp add: sm(3))
  have win: "0x80000 \<in> win" "0x8FFFE \<in> win" by (simp_all add: win_def)
  have l0: "leaf (mem small_system) (cpu_root small_system) 0x80000 = 0"
    using no_page_leaf [OF sm(1) small_system_procs(2) M0] by simp
  have a0: "0x80000123 div 4096 * 4096 = page_va 0x80000" and a1: "0x8FFFE008 div 4096 * 4096 = page_va 0x8FFFE" by (simp_all add: page_va_def)
  have r0: "4 \<le> card (free_pages small_system)" by (simp add: sm(2))
  obtain u s0 where s0: "uninterrupted_step env small_system s0" "system_ok s0" "system_memories small_system 9 = Some u"
    "system_memories s0 = (system_memories small_system)(9 \<mapsto> u(0x80000 \<mapsto> replicate 4096 0))"
    "card (free_pages small_system) \<le> card (free_pages s0) + 4" "current s0 = Some 9" "proc_head s0 = proc_head small_system"
    using fault_fresh_step [OF sm(1) small_system_procs(2) win(1) l0 a0 r0, of env] by metis
  have u: "u = (\<lambda>k. None)" using s0(3) M0 by simp
  have M1: "system_memories s0 9 = Some [0x80000 \<mapsto> replicate 4096 0]" using s0(4) u by simp
  have l1: "leaf (mem s0) (cpu_root s0) 0x8FFFE = 0"
    using no_page_leaf [OF s0(2,6) M1, of "0x8FFFE"] by simp
  have r1: "1988 \<le> card (free_pages s0)" "4 \<le> card (free_pages s0)" using s0(5) by (simp_all add: sm(2))
  obtain v s1 where s1: "uninterrupted_step env s0 s1" "system_ok s1" "system_memories s0 9 = Some v"
    "system_memories s1 = (system_memories s0)(9 \<mapsto> v(0x8FFFE \<mapsto> replicate 4096 0))" "leaf (mem s1) (cpu_root s1) 0x8FFFE AND 7 = 7"
    "card (free_pages s0) \<le> card (free_pages s1) + 4" "current s1 = Some 9" "proc_head s1 = proc_head s0"
    using fault_fresh_step [OF s0(2,6) win(2) l1 a1 r1(2), of env] by metis
  have v: "v = [0x80000 \<mapsto> replicate 4096 0]" using s1(3) M1 by simp
  let ?va = "0x8FFFE008 :: u64" and ?e = "leaf (mem s1) (cpu_root s1) 0x8FFFE"
  have va: "unat ?va div 4096 = 0x8FFFE" "unat ?va mod 4096 = 8" "?va < 2 ^ 47" by simp_all
  have vpn: "vpn ?va = vpn (page_va 0x8FFFE)" by (simp add: vpn_def page_va_def)
  have e: "pte_of (mem s1) (cpu_root s1) ?va = ?e"
    using pte_of_page [OF vpn, of "mem s1" "cpu_root s1"] by (simp add: leaf_def)
  have bits: "?e AND 7 = 7" "?e AND 5 = 5" "?e AND 1 \<noteq> 0"
  proof -
    show 7: "?e AND 7 = 7" by (rule s1(5))
    have "?e AND 5 = (?e AND 7) AND 5" by (simp add: and.assoc)
    then show "?e AND 5 = 5" unfolding 7 by simp
    show "?e AND 1 \<noteq> 0" by (rule entry_bits(2) [OF 7])
  qed
  define m where "m = (mem s1)(PAGE2VA (frame_of ?e) + of_nat 8 := (42 :: u8))"
  note tr = user_translation [OF va(3) e bits(3), unfolded va(1,2)]
  have st: "user_store (cpu_root s1) ?va 42 (mem s1) = Inr m"
    unfolding user_store_def e using bits(1) va(3) vwrite_mmu [OF tr(2), of 42] by (simp add: m_def)
  define s2 where "s2 = s1\<lparr>mem := m\<rparr>"
  have D9: "directories_of s1 9 = Some (cpu_root s1)" and sp1: "spaces_ok s1 (directories_of s1)"
    using s1(2,7) by (simp_all add: system_ok_def directories_of_def)
  note ss = store_spaces [OF sp1 D9 st, folded s2_def, unfolded va(1,2)]
  have more: "kmm.more s2 = kmm.more s1" by (simp add: s2_def)
  note ok2 = system_ok_more [OF s1(2) ss(1) more]
  have k2: "uninterrupted_step env s1 s2" unfolding s2_def by (rule user_store_step [OF s1(7) st])
  define w :: space where "w = [0x80000 \<mapsto> replicate 4096 0, 0x8FFFE \<mapsto> (replicate 4096 0)[8 := 42]]"
  have M2: "system_memories s2 = [3 \<mapsto> (\<lambda>k. None), 9 \<mapsto> w]"
  proof -
    have M1: "memories s1 (directories_of s1) = [3 \<mapsto> (\<lambda>k. None), 9 \<mapsto> [0x80000 \<mapsto> replicate 4096 0, 0x8FFFE \<mapsto> replicate 4096 0]]"
      using s0(4) s1(4) by (simp add: system_memories_def [symmetric] u v sm(3))
    show ?thesis using ss(2) unfolding M1 system_memories_def ok2(2) by (auto simp: w_def)
  qed
  have c2: "current s2 = Some 9" "proc_head s2 \<noteq> None" "cpu_root s2 = cpu_root s1"
    using s0(7) s1(7,8) small_system_procs(9) by (simp_all add: s2_def cpu_root_def)
  have "leaf m (cpu_root s1) 0x8FFFE = ?e"
    using fun_cong [OF fun_cong [OF ss(3), of 9], of "0x8FFFE"] D9 by (simp add: entries_def)
  then have e2: "pte_of m (cpu_root s1) ?va = ?e" using pte_of_page [OF vpn, of m "cpu_root s1"] by (simp add: leaf_def)
  note tr2 = user_translation [OF va(3) e2 bits(3), unfolded va(1,2)]
  have ld: "user_load (cpu_root s2) ?va (mem s2) = Some 42"
  proof -
    have "vread (cpu_root s1) m ?va = Some 42" unfolding vread_mmu [OF tr2(2)] by (simp add: m_def)
    moreover have "mem s2 = m" by (simp add: s2_def)
    ultimately show ?thesis unfolding user_load_def c2(3) using e2 bits(2) va(3) by simp
  qed
  have "{k \<in> text_pages. w k \<noteq> None} = {0x80000}" by (auto simp: text_pages_def w_def)
  then have "card {k \<in> text_pages. w k \<noteq> None} = 1" by (metis card_1_singleton_iff One_nat_def)
  moreover have "free_pages s2 = free_pages s1" by (simp add: s2_def free_pages_def)
  ultimately have room: "3 * card {k \<in> text_pages. w k \<noteq> None} + 5 \<le> card (free_pages s2)"
    using s1(6) r1(1) by (simp only:)
  have "(uninterrupted_step env)\<^sup>*\<^sup>* small_system s2" using s0(1) s1(1) k2 by simp
  then show thesis using that [OF _ ok2(1) c2(1,2) w_def ld M2 room] by blast
qed

section \<open>Runs\<close>

interpretation processes: private_view system_ok "uninterrupted_step env" system_memories current private_step
  for env :: "('d, ('d, 'a) kvmx_scheme) kernel_env"
proof
  fix s s' :: "('d, 'a) kvmx_scheme" and c M M' q and v :: space
  show "uninterrupted_step env s s' \<Longrightarrow> current s \<noteq> None" by (auto elim: uninterrupted_stepE)
  show "system_ok s \<Longrightarrow> uninterrupted_step env s s' \<Longrightarrow> current s = Some c
      \<Longrightarrow> system_ok s' \<and> (system_memories s' = system_memories s \<or> private_step c (system_memories s) (system_memories s'))"
    using uninterrupted_step_private by (simp add: private_to_def)
  show "private_step c M M' \<Longrightarrow> q \<noteq> c \<Longrightarrow> M q = Some v \<Longrightarrow> M' q = Some v" by (rule private_step_other)
qed

text \<open>What the running program loads is the byte of its own memory.\<close>

lemma program_reads_own:
  assumes "system_ok s" and "current s = Some c" and "user_load (cpu_root s) va (mem s) = Some b"
  shows "\<exists>v. system_memories s c = Some v \<and> space_byte v va = Some b"
  using load_memory [of "directories_of s" c "cpu_root s" va s b] assms
  by (simp add: system_ok_def system_memories_def directories_of_def)

text \<open>C1. Virtual memory under uninterrupted activations.  From a system in order, any sequence of stores of user
  programs, timer and keyboard interrupts, page faults in the window during whose handler no interrupt comes, and system calls
  \<open>fork\<close>, \<open>exit\<close>, \<open>yield\<close>, \<open>waitpid\<close>, \<open>lseek\<close>, \<open>tprintf\<close>, \<open>opencons\<close> and those without a handler, with enough pages in the pool for each
  fault and fork, leaves the system in order and
  refines a run of processes that each have a memory of their own, and what the running program loads through the page tables is
  the byte of its memory there: copy-on-write sharing cannot be observed.  The calls \<open>read\<close>, \<open>write\<close>, \<open>open\<close>, \<open>execve\<close>, those of the
  virtual machine, other faults, and interrupts inside the handler of a page fault are not among the steps.\<close>

theorem private_memories:
  assumes "(uninterrupted_step env)\<^sup>*\<^sup>* s s'" and "system_ok s"
  shows "system_ok s' \<and> (\<lambda>M M'. \<exists>c. private_step c M M')\<^sup>*\<^sup>* (system_memories s) (system_memories s')
    \<and> (\<forall>c va b. current s' = Some c \<and> user_load (cpu_root s') va (mem s') = Some b
        \<longrightarrow> (\<exists>v. system_memories s' c = Some v \<and> space_byte v va = Some b))"
  using processes.run_refines [OF assms] program_reads_own by blast

text \<open>C2. Isolation under uninterrupted activations.  As long as process \<open>q\<close> does not run and the others only store to their
  memories, take timer and keyboard interrupts and page faults in the window during whose handler no interrupt comes, and make the
  calls \<open>fork\<close>, \<open>exit\<close>, \<open>yield\<close>, \<open>waitpid\<close>, \<open>lseek\<close>, \<open>tprintf\<close>, \<open>opencons\<close> and those without a handler, with enough pages in the pool for
  each fault and fork, the memory of \<open>q\<close> stays the same: the pages it has and each of their bytes.  Nothing is said of \<open>read\<close>, \<open>write\<close>, \<open>open\<close>, \<open>execve\<close>, the
  calls of the virtual machine and other faults.\<close>

theorem process_isolation:
  assumes "(\<lambda>s s'. uninterrupted_step env s s' \<and> current s \<noteq> Some q)\<^sup>*\<^sup>* s s'"
    and "system_ok s" and "system_memories s q = Some v"
  shows "system_ok s' \<and> system_memories s' q = Some v"
  using assms by (rule processes.run_frame)

lemma fork_regs: "trapnum (zero_regs\<lparr>trapnum := 20, rax := 2\<rparr>) = 20" "ucast (rax (zero_regs\<lparr>trapnum := 20, rax := 2\<rparr>)) = (2 :: u32)"
  by simp_all

theorem private_memories_witness:
  "\<forall>env :: (ready_drive, ready_drive kvmx) kernel_env. \<exists>s v. (uninterrupted_step env)\<^sup>*\<^sup>* small_system s \<and> system_ok s
     \<and> (\<lambda>M M'. \<exists>c. private_step c M M')\<^sup>*\<^sup>* [3 \<mapsto> (\<lambda>k. None), 9 \<mapsto> (\<lambda>k. None)] (system_memories s)
     \<and> user_load (cpu_root s) 0x8FFFE008 (mem s) = Some 42 \<and> system_memories s 9 = Some v \<and> space_byte v 0x8FFFE008 = Some 42"
proof
  fix env :: "(ready_drive, ready_drive kvmx) kernel_env"
  obtain s where s: "(uninterrupted_step env)\<^sup>*\<^sup>* small_system s" "system_ok s" "current s = Some 9" "user_load (cpu_root s) 0x8FFFE008 (mem s) = Some 42"
    by (rule small_run [of env]) (rule that; assumption)
  from private_memories [OF s(1) small_system_ok(1)] s
  show "\<exists>s v. (uninterrupted_step env)\<^sup>*\<^sup>* small_system s \<and> system_ok s
     \<and> (\<lambda>M M'. \<exists>c. private_step c M M')\<^sup>*\<^sup>* [3 \<mapsto> (\<lambda>k. None), 9 \<mapsto> (\<lambda>k. None)] (system_memories s)
     \<and> user_load (cpu_root s) 0x8FFFE008 (mem s) = Some 42 \<and> system_memories s 9 = Some v \<and> space_byte v 0x8FFFE008 = Some 42"
    unfolding small_system_ok(3) by blast
qed

text \<open>C3. The system call \<open>fork\<close> of a process with a stack page, a free slot in the table and three pages in the pool for each
  of its pages and five more: it returns the number of a process that had no memory and now has a copy of the caller's; the
  caller and all other processes keep theirs.\<close>

theorem fork_snapshot:
  fixes s :: "('d, 'a) kvmx_scheme"
  assumes "system_ok s" and "current s = Some c" and "system_memories s c = Some v" and "v 0x8FFFE \<noteq> None" and "proc_head s \<noteq> None"
    and "3 * card {k \<in> text_pages. v k \<noteq> None} + 5 \<le> card (free_pages s)" and "trapnum pt = 20" and "ucast (rax pt) = (2 :: u32)"
  shows "\<exists>p s'. do_trap env cr2 pt s = Ret (pt\<lparr>rax := of_nat p\<rparr>) s' \<and> system_ok s' \<and> p \<noteq> c
    \<and> system_memories s p = None \<and> system_memories s' = (system_memories s)(p \<mapsto> v)"
  using fork_call [OF assms, of env cr2] by metis

theorem fork_snapshot_witness:
  "\<forall>env :: (ready_drive, ready_drive kvmx) kernel_env. \<exists>s v p s'. do_trap env 0 (zero_regs\<lparr>trapnum := 20, rax := 2\<rparr>) s = Ret (zero_regs\<lparr>trapnum := 20, rax := of_nat p\<rparr>) s'
     \<and> p \<noteq> 9 \<and> v 0x8FFFE = Some ((replicate 4096 0)[8 := 42]) \<and> system_memories s' = [3 \<mapsto> (\<lambda>k. None), 9 \<mapsto> v, p \<mapsto> v]"
proof
  fix env :: "(ready_drive, ready_drive kvmx) kernel_env"
  obtain s2 v where s2: "(uninterrupted_step env)\<^sup>*\<^sup>* small_system s2" "system_ok s2" "current s2 = Some 9" "proc_head s2 \<noteq> None"
    "v = [0x80000 \<mapsto> replicate 4096 0, 0x8FFFE \<mapsto> (replicate 4096 0)[8 := 42]]" "system_memories s2 = [3 \<mapsto> (\<lambda>k. None), 9 \<mapsto> v]"
    "3 * card {k \<in> text_pages. v k \<noteq> None} + 5 \<le> card (free_pages s2)"
    by (rule small_run [of env]) (rule that; assumption)
  have M: "system_memories s2 9 = Some v" "v 0x8FFFE \<noteq> None" by (simp_all add: s2(5,6))
  have "v 0x8FFFE = Some ((replicate 4096 0)[8 := 42])" by (simp add: s2(5))
  then show "\<exists>s v p s'. do_trap env 0 (zero_regs\<lparr>trapnum := 20, rax := 2\<rparr>) s = Ret (zero_regs\<lparr>trapnum := 20, rax := of_nat p\<rparr>) s'
     \<and> p \<noteq> 9 \<and> v 0x8FFFE = Some ((replicate 4096 0)[8 := 42]) \<and> system_memories s' = [3 \<mapsto> (\<lambda>k. None), 9 \<mapsto> v, p \<mapsto> v]"
    using fork_snapshot [OF s2(2,3) M s2(4,7) fork_regs, of env 0] unfolding s2(6) by (auto simp del: fun_upd_apply)
qed

lemma exit_call:
  fixes s :: "('d, 'a) kvmx_scheme"
  assumes ok: "system_ok s" and c: "current s = Some c" and pt: "trapnum pt = 20" "ucast (rax pt) = (1 :: u32)"
  shows "\<exists>q s'. (do_trap env cr2 pt s = Run q s' \<or> do_trap env cr2 pt s = Idle s') \<and> uninterrupted_step env s s' \<and> system_ok s'
    \<and> system_memories s' = (system_memories s)(c := None)"
proof -
  define t where "t = upd_proc c (\<lambda>p. p\<lparr>pregs := pt\<rparr>) s"
  note so = save_regs_ok [OF ok t_def]
  have t: "current t = Some c" using c by (simp add: t_def upd_proc_def)
  obtain q s' where s': "sys_exit t = Run q s' \<or> sys_exit t = Idle s'" "system_ok s'" "system_memories s' = (system_memories t)(c := None)"
    using exit_system [OF so(1) t] by blast
  have run: "do_trap env cr2 pt s = Run q s' \<or> do_trap env cr2 pt s = Idle s'"
    using s'(1) c pt by (auto simp: do_trap_def t_def [symmetric] do_syscall_def)
  then have "left_in (do_trap env cr2 pt s) = Some s'" by auto
  then have "uninterrupted_step env s s'"
    using c pt by (intro uninterrupted_step.call_step [of s pt]) (simp_all add: other_calls_def)
  then show ?thesis using run s'(2,3) so(3) by auto
qed

text \<open>C7. The system call \<open>exit\<close> of the running process ends in every system in order: with another process or, when none
  is ready, with \<open>hlt\<close>; the process has no memory any more, and the other memories stay.\<close>

theorem exit_ends_process:
  fixes s :: "('d, 'a) kvmx_scheme"
  assumes "system_ok s" and "current s = Some c" and "trapnum pt = 20" and "ucast (rax pt) = (1 :: u32)"
  shows "\<exists>q s'. (do_trap env cr2 pt s = Run q s' \<or> do_trap env cr2 pt s = Idle s') \<and> system_ok s'
    \<and> system_memories s' = (system_memories s)(c := None)"
  using exit_call [OF assms] by blast

theorem exit_ends_process_witness:
  "\<forall>env :: (ready_drive, ready_drive kvmx) kernel_env. \<exists>q s'. (do_trap env 0 (zero_regs\<lparr>trapnum := 20, rax := 1\<rparr>) small_system = Run q s'
       \<or> do_trap env 0 (zero_regs\<lparr>trapnum := 20, rax := 1\<rparr>) small_system = Idle s') \<and> system_memories s' = [3 \<mapsto> (\<lambda>k. None)]"
proof
  fix env :: "(ready_drive, ready_drive kvmx) kernel_env"
  have pt: "trapnum (zero_regs\<lparr>trapnum := 20, rax := 1\<rparr>) = 20" "ucast (rax (zero_regs\<lparr>trapnum := 20, rax := 1\<rparr>)) = (1 :: u32)" by simp_all
  have "(system_memories small_system)(9 := None) = [3 \<mapsto> (\<lambda>k. None)]" by (auto simp: small_system_ok(3))
  then show "\<exists>q s'. (do_trap env 0 (zero_regs\<lparr>trapnum := 20, rax := 1\<rparr>) small_system = Run q s'
       \<or> do_trap env 0 (zero_regs\<lparr>trapnum := 20, rax := 1\<rparr>) small_system = Idle s') \<and> system_memories s' = [3 \<mapsto> (\<lambda>k. None)]"
    using exit_ends_process [OF small_system_ok(1) small_system_procs(2) pt, of env 0] by (simp only:) blast
qed

theorem process_isolation_witness:
  "\<forall>env :: (ready_drive, ready_drive kvmx) kernel_env. \<exists>s s' p v. (uninterrupted_step env)\<^sup>*\<^sup>* small_system s \<and> uninterrupted_step env s s'
     \<and> system_memories s' 9 = None \<and> system_memories s' p = Some v \<and> v 0x8FFFE = Some ((replicate 4096 0)[8 := 42])"
proof
  fix env :: "(ready_drive, ready_drive kvmx) kernel_env"
  obtain s2 v where s2: "(uninterrupted_step env)\<^sup>*\<^sup>* small_system s2" "system_ok s2" "current s2 = Some 9" "proc_head s2 \<noteq> None"
    "v = [0x80000 \<mapsto> replicate 4096 0, 0x8FFFE \<mapsto> (replicate 4096 0)[8 := 42]]" "system_memories s2 = [3 \<mapsto> (\<lambda>k. None), 9 \<mapsto> v]"
    "3 * card {k \<in> text_pages. v k \<noteq> None} + 5 \<le> card (free_pages s2)"
    by (rule small_run [of env]) (rule that; assumption)
  have M: "system_memories s2 9 = Some v" "v 0x8FFFE \<noteq> None" by (simp_all add: s2(5,6))
  obtain p s3 where s3: "uninterrupted_step env s2 s3" "system_ok s3" "p \<noteq> 9" "system_memories s3 = (system_memories s2)(p \<mapsto> v)" "current s3 = Some 9"
    by (rule fork_call [OF s2(2,3) M s2(4,7) fork_regs, of env 0]) (rule that; assumption)
  obtain s4 where s4: "uninterrupted_step env s3 s4" "system_memories s4 = (system_memories s3)(9 := None)"
    using exit_call [OF s3(2,5), of "zero_regs\<lparr>trapnum := 20, rax := 1\<rparr>" env] by auto
  have run: "(\<lambda>s s'. uninterrupted_step env s s' \<and> current s \<noteq> Some p)\<^sup>*\<^sup>* s3 s4" using s3(3,5) s4(1) by auto
  have "system_memories s3 p = Some v" using s3(4) by simp
  from process_isolation [OF run s3(2) this] have "system_memories s4 p = Some v" by simp
  moreover have "(uninterrupted_step env)\<^sup>*\<^sup>* small_system s3" using s2(1) s3(1) by simp
  moreover have "v 0x8FFFE = Some ((replicate 4096 0)[8 := 42])" by (simp add: s2(5))
  moreover have "system_memories s4 9 = None" using s4(2) by simp
  ultimately show "\<exists>s s' p v. (uninterrupted_step env)\<^sup>*\<^sup>* small_system s \<and> uninterrupted_step env s s'
     \<and> system_memories s' 9 = None \<and> system_memories s' p = Some v \<and> v 0x8FFFE = Some ((replicate 4096 0)[8 := 42])"
    using s4(1) by blast
qed

text \<open>C8. The way around copy on write.  After \<open>fork\<close>, a store of the kernel on behalf of the parent to one of the
  shared pages, as \<open>memcpy\<close> into the buffer of a system call makes it, does not fault (the kernel leaves CR0.WP clear)
  and changes the memory of the child.\<close>

theorem kernel_write_shared:
  fixes s :: "('d, 'a) kvmx_scheme"
  assumes ok: "system_ok s" "current s = Some c" "system_memories s c = Some v" "v 0x8FFFE \<noteq> None" "proc_head s \<noteq> None"
    "3 * card {k \<in> text_pages. v k \<noteq> None} + 5 \<le> card (free_pages s)" and pt: "trapnum pt = 20" "ucast (rax pt) = (2 :: u32)"
    and k: "k \<in> text_pages" "v k = Some bs" and i: "i < 4096"
  shows "\<exists>p s' m v'. do_trap env cr2 pt s = Ret (pt\<lparr>rax := of_nat p\<rparr>) s' \<and> p \<noteq> c \<and> current s' = Some c
    \<and> vwrite (cpu_root s') (page_va k + of_nat i) b (mem s') = Inr m
    \<and> system_memories (s'\<lparr>mem := m\<rparr>) p = Some v' \<and> v' k = Some (bs[i := b])"
proof -
  obtain p s' where f: "do_trap env cr2 pt s = Ret (pt\<lparr>rax := of_nat p\<rparr>) s'" "system_ok s'" "p \<noteq> c"
    "system_memories s' = (system_memories s)(p \<mapsto> v)" "current s' = Some c"
    "\<And>k. k \<in> text_pages \<Longrightarrow> entries (mem s') (directories_of s') p k = entries (mem s') (directories_of s') c k"
    by (rule fork_call [OF ok pt, of env cr2]) (rule that; assumption)
  let ?D = "directories_of s'" and ?r = "cpu_root s'"
  let ?e = "entries (mem s') ?D c k"
  have sp: "spaces_ok s' ?D" and Dc: "?D c = Some ?r" using f(2,5) by (simp_all add: system_ok_def directories_of_def)
  have k35: "k < 2 ^ 35" using k(1) by (auto simp: text_pages_def)
  have "system_memories s' p = Some v" using f(4) by simp
  then obtain d where d: "?D p = Some d" "contents (mem s') (entries (mem s') ?D p) = v"
    unfolding system_memories_def memories_entries by blast
  have bs: "?e \<noteq> 0" "page_bytes (mem s') (frame_of ?e) = bs"
    using k(2) f(6) [OF k(1)] unfolding d(2) [symmetric] by (auto simp: contents_def split: if_splits)
  define m where "m = (mem s')(PAGE2VA (frame_of ?e) + of_nat i := b)"
  note bw = byte_written [OF sp f(6) [OF k(1)] bs(1) i m_def]
  have w: "vwrite ?r (page_va k + of_nat i) b (mem s') = Inr m"
  proof -
    note pv = page_va_inside [OF k35 i]
    have "pte_of (mem s') ?r (page_va k + of_nat i) = pte_of (mem s') ?r (page_va k)"
      using pv(1) page_va_facts(1) [OF k35] by (intro pte_of_page) simp
    also have "\<dots> = ?e" using k35 by (simp add: entries_leaf [of ?D c, OF Dc] leaf_def)
    finally have "mmu (mem s') ?r (page_va k + of_nat i) = Some (PAGE2VA (frame_of ?e) + of_nat i)"
      using mmu_user [of "mem s'" ?r "page_va k + of_nat i" ?e] mapped_frame(6) [OF sp bs(1)] pv(3,4) by (simp add: table_of_frame)
    then show ?thesis unfolding m_def by (rule vwrite_mmu)
  qed
  have "directories_of (s'\<lparr>mem := m\<rparr>) = ?D" by (simp add: directories_of_def fun_eq_iff)
  then have "system_memories (s'\<lparr>mem := m\<rparr>) p = Some (contents m (entries (mem s') ?D p))"
    using bw(5) d(1) by (simp add: system_memories_def)
  moreover have "contents m (entries (mem s') ?D p) k = Some (bs[i := b])"
    using bw(4) bs f(6) [OF k(1)] by (simp add: contents_def)
  ultimately show ?thesis using f(1,3,5) w by blast
qed

theorem kernel_write_shared_witness:
  "\<forall>env :: (ready_drive, ready_drive kvmx) kernel_env. \<exists>s p s' m v'. do_trap env 0 (zero_regs\<lparr>trapnum := 20, rax := 2\<rparr>) s
       = Ret (zero_regs\<lparr>trapnum := 20, rax := of_nat p\<rparr>) s' \<and> p \<noteq> 9 \<and> current s' = Some 9
     \<and> vwrite (cpu_root s') 0x80000008 7 (mem s') = Inr m
     \<and> system_memories (s'\<lparr>mem := m\<rparr>) p = Some v' \<and> v' 0x80000 = Some ((replicate 4096 0)[8 := 7])"
proof
  fix env :: "(ready_drive, ready_drive kvmx) kernel_env"
  obtain s2 v where s2: "(uninterrupted_step env)\<^sup>*\<^sup>* small_system s2" "system_ok s2" "current s2 = Some 9" "proc_head s2 \<noteq> None"
    "v = [0x80000 \<mapsto> replicate 4096 0, 0x8FFFE \<mapsto> (replicate 4096 0)[8 := 42]]" "system_memories s2 = [3 \<mapsto> (\<lambda>k. None), 9 \<mapsto> v]"
    "3 * card {k \<in> text_pages. v k \<noteq> None} + 5 \<le> card (free_pages s2)"
    by (rule small_run [of env]) (rule that; assumption)
  have M: "system_memories s2 9 = Some v" "v 0x8FFFE \<noteq> None" "v 0x80000 = Some (replicate 4096 0)" by (simp_all add: s2(5,6))
  have k: "0x80000 \<in> text_pages" "(8 :: nat) < 4096" by (simp_all add: text_pages_def)
  have va: "page_va 0x80000 + of_nat 8 = 0x80000008" by (simp add: page_va_def)
  from kernel_write_shared [OF s2(2,3) M(1,2) s2(4,7) fork_regs k(1) M(3) k(2), of env 0 7, unfolded va]
  show "\<exists>s p s' m v'. do_trap env 0 (zero_regs\<lparr>trapnum := 20, rax := 2\<rparr>) s
       = Ret (zero_regs\<lparr>trapnum := 20, rax := of_nat p\<rparr>) s' \<and> p \<noteq> 9 \<and> current s' = Some 9
     \<and> vwrite (cpu_root s') 0x80000008 7 (mem s') = Inr m
     \<and> system_memories (s'\<lparr>mem := m\<rparr>) p = Some v' \<and> v' 0x80000 = Some ((replicate 4096 0)[8 := 7])"
    by (simp only: pt_regs.simps zero_regs_def) blast
qed

section \<open>An interrupt inside the handler of a page fault\<close>

text \<open>
  \<open>fault_begun\<close> is the handler of a fault on an absent page between its two calls: the registers of the program are saved, a page is taken.
\<close>

definition fault_begun :: "pt_regs \<Rightarrow> ('d, 'a) kproc_scheme \<Rightarrow> nat option \<times> ('d, 'a) kproc_scheme" where
  "fault_begun pt s = alloc_page 1 (case current s of None \<Rightarrow> s | Some c \<Rightarrow> upd_proc c (\<lambda>p. p\<lparr>pregs := pt\<rparr>) s)"

lemma fault_continued:
  assumes "current s = Some c" and "trapnum pt = 14" "err_code pt AND 4 \<noteq> 0" "err_code pt AND 1 = 0"
  shows "do_trap env cr2 pt s = (case fault_begun pt s of (pg, s1) \<Rightarrow>
    (case insert_page (pgdir (procs s1 ! c)) (cr2 div 4096 * 4096) pg 7 s1 of Inl e \<Rightarrow> Crash e | Inr (r, s2) \<Rightarrow> Ret pt s2))"
  using assms by (simp add: do_trap_def page_fault_def user_fault_def fault_begun_def fault_flags bindE_def split: prod.splits sum.splits)

lemma timer_runs:
  assumes ok: "system_ok s" and c: "current s = Some c" and pt: "trapnum pt = 0x20"
    and q: "find (\<lambda>i. status (procs s ! i) = RUNNABLE) (sched_order c) = Some q"
  obtains s' where "do_trap env cr2 pt s = Run q s'" "system_ok s'" "system_memories s' = system_memories s" "current s' = Some q"
    "procs s' = (procs s)[c := (procs s ! c)\<lparr>pregs := pt\<rparr>]" "mem s' = mem s" "free_pages s' = free_pages s"
proof -
  define t where "t = upd_proc c (\<lambda>p. p\<lparr>pregs := pt\<rparr>) s"
  note so = save_regs_ok [OF ok t_def]
  have t: "current t = Some c" "procs t = (procs s)[c := (procs s ! c)\<lparr>pregs := pt\<rparr>]" "mem t = mem s" "free_pages t = free_pages s"
    using c by (simp_all add: t_def upd_proc_def free_pages_def)
  have cl: "c < length (procs s)" "pgdir (procs s ! c) \<noteq> 0" using ok c by (simp_all add: system_ok_def)
  then have p: "pid (procs t ! c) = of_nat c" "c < 10" using ok by (simp_all add: system_ok_def t(2))
  have "status (procs t ! i) = status (procs s ! i)" for i
    using cl by (cases "i = c") (simp_all add: t(2))
  then have "schedule t = run_proc q t" using schedule_order [OF t(1) p] q by simp
  then have r: "schedule t = Run q ((lcr3 (pgdir (procs t ! q) - KBASE) t)\<lparr>current := Some q\<rparr>)" by (simp add: run_proc_def)
  let ?s = "(lcr3 (pgdir (procs t ! q) - KBASE) t)\<lparr>current := Some q\<rparr>"
  have run: "do_trap env cr2 pt s = Run q ?s" using c pt r by (simp add: do_trap_def t_def [symmetric])
  have s: "system_ok ?s" "system_memories ?s = system_memories s" using schedule_system [OF so(1) disjI1 [OF r]] so(3) by simp_all
  have "procs ?s = procs t" "mem ?s = mem t" "free_pages ?s = free_pages t" by (simp_all add: lcr3_def free_pages_def)
  then show thesis using that [OF run s] t by simp
qed

lemma taken_page_system:
  fixes s s1 :: "('d, 'a) kproc_scheme"
  assumes ok: "system_ok s" and al: "alloc_page 1 s = (Some f, s1)"
  shows "system_ok s1" and "system_memories s1 = system_memories s" and "f \<notin> free_pages s1"
    and "entries (mem s1) (directories_of s1) p k \<noteq> 0 \<Longrightarrow> frame_of (entries (mem s1) (directories_of s1) p k) \<noteq> f"
proof -
  have sp: "spaces_ok s (directories_of s)" using ok by (simp add: system_ok_def)
  have mm: "mm_inv s" using sp by (simp add: spaces_ok_def)
  note t = taken_page_spaces [OF sp al] and a = alloc_page_Some [OF mm al]
  note ok1 = system_ok_more [OF ok t(1) a(9)]
  show "system_ok s1" by (rule ok1(1))
  show "system_memories s1 = system_memories s" unfolding system_memories_def ok1(2) by (rule t(2))
  show "f \<notin> free_pages s1" by (simp add: a(3))
  show "entries (mem s1) (directories_of s1) p k \<noteq> 0 \<Longrightarrow> frame_of (entries (mem s1) (directories_of s1) p k) \<noteq> f"
    unfolding ok1(2) t(3) using mapped_frame(2) [OF sp, of p k] a(1) by auto
qed

text \<open>C16. The handler of a page fault can be interrupted, and then does not go on.  The gate of vector 14 is a
  trap gate, so the processor leaves interrupts enabled, where those of the system call and of the timer are interrupt gates.  A timer interrupt
  that comes after the handler has saved the registers of the program \<open>c\<close> and taken a page, with the frame \<open>kpt\<close> of the interrupted kernel,
  runs the next process \<open>q\<close>: the saved registers of \<open>c\<close> are now those of the frame \<open>kpt\<close>, no process has got the page and the pool has lost it, and all
  memories are as before the fault.  When \<open>c\<close> is next in turn it is started with the frame \<open>kpt\<close> in place of the registers of the program.
  Without the interrupt the handler would have gone on to \<open>insert_page\<close> with the page, and have returned to the program.\<close>

theorem fault_handler_preempted:
  fixes s :: "('d, 'a) kvmx_scheme"
  assumes ok: "system_ok s" and c: "current s = Some c"
    and fault: "trapnum pt = 14" "err_code pt AND 4 \<noteq> 0" "err_code pt AND 1 = 0" and begun: "fault_begun pt s = (Some f, s1)"
    and timer: "trapnum kpt = 0x20" "trapnum next_pt = 0x20" and "q \<noteq> c"
    and turn: "find (\<lambda>i. status (procs s ! i) = RUNNABLE) (sched_order c) = Some q"
      "find (\<lambda>i. status (procs s ! i) = RUNNABLE) (sched_order q) = Some c"
  shows "itype (idt_table (init_trap tss h t) 14) AND 0xF = 15 \<and> itype (idt_table (init_trap tss h t) 20) AND 0xF = 14
      \<and> itype (idt_table (init_trap tss h t) 32) AND 0xF = 14
    \<and> do_trap env cr2 pt s = (case insert_page (pgdir (procs s1 ! c)) (cr2 div 4096 * 4096) (Some f) 7 s1 of Inl e \<Rightarrow> Crash e | Inr (r, s2) \<Rightarrow> Ret pt s2)
    \<and> (\<exists>s2 s3. do_trap env cr2' kpt s1 = Run q s2 \<and> system_memories s2 = system_memories s \<and> f \<notin> free_pages s2
        \<and> (\<forall>p k. entries (mem s2) (directories_of s2) p k \<noteq> 0 \<longrightarrow> frame_of (entries (mem s2) (directories_of s2) p k) \<noteq> f)
        \<and> do_trap env cr2'' next_pt s2 = Run c s3 \<and> pregs (procs s3 ! c) = kpt \<and> system_memories s3 = system_memories s)"
proof (intro conjI)
  show "itype (idt_table (init_trap tss h t) 14) AND 0xF = 15" "itype (idt_table (init_trap tss h t) 20) AND 0xF = 14"
    "itype (idt_table (init_trap tss h t) 32) AND 0xF = 14"
    using gates64.trap_gates [OF init_trap_table(1) [of tss h t], of 14] gates64.trap_gates [OF init_trap_table(1) [of tss h t], of 20]
      gates64.trap_gates [OF init_trap_table(1) [of tss h t], of 32] by (simp_all add: trap_vectors_def)
  show "do_trap env cr2 pt s = (case insert_page (pgdir (procs s1 ! c)) (cr2 div 4096 * 4096) (Some f) 7 s1 of Inl e \<Rightarrow> Crash e | Inr (r, s2) \<Rightarrow> Ret pt s2)"
    using fault_continued [OF c fault, of env cr2] by (simp add: begun)
  define u where "u = upd_proc c (\<lambda>p. p\<lparr>pregs := pt\<rparr>) s"
  note so = save_regs_ok [OF ok u_def]
  have cl: "c < length (procs s)" using ok c by (simp add: system_ok_def)
  have u: "current u = Some c" "procs u = (procs s)[c := (procs s ! c)\<lparr>pregs := pt\<rparr>]" using c by (simp_all add: u_def upd_proc_def)
  have al: "alloc_page 1 u = (Some f, s1)" using begun c by (simp add: fault_begun_def u_def)
  note tk = taken_page_system [OF so(1) al]
  have "mm_inv u" using so(1) by (simp add: system_ok_def spaces_ok_def)
  note more = system_more [OF alloc_page_Some(9) [OF this al]]
  have st: "status (procs s1 ! i) = status (procs s ! i)" for i using cl by (cases "i = c") (simp_all add: more(1) u(2))
  have c1: "current s1 = Some c" using more(2) u(1) by simp
  obtain s2 where s2: "do_trap env cr2' kpt s1 = Run q s2" "system_ok s2" "system_memories s2 = system_memories s1" "current s2 = Some q"
    "procs s2 = (procs s1)[c := (procs s1 ! c)\<lparr>pregs := kpt\<rparr>]" "mem s2 = mem s1" "free_pages s2 = free_pages s1"
    by (rule timer_runs [OF tk(1) c1 timer(1)]) (use turn(1) st in simp, assumption)
  have st2: "status (procs s2 ! i) = status (procs s ! i)" for i using cl st [of i] by (cases "i = c") (simp_all add: s2(5) more(1) u(2))
  obtain s3 where s3: "do_trap env cr2'' next_pt s2 = Run c s3" "system_memories s3 = system_memories s2"
    "procs s3 = (procs s2)[q := (procs s2 ! q)\<lparr>pregs := next_pt\<rparr>]"
    by (rule timer_runs [OF s2(2,4) timer(2)]) (use turn(2) st2 in simp, assumption)
  have "pgdir (procs s2 ! x) = pgdir (procs s1 ! x)" "length (procs s2) = length (procs s1)" for x
    using cl by (cases "x = c"; simp add: s2(5) more(1) u(2))+
  then have "directories_of s2 = directories_of s1" by (simp add: directories_of_def fun_eq_iff)
  moreover have "pregs (procs s3 ! c) = kpt" using \<open>q \<noteq> c\<close> cl by (simp add: s3(3) s2(5) more(1) u(2))
  ultimately show "\<exists>s2 s3. do_trap env cr2' kpt s1 = Run q s2 \<and> system_memories s2 = system_memories s \<and> f \<notin> free_pages s2
      \<and> (\<forall>p k. entries (mem s2) (directories_of s2) p k \<noteq> 0 \<longrightarrow> frame_of (entries (mem s2) (directories_of s2) p k) \<noteq> f)
      \<and> do_trap env cr2'' next_pt s2 = Run c s3 \<and> pregs (procs s3 ! c) = kpt \<and> system_memories s3 = system_memories s"
    using s2(1,3,6,7) s3(1,2) tk(2-4) so(3) by (intro exI [of _ s2] exI [of _ s3]) simp
qed

theorem fault_handler_preempted_witness:
  "\<forall>env :: (ready_drive, ready_drive kvmx) kernel_env. \<exists>f s1 s2 s3. fault_begun (fault_regs 6) small_system = (Some f, s1)
     \<and> do_trap env 0 (zero_regs\<lparr>trapnum := 0x20, cs_sel := 8\<rparr>) s1 = Run 3 s2 \<and> do_trap env 0 (zero_regs\<lparr>trapnum := 0x20, cs_sel := 0x1b\<rparr>) s2 = Run 9 s3
     \<and> pregs (procs s3 ! 9) = zero_regs\<lparr>trapnum := 0x20, cs_sel := 8\<rparr>"
proof
  fix env :: "(ready_drive, ready_drive kvmx) kernel_env"
  note ok = small_system_ok(1) and c = small_system_procs(2)
  define u where "u = upd_proc 9 (\<lambda>p. p\<lparr>pregs := fault_regs 6\<rparr>) small_system"
  have "system_ok u" by (rule save_regs_ok(1) [OF ok u_def])
  then have mm: "mm_inv u" by (simp add: system_ok_def spaces_ok_def)
  have "free_pages u = free_pages small_system" by (simp add: u_def upd_proc_def free_pages_def)
  then have "free_pages u \<noteq> {}" by (simp add: small_system_ok(2))
  then obtain f s1 where al: "alloc_page 1 u = (Some f, s1)" using mm.alloc_succeeds [OF mm] by blast
  then have b: "fault_begun (fault_regs 6) small_system = (Some f, s1)" by (simp add: fault_begun_def c u_def)
  have pt: "trapnum (fault_regs 6) = 14" "err_code (fault_regs 6) AND 4 \<noteq> 0" "err_code (fault_regs 6) AND 1 = 0"
    by (simp_all add: fault_regs_def)
  have t: "trapnum (zero_regs\<lparr>trapnum := 0x20, cs_sel := 8\<rparr>) = 0x20" "trapnum (zero_regs\<lparr>trapnum := 0x20, cs_sel := 0x1b\<rparr>) = 0x20" by simp_all
  have st: "status (procs small_system ! i) = RUNNABLE \<longleftrightarrow> i = 3 \<or> i = 9" if "i < 11" for i
    using that by (simp add: small_system_def vm_machine_def proc_machine_status)
  have l: "sched_order 9 = [10, 1, 2, 3, 4, 5, 6, 7, 8, 9]" "sched_order 3 = [4, 5, 6, 7, 8, 9, 0, 1, 2, 3]"
    by (simp_all add: sched_order_def upt_rec)
  have "find (\<lambda>i. status (procs small_system ! i) = RUNNABLE) (sched_order 9) = Some 3"
    "find (\<lambda>i. status (procs small_system ! i) = RUNNABLE) (sched_order 3) = Some 9"
    by (simp_all add: l st)
  from fault_handler_preempted [where env = env and cr2' = 0 and cr2'' = 0, OF ok c pt b t _ this] obtain s2 s3 where
    "do_trap env 0 (zero_regs\<lparr>trapnum := 0x20, cs_sel := 8\<rparr>) s1 = Run 3 s2" "do_trap env 0 (zero_regs\<lparr>trapnum := 0x20, cs_sel := 0x1b\<rparr>) s2 = Run 9 s3"
    "pregs (procs s3 ! 9) = zero_regs\<lparr>trapnum := 0x20, cs_sel := 8\<rparr>" by fastforce
  with b show "\<exists>f s1 s2 s3. fault_begun (fault_regs 6) small_system = (Some f, s1)
     \<and> do_trap env 0 (zero_regs\<lparr>trapnum := 0x20, cs_sel := 8\<rparr>) s1 = Run 3 s2 \<and> do_trap env 0 (zero_regs\<lparr>trapnum := 0x20, cs_sel := 0x1b\<rparr>) s2 = Run 9 s3
     \<and> pregs (procs s3 ! 9) = zero_regs\<lparr>trapnum := 0x20, cs_sel := 8\<rparr>" by blast
qed

end
