(* ===== verification/I386.thy ===== *)
theory I386
  imports Fault
begin

text \<open>
  The i386 variant: the two-level page tables of \<^verbatim>\<open>kernel/mm.c\<close>, \<open>destroy_vm\<close> of \<^verbatim>\<open>kernel/proc.c\<close> and the descriptors, register dump
  and page faults of \<^verbatim>\<open>kernel/x86/trap.c\<close>, which \<^verbatim>\<open>config/x86.mk\<close> compiles with 32-bit longs and pointers, over the page directory \<^verbatim>\<open>kernel/x86/entry.S\<close> builds.
  The state is that of the other theories; a 32-bit address is the byte at its zero-extension, and all kernel addresses are taken as
  mapped, where \<^verbatim>\<open>entry.S\<close> maps 4 MB.
\<close>

section \<open>Addresses\<close>

definition UTEXT32 :: u32 where
  "UTEXT32 = 0x8048000"

definition KBASE32 :: u32 where
  "KBASE32 = 0xC000000"

definition KPA2VA32 :: "u32 \<Rightarrow> u32" where
  "KPA2VA32 pa = pa + 0xC0000000"

definition PAGE2PA32 :: "nat \<Rightarrow> u32" where
  "PAGE2PA32 p = push_bit 12 (of_nat p)"

definition PAGE2VA32 :: "nat \<Rightarrow> u32" where
  "PAGE2VA32 p = 0xC0000000 + PAGE2PA32 p"

definition VA2PAGE32 :: "u32 \<Rightarrow> nat" where
  "VA2PAGE32 va = unat (drop_bit 22 (va - 0xC0000000))"

section \<open>Page tables\<close>

definition alloc_page32 :: "u32 \<Rightarrow> 'a kmm_scheme \<Rightarrow> nat option \<times> 'a kmm_scheme" where
  "alloc_page32 flags s =
     (case phead s of
        None \<Rightarrow> (None, s)
      | Some p \<Rightarrow>
          let s1 = s\<lparr>phead := link (pages s ! p)\<rparr>;
              s2 = (if flags AND 1 \<noteq> 0 then s1\<lparr>mem := memset (mem s1) (ucast (PAGE2VA32 p)) 0 4096\<rparr> else s1);
              pg = pages s2 ! p
          in (Some p, s2\<lparr>pages := (pages s2)[p := pg\<lparr>count := count pg + 1\<rparr>]\<rparr>))"

text \<open>With an empty pool the code goes on with a null page; here that is a fault.\<close>

definition walk_page32 :: "u32 \<Rightarrow> u32 \<Rightarrow> int \<Rightarrow> 'a kmm_scheme \<Rightarrow> (int \<times> u32 \<times> 'a kmm_scheme) outcome" where
  "walk_page32 dir va create s =
     (let at = dir + 4 * drop_bit 22 va; pteindex = drop_bit 12 va AND 0x3ff; e = load32 (mem s) (ucast at)
      in if e AND 1 \<noteq> 0 then Inr (0, KPA2VA32 (e AND 0xfffff000) + 4 * pteindex, s)
         else if create = 1 then
           (case alloc_page32 1 s of
              (None, s1) \<Rightarrow> Inl NullPointer
            | (Some p, s1) \<Rightarrow>
                Inr (0, PAGE2VA32 p + 4 * pteindex, s1\<lparr>mem := store32 (mem s1) (ucast at) (PAGE2PA32 p OR 7)\<rparr>))
         else Inr (- 1, 0, s))"

definition insert_page32 :: "u32 \<Rightarrow> u32 \<Rightarrow> nat option \<Rightarrow> u32 \<Rightarrow> 'a kmm_scheme \<Rightarrow> (int \<times> 'a kmm_scheme) outcome" where
  "insert_page32 dir va pg flag s =
     (case pg of
        None \<Rightarrow> Inr (- 1, s)
      | Some p \<Rightarrow>
          bindE (walk_page32 dir va 1 s) (\<lambda>(r, a, s1).
            if r < 0 then Inr (r, s1)
            else Inr (0, s1\<lparr>mem := store32 (mem s1) (ucast a) (PAGE2PA32 p OR flag)\<rparr>)))"

definition remove_page32 :: "u32 \<Rightarrow> u32 \<Rightarrow> 'a kmm_scheme \<Rightarrow> (int \<times> 'a kmm_scheme) outcome" where
  "remove_page32 dir va s =
     bindE (walk_page32 dir va 0 s) (\<lambda>(r, a, s1).
       if r < 0 then Inr (r, s1)
       else let e = load32 (mem s1) (ucast a); i = unat (drop_bit 12 e)
            in if e AND 1 \<noteq> 0 then
                 (if i < length (pages s1)
                  then (let s2 = free_page (Some i) s1 in Inr (0, s2\<lparr>mem := store32 (mem s2) (ucast a) 0\<rparr>))
                  else Inl BadIndex)
               else Inr (0, s1\<lparr>mem := store32 (mem s1) (ucast a) 0\<rparr>))"

section \<open>The directory of the kernel, and its copies\<close>

text \<open>
  \<^verbatim>\<open>entry.S\<close>: a table at page \<open>kt\<close> for the first 4 MB, entered twice in the directory at page \<open>kd\<close>, for the addresses of
  the start and those of the kernel.
\<close>

definition entry_tables32 :: "nat \<Rightarrow> nat \<Rightarrow> mem \<Rightarrow> mem" where
  "entry_tables32 kd kt m =
     (let m1 = fold (\<lambda>i m. store32 m (ucast (PAGE2VA32 kt + 4 * of_nat i)) (of_nat i * 4096 OR 3)) [0..<1024] m;
          m2 = store32 m1 (ucast (PAGE2VA32 kd + 4 * of_nat 0)) (PAGE2PA32 kt OR 3)
      in store32 m2 (ucast (PAGE2VA32 kd + 4 * of_nat 768)) (PAGE2PA32 kt OR 3))"

definition alloc_vm32 :: "u32 \<Rightarrow> 'a kmm_scheme \<Rightarrow> u32 \<times> 'a kmm_scheme" where
  "alloc_vm32 dir s =
     (case alloc_page32 1 s of
        (None, s1) \<Rightarrow> (0, s1)
      | (Some p, s1) \<Rightarrow> (PAGE2VA32 p, s1\<lparr>mem := memcpy (mem s1) (ucast (PAGE2VA32 p)) (ucast dir) 4096\<rparr>))"

section \<open>The end of an address space\<close>

fun remove_pages32 :: "u32 \<Rightarrow> u32 \<Rightarrow> nat \<Rightarrow> 'a kmm_scheme \<Rightarrow> 'a kmm_scheme outcome" where
  "remove_pages32 dir addr 0 s = Inr s"
| "remove_pages32 dir addr (Suc n) s =
     bindE (remove_page32 dir addr s) (\<lambda>(r, s1). remove_pages32 dir (addr + 4096) n s1)"

text \<open>The loop over the addresses frees the table of each address.\<close>

fun free_tables32 :: "u32 \<Rightarrow> u32 \<Rightarrow> nat \<Rightarrow> 'a kmm_scheme \<Rightarrow> 'a kmm_scheme outcome" where
  "free_tables32 dir addr 0 s = Inr s"
| "free_tables32 dir addr (Suc n) s =
     (let pde = load32 (mem s) (ucast (dir + 4 * drop_bit 22 addr)); i = unat (drop_bit 12 (pde AND 0xfffff000))
      in if pde AND 1 \<noteq> 0 then
           (if i < length (pages s) then free_tables32 dir (addr + 4096) n (free_page (Some i) s) else Inl BadIndex)
         else free_tables32 dir (addr + 4096) n s)"

definition user_pages32 :: nat where
  "user_pages32 = unat ((KBASE32 - UTEXT32) div 4096)"

definition destroy_vm32 :: "nat \<Rightarrow> ('d, 'a) kproc_scheme \<Rightarrow> ('d, 'a) kproc_scheme outcome" where
  "destroy_vm32 p s =
     (let dir = ucast (pgdir (procs s ! p)) in
      bindE (remove_pages32 dir UTEXT32 user_pages32 s) (\<lambda>s1.
      bindE (free_tables32 dir UTEXT32 user_pages32 s1) (\<lambda>s2.
      if VA2PAGE32 dir < length (pages s2)
      then Inr (upd_proc p (\<lambda>pr. pr\<lparr>pgdir := 0\<rparr>) (free_page (Some (VA2PAGE32 dir)) s2))
      else Inl BadIndex)))"

section \<open>Descriptors\<close>

record gdt_desc32 =
  g_limit0 :: u16
  g_base0 :: u16
  g_base1 :: u8
  g_type :: u8
  g_limit1 :: u8
  g_base2 :: u8

record idt_desc32 =
  i_offset0 :: u16
  i_selector :: u16
  i_reserve :: u8
  i_type :: u8
  i_offset1 :: u16

definition idt_entry32 :: "u32 \<Rightarrow> u8 \<Rightarrow> idt_desc32" where
  "idt_entry32 addr ty =
     \<lparr>i_offset0 = ucast (addr AND 0xffff), i_selector = 0x08, i_reserve = 0, i_type = ty,
      i_offset1 = ucast (drop_bit 16 addr AND 0xffff)\<rparr>"

definition set_idt_desc32 :: "u8 \<Rightarrow> u32 \<Rightarrow> u8 \<Rightarrow> (u8 \<Rightarrow> idt_desc32) \<Rightarrow> u8 \<Rightarrow> idt_desc32" where
  "set_idt_desc32 idtno addr ty idt = idt(idtno := idt_entry32 addr ty)"

definition set_tss_desc32 :: "u32 \<Rightarrow> u32 \<Rightarrow> u8 \<Rightarrow> gdt_desc32" where
  "set_tss_desc32 addr limit ty =
     \<lparr>g_limit0 = ucast (limit AND 0xffff), g_base0 = ucast (addr AND 0xffff),
      g_base1 = ucast (drop_bit 16 addr AND 0xff), g_type = ty, g_limit1 = 0,
      g_base2 = ucast (drop_bit 24 addr AND 0xff)\<rparr>"

record cpu_tables32 =
  tss_desc32 :: gdt_desc32
  idt_table32 :: "u8 \<Rightarrow> idt_desc32"
  task_register32 :: u16

text \<open>\<open>struct tss_struct\<close> as the sizes of its fields in order, and the initial value of \<open>tss\<close>.\<close>

definition tss_fields32 :: "(string \<times> nat) list" where
  "tss_fields32 =
     [(''link'', 2), (''linkh'', 2), (''esp0'', 4), (''ss0'', 2), (''ss0h'', 2), (''esp1'', 4), (''ss1'', 2), (''ss1h'', 2),
      (''esp2'', 4), (''ss2'', 2), (''ss2h'', 2), (''cr3'', 4), (''eip'', 4), (''eflags'', 4), (''eax'', 4), (''ecx'', 4),
      (''edx'', 4), (''ebx'', 4), (''esp'', 4), (''ebp'', 4), (''esi'', 4), (''edi'', 4), (''es'', 2), (''esh'', 2),
      (''cs'', 2), (''csh'', 2), (''ss'', 2), (''ssh'', 2), (''ds'', 2), (''dsh'', 2), (''fs'', 2), (''fsh'', 2),
      (''gs'', 2), (''gsh'', 2), (''ldt'', 2), (''ldth'', 2), (''trap'', 2), (''iomap'', 2)]"

definition sizeof_tss32 :: u32 where
  "sizeof_tss32 = of_nat (sum_list (map snd tss_fields32))"

definition tss32 :: "u32 \<Rightarrow> u8 list" where
  "tss32 stacktop = concat (map2 (\<lambda>(name, n) v. bytes_of_word n v) tss_fields32 ([0, 0, stacktop, 0x10] @ replicate 34 0))"

definition init_cpu32 :: "u32 \<Rightarrow> cpu_tables32 \<Rightarrow> cpu_tables32" where
  "init_cpu32 tss t = t\<lparr>tss_desc32 := set_tss_desc32 tss sizeof_tss32 0x89, task_register32 := 0x28\<rparr>"

definition init_trap32 :: "u32 \<Rightarrow> (u8 \<Rightarrow> u32) \<Rightarrow> cpu_tables32 \<Rightarrow> cpu_tables32" where
  "init_trap32 tss handler t =
     (let gate = (\<lambda>(n, ty). set_idt_desc32 n (handler n) ty);
          t1 = t\<lparr>idt_table32 := fold gate
            [(0, 0x8F), (1, 0x8F), (3, 0xEF), (4, 0xEF), (5, 0xEF), (6, 0xEF), (7, 0xEF), (8, 0xEF), (9, 0xEF),
             (10, 0xEF), (11, 0xEF), (12, 0xEF), (13, 0xEF), (14, 0xEF), (16, 0xEF), (20, 0xEE)] (idt_table32 t)\<rparr>;
          t2 = init_cpu32 tss t1
      in t2\<lparr>idt_table32 := fold gate [(32, 0x8E), (32 + 1, 0x8E)] (idt_table32 t2)\<rparr>)"

section \<open>Traps\<close>

record pt_regs32 =
  r_edi :: u32
  r_esi :: u32
  r_ebp :: u32
  r_exx :: u32
  r_ebx :: u32
  r_edx :: u32
  r_ecx :: u32
  r_eax :: u32
  r_ds :: u32
  r_es :: u32
  r_num :: u32
  r_err_code :: u32
  r_eip :: u32
  r_cs :: u32
  r_eflags :: u32
  r_esp :: u32
  r_ss :: u32

fun print_lines32 :: "(string \<times> u32) list \<Rightarrow> con \<Rightarrow> con outcome" where
  "print_lines32 [] k = Inr k"
| "print_lines32 ((name, v) # ls) k =
     bindE (print (name @ ''%x'' @ [CHR 0x0A]) [AWord (ucast v)] k) (\<lambda>(n, k1). print_lines32 ls k1)"

definition print_regs32 :: "pt_regs32 \<Rightarrow> con \<Rightarrow> con outcome" where
  "print_regs32 pt k =
     bindE (print (''==========pt_reg begin============'' @ [CHR 0x0A]) [] k) (\<lambda>(n, k1).
     bindE (print_lines32
       [(''ebx     '', r_ebx pt), (''edx     '', r_edx pt), (''ecx     '', r_ecx pt), (''eax     '', r_eax pt),
        (''ds      '', r_ds pt), (''es      '', r_es pt), (''trapno  '', r_num pt), (''errcode '', r_err_code pt),
        (''eip     '', r_eip pt), (''cs      '', r_cs pt), (''eflags  '', r_eflags pt), (''esp     '', r_esp pt),
        (''ss      '', r_ss pt)] k1) (\<lambda>k2.
     bindE (print (''==========pt_reg end ============'' @ [CHR 0x0A]) [] k2) (\<lambda>(n, k3). Inr k3)))"

text \<open>
  The tables as the processor follows them: the directory at \<open>root\<close>, kernel addresses mapped one to one; a copy between such addresses.
\<close>

definition mmu32 :: "mem \<Rightarrow> u32 \<Rightarrow> u32 \<Rightarrow> u32 option" where
  "mmu32 m root va =
     (if 0xC0000000 \<le> va then Some va
      else let e = load32 m (ucast (root + 4 * drop_bit 22 va));
               d = load32 m (ucast (KPA2VA32 (e AND 0xfffff000) + 4 * (drop_bit 12 va AND 0x3ff)))
           in if e AND 1 \<noteq> 0 \<and> d AND 1 \<noteq> 0 then Some (KPA2VA32 (d AND 0xfffff000) + (va AND 0xFFF)) else None)"

fun copy32 :: "u32 \<Rightarrow> u32 \<Rightarrow> u32 \<Rightarrow> nat \<Rightarrow> mem \<Rightarrow> mem outcome" where
  "copy32 root d a 0 m = Inr m"
| "copy32 root d a (Suc n) m =
     (case (mmu32 m root a, mmu32 m root d) of
        (Some x, Some y) \<Rightarrow> copy32 root (d + 1) (a + 1) n (m(ucast y := m (ucast x)))
      | _ \<Rightarrow> Inl BadAddress)"

text \<open>Case 14 of \<open>do_trap\<close>, for the address the processor left in CR2.\<close>

definition user_fault32 :: "u32 \<Rightarrow> u32 \<Rightarrow> ('d, 'a) kproc_scheme \<Rightarrow> ('d, 'a) kproc_scheme outcome" where
  "user_fault32 err va s =
     (if err AND 0x1 = 0 then
        (case current s of
           None \<Rightarrow> Inl NullPointer
         | Some c \<Rightarrow>
             (case alloc_page32 1 s of (pg, s1) \<Rightarrow>
              bindE (insert_page32 (ucast (pgdir (procs s1 ! c))) va pg 7 s1) (\<lambda>(r, s2). Inr s2)))
      else if err AND 0x2 \<noteq> 0 then
        (case alloc_page32 1 s of
           (None, s1) \<Rightarrow> Inl NullPointer
         | (Some pg, s1) \<Rightarrow>
             bindE (copy32 (KPA2VA32 (ucast (cr3 s1))) (PAGE2VA32 pg) va 4096 (mem s1)) (\<lambda>m.
             case current s1 of
               None \<Rightarrow> Inl NullPointer
             | Some c \<Rightarrow>
                 bindE (remove_page32 (ucast (pgdir (procs s1 ! c))) va (s1\<lparr>mem := m\<rparr>)) (\<lambda>(r, s2).
                 bindE (insert_page32 (ucast (pgdir (procs s2 ! c))) va (Some pg) 7 s2) (\<lambda>(r2, s3).
                 Inr s3))))
      else Inr s)"

definition page_fault32 :: "u32 \<Rightarrow> pt_regs32 \<Rightarrow> ('d, 'a) kproc_scheme \<Rightarrow> (pt_regs32, ('d, 'a) kproc_scheme) kres" where
  "page_fault32 cr2 pt s =
     (if r_err_code pt AND 0x4 = 0 then
        (case bindE (print_regs32 pt (kcon s)) (panic ''page fault in kernel'') of
           Inl e \<Rightarrow> Crash e
         | Inr k \<Rightarrow> Idle (s\<lparr>kcon := k\<rparr>))
      else (case user_fault32 (r_err_code pt) (cr2 AND 0xfffff000) s of
              Inl e \<Rightarrow> Crash e | Inr s1 \<Rightarrow> Ret pt s1))"

section \<open>Directories and tables\<close>

definition ent32 :: "mem \<Rightarrow> nat \<Rightarrow> nat \<Rightarrow> u32" where
  "ent32 m f i = load32 m (ucast (PAGE2VA32 f + 4 * of_nat i))"

definition frame32 :: "u32 \<Rightarrow> nat" where
  "frame32 e = unat (drop_bit 12 e)"

definition dirno :: "u32 \<Rightarrow> nat" where
  "dirno va = unat (drop_bit 22 va)"

definition tabno :: "u32 \<Rightarrow> nat" where
  "tabno va = unat (drop_bit 12 va AND 0x3ff)"

lemma unat_u32_less': "unat (w :: u32) < 2 ^ 32"
  using unsigned_less [of w] by simp

lemma dirno_less: "dirno va < 1024" and tabno_less: "tabno va < 1024"
proof -
  have "dirno va = unat va div 2 ^ 22" by (simp add: dirno_def drop_bit_eq_div unat_div)
  moreover have "unat va < 2 ^ 32" by (rule unat_u32_less')
  ultimately show "dirno va < 1024" by simp
  have "drop_bit 12 va AND 0x3ff \<le> 0x3ff" by (rule word_and_le1)
  then show "tabno va < 1024" by (simp add: tabno_def word_le_nat_alt)
qed

lemma page_no: "drop_bit 12 va' = drop_bit 12 va \<longleftrightarrow> dirno va' = dirno va \<and> tabno va' = tabno va"
proof
  have m: "(0x3ff :: u32) = mask 10" by (simp add: mask_eq_exp_minus_1)
  assume "dirno va' = dirno va \<and> tabno va' = tabno va"
  then have e: "drop_bit 22 va' = drop_bit 22 va" "drop_bit 12 va' AND mask 10 = drop_bit 12 va AND mask 10"
    by (simp_all add: dirno_def tabno_def word_unat_eq_iff m)
  show "drop_bit 12 va' = drop_bit 12 va"
  proof (rule bit_word_eqI)
    fix n assume n: "n < LENGTH(32)"
    show "bit (drop_bit 12 va') n = bit (drop_bit 12 va) n"
    proof (cases "n < 10")
      case True
      have "bit (drop_bit 12 va' AND mask 10) n = bit (drop_bit 12 va AND mask 10) n" by (simp only: e(2))
      then show ?thesis using True n by (simp add: bit_simps)
    next
      case False
      have "bit (drop_bit 22 va') (n - 10) = bit (drop_bit 22 va) (n - 10)" by (simp only: e(1))
      moreover have "22 + (n - 10) = 12 + n" using False by simp
      ultimately show ?thesis by (simp add: bit_drop_bit_eq)
    qed
  qed
next
  assume e: "drop_bit 12 va' = drop_bit 12 va"
  have d: "drop_bit 22 w = drop_bit 10 (drop_bit 12 w)" for w :: u32 by simp
  show "dirno va' = dirno va \<and> tabno va' = tabno va" unfolding dirno_def tabno_def d e by simp
qed

lemma table_base: "KPA2VA32 (e AND 0xfffff000) = PAGE2VA32 (frame32 e)"
proof -
  have m: "(0xfffff000 :: u32) = NOT (mask 12)" by (simp add: mask_eq_exp_minus_1)
  have "e AND 0xfffff000 = push_bit 12 (drop_bit 12 e)"
  proof (rule bit_word_eqI)
    fix n assume "n < LENGTH(32)"
    then show "bit (e AND 0xfffff000) n = bit (push_bit 12 (drop_bit 12 e)) n" unfolding m by (auto simp: bit_simps)
  qed
  then show ?thesis by (simp add: KPA2VA32_def PAGE2VA32_def PAGE2PA32_def frame32_def add.commute)
qed

lemma entry32_at:
  assumes "f < 2 ^ 18" "i < 1024"
  shows "(ucast (PAGE2VA32 f + 4 * of_nat i :: u32) :: u64) = 0xC0000000 + of_nat (4096 * f + 4 * i)"
proof -
  have "PAGE2VA32 f + 4 * of_nat i = of_nat (0xC0000000 + 4096 * f + 4 * i)"
    by (simp add: PAGE2VA32_def PAGE2PA32_def push_bit_eq_mult)
  moreover have "0xC0000000 + 4096 * f + 4 * i < 2 ^ 32" using assms by simp
  ultimately have "unat (PAGE2VA32 f + 4 * of_nat i :: u32) = 0xC0000000 + 4096 * f + 4 * i"
    by (simp only: unat_of_nat_small) (rule unat_of_nat_small, simp)
  moreover have "(ucast (PAGE2VA32 f + 4 * of_nat i :: u32) :: u64) = of_nat (unat (PAGE2VA32 f + 4 * of_nat i :: u32))" by simp
  ultimately have "(ucast (PAGE2VA32 f + 4 * of_nat i :: u32) :: u64) = of_nat (0xC0000000 + 4096 * f + 4 * i)" by (simp only:)
  then show ?thesis by simp
qed

lemma page32_at: "f < 2 ^ 18 \<Longrightarrow> (ucast (PAGE2VA32 f) :: u64) = 0xC0000000 + of_nat (4096 * f)"
  using entry32_at [of f 0] by simp

lemma ent32_store:
  assumes "f < 2 ^ 18" "g < 2 ^ 18" "i < 1024" "j < 1024"
  shows "ent32 (store32 m (ucast (PAGE2VA32 g + 4 * of_nat j)) e) f i = (if f = g \<and> i = j then e else ent32 m f i)"
proof (cases "f = g \<and> i = j")
  case False
  then have "4096 * g + 4 * j + 4 \<le> 4096 * f + 4 * i \<or> 4096 * f + 4 * i + 4 \<le> 4096 * g + 4 * j"
    using assms(3,4) by (cases f g rule: linorder_cases; cases i j rule: linorder_cases) auto
  then have "apart (0xC0000000 + of_nat (4096 * g + 4 * j)) 4 (0xC0000000 + of_nat (4096 * f + 4 * i)) 4"
    using assms by (intro apart_offset) simp_all
  then have "ent32 (store32 m (ucast (PAGE2VA32 g + 4 * of_nat j)) e) f i = ent32 m f i"
    unfolding ent32_def entry32_at [OF assms(2,4)] entry32_at [OF assms(1,3)] by (rule load32_store32_disj)
  then show ?thesis using False by auto
qed (simp add: ent32_def)

lemma ent32_zero_page:
  assumes "f < 2 ^ 18" "g < 2 ^ 18" "i < 1024"
  shows "ent32 (store_bytes m (ucast (PAGE2VA32 g)) (replicate 4096 0)) f i = (if f = g then 0 else ent32 m f i)"
proof (cases "f = g")
  case False
  then have "4096 * g + 4096 \<le> 4096 * f + 4 * i \<or> 4096 * f + 4 * i + 4 \<le> 4096 * g"
    using assms(3) by (cases f g rule: linorder_cases) auto
  then have "apart (0xC0000000 + of_nat (4096 * g)) 4096 (0xC0000000 + of_nat (4096 * f + 4 * i)) 4"
    using assms by (intro apart_offset) simp_all
  then have "load32 (store_bytes m (0xC0000000 + of_nat (4096 * g)) (replicate 4096 0)) (0xC0000000 + of_nat (4096 * f + 4 * i))
      = load32 m (0xC0000000 + of_nat (4096 * f + 4 * i))"
    by (intro load32_store_bytes_disj) simp
  then show ?thesis unfolding ent32_def entry32_at [OF assms(1,3)] page32_at [OF assms(2)] using False by simp
next
  case True
  have "unat ((0xC0000000 + of_nat (4096 * f + 4 * i) :: u64) - (0xC0000000 + of_nat (4096 * f))) = 4 * i"
  proof -
    have "(0xC0000000 + of_nat (4096 * f + 4 * i) :: u64) - (0xC0000000 + of_nat (4096 * f)) = of_nat (4 * i)" by simp
    moreover have "unat (of_nat (4 * i) :: u64) = 4 * i" using assms(3) by (intro unat_of_nat_small) simp
    ultimately show ?thesis by (simp only:)
  qed
  then have "load_bytes (store_bytes m (0xC0000000 + of_nat (4096 * f)) (replicate 4096 0)) (0xC0000000 + of_nat (4096 * f + 4 * i)) 4 = replicate 4 0"
    using assms(3) by (subst load_bytes_inside) (simp_all only: length_replicate, simp_all)
  then show ?thesis using True
    unfolding ent32_def entry32_at [OF assms(1,3)] page32_at [OF assms(2)] load32_def by simp
qed

text \<open>\<open>alloc_page\<close> of both variants is the same but for the address of the page it clears.\<close>

lemma alloc_page32_as: "alloc_page32 fl s = (case alloc_page fl s of (pg, t) \<Rightarrow> (pg, t\<lparr>mem :=
    (case pg of None \<Rightarrow> mem s | Some p \<Rightarrow> if fl AND 1 \<noteq> 0 then store_bytes (mem s) (ucast (PAGE2VA32 p)) (replicate 4096 0) else mem s)\<rparr>))"
  by (simp add: alloc_page32_def alloc_page_def Let_def memset_store split: option.split)

lemma alloc_page32_Some:
  assumes inv: "mm_inv s" and ne: "free_pages s \<noteq> {}"
  obtains p s' where "alloc_page32 1 s = (Some p, s')" "p \<in> free_pages s" "mm_inv s'" "free_pages s' = free_pages s - {p}"
    "page_refs s' = (page_refs s)(p := 1)" "length (pages s') = length (pages s)" "kmm.more s' = kmm.more s"
    "mem s' = store_bytes (mem s) (ucast (PAGE2VA32 p)) (replicate 4096 0)"
proof -
  have "fst (alloc_page 1 s) \<noteq> None" using alloc_page_None_iff [OF inv, of 1] ne by simp
  then obtain p t where t: "alloc_page 1 s = (Some p, t)" by (cases "alloc_page 1 s") auto
  let ?s = "t\<lparr>mem := store_bytes (mem s) (ucast (PAGE2VA32 p)) (replicate 4096 0)\<rparr>"
  have "alloc_page32 1 s = (Some p, ?s)" by (simp add: alloc_page32_as t)
  then show thesis using that alloc_page_Some [OF inv t] page_refs_alloc [OF inv t] mm_cong [of ?s t] by simp
qed

text \<open>
  The entries of a directory for user addresses: those between the two the kernel enters its table at.  A directory \<open>f\<close> in order: it and
  its tables are pages in use, and a table of user addresses is entered once.  Its abstraction is the entry of each address.
\<close>

definition user_dir :: "nat set" where
  "user_dir = {1..<768}"

lemma user_dir_less: "i \<in> user_dir \<Longrightarrow> i < 1024"
  by (simp add: user_dir_def)

definition pd_inv :: "'a kmm_scheme \<Rightarrow> nat \<Rightarrow> bool" where
  "pd_inv s f \<longleftrightarrow> mm_inv s \<and> f < length (pages s) \<and> f \<notin> free_pages s
     \<and> (\<forall>i < 1024. ent32 (mem s) f i AND 1 \<noteq> 0 \<longrightarrow> frame32 (ent32 (mem s) f i) < length (pages s)
          \<and> frame32 (ent32 (mem s) f i) \<notin> free_pages s \<and> frame32 (ent32 (mem s) f i) \<noteq> f)
     \<and> (\<forall>i \<in> user_dir. \<forall>j < 1024. ent32 (mem s) f i AND 1 \<noteq> 0 \<longrightarrow> ent32 (mem s) f j AND 1 \<noteq> 0
          \<longrightarrow> frame32 (ent32 (mem s) f i) = frame32 (ent32 (mem s) f j) \<longrightarrow> i = j)"

lemma pd_inv_unique: "pd_inv s f \<Longrightarrow> i \<in> user_dir \<Longrightarrow> j < 1024 \<Longrightarrow> ent32 (mem s) f i AND 1 \<noteq> 0 \<Longrightarrow> ent32 (mem s) f j AND 1 \<noteq> 0
    \<Longrightarrow> frame32 (ent32 (mem s) f i) = frame32 (ent32 (mem s) f j) \<Longrightarrow> i = j"
  by (simp add: pd_inv_def)

definition pte32 :: "mem \<Rightarrow> nat \<Rightarrow> u32 \<Rightarrow> u32" where
  "pte32 m f va = (if ent32 m f (dirno va) AND 1 \<noteq> 0 then ent32 m (frame32 (ent32 m f (dirno va))) (tabno va) else 0)"

lemma dir_entry_at: "PAGE2VA32 f + 4 * drop_bit 22 va = PAGE2VA32 f + 4 * of_nat (dirno va)"
  "PAGE2VA32 g + 4 * (drop_bit 12 va AND 0x3ff) = PAGE2VA32 g + 4 * of_nat (tabno va)"
  by (simp_all add: dirno_def tabno_def)

lemma PAGE32_entry: "p < 2 ^ 20 \<Longrightarrow> frame32 (PAGE2PA32 p OR 7) = p" "(PAGE2PA32 p OR 7) AND 1 \<noteq> 0"
proof -
  assume p: "p < 2 ^ 20"
  have "drop_bit 12 (PAGE2PA32 p OR 7) = take_bit 20 (of_nat p)"
    by (rule bit_word_eqI) (auto simp: PAGE2PA32_def bit_simps)
  moreover have "take_bit 20 (of_nat p :: u32) = of_nat (take_bit 20 p)" by (rule take_bit_of_nat)
  moreover have "unat (of_nat p :: u32) = p" using p by (intro unat_of_nat_small) simp
  ultimately show "frame32 (PAGE2PA32 p OR 7) = p"
    using take_bit_nat_eq_self [OF p] by (simp add: frame32_def)
next
  have "bit ((PAGE2PA32 p OR 7) AND 1) 0" by (simp add: bit_simps)
  then show "(PAGE2PA32 p OR 7) AND 1 \<noteq> 0" by (rule contrapos_pn) (simp only:, simp)
qed

text \<open>A store into a table of the directory changes one entry.\<close>

lemma store_table32:
  assumes inv: "pd_inv s f" and u: "dirno va \<in> user_dir" and e: "ent32 (mem s) f (dirno va) AND 1 \<noteq> 0" and g: "frame32 (ent32 (mem s) f (dirno va)) = g"
    and m_def: "m = store32 (mem s) (ucast (PAGE2VA32 g + 4 * of_nat (tabno va))) w"
  shows "pd_inv (s\<lparr>mem := m\<rparr>) f" and "pte32 m f va' = (if drop_bit 12 va' = drop_bit 12 va then w else pte32 (mem s) f va')"
proof -
  have len: "length (pages s) \<le> 2 ^ 18" and mm: "mm_inv s" using inv by (auto simp: pd_inv_def mm_inv_def)
  have gl: "g < length (pages s)" "g \<noteq> f" "f < length (pages s)" using inv e dirno_less [of va] by (auto simp: pd_inv_def g [symmetric])
  then have b: "g < 2 ^ 18" "f < 2 ^ 18" using len by simp_all
  have st: "ent32 m h i = (if h = g \<and> i = tabno va then w else ent32 (mem s) h i)" if "h < 2 ^ 18" "i < 1024" for h i
    unfolding m_def by (rule ent32_store [OF that(1) b(1) that(2) tabno_less])
  have dir: "ent32 m f i = ent32 (mem s) f i" if "i < 1024" for i using st [OF b(2) that] gl(2) by auto
  have "mm_inv (s\<lparr>mem := m\<rparr>)" "free_pages (s\<lparr>mem := m\<rparr>) = free_pages s" using mm mm_cong [of "s\<lparr>mem := m\<rparr>" s] by simp_all
  then show "pd_inv (s\<lparr>mem := m\<rparr>) f" using inv by (simp add: pd_inv_def dir user_dir_less)
  note d' = dirno_less [of va']
  show "pte32 m f va' = (if drop_bit 12 va' = drop_bit 12 va then w else pte32 (mem s) f va')"
  proof (cases "ent32 (mem s) f (dirno va') AND 1 \<noteq> 0")
    case True
    let ?h = "frame32 (ent32 (mem s) f (dirno va'))"
    have h: "?h < 2 ^ 18" using inv True d' len by (auto simp: pd_inv_def)
    have "?h = g \<longleftrightarrow> dirno va' = dirno va"
    proof
      assume "?h = g"
      then have "frame32 (ent32 (mem s) f (dirno va)) = ?h" by (simp only: g)
      from pd_inv_unique [OF inv u d' e True this] show "dirno va' = dirno va" by (rule sym)
    qed (simp only: g)
    then show ?thesis using True st [OF h tabno_less] by (auto simp: pte32_def dir [OF d'] page_no)
  next
    case False
    then have "dirno va' \<noteq> dirno va" using e by auto
    then show ?thesis using False by (simp add: pte32_def dir [OF d'] page_no)
  qed
qed

text \<open>A new, empty table is entered in the directory.\<close>

lemma new_table32:
  assumes inv: "pd_inv s f" and u: "dirno va \<in> user_dir" and e: "ent32 (mem s) f (dirno va) AND 1 = 0" and ne: "free_pages s \<noteq> {}"
  obtains p s1 where "alloc_page32 1 s = (Some p, s1)"
    "pd_inv (s1\<lparr>mem := store32 (mem s1) (ucast (PAGE2VA32 f + 4 * of_nat (dirno va))) (PAGE2PA32 p OR 7)\<rparr>) f"
    "ent32 (store32 (mem s1) (ucast (PAGE2VA32 f + 4 * of_nat (dirno va))) (PAGE2PA32 p OR 7)) f (dirno va) = PAGE2PA32 p OR 7"
    "\<And>va'. pte32 (store32 (mem s1) (ucast (PAGE2VA32 f + 4 * of_nat (dirno va))) (PAGE2PA32 p OR 7)) f va' = pte32 (mem s) f va'"
    "p < 2 ^ 18" "kmm.more s1 = kmm.more s"
proof -
  have mm: "mm_inv s" using inv by (simp add: pd_inv_def)
  obtain p s1 where a: "alloc_page32 1 s = (Some p, s1)" "p \<in> free_pages s" "mm_inv s1" "free_pages s1 = free_pages s - {p}"
    "page_refs s1 = (page_refs s)(p := 1)" "length (pages s1) = length (pages s)" "kmm.more s1 = kmm.more s"
    "mem s1 = store_bytes (mem s) (ucast (PAGE2VA32 p)) (replicate 4096 0)"
    by (rule alloc_page32_Some [OF mm ne]) (rule that; assumption)
  let ?d = "dirno va" and ?w = "PAGE2PA32 p OR 7"
  define m where "m = store32 (mem s1) (ucast (PAGE2VA32 f + 4 * of_nat ?d)) ?w"
  have len: "length (pages s) \<le> 2 ^ 18" using mm by (simp add: mm_inv_def)
  have f: "f < length (pages s)" "f \<notin> free_pages s" using inv by (simp_all add: pd_inv_def)
  have pl: "p < length (pages s)" using a(2) by (simp add: free_pages_less)
  have b: "f < 2 ^ 18" "p < 2 ^ 18" "f \<noteq> p" using f pl len a(2) by auto
  have st: "ent32 m h i = (if h = f \<and> i = ?d then ?w else if h = p then 0 else ent32 (mem s) h i)" if "h < 2 ^ 18" "i < 1024" for h i
    unfolding m_def ent32_store [OF that(1) b(1) that(2) dirno_less] a(8) ent32_zero_page [OF that(1) b(2) that(2)] ..
  have w: "frame32 ?w = p" "?w AND 1 \<noteq> 0" using PAGE32_entry b(2) by simp_all
  have dir: "ent32 m f i = (if i = ?d then ?w else ent32 (mem s) f i)" if "i < 1024" for i using st [OF b(1) that] b(3) by simp
  have old: "frame32 (ent32 (mem s) f i) \<noteq> p" if "i < 1024" "ent32 (mem s) f i AND 1 \<noteq> 0" for i
    using inv that a(2) by (auto simp: pd_inv_def)
  let ?s = "s1\<lparr>mem := m\<rparr>"
  have "mm_inv ?s" "free_pages ?s = free_pages s - {p}" using a(3,4) mm_cong [of ?s s1] by simp_all
  then have inv': "pd_inv ?s f"
    using inv f pl b(3) w old a(6) by (auto simp: pd_inv_def dir user_dir_less)
  have "pte32 m f va' = pte32 (mem s) f va'" for va'
  proof (cases "dirno va' = ?d")
    case True
    then show ?thesis using e w b(2,3) st [OF b(2) tabno_less [of va']] by (simp add: pte32_def dir [OF dirno_less])
  next
    case False
    show ?thesis
    proof (cases "ent32 (mem s) f (dirno va') AND 1 = 0")
      case True
      then show ?thesis using False by (simp add: pte32_def dir [OF dirno_less])
    next
      case nz: False
      let ?h = "frame32 (ent32 (mem s) f (dirno va'))"
      have "?h < 2 ^ 18" "?h \<noteq> f" using inv nz dirno_less [of va'] len by (auto simp: pd_inv_def)
      then show ?thesis using False old [OF dirno_less nz] st [OF _ tabno_less, of ?h va'] by (simp add: pte32_def dir [OF dirno_less])
    qed
  qed
  then show thesis using that [OF a(1), folded m_def] inv' dir [OF dirno_less [of va]] b(2) a(7) by simp
qed

text \<open>C35. The two-level page tables of the i386 variant, in a directory whose kernel entries may share a table, as those
  of \<^verbatim>\<open>entry.S\<close> do: with a page in the pool and a user address, \<open>insert_page\<close> succeeds, keeps the
  invariant of the directory and is the update of one entry of the address space, whether its table exists or is taken from the pool; all
  other addresses, those of the kernel too, keep their entry.\<close>

theorem insert_page32_refines:
  assumes inv: "pd_inv s f" and u: "dirno va \<in> user_dir" and ne: "free_pages s \<noteq> {}"
  shows "\<exists>s'. insert_page32 (PAGE2VA32 f) va (Some p) fl s = Inr (0, s') \<and> pd_inv s' f \<and> kmm.more s' = kmm.more s
    \<and> (\<forall>va'. pte32 (mem s') f va' = (if drop_bit 12 va' = drop_bit 12 va then PAGE2PA32 p OR fl else pte32 (mem s) f va'))"
proof (cases "ent32 (mem s) f (dirno va) AND 1 \<noteq> 0")
  case True
  let ?g = "frame32 (ent32 (mem s) f (dirno va))"
  have "walk_page32 (PAGE2VA32 f) va 1 s = Inr (0, PAGE2VA32 ?g + 4 * of_nat (tabno va), s)"
    using True by (simp add: walk_page32_def Let_def dir_entry_at ent32_def table_base)
  then show ?thesis using store_table32 [OF inv u True refl refl] by (simp add: insert_page32_def)
next
  case False
  then have z: "ent32 (mem s) f (dirno va) AND 1 = 0" by simp
  obtain q s1 where n: "alloc_page32 1 s = (Some q, s1)"
    "pd_inv (s1\<lparr>mem := store32 (mem s1) (ucast (PAGE2VA32 f + 4 * of_nat (dirno va))) (PAGE2PA32 q OR 7)\<rparr>) f"
    "ent32 (store32 (mem s1) (ucast (PAGE2VA32 f + 4 * of_nat (dirno va))) (PAGE2PA32 q OR 7)) f (dirno va) = PAGE2PA32 q OR 7"
    "\<And>va'. pte32 (store32 (mem s1) (ucast (PAGE2VA32 f + 4 * of_nat (dirno va))) (PAGE2PA32 q OR 7)) f va' = pte32 (mem s) f va'"
    "q < 2 ^ 18" "kmm.more s1 = kmm.more s"
    by (rule new_table32 [OF inv u z ne]) (rule that; assumption)
  define s2 where "s2 = s1\<lparr>mem := store32 (mem s1) (ucast (PAGE2VA32 f + 4 * of_nat (dirno va))) (PAGE2PA32 q OR 7)\<rparr>"
  have m2: "store32 (mem s1) (ucast (PAGE2VA32 f + 4 * of_nat (dirno va))) (PAGE2PA32 q OR 7) = mem s2" by (simp add: s2_def)
  note n' = n(2) [folded s2_def] n(3,4) [unfolded m2]
  have "walk_page32 (PAGE2VA32 f) va 1 s = Inr (0, PAGE2VA32 q + 4 * of_nat (tabno va), s2)"
    using z n(1) by (simp add: walk_page32_def Let_def dir_entry_at ent32_def s2_def)
  moreover have "ent32 (mem s2) f (dirno va) AND 1 \<noteq> 0" "frame32 (ent32 (mem s2) f (dirno va)) = q"
    using n'(2) PAGE32_entry n(5) by simp_all
  moreover have "kmm.more s2 = kmm.more s" using n(6) by (simp add: s2_def)
  ultimately show ?thesis using store_table32 [OF n'(1) u _ _ refl] n'(3) by (simp add: insert_page32_def)
qed

text \<open>The tables of \<^verbatim>\<open>entry.S\<close> in cleared pages, and the copy of a directory that \<open>alloc_vm\<close> makes, are in order.\<close>

lemma entry_loop32:
  assumes "kt < 2 ^ 18" "n \<le> 1024"
  shows "f < 2 ^ 18 \<Longrightarrow> i < 1024 \<Longrightarrow> ent32 (fold (\<lambda>i m. store32 m (ucast (PAGE2VA32 kt + 4 * of_nat i)) (w i)) [0..<n] m) f i
    = (if f = kt \<and> i < n then w i else ent32 m f i)"
  using assms
proof (induction n)
  case (Suc n)
  have "ent32 (store32 m' (ucast (PAGE2VA32 kt + 4 * of_nat n)) (w n)) f i = (if f = kt \<and> i = n then w n else ent32 m' f i)" for m'
    using Suc.prems by (intro ent32_store) simp_all
  then show ?case using Suc by (auto simp: less_Suc_eq)
qed simp

lemma entry_tables32_entries:
  assumes "kd < 2 ^ 18" "kt < 2 ^ 18" "kd \<noteq> kt" and "f < 2 ^ 18" "i < 1024"
  shows "ent32 (entry_tables32 kd kt m) f i = (if f = kd \<and> i \<in> {0, 768} then PAGE2PA32 kt OR 3
     else if f = kt then of_nat i * 4096 OR 3 else ent32 m f i)"
proof -
  have st: "ent32 (store32 m' (ucast (PAGE2VA32 kd + 4 * of_nat j)) e) f i = (if f = kd \<and> i = j then e else ent32 m' f i)"
    if "j < 1024" for m' j e
    using assms that by (intro ent32_store) simp_all
  have z: "(0 :: nat) < 1024" "(768 :: nat) < 1024" by simp_all
  show ?thesis
    unfolding entry_tables32_def Let_def st [OF z(1)] st [OF z(2)] entry_loop32 [OF assms(2) order_refl assms(4,5)]
    using assms(3,5) by auto
qed

lemma PAGE32_entry3: "p < 2 ^ 18 \<Longrightarrow> frame32 (PAGE2PA32 p OR 3) = p" "(PAGE2PA32 p OR 3) AND 1 \<noteq> 0"
proof -
  have "bit ((PAGE2PA32 p OR 3) AND 1) 0" by (simp add: bit_simps)
  then show "(PAGE2PA32 p OR 3) AND 1 \<noteq> 0" by (rule contrapos_pn) (simp only:, simp)
  assume "p < 2 ^ 18"
  then have p: "p < 2 ^ 20" by simp
  have "drop_bit 12 (PAGE2PA32 p OR 3) = drop_bit 12 (PAGE2PA32 p OR 7)"
    by (rule bit_word_eqI) (auto simp: PAGE2PA32_def bit_simps)
  then show "frame32 (PAGE2PA32 p OR 3) = p" using PAGE32_entry(1) [OF p] by (simp add: frame32_def)
qed

lemma entry_tables32_inv:
  assumes mm: "mm_inv s" and k: "kd < length (pages s)" "kt < length (pages s)" "kd \<noteq> kt" "{kd, kt} \<inter> free_pages s = {}"
    and z: "\<And>i. i < 1024 \<Longrightarrow> ent32 (mem s) kd i = 0"
  defines "s' \<equiv> s\<lparr>mem := entry_tables32 kd kt (mem s)\<rparr>"
  shows "pd_inv s' kd" and "free_pages s' = free_pages s" and "i \<in> user_dir \<Longrightarrow> ent32 (mem s') kd i = 0"
proof -
  have b: "kd < 2 ^ 18" "kt < 2 ^ 18" using k mm by (simp_all add: mm_inv_def)
  have e: "ent32 (mem s') kd i = (if i \<in> {0, 768} then PAGE2PA32 kt OR 3 else 0)" if "i < 1024" for i
    using entry_tables32_entries [OF b k(3) b(1) that] z [OF that] k(3) by (simp add: s'_def)
  have "mm_inv s'" and free: "free_pages s' = free_pages s" using mm mm_cong [of s' s] by (simp_all add: s'_def)
  moreover have "pages s' = pages s" by (simp add: s'_def)
  ultimately show "pd_inv s' kd" "free_pages s' = free_pages s"
    using k PAGE32_entry3(1) [OF b(2)] by (auto simp: pd_inv_def e user_dir_def split: if_splits)
  show "i \<in> user_dir \<Longrightarrow> ent32 (mem s') kd i = 0" by (simp add: e user_dir_def)
qed

lemma load_bytes_part: "q + k \<le> n \<Longrightarrow> take k (drop q (load_bytes m a n)) = load_bytes m (a + of_nat q) k"
  unfolding load_bytes_drop take_drop by (simp add: load_bytes_def take_map add.commute)

lemma alloc_vm32_copy:
  assumes inv: "pd_inv s kd" and ne: "free_pages s \<noteq> {}"
  obtains p s' where "alloc_vm32 (PAGE2VA32 kd) s = (PAGE2VA32 p, s')" "p \<in> free_pages s" "free_pages s' = free_pages s - {p}"
    "pd_inv s' p" "\<And>va. pte32 (mem s') p va = pte32 (mem s) kd va" "kmm.more s' = kmm.more s"
proof -
  have mm: "mm_inv s" and kd: "kd < length (pages s)" "kd \<notin> free_pages s" using inv by (simp_all add: pd_inv_def)
  obtain p s1 where a: "alloc_page32 1 s = (Some p, s1)" "p \<in> free_pages s" "mm_inv s1" "free_pages s1 = free_pages s - {p}"
    "page_refs s1 = (page_refs s)(p := 1)" "length (pages s1) = length (pages s)" "kmm.more s1 = kmm.more s"
    "mem s1 = store_bytes (mem s) (ucast (PAGE2VA32 p)) (replicate 4096 0)"
    by (rule alloc_page32_Some [OF mm ne]) (rule that; assumption)
  have b: "p < 2 ^ 18" "kd < 2 ^ 18" "p \<noteq> kd" "length (pages s) \<le> 2 ^ 18"
    using mm kd a(2) by (auto simp: mm_inv_def free_pages_def)
  define m where "m = memcpy (mem s1) (ucast (PAGE2VA32 p)) (ucast (PAGE2VA32 kd)) 4096"
  have ap: "apart (0xC0000000 + of_nat (4096 * kd)) 4096 (0xC0000000 + of_nat (4096 * p)) 4096"
    using b by (intro apart_offset) auto
  have "m = store_bytes (mem s1) (ucast (PAGE2VA32 p)) (load_bytes (mem s1) (ucast (PAGE2VA32 kd)) 4096)"
  proof -
    have "4096 \<le> unat ((0xC0000000 + of_nat (4096 * p)) - (0xC0000000 + of_nat (4096 * kd)) :: u64)"
      using ap [unfolded apart_def, THEN spec, of "0xC0000000 + of_nat (4096 * p)"] by simp
    then show ?thesis unfolding m_def page32_at [OF b(1)] page32_at [OF b(2)] by (subst memcpy_store) simp_all
  qed
  then have m: "m = store_bytes (mem s1) (0xC0000000 + of_nat (4096 * p)) (load_bytes (mem s1) (0xC0000000 + of_nat (4096 * kd)) 4096)"
    unfolding page32_at [OF b(1)] page32_at [OF b(2)] .
  have e1: "ent32 (mem s1) h i = ent32 (mem s) h i" if "h < 2 ^ 18" "i < 1024" "h \<noteq> p" for h i
    using ent32_zero_page [OF that(1) b(1) that(2)] that(3) by (simp add: a(8))
  have e: "ent32 m h i = ent32 (mem s) (if h = p then kd else h) i" if h: "h < 2 ^ 18" "i < 1024" for h i
  proof (cases "h = p")
    case True
    have "unat ((0xC0000000 + of_nat (4096 * g + 4 * i) :: u64) - (0xC0000000 + of_nat (4096 * g))) = 4 * i" for g
    proof -
      have "(0xC0000000 + of_nat (4096 * g + 4 * i) :: u64) - (0xC0000000 + of_nat (4096 * g)) = of_nat (4 * i)" by simp
      moreover have "unat (of_nat (4 * i) :: u64) = 4 * i" using h(2) by (intro unat_of_nat_small) simp
      ultimately show ?thesis by (simp only:)
    qed
    note off = this
    have l: "length (load_bytes (mem s1) a 4096) = 4096" for a by simp
    have "load_bytes m (0xC0000000 + of_nat (4096 * p + 4 * i)) 4 = take 4 (drop (4 * i) (load_bytes (mem s1) (0xC0000000 + of_nat (4096 * kd)) 4096))"
      unfolding m using h(2) by (subst load_bytes_inside; simp only: off l) simp_all
    also have "\<dots> = load_bytes (mem s1) (0xC0000000 + of_nat (4096 * kd) + of_nat (4 * i)) 4"
      using h(2) by (intro load_bytes_part) simp
    also have "\<dots> = load_bytes (mem s1) (0xC0000000 + of_nat (4096 * kd + 4 * i)) 4" by (simp only: of_nat_add add.assoc)
    finally have "load_bytes m (0xC0000000 + of_nat (4096 * p + 4 * i)) 4 = load_bytes (mem s1) (0xC0000000 + of_nat (4096 * kd + 4 * i)) 4" .
    then have "ent32 m p i = ent32 (mem s1) kd i"
      unfolding ent32_def entry32_at [OF b(1) h(2)] entry32_at [OF b(2) h(2)] load32_def by simp
    then show ?thesis using True e1 [OF b(2) h(2)] b(3) by simp
  next
    case False
    have "apart (0xC0000000 + of_nat (4096 * p)) 4096 (0xC0000000 + of_nat (4096 * h + 4 * i)) 4"
      using b h False by (intro apart_offset) auto
    then have "load32 m (0xC0000000 + of_nat (4096 * h + 4 * i)) = load32 (mem s1) (0xC0000000 + of_nat (4096 * h + 4 * i))"
      unfolding m by (intro load32_store_bytes_disj) simp
    then show ?thesis using False e1 [OF h False] by (simp add: ent32_def entry32_at [OF h])
  qed
  let ?s = "s1\<lparr>mem := m\<rparr>"
  have run: "alloc_vm32 (PAGE2VA32 kd) s = (PAGE2VA32 p, ?s)" by (simp add: alloc_vm32_def a(1) m_def)
  have f: "mm_inv ?s" "free_pages ?s = free_pages s - {p}" using a(3,4) mm_cong [of ?s s1] by simp_all
  have fr: "frame32 (ent32 (mem s) kd i) < length (pages s)" "frame32 (ent32 (mem s) kd i) \<notin> free_pages s"
    if "i < 1024" "ent32 (mem s) kd i AND 1 \<noteq> 0" for i
    using inv that by (auto simp: pd_inv_def)
  have pd: "pd_inv ?s p"
    using inv f a(2,6) b(1) by (auto simp: pd_inv_def e user_dir_less free_pages_less)
  have "pte32 m p va = pte32 (mem s) kd va" for va
  proof (cases "ent32 (mem s) kd (dirno va) AND 1 = 0")
    case False
    then have "frame32 (ent32 (mem s) kd (dirno va)) < 2 ^ 18" "frame32 (ent32 (mem s) kd (dirno va)) \<noteq> p"
      using fr [OF dirno_less False] a(2) b(4) by auto
    then show ?thesis by (simp add: pte32_def e [OF b(1) dirno_less] e [OF _ tabno_less])
  qed (simp add: pte32_def e [OF b(1) dirno_less])
  then show thesis using that [OF run a(2) f(2) pd] a(7) by simp
qed

text \<open>The tables of \<^verbatim>\<open>entry.S\<close>, a directory \<open>alloc_vm\<close> makes of them, and the first page of a program entered there.\<close>

definition machine32 :: kmm where
  "machine32 = (machine 3 30)\<lparr>mem := entry_tables32 0 1 (\<lambda>a. 0)\<rparr>"

lemma machine32_facts: "pd_inv machine32 0" "free_pages machine32 = {3..<30}" "i \<in> user_dir \<Longrightarrow> ent32 (mem machine32) 0 i = 0"
proof -
  have "word_of_bytes (replicate 4 0) = (0 :: u32)" by (simp add: numeral_eq_Suc)
  then have "ent32 (\<lambda>a. 0) 0 i = 0" for i by (simp add: ent32_def load32_def load_bytes_def map_replicate_const)
  then have e: "ent32 (mem (machine 3 30)) 0 i = 0" for i by (simp add: machine_def)
  have m: "mem (machine 3 30) = (\<lambda>a. 0)" "length (pages (machine 3 30)) = 30" by (simp_all add: machine_def)
  have f: "free_pages (machine 3 30) = {3..<30}" "mm_inv (machine 3 30)" using machine_facts [of 3 30] by simp_all
  have k: "0 < length (pages (machine 3 30))" "1 < length (pages (machine 3 30))" "(0 :: nat) \<noteq> 1" "{0, 1} \<inter> free_pages (machine 3 30) = {}"
    by (simp_all add: m f)
  note t = entry_tables32_inv [OF f(2) k e, unfolded m(1), folded machine32_def]
  show "pd_inv machine32 0" "free_pages machine32 = {3..<30}" "i \<in> user_dir \<Longrightarrow> ent32 (mem machine32) 0 i = 0"
    using t f(1) by simp_all
qed

theorem insert_page32_refines_witness:
  "\<exists>p s s'. alloc_vm32 (PAGE2VA32 0) machine32 = (PAGE2VA32 p, s) \<and> insert_page32 (PAGE2VA32 p) UTEXT32 (Some 2) 7 s = Inr (0, s')
     \<and> pd_inv s' p \<and> pte32 (mem s') p (UTEXT32 + 5) = 0x2007 \<and> pte32 (mem s') p 0xC0000000 = 3 \<and> pte32 (mem s') p 0 = 3"
proof -
  have "free_pages machine32 \<noteq> {}" by (simp add: machine32_facts)
  then obtain p s where p: "alloc_vm32 (PAGE2VA32 0) machine32 = (PAGE2VA32 p, s)" "p \<in> free_pages machine32"
    "free_pages s = free_pages machine32 - {p}" "pd_inv s p" "\<And>va. pte32 (mem s) p va = pte32 (mem machine32) 0 va"
    by (rule alloc_vm32_copy [OF machine32_facts(1)]) (rule that; assumption)
  have u: "dirno UTEXT32 \<in> user_dir" by (simp add: dirno_def UTEXT32_def user_dir_def drop_bit_eq_div)
  have "card (free_pages machine32 - {p}) \<noteq> 0" using p(2) by (simp add: machine32_facts(2))
  then have "free_pages s \<noteq> {}" unfolding p(3) by (metis card.empty)
  from insert_page32_refines [OF p(4) u this, of 2 7] obtain s' where
    s': "insert_page32 (PAGE2VA32 p) UTEXT32 (Some 2) 7 s = Inr (0, s')" "pd_inv s' p"
      "\<forall>va'. pte32 (mem s') p va' = (if drop_bit 12 va' = drop_bit 12 UTEXT32 then PAGE2PA32 2 OR 7 else pte32 (mem s) p va')"
    by blast
  have e: "ent32 (mem machine32) f i = (if f = 0 \<and> i \<in> {0, 768} then 0x1003 else if f = 1 then of_nat i * 4096 OR 3 else ent32 (\<lambda>a. 0) f i)"
    if "f < 2" "i < 1024" for f i
    using entry_tables32_entries [of 0 1 f i "\<lambda>a. 0"] that by (simp add: machine32_def PAGE2PA32_def)
  have k: "pte32 (mem machine32) 0 va = 3" if "dirno va \<in> {0, 768}" "tabno va = 0" for va
  proof -
    have "frame32 0x1003 = 1" by (simp add: frame32_def drop_bit_eq_div)
    then show ?thesis using that dirno_less [of va] by (simp add: pte32_def e)
  qed
  have "dirno 0 = 0" "tabno 0 = 0" "dirno 0xC0000000 = 768" "tabno 0xC0000000 = 0"
    by (simp_all add: dirno_def tabno_def drop_bit_eq_div)
  then have kern: "pte32 (mem machine32) 0 0 = 3" "pte32 (mem machine32) 0 0xC0000000 = 3" using k by simp_all
  have d: "drop_bit 12 (UTEXT32 + 5) = drop_bit 12 UTEXT32" "drop_bit 12 0xC0000000 \<noteq> drop_bit 12 UTEXT32" "drop_bit 12 0 \<noteq> drop_bit 12 UTEXT32"
    by (simp_all add: UTEXT32_def drop_bit_eq_div)
  have "PAGE2PA32 2 OR 7 = 0x2007" by (simp add: PAGE2PA32_def)
  then show ?thesis using p(1) s'(1,2) d kern unfolding s'(3) [rule_format] p(5) 
    by (intro exI [of _ p] exI [of _ s] exI [of _ s']) (simp add: s'(3) p(5))
qed

section \<open>Tables are given back too often\<close>

text \<open>
  \<open>destroy_vm\<close> frees the table of each address of the window, so a table that serves 1024 of them is freed 1024 times: its
  count becomes negative and the allocator's invariant is lost.
\<close>

lemma free_page_again:
  "count (pages (free_page (Some g) s) ! g) = count (pages s ! g) - 1" "length (pages (free_page (Some g) s)) = length (pages s)"
  "mem (free_page (Some g) s) = mem s" if "g < length (pages s)"
  using that by (simp_all add: free_page_def Let_def)

lemma free_tables32_one_table:
  assumes "\<And>i. i < n \<Longrightarrow> dirno (addr + 4096 * of_nat i) = d" and "ent32 (mem s) f d AND 1 \<noteq> 0"
    and "frame32 (ent32 (mem s) f d) = g" and "g < length (pages s)"
  shows "\<exists>s'. free_tables32 (PAGE2VA32 f) addr n s = Inr s' \<and> count (pages s' ! g) = count (pages s ! g) - int n
    \<and> length (pages s') = length (pages s)"
  using assms
proof (induction n arbitrary: addr s)
  case (Suc n)
  let ?t = "free_page (Some g) s"
  note t = free_page_again [OF Suc.prems(4)]
  have d: "dirno addr = d" using Suc.prems(1) [of 0] by simp
  have e: "load32 (mem s) (ucast (PAGE2VA32 f + 4 * drop_bit 22 addr)) = ent32 (mem s) f d"
    by (simp add: ent32_def dir_entry_at d)
  have g: "unat (drop_bit 12 (ent32 (mem s) f d AND 0xfffff000)) = g"
  proof -
    have m: "(0xfffff000 :: u32) = NOT (mask 12)" by (simp add: mask_eq_exp_minus_1)
    have "drop_bit 12 (e AND 0xfffff000) = drop_bit 12 e" for e :: u32
      unfolding m by (rule bit_word_eqI) (auto simp: bit_simps dest: bit_imp_le_length)
    then show ?thesis using Suc.prems(3) by (simp add: frame32_def)
  qed
  have step: "free_tables32 (PAGE2VA32 f) addr (Suc n) s = free_tables32 (PAGE2VA32 f) (addr + 4096) n ?t"
    unfolding free_tables32.simps Let_def e g using Suc.prems(2,4) by simp
  have rest: "dirno (addr + 4096 + 4096 * of_nat i) = d" if "i < n" for i
    using Suc.prems(1) [of "Suc i"] that by (simp add: algebra_simps)
  have "\<exists>s'. free_tables32 (PAGE2VA32 f) (addr + 4096) n ?t = Inr s' \<and> count (pages s' ! g) = count (pages ?t ! g) - int n
      \<and> length (pages s') = length (pages ?t)"
    using Suc.prems by (intro Suc.IH rest) (simp_all add: t)
  then show ?case unfolding step t by auto
qed simp

lemma tables_freed_too_often:
  assumes "ent32 (mem s) f 0x21 AND 1 \<noteq> 0" and "page_refs s (frame32 (ent32 (mem s) f 0x21)) = 1"
  shows "\<exists>s'. free_tables32 (PAGE2VA32 f) 0x8400000 1024 s = Inr s' \<and> page_refs s' (frame32 (ent32 (mem s) f 0x21)) = - 1023 \<and> \<not> mm_inv s'"
proof -
  let ?g = "frame32 (ent32 (mem s) f 0x21)"
  have g: "?g < length (pages s)" using assms(2) by (simp add: page_refs_def split: if_splits)
  have "dirno (0x8400000 + 4096 * of_nat i) = 0x21" if i: "i < 1024" for i
  proof -
    have "(0x8400000 + 4096 * of_nat i :: u32) = of_nat (0x8400000 + 4096 * i)" by simp
    moreover have "unat (of_nat (0x8400000 + 4096 * i) :: u32) = 0x8400000 + 4096 * i"
      using i by (intro unat_of_nat_small) simp
    ultimately have "unat (0x8400000 + 4096 * of_nat i :: u32) = 0x8400000 + 4096 * i" by (simp only:)
    then show ?thesis using i by (simp add: dirno_def drop_bit_eq_div unat_div)
  qed
  then obtain s' where s': "free_tables32 (PAGE2VA32 f) 0x8400000 1024 s = Inr s'"
    "count (pages s' ! ?g) = count (pages s ! ?g) - int 1024" "length (pages s') = length (pages s)"
    using free_tables32_one_table [of 1024 "0x8400000" "0x21" s f, OF _ assms(1) refl g] by blast
  moreover have "page_refs s' ?g = - 1023" using s'(2,3) assms(2) g by (simp add: page_refs_def)
  moreover have "\<not> mm_inv s'" using s' g assms(2) by (force simp: mm_inv_def page_refs_def)
  ultimately show ?thesis by blast
qed

section \<open>The descriptors as the processor reads them\<close>

definition gate_addr32 :: "idt_desc32 \<Rightarrow> u32" where
  "gate_addr32 d = ucast (i_offset0 d) OR push_bit 16 (ucast (i_offset1 d))"

definition tss_base32 :: "gdt_desc32 \<Rightarrow> u32" where
  "tss_base32 d = ucast (g_base0 d) OR push_bit 16 (ucast (g_base1 d)) OR push_bit 24 (ucast (g_base2 d))"

lemma mask32: "(0xffff :: u32) = mask 16" "(0xff :: u32) = mask 8"
  by (simp_all add: mask_eq_exp_minus_1)

lemma gate_addr_entry32: "gate_addr32 (idt_entry32 a ty) = a"
  unfolding gate_addr32_def idt_entry32_def mask32 idt_desc32.select_convs
proof (rule bit_word_eqI)
  fix n assume n: "n < LENGTH(32)"
  consider "n < 16" | "16 \<le> n" by linarith
  then show "bit (ucast (ucast (a AND mask 16) :: u16) OR push_bit 16 (ucast (ucast (drop_bit 16 a AND mask 16) :: u16)) :: u32) n = bit a n"
    by cases (use n in \<open>auto simp: bit_simps\<close>)
qed

lemma tss_base_desc32: "tss_base32 (set_tss_desc32 a l ty) = a"
  unfolding tss_base32_def set_tss_desc32_def mask32 gdt_desc32.select_convs
proof (rule bit_word_eqI)
  fix n assume n: "n < LENGTH(32)"
  consider "n < 16" | "16 \<le> n" "n < 24" | "24 \<le> n" by linarith
  then show "bit (ucast (ucast (a AND mask 16) :: u16) OR push_bit 16 (ucast (ucast (drop_bit 16 a AND mask 8) :: u8))
      OR push_bit 24 (ucast (ucast (drop_bit 24 a AND mask 8) :: u8)) :: u32) n = bit a n"
    by cases (use n in \<open>auto simp: bit_simps\<close>)
qed

interpretation gates32: gate_format idt_entry32 gate_addr32 i_type i_selector
  by unfold_locales (simp_all add: gate_addr_entry32, simp_all add: idt_entry32_def)

text \<open>The tables of the i386 variant are for the processor those of the amd64 one, with 32-bit addresses.\<close>

lemma init_trap32_gates:
  "let t' = init_trap32 tss handler t; d = idt_table32 t' n
   in (if n \<in> trap_vectors
       then gate_addr32 d = handler n \<and> i_selector d = 8 \<and> 0x80 \<le> i_type d
         \<and> unat (i_type d) div 32 mod 4 = (if n \<in> {0, 1, 32, 33} then 0 else 3)
         \<and> i_type d AND 0xF = (if n \<in> {20, 32, 33} then 14 else 15)
       else d = idt_table32 t n)
     \<and> tss_base32 (tss_desc32 t') = tss \<and> g_limit0 (tss_desc32 t') = 104 \<and> task_register32 t' = 0x28"
proof -
  have t: "idt_table32 (init_trap32 tss handler t) = fold (\<lambda>(n, ty) idt. idt(n := idt_entry32 (handler n) ty)) gate_types (idt_table32 t)"
    "tss_desc32 (init_trap32 tss handler t) = set_tss_desc32 tss sizeof_tss32 0x89" "task_register32 (init_trap32 tss handler t) = 0x28"
    by (simp_all add: init_trap32_def init_cpu32_def gate_types_def set_idt_desc32_def Let_def)
  have "tss_base32 (tss_desc32 (init_trap32 tss handler t)) = tss" "g_limit0 (tss_desc32 (init_trap32 tss handler t)) = 104"
    by (simp_all add: t(2) tss_base_desc32) (simp add: set_tss_desc32_def sizeof_tss32_def tss_fields32_def)
  then show ?thesis unfolding Let_def by (intro conjI gates32.trap_gates [OF t(1)] t(3))
qed

text \<open>The stack the processor takes on the way into the kernel: its pointer and segment at the offsets 4 and 8 of the TSS.\<close>

lemma tss32_stack:
  "length (tss32 stacktop) = 104" "word_of_bytes (take 4 (drop 4 (tss32 stacktop))) = stacktop" "take 2 (drop 8 (tss32 stacktop)) = [0x10, 0]"
proof -
  have z: "length fs = k \<Longrightarrow> concat (map2 (\<lambda>(name, n) v. bytes_of_word n v) fs (replicate k (0 :: u32))) = replicate (sum_list (map snd fs)) 0"
    for fs :: "(string \<times> nat) list" and k
    by (induction fs arbitrary: k) (auto simp: replicate_add)
  have c: "tss32 stacktop = replicate 2 0 @ replicate 2 0 @ bytes_of_word 4 stacktop @ [0x10, 0] @ replicate 94 0"
  proof -
    have "bytes_of_word 2 w = [ucast w, ucast (drop_bit 8 w)]" for w :: u32 by (simp add: numeral_2_eq_2)
    then have "bytes_of_word 2 (0x10 :: u32) = [0x10, 0]" by simp
    then show ?thesis by (simp add: tss32_def tss_fields32_def z)
  qed
  have l: "length (bytes_of_word 4 stacktop) = 4" by simp
  show "length (tss32 stacktop) = 104" "word_of_bytes (take 4 (drop 4 (tss32 stacktop))) = stacktop" "take 2 (drop 8 (tss32 stacktop)) = [0x10, 0]"
    unfolding c using take_bit_length_eq [of stacktop] by (simp_all add: l word_of_bytes_of_word)
qed

end
