(* ===== verification/Vmexec.thy ===== *)
theory Vmexec
  imports User
begin

text \<open>
  The user programs: \<^verbatim>\<open>user/vmexec.c\<close>, which creates a virtual machine and loads the file \<open>kernel\<close>
  into its memory, the shell \<^verbatim>\<open>user/init.c\<close> and \<^verbatim>\<open>user/world.c\<close>, each as the system calls it makes.
  The addresses of the objects of \<open>vmexec\<close> are those the linker gives them.
\<close>

section \<open>System calls as data\<close>

datatype ucall =
    U_tprintf
  | U_create_vcpu
  | U_alloc_vm_mem u64
  | U_mmap_mem u64 u64 u64 u32
  | U_open u64 u32 u64
  | U_opencons
  | U_read u32 u64 u32
  | U_write u32 u64 u32
  | U_lseek u32 u32 u32
  | U_close u32
  | U_run_vm
  | U_fork
  | U_execve u64 u64 u64
  | U_waitpid u32

text \<open>The trap frame of a call.\<close>

fun ucall_regs :: "ucall \<Rightarrow> pt_regs \<Rightarrow> pt_regs" where
  "ucall_regs U_tprintf = u_tprintf"
| "ucall_regs U_create_vcpu = u_create_vcpu"
| "ucall_regs (U_alloc_vm_mem phys) = u_alloc_vm_mem phys"
| "ucall_regs (U_mmap_mem addr len gpa prot) = u_mmap_mem addr len gpa prot"
| "ucall_regs (U_open name flags mode) = u_open name flags mode"
| "ucall_regs U_opencons = u_opencons"
| "ucall_regs (U_read fd ubuf cnt) = u_read fd ubuf cnt"
| "ucall_regs (U_write fd ubuf cnt) = u_write fd ubuf cnt"
| "ucall_regs (U_lseek fd off whence) = u_lseek fd off whence"
| "ucall_regs (U_close fd) = u_close fd"
| "ucall_regs U_run_vm = u_run_vm"
| "ucall_regs U_fork = u_fork"
| "ucall_regs (U_execve name argv envp) = u_execve name argv envp"
| "ucall_regs (U_waitpid n) = u_waitpid n"

section \<open>The virtual machine loader\<close>

record vmexec_objects =
  at_testboot :: u64
  at_kernel_name :: u64
  at_buf :: u64
  at_ttt :: u64

text \<open>The boot code of the guest.\<close>

definition testboot_bin :: "u8 list" where
  "testboot_bin = [
     0xfa, 0x31, 0xc0, 0x8e, 0xd8, 0x8e, 0xc0, 0x8e, 0xe0, 0x8e, 0xd0, 0x66, 0x0f, 0x01,
     0x16, 0x50, 0x7c, 0x0f, 0x20, 0xc0, 0x0c, 0x01, 0x0f, 0x22, 0xc0, 0x66, 0xea, 0x21,
     0x7c, 0x00, 0x00, 0x08, 0x00, 0xb8, 0x10, 0x00, 0x00, 0x00, 0x8e, 0xd8, 0x8e, 0xd0,
     0x8e, 0xe0, 0x8e, 0xc0, 0xe9, 0xcd, 0x83, 0x0f, 0x00, 0xeb, 0xfe, 0x8d, 0x76, 0x00,
     0x00, 0x00, 0x00, 0x00, 0x00, 0x00, 0x00, 0x00, 0xff, 0xff, 0x00, 0x00, 0x00, 0x9a,
     0xcf, 0x00, 0xff, 0xff, 0x00, 0x00, 0x00, 0x92, 0xcf, 0x00, 0x17, 0x00, 0x38, 0x7c,
     0x00, 0x00]"

lemma testboot_bin_len: "length testboot_bin = 86"
  by (simp add: testboot_bin_def)

text \<open>The ELF headers in memory.\<close>

definition eh_magic :: "mem \<Rightarrow> u64 \<Rightarrow> bool" where
  "eh_magic m eh \<longleftrightarrow> m eh = 0x7F \<and> m (eh + 1) = 0x45 \<and> m (eh + 2) = 0x4C \<and> m (eh + 3) = 0x46"

definition eh_phoff :: "mem \<Rightarrow> u64 \<Rightarrow> u64" where
  "eh_phoff m eh = load64 m (eh + 32)"

definition eh_phnum :: "mem \<Rightarrow> u64 \<Rightarrow> u16" where
  "eh_phnum m eh = load16 m (eh + 56)"

definition ph_type :: "mem \<Rightarrow> u64 \<Rightarrow> u32" where
  "ph_type m ph = load32 m ph"

definition ph_offset :: "mem \<Rightarrow> u64 \<Rightarrow> u64" where
  "ph_offset m ph = load64 m (ph + 8)"

definition ph_paddr :: "mem \<Rightarrow> u64 \<Rightarrow> u64" where
  "ph_paddr m ph = load64 m (ph + 24)"

definition ph_memsz :: "mem \<Rightarrow> u64 \<Rightarrow> u64" where
  "ph_memsz m ph = load64 m (ph + 40)"

text \<open>
  The loop over the pages of a segment.  \<open>j\<close> and \<open>remaining\<close> are \<open>int\<close>, compared with and computed
  from the \<open>unsigned long\<close> \<open>memsz\<close>; \<open>None\<close> is a loop that does not end.
\<close>

partial_function (option) vm_chunks :: "vmexec_objects \<Rightarrow> u32 \<Rightarrow> u64 \<Rightarrow> u64 \<Rightarrow> u32 \<Rightarrow> ucall list option" where
  "vm_chunks ob fd memsz paddr j =
     (if scast j < memsz
      then let remaining = (ucast (memsz - scast j) :: u32);
               n = (if sint remaining < 4096 then remaining else 4096)
           in Option.bind (vm_chunks ob fd memsz paddr (j + 4096)) (\<lambda>cs.
                Some (U_read fd (at_ttt ob) n # U_mmap_mem (at_ttt ob) (scast n) (paddr + scast j) 7 # cs))
      else Some [])"

definition vm_segment :: "vmexec_objects \<Rightarrow> u32 \<Rightarrow> mem \<Rightarrow> u64 \<Rightarrow> ucall list option" where
  "vm_segment ob fd m ph =
     (if ph_type m ph = 1
      then map_option (\<lambda>cs. U_lseek fd (ucast (ph_offset m ph)) 0 # cs) (vm_chunks ob fd (ph_memsz m ph) (ph_paddr m ph) 0)
      else Some [])"

text \<open>The headers are read from one memory: the loader's \<open>read\<close> calls store to \<open>ttt\<close>, not to the buffer with the headers.\<close>

fun vm_segments :: "vmexec_objects \<Rightarrow> u32 \<Rightarrow> mem \<Rightarrow> u64 \<Rightarrow> nat \<Rightarrow> ucall list option" where
  "vm_segments ob fd m ph 0 = Some []"
| "vm_segments ob fd m ph (Suc n) =
     (case vm_segment ob fd m ph of
        None \<Rightarrow> None
      | Some cs \<Rightarrow> map_option (\<lambda>ds. cs @ ds) (vm_segments ob fd m (ph + 56) n))"

text \<open>
  \<open>user_main\<close>: the calls up to its return or its last, endless loop.  \<open>fd\<close> is what \<open>open\<close> returned,
  \<open>m\<close> the memory of the program after the first \<open>read\<close>.
\<close>

definition vmexec_main :: "vmexec_objects \<Rightarrow> u32 \<Rightarrow> mem \<Rightarrow> ucall list option" where
  "vmexec_main ob fd m =
     (let start = [U_tprintf, U_create_vcpu, U_alloc_vm_mem 0x400000, U_mmap_mem (at_testboot ob) 86 0x7c00 7,
                   U_open (at_kernel_name ob) 1 1, U_read fd (at_buf ob) 4096]
      in if \<not> eh_magic m (at_buf ob) then Some start
         else map_option (\<lambda>cs. start @ cs @ [U_run_vm, U_close fd])
                (vm_segments ob fd m (at_buf ob + eh_phoff m (at_buf ob)) (unat (eh_phnum m (at_buf ob)))))"

section \<open>The shell\<close>

text \<open>
  One round of the endless loop of \<open>user_main\<close> in the parent and in the child, for what \<open>fork\<close>
  returned: the prompt, the line (see \<open>getline\<close>), and the calls after it.  \<open>waitpid\<close> is called without
  its argument, so its register is what it was: \<open>junk\<close>.
\<close>

definition shell_round :: "u64 \<Rightarrow> u64 \<Rightarrow> u32 \<Rightarrow> int \<Rightarrow> u32 \<Rightarrow> ucall list" where
  "shell_round at_prompt at_world fd child junk =
     [U_write fd at_prompt 1, U_fork] @ (if child = 0 then [U_execve at_world 0 0] else []) @ [U_waitpid junk]"

definition world_main :: "ucall list" where
  "world_main = [U_tprintf]"

section \<open>The rounds of the loop\<close>

lemma scast_small:
  assumes "x < 2 ^ 31"
  shows "sint (of_nat x :: u32) = int x" "(scast (of_nat x :: u32) :: u64) = of_nat x"
proof -
  show s: "sint (of_nat x :: u32) = int x"
  proof -
    have "signed_take_bit 31 (int x) = int x" using assms by (intro signed_take_bit_int_eq_self) simp_all
    then show ?thesis by (simp only: signed_of_nat) simp
  qed
  have "(scast (of_nat x :: u32) :: u64) = word_of_int (sint (of_nat x :: u32))" by (rule scast_eq)
  then show "(scast (of_nat x :: u32) :: u64) = of_nat x" by (simp only: s) simp
qed

text \<open>One round of the loop: how much is read, and which guest page it goes to.\<close>

lemma vm_chunks_round:
  assumes n: "unat memsz = n" "n \<le> 2 ^ 31 - 4096" and c: "4096 * c < n"
  defines "k \<equiv> min 4096 (n - 4096 * c)"
  shows "vm_chunks ob fd memsz paddr (of_nat (4096 * c)) =
    Option.bind (vm_chunks ob fd memsz paddr (of_nat (4096 * Suc c))) (\<lambda>cs.
      Some (U_read fd (at_ttt ob) (of_nat k) # U_mmap_mem (at_ttt ob) (of_nat k) (paddr + of_nat (4096 * c)) 7 # cs))"
proof -
  have j: "(scast (of_nat (4096 * c) :: u32) :: u64) = of_nat (4096 * c)" using n c by (intro scast_small) simp
  have u: "unat (of_nat (4096 * c) :: u64) = 4096 * c" using n c by (intro unat_of_nat_small) simp
  have lt: "(of_nat (4096 * c) :: u64) < memsz" unfolding word_less_nat_alt u n(1) by (rule c)
  have m: "memsz = of_nat n" using n(1) by (metis of_nat_unat ucast_id)
  have "memsz - of_nat (4096 * c) = of_nat (n - 4096 * c)" unfolding m using c by (simp add: of_nat_diff)
  then have r: "(ucast (memsz - of_nat (4096 * c)) :: u32) = of_nat (n - 4096 * c)"
    using n c by (simp only:) (intro ucast_of_nat_small; simp)
  have s: "sint (of_nat (n - 4096 * c) :: u32) = int (n - 4096 * c)" using n by (intro scast_small) simp
  have k: "(if sint (of_nat (n - 4096 * c) :: u32) < 4096 then of_nat (n - 4096 * c) else 4096 :: u32) = of_nat k"
    unfolding s k_def using c by auto
  have sk: "(scast (of_nat k :: u32) :: u64) = of_nat k" unfolding k_def by (intro scast_small) simp
  have nx: "(of_nat (4096 * c) + 4096 :: u32) = of_nat (4096 * Suc c)" by simp
  show ?thesis
    by (subst vm_chunks.simps) (simp only: j lt if_True Let_def r k sk nx)
qed

lemma vm_chunks_end:
  assumes "unat memsz = n" "n \<le> 2 ^ 31 - 4096" "n \<le> 4096 * c" "4096 * c < n + 4096"
  shows "vm_chunks ob fd memsz paddr (of_nat (4096 * c)) = Some []"
proof -
  have j: "(scast (of_nat (4096 * c) :: u32) :: u64) = of_nat (4096 * c)" using assms by (intro scast_small) simp
  have u: "unat (of_nat (4096 * c) :: u64) = 4096 * c" using assms by (intro unat_of_nat_small) simp
  have "\<not> (of_nat (4096 * c) :: u64) < memsz" unfolding word_less_nat_alt u assms(1) using assms(3) by simp
  then show ?thesis by (subst vm_chunks.simps) (simp only: j if_False)
qed

text \<open>The number of pages of \<open>n\<close> bytes.\<close>

definition seg_pages :: "nat \<Rightarrow> nat" where
  "seg_pages n = (n + 4095) div 4096"

lemma seg_pages_less: "c < seg_pages n \<longleftrightarrow> 4096 * c < n"
proof -
  have "c < seg_pages n \<longleftrightarrow> Suc c * 4096 \<le> n + 4095" 
    unfolding seg_pages_def using less_eq_div_iff_mult_less_eq [of 4096 "Suc c" "n + 4095"] by (simp add: Suc_le_eq)
  then show ?thesis by auto
qed

lemma seg_pages_end: "4096 * seg_pages n < n + 4096" "n \<le> 4096 * seg_pages n"
  using seg_pages_less [of "seg_pages n" n] seg_pages_less [of "seg_pages n - 1" n] by (cases "seg_pages n"; simp)+

end
