(* ===== verification/Loader.thy ===== *)
theory Loader
  imports Vmexec Reading Spaces
begin

text \<open>
  The loader \<^verbatim>\<open>user/vmexec.c\<close> on the kernel: its calls in order through the trap handler, \<open>sys_lseek\<close>
  and \<open>sys_read\<close> of \<^verbatim>\<open>kernel/file.c\<close> and \<open>sys_mmap_mem\<close> of \<^verbatim>\<open>kernel/amd64/vmx.c\<close>, and what they do to the
  memory of the guest.
\<close>

section \<open>Calls through the trap\<close>

text \<open>
  The calls of a program one after the other, each entering the kernel with the registers of the one
  before.  What the program itself stores between two calls, its local variables, is left out.
\<close>

primrec run_calls :: "('d, ('d, 'a) kvmx_scheme) kernel_env \<Rightarrow> ucall list \<Rightarrow> pt_regs \<Rightarrow> ('d, 'a) kvmx_scheme
    \<Rightarrow> (pt_regs, ('d, 'a) kvmx_scheme) kres" where
  "run_calls env [] pt s = Ret pt s"
| "run_calls env (c # cs) pt s = bindK (do_trap env 0 (ucall_regs c pt) s) (run_calls env cs)"

lemma run_calls_append: "run_calls env (cs @ ds) pt s = bindK (run_calls env cs pt s) (run_calls env ds)"
  by (induction cs arbitrary: pt s) (simp_all add: bindK_def split: kres.splits)

lemma enters_read: "enters env (u_read fd ubuf cnt) (\<lambda>s. liftK (sys_read (kports env) (sint fd) ubuf cnt s))"
  and enters_lseek: "enters env (u_lseek fd off whence) (\<lambda>s. liftK (sys_lseek (sint fd) (sint off) (sint whence) s))"
  and enters_mmap: "enters env (u_mmap_mem addr len gpa prot) (\<lambda>s. liftK (sys_mmap_mem addr len gpa (sint prot) s))"
  unfolding stub_defs by (rule enters_syscall; simp add: do_syscall_def int_arg_scast ucast_arg)+

section \<open>The state of the loader\<close>

text \<open>
  The running process has the file \<open>f\<close> of the file table open at \<open>fd\<close>, a file on disk whose inode is in
  page \<open>g\<close> of the kernel, and the frame \<open>fr\<close> at page \<open>k\<close>; the guest has page tables of its own.
\<close>

definition loading :: "int \<Rightarrow> nat \<Rightarrow> nat \<Rightarrow> nat \<Rightarrow> nat \<Rightarrow> nat \<Rightarrow> ('d, 'a) kvmx_scheme \<Rightarrow> bool" where
  "loading fd f k fr g j s \<longleftrightarrow> get_fd fd s = Inr (Some f) \<and> f < length (filetable s) \<and> f_type (filetable s ! f) = FDFILE
     \<and> read_ctx s (cpu_root s) k fr (f_inode (filetable s ! f)) g j
     \<and> pt_inv s (ept_pgdir s) \<and> tables s (cpu_root s) \<inter> tables s (ept_pgdir s) = {}
     \<and> fr \<notin> tables s (ept_pgdir s) \<and> g \<notin> tables s (ept_pgdir s)"

text \<open>Guest page \<open>q\<close> holds the bytes \<open>bs\<close>, in a frame of its own.\<close>

definition guest_holds :: "nat \<Rightarrow> ('d, 'a) kvmx_scheme \<Rightarrow> nat \<Rightarrow> u8 list \<Rightarrow> bool" where
  "guest_holds fr s q bs \<longleftrightarrow> (\<exists>p. pte_of (mem s) (ept_pgdir s) (page_va q) = PAGE2PA p OR 7 \<and> page_bytes (mem s) p = bs
     \<and> p < length (pages s) \<and> p \<notin> free_pages s \<and> p \<notin> tables s (ept_pgdir s) \<and> p \<noteq> fr)"

text \<open>
  From \<open>s\<close> to \<open>s'\<close> the guest pages in \<open>X\<close> may have been replaced and up to \<open>n\<close> pages of the pool used;
  the file is the same.
\<close>

definition loads :: "'d drive \<Rightarrow> nat \<Rightarrow> nat \<Rightarrow> nat set \<Rightarrow> nat \<Rightarrow> ('d, 'a) kvmx_scheme \<Rightarrow> ('d, 'a) kvmx_scheme \<Rightarrow> bool" where
  "loads a f fr X n s s' \<longleftrightarrow> f_inode (filetable s' ! f) = f_inode (filetable s ! f) \<and> sectors a (dev s') = sectors a (dev s)
     \<and> (\<forall>i \<le> 10. inode_block s' (f_inode (filetable s ! f)) i = inode_block s (f_inode (filetable s ! f)) i)
     \<and> (\<forall>q < 2 ^ 35. q \<notin> X \<longrightarrow> pte_of (mem s') (ept_pgdir s') (page_va q) = pte_of (mem s) (ept_pgdir s) (page_va q)
          \<and> (\<forall>bs. guest_holds fr s q bs \<longrightarrow> guest_holds fr s' q bs))
     \<and> card (free_pages s) \<le> card (free_pages s') + n"

lemma loads_trans:
  assumes "loads a f fr X n s s1" and "loads a f fr Y m s1 s2"
  shows "loads a f fr (X \<union> Y) (n + m) s s2"
  using assms unfolding loads_def by auto

text \<open>A step beside the memory, the pool, the drive and the file.\<close>

lemma aside:
  fixes s t :: "('d, 'a) kvmx_scheme"
  assumes mm: "pages t = pages s" "phead t = phead s" "npages t = npages s" "mem t = mem s"
    and st: "cpu_root t = cpu_root s" "ept_pgdir t = ept_pgdir s" "dev t = dev s" "get_fd fd t = get_fd fd s"
    and ft: "length (filetable t) = length (filetable s)" "f_inode (filetable t ! f) = f_inode (filetable s ! f)"
      "f_type (filetable t ! f) = f_type (filetable s ! f)"
  shows "loading fd f k fr g j t = loading fd f k fr g j s" and "loads a f fr {} 0 s t"
proof -
  note c = space_cong [OF mm] mm_cong(2) [OF mm(1-3)]
  show "loading fd f k fr g j t = loading fd f k fr g j s"
    by (simp add: loading_def read_ctx_def user_page_def inode_at_def c mm(1,4) st ft)
  show "loads a f fr {} 0 s t"
    by (simp add: loads_def guest_holds_def inode_block_def c mm(1,4) st ft)
qed

lemma get_fd_cong: "current t = current s \<Longrightarrow> procs t = procs s \<Longrightarrow> get_fd fd t = get_fd fd s"
  by (cases "current s") (simp_all add: get_fd_def)

lemma get_fd_filetable [simp]: "get_fd fd (s\<lparr>filetable := x\<rparr>) = get_fd fd s"
  by (rule get_fd_cong) simp_all

lemma saved_aside:
  fixes s :: "('d, 'a) kvmx_scheme"
  shows "loading fd f k fr g j (saved pt s) = loading fd f k fr g j s" and "loads a f fr {} 0 s (saved pt s)"
    and "filetable (saved pt s) = filetable s" and "mem (saved pt s) = mem s" and "free_pages (saved pt s) = free_pages s"
    and "dev (saved pt s) = dev s"
proof -
  have "fdtable (procs (upd_proc c (\<lambda>p. p\<lparr>pregs := pt\<rparr>) s) ! c) = fdtable (procs s ! c)" for c
    by (cases "c < length (procs s)") (simp_all add: upd_proc_def nth_list_update list_update_beyond)
  then have g: "get_fd fd (saved pt s) = get_fd fd s"
    by (cases "current s") (simp_all add: saved_def get_fd_def)
  have e: "pages (saved pt s) = pages s" "phead (saved pt s) = phead s" "npages (saved pt s) = npages s" "mem (saved pt s) = mem s"
    "cpu_root (saved pt s) = cpu_root s" "ept_pgdir (saved pt s) = ept_pgdir s" "dev (saved pt s) = dev s"
    "filetable (saved pt s) = filetable s"
    by (cases "current s"; simp add: saved_def upd_proc_def cpu_root_def)+
  from e show "filetable (saved pt s) = filetable s" "mem (saved pt s) = mem s" "dev (saved pt s) = dev s" by simp_all
  show "free_pages (saved pt s) = free_pages s" by (rule mm_cong(2) [OF e(1-3)])
  show "loading fd f k fr g j (saved pt s) = loading fd f k fr g j s" "loads a f fr {} 0 s (saved pt s)"
    by (rule aside [OF e(1-7) g]; simp add: e(8))+
qed

section \<open>One call\<close>

lemma lseek_call:
  fixes s :: "('d, 'a) kvmx_scheme"
  assumes ld: "loading (sint fd) f k fr g j s" and off: "sint off = int n"
  obtains pt' and s' :: "('d, 'a) kvmx_scheme" where "do_trap env 0 (u_lseek fd off 0 pt) s = Ret pt' s'" "loading (sint fd) f k fr g j s'"
    "loads a f fr {} 0 s s'" "f_offset (filetable s' ! f) = int n"
proof -
  let ?s1 = "saved (u_lseek fd off 0 pt) s"
  let ?s' = "upd_file f (\<lambda>x. x\<lparr>f_offset := int n\<rparr>) ?s1"
  note sv = saved_aside [where pt = "u_lseek fd off 0 pt" and s = s]
  have ld1: "loading (sint fd) f k fr g j ?s1" using ld by (simp only: sv(1))
  then have l: "get_fd (sint fd) ?s1 = Inr (Some f)" "f < length (filetable ?s1)"
    "inode_at ?s1 (f_inode (filetable ?s1 ! f)) g j" "pt_inv ?s1 (cpu_root ?s1)"
    by (simp_all add: loading_def read_ctx_def user_page_def)
  have "g < 2 ^ 18" using l(3) pt_inv_mm [OF l(4)] by (simp add: inode_at_def mm_inv_def)
  then have "KBASE \<le> f_inode (filetable ?s1 ! f)"
    using l(3) kernel_page_byte [of g j] by (simp add: inode_at_def)
  then have "f_inode (filetable ?s1 ! f) \<noteq> 0" by (auto simp: KBASE_def)
  then have run: "sys_lseek (sint fd) (sint off) (sint (0 :: u32)) ?s1 = Inr (int n, ?s')"
    by (simp add: sys_lseek_def l(1) off)
  have as: "loading (sint fd) f k fr g j ?s' = loading (sint fd) f k fr g j ?s1" "loads a f fr {} 0 ?s1 ?s'"
    by (rule aside; simp add: upd_file_def cpu_root_def l(2))+
  show thesis
  proof (rule that)
    show "do_trap env 0 (u_lseek fd off 0 pt) s = Ret ((u_lseek fd off 0 pt)\<lparr>rax := word_of_int (int n)\<rparr>) ?s'"
      using enters_lseek [of env fd off 0, unfolded enters_def, rule_format, of 0 pt s] by (simp only: run liftK_simps bindK_simps)
    show "loading (sint fd) f k fr g j ?s'" by (simp only: as(1) ld1)
    show "loads a f fr {} 0 s ?s'" using loads_trans [OF sv(2) as(2)] by simp
    show "f_offset (filetable ?s' ! f) = int n" by (simp add: upd_file_def l(2))
  qed
qed

text \<open>Stores outside some pages keep the words of every other page.\<close>

lemma keeps_page_bytes:
  assumes "\<And>h. h < 2 ^ 18 \<Longrightarrow> h \<notin> F \<Longrightarrow> page_bytes m' h = page_bytes m h"
  shows "keeps m m' F"
  unfolding keeps_def
proof (intro allI impI)
  fix h and i :: u64 assume h: "h \<notin> F" "h < 2 ^ 18" "i < 512"
  have "8 * unat i + 8 \<le> 4096" using h(3) by (simp add: unat_less_512)
  then have "load_bytes n (PAGE2VA h + of_nat (8 * unat i)) 8 = take 8 (drop (8 * unat i) (page_bytes n h))" for n
    by (rule page_load)
  then show "load64 m' (PAGE2VA h + 8 * i) = load64 m (PAGE2VA h + 8 * i)"
    using assms [OF h(2,1)] unfolding load64_def entry_as_offset by simp
qed

lemma read_call:
  fixes s :: "('d, 'a) kvmx_scheme"
  assumes ata: "ata (kports env) a" and ld: "loading (sint fd) f k fr g j s"
    and off: "f_offset (filetable s ! f) = int off" "off < 40960" "inode_block s (f_inode (filetable s ! f)) (off div 4096) \<noteq> 0"
    and n: "0 < n" "off mod 4096 + n \<le> 4096" "b + n \<le> 4096" and ne: "free_pages s \<noteq> {}"
  obtains pt' and s' :: "('d, 'a) kvmx_scheme" where "do_trap env 0 (u_read fd (page_va k + of_nat b) (of_nat n) pt) s = Ret pt' s'"
    "loading (sint fd) f k fr g j s'" "loads a f fr {} 1 s s'" "f_offset (filetable s' ! f) = int (off + n)"
    "take n (drop b (page_bytes (mem s') fr)) = file_bytes a s (f_inode (filetable s ! f)) off n"
proof -
  let ?u = "u_read fd (page_va k + of_nat b) (of_nat n)" and ?r = "cpu_root s" and ?e = "ept_pgdir s"
  let ?t = "saved (?u pt) s" and ?file = "filetable s ! f" and ?bs = "file_bytes a s (f_inode (filetable s ! f)) off n"
  note sv = saved_aside [where pt = "?u pt" and s = s]
  have ld1: "loading (sint fd) f k fr g j ?t" using ld by (simp only: sv(1))
  have t: "cpu_root ?t = ?r" "ept_pgdir ?t = ?e" "pages ?t = pages s" "phead ?t = phead s" "npages ?t = npages s"
    by (cases "current s"; simp add: saved_def upd_proc_def cpu_root_def)+
  note l = ld1 [unfolded loading_def]
  have ctx: "read_ctx ?t ?r k fr (f_inode ?file) g j" and up: "user_page ?t ?r k fr"
    using l by (simp_all add: sv(3) t read_ctx_def)
  have bl: "inode_block ?t (f_inode ?file) i = inode_block s (f_inode ?file) i" for i by (simp add: inode_block_def sv(4))
  have u: "unat (of_nat n :: u32) = n" using n by (intro unat_of_nat_small) simp
  have len: "length ?bs = n" using n(2) by (simp add: file_bytes_def length_block_bytes [OF ata])
  have fb: "file_bytes a ?t (f_inode ?file) off n = ?bs" by (simp add: file_bytes_def bl sv(6))
  have wr: "wrap32 (int off + int n) = int (off + n)" using off(2) n(2) wrap32_small [of "int (off + n)"] by simp
  obtain p s1 where r: "file_read (kports env) ?file (page_va k + of_nat b) (of_nat n) (int off) ?t
      = Inr (int n, ?file\<lparr>f_offset := int (off + n)\<rparr>, s1)"
    "reads_to ?t s1 ?r fr b ?bs {p}" "read_ctx s1 ?r k fr (f_inode ?file) g j"
    "sectors a (dev s1) = sectors a (dev ?t)" "\<forall>i \<le> 10. inode_block s1 (f_inode ?file) i = inode_block ?t (f_inode ?file) i"
    using file_read_one [OF ata ctx _ off(2) _ u n] ne off(3) unfolding bl off(1) wr fb sv(5) by blast
  let ?s' = "upd_file f (\<lambda>_. ?file\<lparr>f_offset := int (off + n)\<rparr>) s1"
  have run: "sys_read (kports env) (sint fd) (page_va k + of_nat b) (of_nat n) ?t = Inr (int n, ?s')"
    using r(1) l off(1) by (simp add: sys_read_def sv(3))
  note rt = r(2) [unfolded reads_to_def len]
  have frs: "fr < length (pages ?t)" "fr \<notin> free_pages ?t" using up by (simp_all add: user_page_def)
  have mm: "mm_inv s1" "mm_inv ?t" using r(3) up by (auto simp: read_ctx_def user_page_def intro: pt_inv_mm)
  have plen: "length (pages ?t) \<le> 2 ^ 18" using mm(2) by (simp add: mm_inv_def)
  have kp: "keeps (mem ?t) (mem s1) {fr, p}" using rt by (intro keeps_page_bytes) auto
  have ept: "pt_inv ?t ?e" "tables ?t ?e \<inter> {fr, p} = {}" "tables ?t ?e \<inter> free_pages s1 = {}"
    using l rt tables_not_free [of ?t ?e] by (auto simp: t)
  note sp = space_kept [OF ept(1) mm(1) _ kp ept(2,3)]
  have lp: "length (pages s1) = length (pages ?t)" using rt by simp
  have inv_r: "pt_inv ?t ?r" "tables ?t ?r \<inter> {fr, p} = {}" "tables ?t ?r \<inter> free_pages s1 = {}"
    using up rt tables_not_free [of ?t ?r] by (auto simp: user_page_def)
  note spr = space_kept [OF inv_r(1) mm(1) lp kp inv_r(2,3)]
  have more: "ept_pgdir s1 = ?e" "cpu_root s1 = ?r" using rt r(3) t by (auto simp: read_ctx_def) (cases s1; cases ?t; simp)
  have ft: "filetable s1 = filetable s" "procs s1 = procs ?t" "current s1 = current ?t" using rt sv(3) by simp_all
  have l1: "loading (sint fd) f k fr g j s1"
    using l r(3) sp(1,2) [OF lp] spr(2) rt by (simp add: loading_def more t ft sv(3) get_fd_cong [OF ft(3,2)])
  have free1: "free_pages s1 = free_pages ?t - {p}" "p \<in> free_pages ?t" using rt by simp_all
  have fin: "finite (free_pages ?t)" by (simp add: free_pages_def)
  have gh: "guest_holds fr s1 q bs" if h: "guest_holds fr ?t q bs" and q: "q < 2 ^ 35" for q bs
  proof -
    from h obtain x where x: "pte_of (mem ?t) ?e (page_va q) = PAGE2PA x OR 7" "page_bytes (mem ?t) x = bs"
      "x < length (pages ?t)" "x \<notin> free_pages ?t" "x \<notin> tables ?t ?e" "x \<noteq> fr"
      unfolding guest_holds_def t(2) by blast
    have "x < 2 ^ 18" "x \<noteq> p" using x(3,4) free1(2) plen by auto
    then have "page_bytes (mem s1) x = bs" using x(2,6) rt by blast
    then show ?thesis
      using x free1 lp sp(2,3) [OF lp] page_va_facts(2) [OF q] unfolding guest_holds_def more by auto
  qed
  have lds: "loads a f fr {} 1 ?t s1"
    unfolding loads_def using r(4,5) sp(3) [OF lp] page_va_facts(2) gh free1 card_Suc_Diff1 [OF fin free1(2)]
    by (simp add: ft sv(3) more t)
  have as: "loading (sint fd) f k fr g j ?s' = loading (sint fd) f k fr g j s1" "loads a f fr {} 0 s1 ?s'"
    using l by (rule_tac [!] aside) (simp_all add: upd_file_def cpu_root_def ft sv(3))
  show thesis
  proof (rule that)
    show "do_trap env 0 (?u pt) s = Ret ((?u pt)\<lparr>rax := word_of_int (int n)\<rparr>) ?s'"
      using enters_read [of env fd "page_va k + of_nat b" "of_nat n", unfolded enters_def, rule_format, of 0 pt s]
      by (simp only: run liftK_simps bindK_simps)
    show "loading (sint fd) f k fr g j ?s'" by (simp only: as(1) l1)
    show "loads a f fr {} 1 s ?s'" using loads_trans [OF loads_trans [OF sv(2) lds] as(2)] by simp
    show "f_offset (filetable ?s' ! f) = int (off + n)" using l by (simp add: upd_file_def ft sv(3))
    have "page_bytes (mem s1) fr = take b (page_bytes (mem ?t) fr) @ ?bs @ drop (b + n) (page_bytes (mem ?t) fr)" using rt by simp
    moreover have "length (page_bytes (mem ?t) fr) = 4096" by (simp add: page_bytes_def)
    ultimately show "take n (drop b (page_bytes (mem ?s') fr)) = ?bs" using len n(3) by (simp add: upd_file_def)
  qed
qed

lemma inode_block_page:
  fixes s s' :: "('d, 'a) kfs_scheme"
  assumes "inode_at s ip g j" and "i \<le> 10" and "page_bytes (mem s') g = page_bytes (mem s) g"
  shows "inode_block s' ip i = inode_block s ip i"
proof -
  note a = inode_block_addr [OF assms(1,2)]
  show ?thesis using a assms(3) unfolding inode_block_def load16_def a [THEN conjunct1] by (simp only: page_load)
qed

lemma buffer_bytes:
  assumes up: "user_page s r k fr" and n: "b + n \<le> 4096"
  shows "user_range s r (page_va k + of_nat b) n" and "vbytes (mem s) r (page_va k + of_nat b) n = take n (drop b (page_bytes (mem s) fr))"
proof -
  have k: "k < 2 ^ 35" and e: "pte_of (mem s) r (page_va k) AND 1 \<noteq> 0" "frame_of (pte_of (mem s) r (page_va k)) = fr"
    using up by (simp_all add: user_page_def)
  have a: "user_va (page_va k + of_nat b + of_nat i)" "page_va k + of_nat b + of_nat i < KBASE"
    "pte_of (mem s) r (page_va k + of_nat b + of_nat i) = pte_of (mem s) r (page_va k)"
    "vread r (mem s) (page_va k + of_nat b + of_nat i) = Some (mem s (PAGE2VA fr + of_nat (b + i)))" if i: "i < n" for i
  proof -
    have "b + i < 4096" using i n by simp
    note v = page_va_inside [OF k this]
    have "pte_of (mem s) r (page_va k + of_nat (b + i)) = pte_of (mem s) r (page_va k)"
      using v(1) page_va_facts(1) [OF k] by (intro pte_of_page) simp
    with v(2-4) vread_entry [OF this e(1) v(4)] e(2)
    show "user_va (page_va k + of_nat b + of_nat i)" "page_va k + of_nat b + of_nat i < KBASE"
      "pte_of (mem s) r (page_va k + of_nat b + of_nat i) = pte_of (mem s) r (page_va k)"
      "vread r (mem s) (page_va k + of_nat b + of_nat i) = Some (mem s (PAGE2VA fr + of_nat (b + i)))"
      by (simp_all add: add.assoc)
  qed
  show "user_range s r (page_va k + of_nat b) n" using a up by (simp add: user_range_def user_page_def)
  show "vbytes (mem s) r (page_va k + of_nat b) n = take n (drop b (page_bytes (mem s) fr))"
    by (rule nth_equalityI) (use n in \<open>simp_all add: vbytes_def a(4) page_bytes_def load_bytes_def\<close>)
qed

lemma guest_page_address: "q < 2 ^ 35 \<Longrightarrow> unat (page_va q mod 4096) = 0"
  unfolding unat_mod by (subst page_va_unat) simp_all

lemma more_fields:
  fixes s s' :: "('d, 'a) kvmx_scheme"
  assumes "kmm.more s' = kmm.more s"
  shows "ept_pgdir s' = ept_pgdir s" "cpu_root s' = cpu_root s" "filetable s' = filetable s" "dev s' = dev s"
    "get_fd fd s' = get_fd fd s"
proof -
  have "current s' = current s" "procs s' = procs s" using kvmx_more [OF assms] by simp_all
  then show "get_fd fd s' = get_fd fd s" by (rule get_fd_cong)
  show "ept_pgdir s' = ept_pgdir s" "cpu_root s' = cpu_root s" "filetable s' = filetable s" "dev s' = dev s"
    using assms by (cases s; cases s'; simp add: cpu_root_def)+
qed

lemma mmap_call:
  fixes s :: "('d, 'a) kvmx_scheme"
  assumes ld: "loading fd f k fr g j s" and q: "q < 2 ^ 35" and n: "b + n \<le> 4096" and room: "4 \<le> card (free_pages s)"
  obtains pt' and s' :: "('d, 'a) kvmx_scheme" where
    "do_trap env 0 (u_mmap_mem (page_va k + of_nat b) (of_nat n) (page_va q) prot pt) s = Ret pt' s'"
    "loading fd f k fr g j s'" "loads a f fr {q} 4 s s'" "filetable s' = filetable s"
    "guest_holds fr s' q (take n (drop b (page_bytes (mem s) fr)) @ replicate (4096 - n) 0)"
proof -
  let ?u = "u_mmap_mem (page_va k + of_nat b) (of_nat n) (page_va q) prot" and ?r = "cpu_root s" and ?e = "ept_pgdir s"
  let ?t = "saved (?u pt) s" and ?ip = "f_inode (filetable s ! f)" and ?bs = "take n (drop b (page_bytes (mem (saved (u_mmap_mem (page_va k + of_nat b) (of_nat n) (page_va q) prot pt) s)) fr))"
  note sv = saved_aside [where pt = "?u pt" and s = s]
  have t: "cpu_root ?t = ?r" "ept_pgdir ?t = ?e"
    by (cases "current s"; simp add: saved_def upd_proc_def cpu_root_def)+
  have "loading fd f k fr g j ?t" using ld by (simp only: sv(1))
  note l = this [unfolded loading_def t]
  have up: "user_page ?t ?r k fr" and ia: "inode_at ?t ?ip g j" using l by (simp_all add: read_ctx_def sv(3))
  have inv: "pt_inv ?t ?r" "pt_inv ?t ?e" using l up by (simp_all add: user_page_def)
  note bb = buffer_bytes [OF up n] and m0 = guest_page_address [OF q]
  have fits: "unat (page_va q mod 4096) + n \<le> 4096" using n m0 by simp
  have room': "4 \<le> card (free_pages ?t)" using room by (simp only: sv(5))
  obtain p s' where e: "sys_mmap_mem (page_va k + of_nat b) (of_nat n) (page_va q) (sint prot) ?t = Inr (0, s')"
    "p \<in> free_pages ?t - free_pages s'" "pt_inv s' ?e"
    "\<And>va. user_va va \<Longrightarrow> pte_of (mem s') ?e va = (if vpn va = vpn (page_va q) then PAGE2PA p OR 7 else pte_of (mem ?t) ?e va)"
    "page_bytes (mem s') p = ?bs @ replicate (4096 - n) 0" "free_pages s' \<subseteq> free_pages ?t"
    "card (free_pages ?t) \<le> card (free_pages s') + 4" "tables s' ?e \<subseteq> tables ?t ?e \<union> (free_pages ?t - free_pages s')"
    "p \<notin> tables s' ?e" "keeps (mem ?t) (mem s') (free_pages ?t \<union> tables ?t ?e)"
    "length (pages s') = length (pages ?t)" "kmm.more s' = kmm.more ?t"
    by (rule mmap_mem_effect [where s = ?t and prot = "sint prot", unfolded t, OF inv page_va_facts(2) [OF q] bb(1) refl fits room',
        unfolded bb(2) m0 replicate_0 append_Nil diff_zero])
      (rule that; assumption)
  have mm: "mm_inv s'" by (rule pt_inv_mm [OF e(3)])
  have plen: "length (pages ?t) \<le> 2 ^ 18" using pt_inv_mm [OF inv(2)] by (simp add: mm_inv_def)
  note more = more_fields [OF e(12), unfolded t]
  have apart: "tables ?t ?r \<inter> (free_pages ?t \<union> tables ?t ?e) = {}" "tables ?t ?r \<inter> free_pages s' = {}"
    using tables_not_free [OF inv(1)] e(6) l by auto
  note sp = space_kept [OF inv(1) mm e(11,10) apart]
  have frs: "fr < length (pages ?t)" "fr \<notin> free_pages ?t" "fr \<notin> tables ?t ?r" using up by (simp_all add: user_page_def)
  have up': "user_page s' ?r k fr"
    using up sp(1-3) e(6,11) page_va_facts(2) [of k] by (auto simp: user_page_def)
  have ia': "inode_at s' ?ip g j" using ia e(6,11) by (auto simp: inode_at_def)
  have gs: "g < length (pages ?t)" "g \<notin> free_pages ?t" using ia by (simp_all add: inode_at_def)
  then have "page_bytes (mem s') g = page_bytes (mem ?t) g" using l plen by (intro page_bytes_keeps [OF e(10)]) auto
  note bl = inode_block_page [OF ia _ this]
  have l': "loading fd f k fr g j s'"
    using l up' ia' e(3,8) sp(2) frs gs apart by (auto simp: loading_def read_ctx_def more sv(3))
  have oth: "pte_of (mem s') ?e (page_va x) = pte_of (mem ?t) ?e (page_va x)" if "x < 2 ^ 35" "x \<noteq> q" for x
    using e(4) [OF page_va_facts(2) [OF that(1)]] page_va_eq [OF that(1) q] that(2) page_va_facts(1) [OF q] by simp
  have gh: "guest_holds fr s' x bs" if h: "guest_holds fr ?t x bs" and x: "x < 2 ^ 35" "x \<noteq> q" for x bs
  proof -
    from h obtain y where y: "pte_of (mem ?t) ?e (page_va x) = PAGE2PA y OR 7" "page_bytes (mem ?t) y = bs"
      "y < length (pages ?t)" "y \<notin> free_pages ?t" "y \<notin> tables ?t ?e" "y \<noteq> fr"
      unfolding guest_holds_def t(2) by blast
    have "page_bytes (mem s') y = bs" using y plen page_bytes_keeps [OF e(10), of y] by auto
    then show ?thesis
      using y e(6,8,11) oth [OF x] unfolding guest_holds_def more by auto
  qed
  have lds: "loads a f fr {q} 4 ?t s'"
    unfolding loads_def using bl oth gh e(7) by (simp add: more sv(3) t)
  show thesis
  proof (rule that)
    show "do_trap env 0 (?u pt) s = Ret ((?u pt)\<lparr>rax := word_of_int 0\<rparr>) s'"
      using enters_mmap [of env "page_va k + of_nat b" "of_nat n" "page_va q" prot, unfolded enters_def, rule_format, of 0 pt s]
      by (simp only: e(1) liftK_simps bindK_simps)
    show "loads a f fr {q} 4 s s'" using loads_trans [OF sv(2) lds] by simp
    have "p < length (pages ?t)" using e(2) by (auto simp: free_pages_def)
    then have "guest_holds fr s' q (?bs @ replicate (4096 - n) 0)"
      using e(2,5,9,11) e(4) [OF page_va_facts(2) [OF q]] frs(2) unfolding guest_holds_def more by auto
    then show "guest_holds fr s' q (take n (drop b (page_bytes (mem s) fr)) @ replicate (4096 - n) 0)" by (simp only: sv(4))
  qed (use l' more sv(3) in simp_all)
qed

section \<open>A segment\<close>

text \<open>Page \<open>c\<close> of the \<open>n\<close> bytes of the file from \<open>off\<close> on, filled up with zeros.\<close>

definition seg_page :: "'d drive \<Rightarrow> ('d, 'a) kfs_scheme \<Rightarrow> u64 \<Rightarrow> nat \<Rightarrow> nat \<Rightarrow> nat \<Rightarrow> u8 list" where
  "seg_page a s ip off n c = (let k = min 4096 (n - 4096 * c) in file_bytes a s ip (off + 4096 * c) k @ replicate (4096 - k) 0)"

lemma seg_page_loads:
  assumes "loads a f fr X m s s'" and "off + 4096 * c < 40960"
  shows "seg_page a s' (f_inode (filetable s ! f)) off n c = seg_page a s (f_inode (filetable s ! f)) off n c"
proof -
  have "(off + 4096 * c) div 4096 \<le> 10" using assms(2) by simp
  then have "inode_block s' (f_inode (filetable s ! f)) ((off + 4096 * c) div 4096)
      = inode_block s (f_inode (filetable s ! f)) ((off + 4096 * c) div 4096)"
    using assms(1) unfolding loads_def by blast
  moreover have "block_bytes a (dev s') x = block_bytes a (dev s) x" for x
    using assms(1) by (simp add: loads_def block_bytes_def)
  ultimately show ?thesis by (simp add: seg_page_def file_bytes_def)
qed

text \<open>One round of the loop: \<open>read\<close> into the buffer, \<open>mmap_mem\<close> out of it.\<close>

lemma round_loads:
  fixes s :: "('d, 'a) kvmx_scheme"
  assumes ata: "ata (kports env) a" and ld: "loading (sint fd) f k fr g j s" and q: "P + c < 2 ^ 35"
    and pos: "f_offset (filetable s ! f) = int (off + 4096 * c)" "off mod 4096 = 0" "off + 4096 * c < 40960"
      "inode_block s (f_inode (filetable s ! f)) (off div 4096 + c) \<noteq> 0"
    and n: "4096 * c < n" "b + min 4096 n \<le> 4096" and room: "5 \<le> card (free_pages s)"
  defines "m \<equiv> min 4096 (n - 4096 * c)"
  obtains pt' and s' :: "('d, 'a) kvmx_scheme" where
    "run_calls env [U_read fd (page_va k + of_nat b) (of_nat m), U_mmap_mem (page_va k + of_nat b) (of_nat m) (page_va (P + c)) 7] pt s = Ret pt' s'"
    "loading (sint fd) f k fr g j s'" "loads a f fr {P + c} 5 s s'" "f_offset (filetable s' ! f) = int (off + 4096 * c + m)"
    "guest_holds fr s' (P + c) (seg_page a s (f_inode (filetable s ! f)) off n c)"
proof -
  let ?ip = "f_inode (filetable s ! f)"
  have m: "0 < m" "b + m \<le> 4096" using n by (auto simp: m_def)
  have al: "(off + 4096 * c) mod 4096 = 0" "(off + 4096 * c) div 4096 = off div 4096 + c" using pos(2) by simp_all
  have ms: "(off + 4096 * c) mod 4096 + m \<le> 4096" using m al(1) by simp
  have bl: "inode_block s ?ip ((off + 4096 * c) div 4096) \<noteq> 0" unfolding al(2) by (rule pos(4))
  have ne: "free_pages s \<noteq> {}" using room by auto
  obtain pt1 and s1 :: "('d, 'a) kvmx_scheme" where r: "do_trap env 0 (u_read fd (page_va k + of_nat b) (of_nat m) pt) s = Ret pt1 s1"
    "loading (sint fd) f k fr g j s1" "loads a f fr {} 1 s s1" "f_offset (filetable s1 ! f) = int (off + 4096 * c + m)"
    "take m (drop b (page_bytes (mem s1) fr)) = file_bytes a s ?ip (off + 4096 * c) m"
    by (rule read_call [OF ata ld pos(1,3) bl m(1) ms m(2) ne]) (rule that; assumption)
  have "4 \<le> card (free_pages s1)" using r(3) room by (simp add: loads_def)
  then obtain pt2 and s2 :: "('d, 'a) kvmx_scheme" where
    w: "do_trap env 0 (u_mmap_mem (page_va k + of_nat b) (of_nat m) (page_va (P + c)) 7 pt1) s1 = Ret pt2 s2"
    "loading (sint fd) f k fr g j s2" "loads a f fr {P + c} 4 s1 s2" "filetable s2 = filetable s1"
    "guest_holds fr s2 (P + c) (take m (drop b (page_bytes (mem s1) fr)) @ replicate (4096 - m) 0)"
    by (rule mmap_call [where a = a and prot = 7 and env = env and pt = pt1, OF r(2) q m(2)]) (rule that; assumption)
  show thesis
  proof (rule that)
    show "run_calls env [U_read fd (page_va k + of_nat b) (of_nat m), U_mmap_mem (page_va k + of_nat b) (of_nat m) (page_va (P + c)) 7] pt s = Ret pt2 s2"
      using r(1) w(1) by simp
    show "loads a f fr {P + c} 5 s s2" using loads_trans [OF r(3) w(3)] by simp
    show "guest_holds fr s2 (P + c) (seg_page a s ?ip off n c)"
      using w(5) by (simp only: r(5)) (simp add: seg_page_def m_def Let_def)
  qed (use w(2,4) r(4) in simp_all)
qed

lemma page_va_add: "page_va P + of_nat (4096 * c) = page_va (P + c)"
  by (simp add: page_va_def)

lemma vm_chunks_load:
  fixes s :: "('d, 'a) kvmx_scheme"
  assumes ata: "ata (kports env) a" and n: "unat memsz = n" and P: "P + seg_pages n \<le> 2 ^ 35"
    and off: "off mod 4096 = 0" "off + n \<le> 40960" and buf: "at_ttt ob = page_va k + of_nat b" "b + min 4096 n \<le> 4096"
  shows "seg_pages n - c = d \<Longrightarrow> c \<le> seg_pages n \<Longrightarrow> loading (sint fd) f k fr g j s \<Longrightarrow>
    (c < seg_pages n \<Longrightarrow> f_offset (filetable s ! f) = int (off + 4096 * c)) \<Longrightarrow> f_inode (filetable s ! f) = ip \<Longrightarrow>
    (\<forall>i < seg_pages n. inode_block s ip (off div 4096 + i) \<noteq> 0) \<Longrightarrow> 5 * d \<le> card (free_pages s) \<Longrightarrow>
    \<exists>cs pt' s'. vm_chunks ob fd memsz (page_va P) (of_nat (4096 * c)) = Some cs \<and> run_calls env cs pt s = Ret pt' s'
      \<and> loading (sint fd) f k fr g j s' \<and> loads a f fr {P + c..<P + seg_pages n} (5 * d) s s'
      \<and> (\<forall>i < seg_pages n. c \<le> i \<longrightarrow> guest_holds fr s' (P + i) (seg_page a s ip off n i))"
proof (induction d arbitrary: c s pt)
  case 0
  then have c: "c = seg_pages n" by simp
  have "vm_chunks ob fd memsz (page_va P) (of_nat (4096 * c)) = Some []"
    using n off(2) seg_pages_end [of n] by (intro vm_chunks_end [OF n]) (simp_all add: c)
  then show ?case using 0 c by (intro exI [of _ "[]"] exI [of _ pt] exI [of _ s]) (simp add: loads_def)
next
  case (Suc d)
  have c: "c < seg_pages n" using Suc.prems(1) by simp
  then have cn: "4096 * c < n" by (simp only: seg_pages_less)
  define m where "m = min 4096 (n - 4096 * c)"
  have q: "P + c < 2 ^ 35" using P c by simp
  have lim: "off + 4096 * c < 40960" using off(2) cn by simp
  have bl: "inode_block s (f_inode (filetable s ! f)) (off div 4096 + c) \<noteq> 0" using Suc.prems(5,6) c by simp
  have room: "5 \<le> card (free_pages s)" using Suc.prems(7) by simp
  obtain pt1 and s1 :: "('d, 'a) kvmx_scheme" where
    r: "run_calls env [U_read fd (page_va k + of_nat b) (of_nat m), U_mmap_mem (page_va k + of_nat b) (of_nat m) (page_va (P + c)) 7] pt s = Ret pt1 s1"
    "loading (sint fd) f k fr g j s1" "loads a f fr {P + c} 5 s s1" "f_offset (filetable s1 ! f) = int (off + 4096 * c + m)"
    "guest_holds fr s1 (P + c) (seg_page a s ip off n c)"
    by (rule round_loads [where pt = pt, OF ata Suc.prems(3) q Suc.prems(4) [OF c] off(1) lim bl cn buf(2) room, folded m_def, unfolded Suc.prems(5)]) (rule that; assumption)
  have ip: "f_inode (filetable s1 ! f) = ip" using r(3) Suc.prems(5) by (simp add: loads_def)
  have lt: "i < seg_pages n \<Longrightarrow> off + 4096 * i < 40960 \<and> off div 4096 + i \<le> 10" for i
    using off seg_pages_less [of i n] by auto
  have bls: "\<forall>i < seg_pages n. inode_block s1 ip (off div 4096 + i) \<noteq> 0"
    using Suc.prems(5,6) r(3) lt by (auto simp: loads_def)
  have pos: "f_offset (filetable s1 ! f) = int (off + 4096 * Suc c)" if "Suc c < seg_pages n"
    using r(4) that by (simp add: seg_pages_less m_def)
  have d: "seg_pages n - Suc c = d" "Suc c \<le> seg_pages n" using Suc.prems(1) c by simp_all
  have room': "5 * d \<le> card (free_pages s1)" using r(3) Suc.prems(7) by (simp add: loads_def)
  from Suc.IH [OF d r(2) pos ip bls room'] obtain cs pt' s' where
    i: "vm_chunks ob fd memsz (page_va P) (of_nat (4096 * Suc c)) = Some cs" "run_calls env cs pt1 s1 = Ret pt' s'"
    "loading (sint fd) f k fr g j s'" "loads a f fr {P + Suc c..<P + seg_pages n} (5 * d) s1 s'"
    "\<forall>i < seg_pages n. Suc c \<le> i \<longrightarrow> guest_holds fr s' (P + i) (seg_page a s1 ip off n i)" by blast
  let ?round = "[U_read fd (page_va k + of_nat b) (of_nat m), U_mmap_mem (page_va k + of_nat b) (of_nat m) (page_va (P + c)) 7]"
  have cs: "vm_chunks ob fd memsz (page_va P) (of_nat (4096 * c)) = Some (?round @ cs)"
    using vm_chunks_round [OF n _ cn, of ob fd "page_va P"] off(2) i(1) by (simp add: buf(1) m_def page_va_add [unfolded of_nat_mult of_nat_numeral])
  have run: "run_calls env (?round @ cs) pt s = Ret pt' s'" unfolding run_calls_append r(1) by (simp add: i(2))
  have "{P + c} \<union> {P + Suc c..<P + seg_pages n} = {P + c..<P + seg_pages n}" using c by auto
  with loads_trans [OF r(3) i(4)] have ld: "loads a f fr {P + c..<P + seg_pages n} (5 * Suc d) s s'" by simp
  have gh: "guest_holds fr s' (P + i) (seg_page a s ip off n i)" if i': "i < seg_pages n" "c \<le> i" for i
  proof (cases "i = c")
    case True
    then show ?thesis using i(4) r(5) q unfolding loads_def by simp
  next
    case False
    then show ?thesis
      using i(5) i' seg_page_loads [OF r(3), of off i n] lt [OF i'(1)] Suc.prems(5) by auto
  qed
  show ?case by (intro exI conjI) (rule cs, rule run, rule i(3), rule ld, use gh in blast)
qed

section \<open>All segments\<close>

text \<open>The guest pages of the segment of a program header: how many, from which on.\<close>

definition seg_count :: "mem \<Rightarrow> u64 \<Rightarrow> nat" where
  "seg_count m ph = (if ph_type m ph = 1 then seg_pages (unat (ph_memsz m ph)) else 0)"

definition first_page :: "mem \<Rightarrow> u64 \<Rightarrow> nat" where
  "first_page m ph = unat (ph_paddr m ph) div 4096"

definition seg_range :: "mem \<Rightarrow> u64 \<Rightarrow> nat set" where
  "seg_range m ph = {first_page m ph..<first_page m ph + seg_count m ph}"

text \<open>
  The segments the loop loads: at page boundaries of the guest and of the file (elsewhere \<open>read\<close> crosses
  from block to block and copies too much), in the first ten blocks of the file, all of them on the drive,
  and read into a buffer, \<open>b\<close> bytes into a page, that does not leave that page.
\<close>

definition seg_ok :: "('d, 'a) kfs_scheme \<Rightarrow> u64 \<Rightarrow> nat \<Rightarrow> mem \<Rightarrow> u64 \<Rightarrow> bool" where
  "seg_ok s ip b m ph \<longleftrightarrow> ph_paddr m ph mod 4096 = 0 \<and> unat (ph_paddr m ph) + unat (ph_memsz m ph) \<le> 2 ^ 47
     \<and> unat (ph_offset m ph) mod 4096 = 0 \<and> unat (ph_offset m ph) + unat (ph_memsz m ph) \<le> 40960
     \<and> b + min 4096 (unat (ph_memsz m ph)) \<le> 4096
     \<and> (\<forall>i < seg_pages (unat (ph_memsz m ph)). inode_block s ip (unat (ph_offset m ph) div 4096 + i) \<noteq> 0)"

text \<open>Page \<open>c\<close> of the segment as the file has it.\<close>

definition file_page :: "'d drive \<Rightarrow> ('d, 'a) kfs_scheme \<Rightarrow> u64 \<Rightarrow> mem \<Rightarrow> u64 \<Rightarrow> nat \<Rightarrow> u8 list" where
  "file_page a s ip m ph c = seg_page a s ip (unat (ph_offset m ph)) (unat (ph_memsz m ph)) c"

lemma seg_ok_inside:
  assumes "seg_ok s ip b m ph" and "i < seg_pages (unat (ph_memsz m ph))"
  shows "unat (ph_offset m ph) + 4096 * i < 40960" "unat (ph_offset m ph) div 4096 + i \<le> 10"
  using assms seg_pages_less [of i "unat (ph_memsz m ph)"] by (auto simp: seg_ok_def)

lemma seg_ok_loads:
  assumes "loads a f fr X n s s'" and "ip = f_inode (filetable s ! f)" and "seg_ok s ip b m ph"
  shows "seg_ok s' ip b m ph" and "c < seg_pages (unat (ph_memsz m ph)) \<Longrightarrow> file_page a s' ip m ph c = file_page a s ip m ph c"
proof -
  show "seg_ok s' ip b m ph"
    using assms seg_ok_inside(2) [OF assms(3)] by (auto simp: seg_ok_def loads_def)
  show "file_page a s' ip m ph c = file_page a s ip m ph c" if "c < seg_pages (unat (ph_memsz m ph))"
    using seg_page_loads [OF assms(1) seg_ok_inside(1) [OF assms(3) that]] by (simp add: file_page_def assms(2))
qed

lemma seg_pages_below: "4096 * P + n \<le> 2 ^ 47 \<Longrightarrow> P + seg_pages n \<le> 2 ^ 35"
  using seg_pages_end [of n] by simp

lemma vm_segment_load:
  fixes s :: "('d, 'a) kvmx_scheme"
  assumes ata: "ata (kports env) a" and ld: "loading (sint fd) f k fr g j s" and ip: "ip = f_inode (filetable s ! f)"
    and ok: "ph_type m ph = 1 \<Longrightarrow> seg_ok s ip b m ph" and buf: "at_ttt ob = page_va k + of_nat b"
    and room: "5 * seg_count m ph \<le> card (free_pages s)"
  shows "\<exists>cs pt' s'. vm_segment ob fd m ph = Some cs \<and> run_calls env cs pt s = Ret pt' s' \<and> loading (sint fd) f k fr g j s'
    \<and> loads a f fr (seg_range m ph) (5 * seg_count m ph) s s'
    \<and> (\<forall>c < seg_count m ph. guest_holds fr s' (first_page m ph + c) (file_page a s ip m ph c))"
proof (cases "ph_type m ph = 1")
  case False
  then show ?thesis
    using ld by (intro exI [of _ "[]"] exI [of _ pt] exI [of _ s]) (simp add: vm_segment_def seg_count_def seg_range_def loads_def)
next
  case True
  let ?n = "unat (ph_memsz m ph)" and ?off = "unat (ph_offset m ph)"
  note o = ok [OF True, unfolded seg_ok_def]
  have cnt: "seg_count m ph = seg_pages ?n" using True by (simp add: seg_count_def)
  have "unat (ph_paddr m ph) mod 4096 = unat (ph_paddr m ph mod 4096)" by (simp only: unat_mod) simp
  then have "4096 * first_page m ph = unat (ph_paddr m ph)" using o by (auto simp: first_page_def)
  then have P: "ph_paddr m ph = page_va (first_page m ph)" "4096 * first_page m ph + ?n \<le> 2 ^ 47"
    using o by (simp_all add: page_va_def del: of_nat_mult)
  have off: "?off mod 4096 = 0" "?off + ?n \<le> 40960" "b + min 4096 ?n \<le> 4096" using o by simp_all
  have ph_off: "ph_offset m ph = of_nat ?off" by simp
  have so: "sint (ucast (ph_offset m ph) :: u32) = int ?off"
  proof -
    have "(ucast (ph_offset m ph) :: u32) = of_nat ?off" by (subst ph_off) (intro ucast_of_nat_small, use off in simp)
    then show ?thesis using scast_small(1) [of ?off] off by simp
  qed
  obtain pt1 and s1 :: "('d, 'a) kvmx_scheme" where l: "do_trap env 0 (u_lseek fd (ucast (ph_offset m ph)) 0 pt) s = Ret pt1 s1"
    "loading (sint fd) f k fr g j s1" "loads a f fr {} 0 s s1" "f_offset (filetable s1 ! f) = int ?off"
    by (rule lseek_call [where env = env and pt = pt and a = a, OF ld so]) (rule that; assumption)
  have ip1: "f_inode (filetable s1 ! f) = ip" using l(3) ip by (simp add: loads_def)
  note ok1 = seg_ok_loads [OF l(3) ip ok [OF True]]
  have bl: "\<forall>i < seg_pages ?n. inode_block s1 ip (?off div 4096 + i) \<noteq> 0" using ok1(1) by (simp add: seg_ok_def)
  have pos: "f_offset (filetable s1 ! f) = int (?off + 4096 * 0)" using l(4) by simp
  have room1: "5 * seg_pages ?n \<le> card (free_pages s1)" using room cnt l(3) by (simp add: loads_def)
  obtain cs pt' s' where c: "vm_chunks ob fd (ph_memsz m ph) (page_va (first_page m ph)) (of_nat (4096 * 0)) = Some cs"
    "run_calls env cs pt1 s1 = Ret pt' s'" "loading (sint fd) f k fr g j s'"
    "loads a f fr {first_page m ph + 0..<first_page m ph + seg_pages ?n} (5 * seg_pages ?n) s1 s'"
    "\<forall>i < seg_pages ?n. 0 \<le> i \<longrightarrow> guest_holds fr s' (first_page m ph + i) (seg_page a s1 ip ?off ?n i)"
    using vm_chunks_load [where c = 0 and d = "seg_pages ?n" and pt = pt1 and ip = ip, OF ata refl seg_pages_below [OF P(2)] off(1,2) buf off(3) _ _ l(2) pos ip1 bl room1]
    by auto
  have seg: "vm_segment ob fd m ph = Some (U_lseek fd (ucast (ph_offset m ph)) 0 # cs)"
    using c(1) True by (simp add: vm_segment_def P(1))
  have run: "run_calls env (U_lseek fd (ucast (ph_offset m ph)) 0 # cs) pt s = Ret pt' s'" by (simp add: l(1) c(2))
  have lds: "loads a f fr (seg_range m ph) (5 * seg_count m ph) s s'"
    using loads_trans [OF l(3) c(4)] by (simp add: seg_range_def cnt)
  have "guest_holds fr s' (first_page m ph + i) (file_page a s ip m ph i)" if "i < seg_count m ph" for i
  proof -
    have i: "i < seg_pages ?n" using that by (simp only: cnt)
    then have "guest_holds fr s' (first_page m ph + i) (file_page a s1 ip m ph i)" using c(5) by (simp add: file_page_def)
    then show ?thesis by (simp only: ok1(2) [OF i])
  qed
  with seg run c(3) lds show ?thesis by blast
qed

lemma first_page_below:
  assumes "seg_ok s ip b m ph" and "c < seg_pages (unat (ph_memsz m ph))"
  shows "first_page m ph + c < 2 ^ 35"
proof -
  have "4096 * first_page m ph \<le> unat (ph_paddr m ph)" by (simp add: first_page_def)
  then have "4096 * first_page m ph + unat (ph_memsz m ph) \<le> 2 ^ 47" using assms(1) by (simp add: seg_ok_def)
  then show ?thesis using seg_pages_below [of "first_page m ph" "unat (ph_memsz m ph)"] assms(2) by simp
qed

lemma vm_segments_load:
  fixes s :: "('d, 'a) kvmx_scheme"
  assumes ata: "ata (kports env) a" and buf: "at_ttt ob = page_va k + of_nat b"
  shows "loading (sint fd) f k fr g j s \<Longrightarrow> ip = f_inode (filetable s ! f) \<Longrightarrow>
    (\<forall>i < N. ph_type m (ph + of_nat (56 * i)) = 1 \<longrightarrow> seg_ok s ip b m (ph + of_nat (56 * i))) \<Longrightarrow>
    (\<forall>j < N. \<forall>i < j. seg_range m (ph + of_nat (56 * i)) \<inter> seg_range m (ph + of_nat (56 * j)) = {}) \<Longrightarrow>
    5 * (\<Sum>i < N. seg_count m (ph + of_nat (56 * i))) \<le> card (free_pages s) \<Longrightarrow>
    \<exists>cs pt' s'. vm_segments ob fd m ph N = Some cs \<and> run_calls env cs pt s = Ret pt' s'
      \<and> loads a f fr (\<Union>i < N. seg_range m (ph + of_nat (56 * i))) (5 * (\<Sum>i < N. seg_count m (ph + of_nat (56 * i)))) s s'
      \<and> (\<forall>i < N. \<forall>c < seg_count m (ph + of_nat (56 * i)).
           guest_holds fr s' (first_page m (ph + of_nat (56 * i)) + c) (file_page a s ip m (ph + of_nat (56 * i)) c))"
proof (induction N arbitrary: ph s pt)
  case 0
  then show ?case by (intro exI [of _ "[]"] exI [of _ pt] exI [of _ s]) (simp add: loads_def)
next
  case (Suc N)
  let ?ph = "\<lambda>i. ph + of_nat (56 * i)"
  have nx: "ph + 56 + of_nat (56 * i) = ?ph (Suc i)" for i by simp
  have sum: "(\<Sum>i < Suc N. seg_count m (?ph i)) = seg_count m ph + (\<Sum>i < N. seg_count m (?ph (Suc i)))"
    by (simp only: sum.lessThan_Suc_shift) simp
  have un: "(\<Union>i < Suc N. seg_range m (?ph i)) = seg_range m ph \<union> (\<Union>i < N. seg_range m (?ph (Suc i)))"
    by (simp only: lessThan_Suc_eq_insert_0) simp
  have ok0: "ph_type m ph = 1 \<Longrightarrow> seg_ok s ip b m ph" using Suc.prems(3) [rule_format, of 0] by simp
  have room0: "5 * seg_count m ph \<le> card (free_pages s)" using Suc.prems(5) by (simp only: sum) simp
  obtain cs pt1 and s1 :: "('d, 'a) kvmx_scheme" where c: "vm_segment ob fd m ph = Some cs" "run_calls env cs pt s = Ret pt1 s1"
    "loading (sint fd) f k fr g j s1" "loads a f fr (seg_range m ph) (5 * seg_count m ph) s s1"
    "\<forall>c < seg_count m ph. guest_holds fr s1 (first_page m ph + c) (file_page a s ip m ph c)"
    using vm_segment_load [OF ata Suc.prems(1,2) ok0 buf room0, where pt = pt] by blast
  have ip1: "ip = f_inode (filetable s1 ! f)" using c(4) Suc.prems(2) by (simp add: loads_def)
  note keep = seg_ok_loads [OF c(4) Suc.prems(2)]
  have ok1: "\<forall>i < N. ph_type m (?ph (Suc i)) = 1 \<longrightarrow> seg_ok s1 ip b m (?ph (Suc i))"
    using Suc.prems(3) keep(1) by (metis Suc_less_eq)
  have dis1: "\<forall>j < N. \<forall>i < j. seg_range m (?ph (Suc i)) \<inter> seg_range m (?ph (Suc j)) = {}"
    using Suc.prems(4) by (metis Suc_less_eq)
  have room1: "5 * (\<Sum>i < N. seg_count m (?ph (Suc i))) \<le> card (free_pages s1)"
    using Suc.prems(5) c(4) unfolding sum loads_def by simp
  from Suc.IH [of s1 "ph + 56" pt1, unfolded nx, OF c(3) ip1 ok1 dis1 room1] obtain ds pt' and s' :: "('d, 'a) kvmx_scheme" where
    d: "vm_segments ob fd m (ph + 56) N = Some ds" "run_calls env ds pt1 s1 = Ret pt' s'"
    "loads a f fr (\<Union>i < N. seg_range m (?ph (Suc i))) (5 * (\<Sum>i < N. seg_count m (?ph (Suc i)))) s1 s'"
    "\<forall>i < N. \<forall>c < seg_count m (?ph (Suc i)). guest_holds fr s' (first_page m (?ph (Suc i)) + c) (file_page a s1 ip m (?ph (Suc i)) c)"
    by blast
  have run: "vm_segments ob fd m ph (Suc N) = Some (cs @ ds)" using c(1) d(1) by simp
  have calls: "run_calls env (cs @ ds) pt s = Ret pt' s'" unfolding run_calls_append c(2) by (simp add: d(2))
  have lds: "loads a f fr (\<Union>i < Suc N. seg_range m (?ph i)) (5 * (\<Sum>i < Suc N. seg_count m (?ph i))) s s'"
    using loads_trans [OF c(4) d(3)] unfolding un sum by (simp add: algebra_simps)
  have gh: "guest_holds fr s' (first_page m (?ph i) + x) (file_page a s ip m (?ph i) x)" if i: "i < Suc N" "x < seg_count m (?ph i)" for i x
  proof -
    have load: "ph_type m (?ph i) = 1" "x < seg_pages (unat (ph_memsz m (?ph i)))"
      using i(2) by (simp_all add: seg_count_def split: if_splits)
    then have ok: "seg_ok s ip b m (?ph i)" using Suc.prems(3) i(1) by blast
    show ?thesis
    proof (cases i)
      case 0
      then have x: "x < seg_count m ph" "?ph i = ph" using i(2) by simp_all
      have "first_page m ph + x \<in> seg_range m ph" using x(1) by (simp add: seg_range_def)
      moreover have "seg_range m ph \<inter> seg_range m (?ph (Suc l)) = {}" if "l < N" for l
        using Suc.prems(4) [rule_format, of "Suc l" 0] that by simp
      ultimately have "first_page m ph + x \<notin> (\<Union>l < N. seg_range m (?ph (Suc l)))" by blast
      moreover have "first_page m ph + x < 2 ^ 35" using first_page_below [OF ok load(2)] x(2) by simp
      ultimately show ?thesis using d(3) c(5) x unfolding loads_def by simp
    next
      case (Suc l)
      then have "guest_holds fr s' (first_page m (?ph i) + x) (file_page a s1 ip m (?ph i) x)" using d(4) i by auto
      then show ?thesis by (simp only: keep(2) [OF ok load(2)])
    qed
  qed
  show ?case by (intro exI conjI) (rule run, rule calls, rule lds, use gh in blast)
qed

text \<open>
  C11.  The loader \<open>vmexec\<close> with the file \<open>kernel\<close> open and its headers read, on a file whose
  PT_LOAD segments begin at page boundaries of the file and of the guest, lie in the first ten blocks of
  the file and on guest pages of their own (\<open>seg_ok\<close>), with five free pages for each of their pages: its
  loops end, every \<open>lseek\<close>, \<open>read\<close> and \<open>mmap_mem\<close> of them returns through the trap handler, and when the
  program comes to \<open>run_vm\<close> every guest page of every segment is mapped to a frame of its own that holds
  the bytes of the file, filled up with zeros.  All other guest pages, that of the boot code among them,
  are mapped as before and hold what they held.  The program's buffer does not cross a page boundary
  and is mapped; \<open>m\<close> is the memory in which it finds the headers.
\<close>

theorem vmexec_loads_kernel:
  fixes s :: "('d, 'a) kvmx_scheme"
  assumes ata: "ata (kports env) a" and ld: "loading (sint fd) f k fr g j s" and buf: "at_ttt ob = page_va k + of_nat b"
    and ip: "ip = f_inode (filetable s ! f)"
    and magic: "eh_magic m (at_buf ob)" and ph: "ph = at_buf ob + eh_phoff m (at_buf ob)" and N: "N = unat (eh_phnum m (at_buf ob))"
    and ok: "\<forall>i < N. ph_type m (ph + of_nat (56 * i)) = 1 \<longrightarrow> seg_ok s ip b m (ph + of_nat (56 * i))"
    and dis: "\<forall>j < N. \<forall>i < j. seg_range m (ph + of_nat (56 * i)) \<inter> seg_range m (ph + of_nat (56 * j)) = {}"
    and room: "5 * (\<Sum>i < N. seg_count m (ph + of_nat (56 * i))) \<le> card (free_pages s)"
  shows "\<exists>cs pt' s'. vmexec_main ob fd m
      = Some ([U_tprintf, U_create_vcpu, U_alloc_vm_mem 0x400000, U_mmap_mem (at_testboot ob) 86 0x7c00 7,
          U_open (at_kernel_name ob) 1 1, U_read fd (at_buf ob) 4096] @ cs @ [U_run_vm, U_close fd])
    \<and> run_calls env cs pt s = Ret pt' s'
    \<and> (\<forall>i < N. \<forall>c < seg_count m (ph + of_nat (56 * i)).
         guest_holds fr s' (first_page m (ph + of_nat (56 * i)) + c) (file_page a s ip m (ph + of_nat (56 * i)) c))
    \<and> (\<forall>q < 2 ^ 35. (\<forall>i < N. q \<notin> seg_range m (ph + of_nat (56 * i))) \<longrightarrow>
         pte_of (mem s') (ept_pgdir s') (page_va q) = pte_of (mem s) (ept_pgdir s) (page_va q)
         \<and> (\<forall>bs. guest_holds fr s q bs \<longrightarrow> guest_holds fr s' q bs))"
proof -
  obtain cs pt' and s' :: "('d, 'a) kvmx_scheme" where c: "vm_segments ob fd m ph N = Some cs" "run_calls env cs pt s = Ret pt' s'"
    "loads a f fr (\<Union>i < N. seg_range m (ph + of_nat (56 * i))) (5 * (\<Sum>i < N. seg_count m (ph + of_nat (56 * i)))) s s'"
    "\<forall>i < N. \<forall>c < seg_count m (ph + of_nat (56 * i)).
       guest_holds fr s' (first_page m (ph + of_nat (56 * i)) + c) (file_page a s ip m (ph + of_nat (56 * i)) c)"
    using vm_segments_load [OF ata buf ld ip ok dis room, where pt = pt] by blast
  have run: "vmexec_main ob fd m
      = Some ([U_tprintf, U_create_vcpu, U_alloc_vm_mem 0x400000, U_mmap_mem (at_testboot ob) 86 0x7c00 7,
          U_open (at_kernel_name ob) 1 1, U_read fd (at_buf ob) 4096] @ cs @ [U_run_vm, U_close fd])"
    using c(1) magic ph N by (simp add: vmexec_main_def)
  have others: "\<forall>q < 2 ^ 35. (\<forall>i < N. q \<notin> seg_range m (ph + of_nat (56 * i))) \<longrightarrow>
         pte_of (mem s') (ept_pgdir s') (page_va q) = pte_of (mem s) (ept_pgdir s) (page_va q)
         \<and> (\<forall>bs. guest_holds fr s q bs \<longrightarrow> guest_holds fr s' q bs)"
    using c(3) unfolding loads_def by blast
  show ?thesis by (intro exI conjI) (rule run, rule c(2), rule c(4), rule others)
qed

section \<open>Witness\<close>

text \<open>
  Process 9 with its page at \<open>UTEXT\<close> as the buffer, a guest without memory, and an open file at descriptor
  0 with its inode in page 3: its blocks are block 5 of the drive.  The headers describe one segment, three
  bytes from 4096 on, to be loaded at 1 MB.
\<close>

definition vm_headers :: "u8 list" where
  "vm_headers = [0x7F, 0x45, 0x4C, 0x46] @ replicate 28 0 @ [64, 0, 0, 0, 0, 0, 0, 0] @ replicate 16 0 @ [1, 0] @ replicate 6 0
     @ [1, 0, 0, 0] @ replicate 4 0 @ [0, 0x10, 0, 0, 0, 0, 0, 0] @ replicate 8 0 @ [0, 0, 0x10, 0, 0, 0, 0, 0]
     @ replicate 8 0 @ [3, 0, 0, 0, 0, 0, 0, 0] @ replicate 8 0"

definition vm_objects :: vmexec_objects where
  "vm_objects = \<lparr>at_testboot = 0x3000, at_kernel_name = 0x3100, at_buf = 0x1000, at_ttt = 0x80000100\<rparr>"

definition vm_memory :: mem where
  "vm_memory = store_bytes (\<lambda>a. 0) 0x1000 vm_headers"

lemma vm_bytes:
  assumes "q + n \<le> 120"
  shows "load_bytes vm_memory (0x1000 + of_nat q) n = take n (drop q vm_headers)"
proof -
  have l: "length vm_headers = 120" by (simp add: vm_headers_def)
  have "unat (0x1000 + of_nat q - 0x1000 :: u64) = q" using assms by (simp add: unat_of_nat_small)
  then show ?thesis
    using load_bytes_inside [of "0x1000 + of_nat q" "0x1000" n vm_headers "\<lambda>a. 0"] assms by (simp add: l vm_memory_def)
qed

lemma vm_fields:
  "eh_magic vm_memory 0x1000" "eh_phoff vm_memory 0x1000 = 64" "eh_phnum vm_memory 0x1000 = 1"
  "ph_type vm_memory 0x1040 = 1" "ph_offset vm_memory 0x1040 = 4096" "ph_paddr vm_memory 0x1040 = 0x100000" "ph_memsz vm_memory 0x1040 = 3"
proof -
  have "load_bytes vm_memory 0x1000 4 = [0x7F, 0x45, 0x4C, 0x46]" using vm_bytes [of 0 4] by (simp add: vm_headers_def)
  then show "eh_magic vm_memory 0x1000" by (simp add: eh_magic_def load_bytes_def upt_rec)
  show "eh_phoff vm_memory 0x1000 = 64" "eh_phnum vm_memory 0x1000 = 1"
    using vm_bytes [of 32 8] vm_bytes [of 56 2] by (simp_all add: eh_phoff_def eh_phnum_def load64_def load16_def vm_headers_def)
  show "ph_type vm_memory 0x1040 = 1" using vm_bytes [of 64 4] by (simp add: ph_type_def load32_def vm_headers_def)
  show "ph_offset vm_memory 0x1040 = 4096" "ph_paddr vm_memory 0x1040 = 0x100000" "ph_memsz vm_memory 0x1040 = 3"
    using vm_bytes [of 72 8] vm_bytes [of 88 8] vm_bytes [of 104 8]
    by (simp_all add: ph_offset_def ph_paddr_def ph_memsz_def load64_def vm_headers_def push_bit_eq_mult)
qed

definition load_pool :: kmm where
  "load_pool = (case insert_page (PAGE2VA 0) UTEXT (Some 2) 7 (machine 4 40) of
     Inr (_, s') \<Rightarrow> s' | Inl _ \<Rightarrow> machine 4 40)"

lemma load_pool_facts:
  "pt_inv load_pool (PAGE2VA 0)" "pt_inv load_pool (PAGE2VA 1)" "tables load_pool (PAGE2VA 0) \<subseteq> {0} \<union> {4..<40}"
  "tables load_pool (PAGE2VA 1) = {1}" "free_pages load_pool \<subseteq> {4..<40}" "33 \<le> card (free_pages load_pool)"
  "length (pages load_pool) = 40" "pte_of (mem load_pool) (PAGE2VA 0) (page_va 0x80000) = 0x2007"
proof -
  have m: "mm_inv (machine 4 40)" "free_pages (machine 4 40) = {4..<40}" "length (pages (machine 4 40)) = 40" "mem (machine 4 40) = (\<lambda>a. 0)"
    using machine_facts [of 4 40] by (simp_all add: machine_def)
  have inv: "pt_inv (machine 4 40) (PAGE2VA 0)" "pt_inv (machine 4 40) (PAGE2VA 1)"
    using m by (simp_all add: pt_inv_zero)
  have tb: "tables (machine 4 40) (PAGE2VA f) = {f}" if "f < 4" for f
    using that by (auto simp: tables_def m node_zero PAGE2VA_inj upath_def split: if_splits)
  have U: "UTEXT = page_va 0x80000" "user_va UTEXT" using page_va_facts(2) [of "0x80000"] by (simp_all add: UTEXT_def page_va_def)
  have room: "3 \<le> card (free_pages (machine 4 40))" by (simp add: m)
  obtain s' where s': "insert_page (PAGE2VA 0) UTEXT (Some 2) 7 (machine 4 40) = Inr (0, s')" "pt_inv s' (PAGE2VA 0)"
    "tables s' (PAGE2VA 0) = tables (machine 4 40) (PAGE2VA 0) \<union> (free_pages (machine 4 40) - free_pages s')"
    "\<And>va'. user_va va' \<Longrightarrow> pte_of (mem s') (PAGE2VA 0) va' =
       (if vpn va' = vpn UTEXT then PAGE2PA 2 OR 7 else pte_of (mem (machine 4 40)) (PAGE2VA 0) va')"
    "free_pages s' \<subseteq> free_pages (machine 4 40)" "card (free_pages (machine 4 40)) \<le> card (free_pages s') + 3"
    "\<And>f i. f \<notin> free_pages (machine 4 40) \<Longrightarrow> f \<notin> tables (machine 4 40) (PAGE2VA 0) \<Longrightarrow> f < 2 ^ 18 \<Longrightarrow> i < 512 \<Longrightarrow>
      load64 (mem s') (PAGE2VA f + 8 * i) = load64 (mem (machine 4 40)) (PAGE2VA f + 8 * i)"
    "length (pages s') = length (pages (machine 4 40))"
    by (rule insert_page_full [OF inv(1) U(2) room]) (rule that; assumption)
  have e: "load_pool = s'" by (simp add: load_pool_def s'(1))
  have kp: "keeps (mem (machine 4 40)) (mem s') (free_pages (machine 4 40) \<union> tables (machine 4 40) (PAGE2VA 0))"
    unfolding keeps_def using s'(7) by simp
  have apart: "tables (machine 4 40) (PAGE2VA 1) \<inter> (free_pages (machine 4 40) \<union> tables (machine 4 40) (PAGE2VA 0)) = {}"
    "tables (machine 4 40) (PAGE2VA 1) \<inter> free_pages s' = {}"
    using s'(5) by (auto simp: tb m(2))
  note sp = space_kept [OF inv(2) pt_inv_mm [OF s'(2)] s'(8) kp apart]
  show "pt_inv load_pool (PAGE2VA 0)" "pt_inv load_pool (PAGE2VA 1)" "tables load_pool (PAGE2VA 1) = {1}"
    "free_pages load_pool \<subseteq> {4..<40}" "33 \<le> card (free_pages load_pool)" "length (pages load_pool) = 40"
    using s'(2,5,6,8) sp(1,2) by (simp_all add: e m tb)
  show "tables load_pool (PAGE2VA 0) \<subseteq> {0} \<union> {4..<40}" using s'(3) by (auto simp: e m tb)
  show "pte_of (mem load_pool) (PAGE2VA 0) (page_va 0x80000) = 0x2007"
    using s'(4) [OF U(2)] by (simp add: e U(1)) (simp add: PAGE2PA_def)
qed

definition load_machine :: "ready_drive kvmx" where
  "load_machine = fault_machine\<lparr>npages := npages load_pool, pages := pages load_pool, phead := phead load_pool,
     mem := store_bytes (mem load_pool) (PAGE2VA 3 + of_nat 0) (replicate 10 0 @ [5, 0, 5, 0]),
     procs := (procs fault_machine)[9 := (procs fault_machine ! 9)\<lparr>fdtable := (replicate 32 None)[0 := Some 0]\<rparr>],
     filetable := [\<lparr>f_refcount = 1, f_offset = 0, f_inode = PAGE2VA 3, f_type = FDFILE\<rparr>], ept_pgdir := PAGE2VA 1\<rparr>"

definition load_env :: "(ready_drive, ready_drive kvmx) kernel_env" where
  "load_env = \<lparr>kports = ready_ports, exec_binary = 0, exec_junk = \<lparr>f_refcount = 0, f_offset = 0, f_inode = 0, f_type = FDEUNKNOWN\<rparr>,
     kguest = (\<lambda>g s. None), khost = \<lparr>host_gdt = 0, host_idt = 0, host_rsp = 0, Vmx_exit = 0\<rparr>\<rparr>"

lemma load_machine_facts:
  "loading 0 0 0x80000 2 3 0 load_machine" "filetable load_machine = [\<lparr>f_refcount = 1, f_offset = 0, f_inode = PAGE2VA 3, f_type = FDFILE\<rparr>]"
  "free_pages load_machine = free_pages load_pool" "inode_block load_machine (PAGE2VA 3) 1 = 5" "dev load_machine = small_drive"
proof -
  let ?m = "store_bytes (mem load_pool) (PAGE2VA 3 + of_nat 0) (replicate 10 0 @ [5, 0, 5, 0])"
  let ?s = "load_pool\<lparr>mem := ?m\<rparr>"
  note f = load_pool_facts
  have e: "pages load_machine = pages ?s" "phead load_machine = phead ?s" "npages load_machine = npages ?s" "mem load_machine = mem ?s"
    by (simp_all add: load_machine_def)
  show fr: "free_pages load_machine = free_pages load_pool" using mm_cong(2) [OF e(1-3)] by simp
  have t3: "3 \<notin> tables load_pool (PAGE2VA 0)" "3 \<notin> tables load_pool (PAGE2VA 1)" using f(3,4) by auto
  have len: "0 + length (replicate 10 0 @ [5, 0, 5, 0 :: u8]) \<le> 4096" by simp
  note s0 = page_store_space [OF f(1) _ t3(1) len] and s1 = page_store_space [OF f(2) _ t3(2) len]
  have frm: "frame_of 0x2007 = 2" by (simp add: frame_of_def drop_bit_eq_div unat_div)
  have "user_page load_pool (PAGE2VA 0) 0x80000 2"
    using f(1,3,5,7,8) frm by (auto simp: user_page_def)
  then have "user_page ?s (PAGE2VA 0) 0x80000 2" using t3(1) by (intro user_page_store) simp_all
  then have up: "user_page load_machine (PAGE2VA 0) 0x80000 2" using space_cong [OF e] e(1,4) fr by (simp add: user_page_def)
  have tb: "tables load_machine (PAGE2VA 0) = tables load_pool (PAGE2VA 0)" "tables load_machine (PAGE2VA 1) = {1}" "pt_inv load_machine (PAGE2VA 1)"
    using space_cong [OF e] s0(2) s1(1,2) f(4) by simp_all
  have ia: "inode_at load_machine (PAGE2VA 3) 3 0" using f(5,7) e(1) fr by (auto simp: inode_at_def)
  show ft: "filetable load_machine = [\<lparr>f_refcount = 1, f_offset = 0, f_inode = PAGE2VA 3, f_type = FDFILE\<rparr>]" "dev load_machine = small_drive"
    by (simp_all add: load_machine_def fault_machine_def vm_machine_def)
  have st: "get_fd 0 load_machine = Inr (Some 0)" "cpu_root load_machine = PAGE2VA 0" "ept_pgdir load_machine = PAGE2VA 1"
    by (simp_all add: load_machine_def fault_machine_def vm_machine_def proc_machine_def get_fd_def cpu_root_def PAGE2VA_def PAGE2PA_def zero_proc_def)
  show "loading 0 0 0x80000 2 3 0 load_machine"
    using up ia tb f(3) by (auto simp: loading_def st ft read_ctx_def)
  show "inode_block load_machine (PAGE2VA 3) 1 = 5"
    by (simp add: inode_block_def e(4) load16_def load_bytes_def upt_conv_Cons store_bytes_def nth_append)
qed

theorem vmexec_loads_kernel_witness:
  "\<exists>cs pt' s' p. run_calls load_env cs zero_regs load_machine = Ret pt' s'
     \<and> vmexec_main vm_objects 0 vm_memory = Some ([U_tprintf, U_create_vcpu, U_alloc_vm_mem 0x400000, U_mmap_mem 0x3000 86 0x7c00 7,
         U_open 0x3100 1 1, U_read 0 0x1000 4096] @ cs @ [U_run_vm, U_close 0])
     \<and> pte_of (mem s') (ept_pgdir s') 0x100000 = PAGE2PA p OR 7 \<and> page_bytes (mem s') p = [1, 0, 0x69] @ replicate 4093 0"
proof -
  note f = load_machine_facts
  have ob: "at_buf vm_objects = 0x1000" "at_testboot vm_objects = 0x3000" "at_kernel_name vm_objects = 0x3100"
    "at_ttt vm_objects = page_va 0x80000 + of_nat 256"
    by (simp_all add: vm_objects_def page_va_def)
  have one: "seg_pages 3 = 1" by (simp add: seg_pages_def)
  have sg: "seg_count vm_memory 0x1040 = 1" "first_page vm_memory 0x1040 = 0x100"
    by (simp_all add: seg_count_def first_page_def vm_fields one)
  have ip: "PAGE2VA 3 = f_inode (filetable load_machine ! 0)" by (simp add: f(2))
  have ok: "seg_ok load_machine (PAGE2VA 3) 256 vm_memory 0x1040"
    using f(4) by (simp add: seg_ok_def vm_fields one)
  have pg: "file_page ready load_machine (PAGE2VA 3) vm_memory 0x1040 0 = [1, 0, 0x69] @ replicate 4093 0"
    using f(4) by (simp add: file_page_def seg_page_def vm_fields file_bytes_def f(5) small_fs_block init_name_def)
  have io: "ata (kports load_env) ready" using ata_ready by (simp add: load_env_def)
  have ld: "loading (sint (0 :: u32)) 0 0x80000 2 3 0 load_machine" using f(1) by simp
  have hd: "eh_magic vm_memory (at_buf vm_objects)" "0x1040 = at_buf vm_objects + eh_phoff vm_memory (at_buf vm_objects)"
    "1 = unat (eh_phnum vm_memory (at_buf vm_objects))"
    by (simp_all add: ob vm_fields)
  have hyps: "\<forall>i < 1. ph_type vm_memory (0x1040 + of_nat (56 * i)) = 1 \<longrightarrow> seg_ok load_machine (PAGE2VA 3) 256 vm_memory (0x1040 + of_nat (56 * i))"
    "\<forall>j < 1. \<forall>i < j. seg_range vm_memory (0x1040 + of_nat (56 * i)) \<inter> seg_range vm_memory (0x1040 + of_nat (56 * j)) = {}"
    "5 * (\<Sum>i < 1. seg_count vm_memory (0x1040 + of_nat (56 * i))) \<le> card (free_pages load_machine)"
    using ok load_pool_facts(6) by (simp_all add: sg f(3))
  from vmexec_loads_kernel [OF io ld ob(4) ip hd hyps, of zero_regs] obtain cs pt' s' where
    r: "vmexec_main vm_objects 0 vm_memory = Some ([U_tprintf, U_create_vcpu, U_alloc_vm_mem 0x400000, U_mmap_mem 0x3000 86 0x7c00 7,
         U_open 0x3100 1 1, U_read 0 0x1000 4096] @ cs @ [U_run_vm, U_close 0])"
      "run_calls load_env cs zero_regs load_machine = Ret pt' s'"
      "\<forall>i < 1. \<forall>c < seg_count vm_memory (0x1040 + of_nat (56 * i)). guest_holds 2 s' (first_page vm_memory (0x1040 + of_nat (56 * i)) + c)
         (file_page ready load_machine (PAGE2VA 3) vm_memory (0x1040 + of_nat (56 * i)) c)"
    unfolding ob(1-3) by blast
  have "guest_holds 2 s' 0x100 ([1, 0, 0x69] @ replicate 4093 0)" using r(3) by (simp add: sg pg)
  moreover have "page_va 0x100 = 0x100000" by (simp add: page_va_def)
  ultimately show ?thesis using r(1,2) unfolding guest_holds_def by auto
qed

end
