(* ===== verification/Boot.thy ===== *)
theory Boot
  imports Ide
begin

text \<open>
  From the disk to the kernel: the boot loader \<^verbatim>\<open>boot/main.c\<close>, which reads the ELF header of the
  kernel from sector 1 and its segments from the sectors behind it, and the program
  \<^verbatim>\<open>scripts/writebootsect.c\<close> that lays the disk out.  The boot loader runs in 32-bit mode, so its
  addresses are truncated to 32 bits.  The theorem at the end puts the two together: what the one
  writes the other loads.
\<close>

section \<open>The boot loader\<close>

text \<open>A pointer of the boot loader has 32 bits.\<close>

definition ptr32 :: "u64 \<Rightarrow> u64" where
  "ptr32 x = ucast (ucast x :: u32)"

fun diskcpy_loop :: "'d ports \<Rightarrow> nat \<Rightarrow> u64 \<Rightarrow> mem \<Rightarrow> 'd \<Rightarrow> (mem \<times> 'd) outcome" where
  "diskcpy_loop io 0 dest m d = Inr (m, d)"
| "diskcpy_loop io (Suc n) dest m d =
     bindE (waitE io d) (\<lambda>d1.
       case insw io 0x1F0 256 d1 of (ws, d2) \<Rightarrow>
       bindE (waitE io (delay io d2)) (\<lambda>d3.
         diskcpy_loop io n (ptr32 (dest + 512)) (store_bytes m dest (concat (map (bytes_of_word 2) ws))) d3))"

definition diskcpy :: "'d ports \<Rightarrow> u64 \<Rightarrow> u32 \<Rightarrow> u32 \<Rightarrow> mem \<Rightarrow> 'd \<Rightarrow> (mem \<times> 'd) outcome" where
  "diskcpy io dest lba cnt m d =
     (let d1 = outb io 0x1F6 (ucast (0xE0 OR (drop_bit 24 lba AND 0x0F))) d;
          d2 = outb io 0x1F1 0x00 d1;
          d3 = outb io 0x1F2 (ucast cnt) d2;
          d4 = outb io 0x1F3 (ucast lba) d3;
          d5 = outb io 0x1F4 (ucast (drop_bit 8 lba)) d4;
          d6 = outb io 0x1F5 (ucast (drop_bit 16 lba)) d5;
          d7 = outb io 0x1F7 0x20 d6
      in diskcpy_loop io (unat cnt) dest m d7)"

text \<open>The segments: \<open>p_offset\<close> at 8, \<open>p_paddr\<close> at 24, \<open>p_filesz\<close> at 32 of a header of 56 bytes.\<close>

definition seg_sector :: "mem \<Rightarrow> u64 \<Rightarrow> u32" where
  "seg_sector m phdr = ucast (load64 m (phdr + 8) div 512)"

definition seg_count :: "mem \<Rightarrow> u64 \<Rightarrow> u32" where
  "seg_count m phdr = ucast ((load64 m (phdr + 32) + 511) div 512)"

definition seg_dest :: "mem \<Rightarrow> u64 \<Rightarrow> u64" where
  "seg_dest m phdr = ptr32 (load64 m (phdr + 24))"

text \<open>
  The loop over the program headers.  Their number is read once, in \<open>boot_main\<close>; the code reads it again before each
  round, which makes a difference only where a segment is loaded over the header buffer at 0x80000.
\<close>

fun boot_segments :: "'d ports \<Rightarrow> u64 \<Rightarrow> nat \<Rightarrow> mem \<Rightarrow> 'd \<Rightarrow> (mem \<times> 'd) outcome" where
  "boot_segments io phdr 0 m d = Inr (m, d)"
| "boot_segments io phdr (Suc n) m d =
     bindE (if load32 m phdr = 1 then diskcpy io (seg_dest m phdr) (seg_sector m phdr + 1) (seg_count m phdr) m d
            else Inr (m, d))
       (\<lambda>(m1, d1). boot_segments io (ptr32 (phdr + 56)) n m1 d1)"

text \<open>The entry point the boot loader jumps to, or \<open>None\<close> where it returns.\<close>

definition boot_main :: "'d ports \<Rightarrow> mem \<Rightarrow> 'd \<Rightarrow> (u64 option \<times> mem \<times> 'd) outcome" where
  "boot_main io m d =
     bindE (diskcpy io 0x80000 1 1 m d) (\<lambda>(m1, d1).
       if \<not> (m1 0x80000 = 0x7F \<and> m1 0x80001 = 0x45 \<and> m1 0x80002 = 0x4C \<and> m1 0x80003 = 0x46)
       then Inr (None, m1, d1)
       else bindE (boot_segments io (ptr32 (0x80000 + load64 m1 (0x80000 + 32))) (unat (load16 m1 (0x80000 + 56))) m1 d1) (\<lambda>(m2, d2).
         Inr (Some (ptr32 (load64 m2 (0x80000 + 24))), m2, d2)))"

section \<open>Writing the boot disk\<close>

text \<open>One \<open>read\<close> of up to 512 bytes into the buffer: what is behind the bytes read stays.\<close>

definition read512 :: "u8 list \<Rightarrow> u8 list \<Rightarrow> u8 list" where
  "read512 bytes old = take 512 bytes @ drop (length (take 512 bytes)) old"

function copy_kernel :: "u8 list \<Rightarrow> u8 list \<Rightarrow> u8 list" where
  "copy_kernel bytes old =
     (if bytes = [] then [] else let b = read512 bytes old in b @ copy_kernel (drop 512 bytes) b)"
  by pat_completeness auto
termination
  by (relation "measure (\<lambda>(bytes, old). length bytes)") auto

declare copy_kernel.simps [simp del]

text \<open>The disk image afterwards; \<open>junk\<close> is the uninitialised buffer.\<close>

definition writebootsect :: "u8 list \<Rightarrow> u8 list \<Rightarrow> u8 list \<Rightarrow> u8 list \<Rightarrow> u8 list" where
  "writebootsect boot kern junk disk =
     (let b = (read512 boot junk)[510 := 0x55, 511 := 0xaa]; out = b @ copy_kernel kern b
      in out @ drop (length out) disk)"

section \<open>The disk image\<close>

lemma copy_kernel_pads:
  assumes "length old = 512"
  shows "\<exists>pad. copy_kernel kern old = kern @ pad \<and> length (kern @ pad) = 512 * ((length kern + 511) div 512)"
  using assms
proof (induction kern old rule: copy_kernel.induct)
  case (1 kern old)
  show ?case
  proof (cases "kern = []")
    case True
    then show ?thesis by (simp add: copy_kernel.simps)
  next
    case False
    have b: "length (read512 kern old) = 512" using 1(2) by (simp add: read512_def)
    obtain pad where p: "copy_kernel (drop 512 kern) (read512 kern old) = drop 512 kern @ pad"
      "length (drop 512 kern @ pad) = 512 * ((length (drop 512 kern) + 511) div 512)"
      using 1(1) [OF False refl b] by blast
    have c: "copy_kernel kern old = read512 kern old @ drop 512 kern @ pad"
      using False p(1) by (simp add: copy_kernel.simps [of kern])
    show ?thesis
    proof (cases "512 \<le> length kern")
      case True
      then have "read512 kern old = take 512 kern" using 1(2) by (simp add: read512_def)
      moreover have "(length kern + 511) div 512 = Suc ((length kern - 512 + 511) div 512)"
        using True le_div_geq [of 512 "length kern + 511"] by simp
      ultimately show ?thesis using c p(2) True append_take_drop_id [of 512 kern]
        by (intro exI [of _ pad]) (simp del: append_take_drop_id)
    next
      case short: False
      then have "(length kern + 511) div 512 = 1" using False by (cases "length kern") (auto simp: le_div_geq)
      moreover have "pad = []" using p(2) short by simp
      ultimately show ?thesis using c short 1(2)
        by (intro exI [of _ "drop (length kern) old"]) (simp add: read512_def)
    qed
  qed
qed

text \<open>The sectors of an image of bytes.\<close>

definition sector_of :: "u8 list \<Rightarrow> nat \<Rightarrow> u8 list" where
  "sector_of img l = take 512 (drop (512 * l) img)"

lemma concat_sectors:
  assumes "512 * (l + n) \<le> length img"
  shows "concat (map (sector_of img) [l..<l + n]) = take (512 * n) (drop (512 * l) img)"
  using assms
proof (induction n arbitrary: l)
  case 0
  then show ?case by simp
next
  case (Suc n)
  have IH: "concat (map (sector_of img) [Suc l..<Suc l + n]) = take (512 * n) (drop (512 * Suc l) img)"
    using Suc.prems by (intro Suc.IH) simp
  have "concat (map (sector_of img) [l..<l + Suc n]) = sector_of img l @ concat (map (sector_of img) [Suc l..<Suc l + n])"
    by (simp add: upt_conv_Cons del: upt_Suc)
  also have "\<dots> = take 512 (drop (512 * l) img) @ take (512 * n) (drop 512 (drop (512 * l) img))"
    using IH by (simp add: sector_of_def add.commute)
  also have "\<dots> = take (512 * Suc n) (drop (512 * l) img)" by (simp add: take_add add.commute)
  finally show ?case .
qed

text \<open>From sector 1 on the image holds the kernel.\<close>

lemma image_kernel:
  assumes "length junk = 512" and "q + n \<le> length kern"
  shows "take n (drop (512 + q) (writebootsect boot kern junk disk)) = take n (drop q kern)"
proof -
  let ?b = "(read512 boot junk)[510 := 0x55, 511 := 0xaa]"
  have b: "length ?b = 512" using assms(1) by (simp add: read512_def)
  obtain pad where p: "copy_kernel kern ?b = kern @ pad" "length (kern @ pad) = 512 * ((length kern + 511) div 512)"
    using copy_kernel_pads [OF b] by blast
  show "take n (drop (512 + q) (writebootsect boot kern junk disk)) = take n (drop q kern)"
    using assms(2) b by (simp add: writebootsect_def Let_def p(1))
qed

lemma image_length:
  assumes "length junk = 512"
  shows "512 + 512 * ((length kern + 511) div 512) \<le> length (writebootsect boot kern junk disk)"
proof -
  let ?b = "(read512 boot junk)[510 := 0x55, 511 := 0xaa]"
  have b: "length ?b = 512" using assms(1) by (simp add: read512_def)
  obtain pad where p: "copy_kernel kern ?b = kern @ pad" "length (kern @ pad) = 512 * ((length kern + 511) div 512)"
    using copy_kernel_pads [OF b] by blast
  show ?thesis using b p(2) by (simp add: writebootsect_def Let_def p(1))
qed

section \<open>Reading sectors\<close>

lemma ptr32_small: "unat x < 2 ^ 32 \<Longrightarrow> ptr32 x = x"
  by (simp only: ptr32_def ucast_u32_u64)

lemma diskcpy_loop_readblk:
  "unat dest + 512 * n \<le> 2 ^ 32 \<Longrightarrow> diskcpy_loop io n dest m d = readblk_loop io n dest m d"
proof (induction n arbitrary: dest m d)
  case 0
  then show ?case by simp
next
  case (Suc n)
  show ?case
  proof (cases n)
    case 0
    have "diskcpy_loop io 0 = (\<lambda>dest m d. Inr (m, d))" "readblk_loop io 0 = (\<lambda>dest m d. Inr (m, d))"
      by (simp_all add: fun_eq_iff)
    then show ?thesis by (simp add: 0)
  next
    case (Suc k)
    have "unat (dest + 512) = unat dest + 512" using Suc.prems Suc by (simp add: unat_word_ariths)
    then have "ptr32 (dest + 512) = dest + 512" "unat (dest + 512) + 512 * n \<le> 2 ^ 32"
      using Suc.prems Suc ptr32_small [of "dest + 512"] by simp_all
    moreover have "diskcpy_loop io n (dest + 512) = readblk_loop io n (dest + 512)"
      using calculation(2) by (intro ext Suc.IH)
    ultimately show ?thesis by simp
  qed
qed

lemma select_bits_E0: "(ucast (0xE0 OR (y AND 0x0F) :: u32) AND 0x0F :: u8) = (ucast (0xF0 OR (y AND 0x0F)) AND 0x0F)"
proof -
  have m: "(0x0F :: u8) = mask 4" "(0x0F :: u32) = mask 4" "(0xF0 :: u32) = push_bit 4 (mask 4)" "(0xE0 :: u32) = push_bit 5 (mask 3)"
    by (simp_all add: mask_eq_exp_minus_1)
  show ?thesis
    unfolding m by (rule bit_word_eqI) (auto simp: bit_simps)
qed

lemma diskcpy_sectors:
  assumes ata: "ata io a" and lba: "lba < 2 ^ 28" and cnt: "cnt < 256" and dest: "unat dest + 512 * unat cnt \<le> 2 ^ 32"
  shows "\<exists>d'. diskcpy io dest lba cnt m d
      = Inr (store_bytes m dest (concat (map (sectors a d) [unat lba..<unat lba + unat cnt])), d')
    \<and> sectors a d' = sectors a d"
proof -
  define d6 where "d6 = outb io 0x1F5 (ucast (drop_bit 16 lba)) (outb io 0x1F4 (ucast (drop_bit 8 lba))
      (outb io 0x1F3 (ucast lba) (outb io 0x1F2 (ucast cnt) (outb io 0x1F1 0x00
        (outb io 0x1F6 (ucast (0xE0 OR (drop_bit 24 lba AND 0x0F))) d)))))"
  have s6: "sectors a d6 = sectors a d" by (simp add: d6_def reg_values [OF ata])
  have r6: "reg_lba (regs a d6) = unat lba"
    unfolding reg_lba_def d6_def reg_values [OF ata] using readblk_regs [OF lba] by (simp add: select_bits_E0)
  have c6: "unat (regs a d6 0x1F2) = unat cnt"
    unfolding d6_def reg_values [OF ata] using unat_count [of cnt] cnt by (cases "cnt = 0") (simp_all add: word_gt_0)
  have x: "xfer a (outb io 0x1F7 0x20 d6) = Some (False, unat lba, unat cnt)"
    "sectors a (outb io 0x1F7 0x20 d6) = sectors a d" using ata_command [OF ata] by (simp_all add: s6 r6 c6)
  have "unat cnt < 2 ^ 32" using unsigned_less [of cnt] by simp
  then have "512 * unat cnt < 2 ^ 64" by simp
  from readblk_loop_reads [OF ata x(1) this] show ?thesis
    by (simp add: diskcpy_def Let_def d6_def [symmetric] x(2) diskcpy_loop_readblk [OF dest])
qed

section \<open>A kernel file\<close>

text \<open>The fields of the ELF header and of program header \<open>i\<close>.\<close>

definition field :: "nat \<Rightarrow> nat \<Rightarrow> u8 list \<Rightarrow> 'a::len word" where
  "field n q kern = word_of_bytes (take n (drop q kern))"

definition e_phoff :: "u8 list \<Rightarrow> nat" where
  "e_phoff kern = unat (field 8 32 kern :: u64)"

definition e_phnum :: "u8 list \<Rightarrow> nat" where
  "e_phnum kern = unat (field 2 56 kern :: u16)"

definition phdr :: "u8 list \<Rightarrow> nat \<Rightarrow> nat" where
  "phdr kern i = e_phoff kern + 56 * i"

definition loads :: "u8 list \<Rightarrow> nat \<Rightarrow> bool" where
  "loads kern i \<longleftrightarrow> i < e_phnum kern \<and> (field 4 (phdr kern i) kern :: u32) = 1"

definition p_offset :: "u8 list \<Rightarrow> nat \<Rightarrow> nat" where
  "p_offset kern i = unat (field 8 (phdr kern i + 8) kern :: u64)"

definition p_paddr :: "u8 list \<Rightarrow> nat \<Rightarrow> nat" where
  "p_paddr kern i = unat (field 8 (phdr kern i + 24) kern :: u64)"

definition p_filesz :: "u8 list \<Rightarrow> nat \<Rightarrow> nat" where
  "p_filesz kern i = unat (field 8 (phdr kern i + 32) kern :: u64)"

text \<open>The bytes of memory a segment takes: whole sectors.\<close>

definition p_bytes :: "u8 list \<Rightarrow> nat \<Rightarrow> nat" where
  "p_bytes kern i = 512 * ((p_filesz kern i + 511) div 512)"

text \<open>
  The kernels the boot loader is made for: the headers are in the first sector, a segment starts at a
  sector, has at most 255 of them, lies in the file and below 4 GB, and no segment touches another or
  the sector of the headers at 0x80000.
\<close>

definition bootable :: "u8 list \<Rightarrow> bool" where
  "bootable kern \<longleftrightarrow> 64 \<le> length kern \<and> take 4 kern = [0x7F, 0x45, 0x4C, 0x46]
   \<and> phdr kern (e_phnum kern) \<le> 512 \<and> phdr kern (e_phnum kern) \<le> length kern
   \<and> (\<forall>i < e_phnum kern. loads kern i \<longrightarrow> p_offset kern i mod 512 = 0 \<and> p_offset kern i + p_filesz kern i \<le> length kern
        \<and> p_offset kern i < 2 ^ 36 \<and> p_filesz kern i \<le> 255 * 512 \<and> p_paddr kern i < 2 ^ 32 \<and> p_paddr kern i + p_bytes kern i \<le> 2 ^ 32
        \<and> (p_paddr kern i + p_bytes kern i \<le> 0x80000 \<or> 0x80000 + 512 \<le> p_paddr kern i))
   \<and> (\<forall>i < e_phnum kern. \<forall>j < e_phnum kern. loads kern i \<longrightarrow> loads kern j \<longrightarrow> i \<noteq> j \<longrightarrow>
        p_paddr kern i + p_bytes kern i \<le> p_paddr kern j \<or> p_paddr kern j + p_bytes kern j \<le> p_paddr kern i)"

text \<open>The disk with the image that \<open>writebootsect\<close> makes of the kernel.\<close>

definition on_disk :: "'d drive \<Rightarrow> u8 list \<Rightarrow> 'd \<Rightarrow> bool" where
  "on_disk a img d \<longleftrightarrow> (\<forall>l. 512 * l + 512 \<le> length img \<longrightarrow> sectors a d l = sector_of img l)"

lemma apart_nat:
  assumes "x + n \<le> y \<or> y + k \<le> x" and "x + n \<le> 2 ^ 64" and "y + k \<le> 2 ^ 64"
  shows "apart (of_nat x) n (of_nat y) k"
  using apart_offset [OF assms, of 0] by simp

text \<open>What is in memory once the first sector of the kernel is there.\<close>

lemma header_bytes:
  assumes m: "load_bytes m 0x80000 512 = sector_of (writebootsect boot kern junk disk) 1"
    and q: "q + n \<le> 512" "q + n \<le> length kern" and junk: "length junk = 512"
  shows "load_bytes m (0x80000 + of_nat q) n = take n (drop q kern)"
proof -
  let ?img = "writebootsect boot kern junk disk"
  have "load_bytes m 0x80000 512 = load_bytes m 0x80000 (q + n) @ load_bytes m (0x80000 + of_nat (q + n)) (512 - (q + n))"
    using load_bytes_append [of m "0x80000" "q + n" "512 - (q + n)"] q by simp
  from arg_cong [OF this, of "take (q + n)"] have "load_bytes m 0x80000 (q + n) = take (q + n) (sector_of ?img 1)"
    unfolding m by simp
  then have "load_bytes m (0x80000 + of_nat q) n = take n (drop q (sector_of ?img 1))"
    by (simp only: load_bytes_drop take_drop add.commute [of q n])
  also have "\<dots> = take n (drop (512 + q) ?img)"
    using q by (simp add: sector_of_def drop_take min_def add.commute)
  also have "\<dots> = take n (drop q kern)" by (rule image_kernel [OF junk q(2)])
  finally show ?thesis .
qed

section \<open>Loading the segments\<close>

text \<open>The data of one round: the program header in memory, and the sectors of the segment.\<close>

lemma phdr_fields:
  assumes m: "load_bytes m 0x80000 512 = sector_of (writebootsect boot kern junk disk) 1" and junk: "length junk = 512"
    and b: "bootable kern" and i: "i < e_phnum kern"
  shows "load32 m (0x80000 + of_nat (phdr kern i)) = field 4 (phdr kern i) kern"
    and "q + 8 \<le> 56 \<Longrightarrow> load64 m (0x80000 + of_nat (phdr kern i) + of_nat q) = field 8 (phdr kern i + q) kern"
proof -
  have "phdr kern i + 56 \<le> phdr kern (e_phnum kern)" using i by (simp add: phdr_def)
  then have p: "phdr kern i + 56 \<le> 512" "phdr kern i + 56 \<le> length kern" using b by (simp_all add: bootable_def)
  show "load32 m (0x80000 + of_nat (phdr kern i)) = field 4 (phdr kern i) kern"
    using header_bytes [OF m _ _ junk, of "phdr kern i" 4] p by (simp add: load32_def field_def)
  assume "q + 8 \<le> 56"
  then show "load64 m (0x80000 + of_nat (phdr kern i) + of_nat q) = field 8 (phdr kern i + q) kern"
    using header_bytes [OF m _ _ junk, of "phdr kern i + q" 8] p by (simp add: load64_def field_def add.assoc)
qed

lemma seg_fields:
  assumes m: "load_bytes m 0x80000 512 = sector_of (writebootsect boot kern junk disk) 1" and junk: "length junk = 512"
    and b: "bootable kern" and i: "loads kern i"
  defines "ph \<equiv> 0x80000 + of_nat (phdr kern i)"
  shows "load32 m ph = 1" and "seg_dest m ph = of_nat (p_paddr kern i)" and "unat (seg_dest m ph) = p_paddr kern i"
    and "seg_sector m ph + 1 < 2 ^ 28" and "unat (seg_sector m ph + 1) = p_offset kern i div 512 + 1"
    and "seg_count m ph < 256" and "512 * unat (seg_count m ph) = p_bytes kern i"
proof -
  have iN: "i < e_phnum kern" using i by (simp add: loads_def)
  note f = phdr_fields [OF m junk b iN, folded ph_def]
  note bi = b [unfolded bootable_def, THEN conjunct2, THEN conjunct2, THEN conjunct2, THEN conjunct2, THEN conjunct1,
    rule_format, OF iN i]
  show "load32 m ph = 1" using f(1) i by (simp add: loads_def)
  have small: "unat (ucast x :: u32) = unat x" if "unat x < 2 ^ 32" for x :: u64
    using that by (simp add: unsigned_ucast_eq take_bit_nat_eq_self)
  have pa: "unat (load64 m (ph + 24)) = p_paddr kern i" using f(2) [of 24] by (simp add: p_paddr_def)
  have fz: "unat (load64 m (ph + 32)) = p_filesz kern i" using f(2) [of 32] by (simp add: p_filesz_def)
  have off: "unat (load64 m (ph + 8)) = p_offset kern i" using f(2) [of 8] by (simp add: p_offset_def)
  have fz1: "unat (load64 m (ph + 32) + 511) = p_filesz kern i + 511" using fz bi by (simp add: unat_word_ariths)
  have o27: "p_offset kern i div 512 < 2 ^ 27" using bi by (intro less_mult_imp_div_less) simp
  have c8: "(p_filesz kern i + 511) div 512 < 256" using bi by (intro less_mult_imp_div_less) simp
  have s: "unat (seg_sector m ph) = p_offset kern i div 512"
    using small [of "load64 m (ph + 8) div 512"] off o27 by (simp add: seg_sector_def unat_div)
  then show s1: "unat (seg_sector m ph + 1) = p_offset kern i div 512 + 1" using o27 by (simp add: unat_word_ariths)
  show "seg_sector m ph + 1 < 2 ^ 28" using s1 o27 by (simp add: word_less_nat_alt)
  have c: "unat (seg_count m ph) = (p_filesz kern i + 511) div 512"
    using small [of "(load64 m (ph + 32) + 511) div 512"] fz1 c8 by (simp add: seg_count_def unat_div)
  then show "512 * unat (seg_count m ph) = p_bytes kern i" by (simp add: p_bytes_def)
  show "seg_count m ph < 256" using c c8 by (simp add: word_less_nat_alt)
  have "p_paddr kern i < 2 ^ 32" using bi by blast
  then show "unat (seg_dest m ph) = p_paddr kern i" using pa ptr32_small [of "load64 m (ph + 24)"] by (simp add: seg_dest_def)
  then show "seg_dest m ph = of_nat (p_paddr kern i)" by (metis of_nat_unat ucast_id)
qed

text \<open>One segment is read: its bytes are in memory, and nothing outside it changes.\<close>

lemma bootable_segment:
  assumes "bootable kern" and "loads kern i"
  shows "p_offset kern i mod 512 = 0" "p_offset kern i + p_filesz kern i \<le> length kern" "p_paddr kern i + p_bytes kern i \<le> 2 ^ 32"
    "p_paddr kern i + p_bytes kern i \<le> 0x80000 \<or> 0x80000 + 512 \<le> p_paddr kern i" "p_filesz kern i \<le> p_bytes kern i"
    "loads kern j \<Longrightarrow> i \<noteq> j \<Longrightarrow> p_paddr kern i + p_bytes kern i \<le> p_paddr kern j \<or> p_paddr kern j + p_bytes kern j \<le> p_paddr kern i"
  using assms by (auto simp: bootable_def loads_def p_bytes_def)

lemma segment_apart:
  assumes "bootable kern" and "loads kern i"
  shows "apart (of_nat (p_paddr kern i)) (p_bytes kern i) 0x80000 512"
    and "loads kern j \<Longrightarrow> i \<noteq> j \<Longrightarrow> apart (of_nat (p_paddr kern i)) (p_bytes kern i) (of_nat (p_paddr kern j)) (p_filesz kern j)"
proof -
  note b = bootable_segment [OF assms]
  have "apart (of_nat (p_paddr kern i)) (p_bytes kern i) (of_nat 0x80000) 512" using b by (intro apart_nat) auto
  then show "apart (of_nat (p_paddr kern i)) (p_bytes kern i) 0x80000 512" by simp
  assume j: "loads kern j" "i \<noteq> j"
  note c = bootable_segment [OF assms(1) j(1)]
  show "apart (of_nat (p_paddr kern i)) (p_bytes kern i) (of_nat (p_paddr kern j)) (p_filesz kern j)"
    using b(3) b(6) [OF j] c(3,5) by (intro apart_nat) auto
qed

lemma load_segment:
  assumes ata: "ata io a" and junk: "length junk = 512" and b: "bootable kern" and i: "loads kern i"
    and disk: "on_disk a (writebootsect boot kern junk disk) d"
    and m: "load_bytes m 0x80000 512 = sector_of (writebootsect boot kern junk disk) 1"
  defines "ph \<equiv> 0x80000 + of_nat (phdr kern i)"
  shows "\<exists>m' d'. diskcpy io (seg_dest m ph) (seg_sector m ph + 1) (seg_count m ph) m d = Inr (m', d')
    \<and> sectors a d' = sectors a d
    \<and> load_bytes m' (of_nat (p_paddr kern i)) (p_filesz kern i) = take (p_filesz kern i) (drop (p_offset kern i) kern)
    \<and> (\<forall>x n. n \<le> 2 ^ 64 \<longrightarrow> apart (of_nat (p_paddr kern i)) (p_bytes kern i) x n \<longrightarrow> load_bytes m' x n = load_bytes m x n)"
proof -
  let ?img = "writebootsect boot kern junk disk" and ?o = "p_offset kern i" and ?z = "p_filesz kern i"
  let ?c = "unat (seg_count m ph)" and ?l = "p_offset kern i div 512 + 1"
  note f = seg_fields [OF m junk b i, folded ph_def] and s = bootable_segment [OF b i]
  have "unat (seg_dest m ph) + 512 * ?c \<le> 2 ^ 32" using f(3,7) s(3) by simp
  from diskcpy_sectors [OF ata f(4,6) this, of m d] obtain d' where d':
    "diskcpy io (seg_dest m ph) (seg_sector m ph + 1) (seg_count m ph) m d
      = Inr (store_bytes m (seg_dest m ph) (concat (map (sectors a d) [?l..<?l + ?c])), d')" "sectors a d' = sectors a d"
    unfolding f(5) by blast
  have c: "?c = (?z + 511) div 512" using f(7) by (simp add: p_bytes_def)
  have "512 * (?o div 512) = ?o" using s(1) by auto
  then have len: "512 * ?l = 512 + ?o" "512 * (?l + ?c) \<le> length ?img"
  proof -
    assume o: "512 * (?o div 512) = ?o"
    then show "512 * ?l = 512 + ?o" by simp
    have "(?o + (?z + 511)) div 512 = ?o div 512 + (?z + 511) div 512"
      using s(1) by (metis div_add dvd_eq_mod_eq_0 mod_0_imp_dvd div_plus_div_distrib_dvd_left)
    then have "?o div 512 + ?c \<le> (length kern + 511) div 512"
      using s(2) unfolding c by (metis add.assoc add_le_mono1 div_le_mono)
    then have le: "512 + 512 * (?o div 512 + ?c) \<le> 512 + 512 * ((length kern + 511) div 512)" by simp
    have "512 * (?l + ?c) = 512 + 512 * (?o div 512 + ?c)" by simp
    also note le
    also have "512 + 512 * ((length kern + 511) div 512) \<le> length ?img" by (rule image_length [OF junk])
    finally show "512 * (?l + ?c) \<le> length ?img" .
  qed
  have "map (sectors a d) [?l..<?l + ?c] = map (sector_of ?img) [?l..<?l + ?c]"
  proof (rule map_cong [OF refl])
    fix l assume "l \<in> set [?l..<?l + ?c]"
    then have "l + 1 \<le> ?l + ?c" unfolding set_upt by simp
    then have "512 * l + 512 \<le> length ?img" using len(2) by simp
    then show "sectors a d l = sector_of ?img l" using disk by (simp add: on_disk_def)
  qed
  then have cc: "concat (map (sectors a d) [?l..<?l + ?c]) = take (p_bytes kern i) (drop (512 + ?o) ?img)"
    using concat_sectors [OF len(2)] by (simp only: len(1) f(7))
  let ?bs = "take (p_bytes kern i) (drop (512 + ?o) ?img)"
  have lb: "length ?bs = p_bytes kern i" using len f(7) by simp
  let ?m' = "store_bytes m (of_nat (p_paddr kern i)) ?bs"
  have "load_bytes ?m' (of_nat (p_paddr kern i)) ?z = take ?z ?bs"
    using load_bytes_inside [of "of_nat (p_paddr kern i)" "of_nat (p_paddr kern i)" ?z ?bs m] s(3,5) unfolding lb by simp
  also have "\<dots> = take ?z (drop (512 + ?o) ?img)" using s(5) by (simp add: min_def)
  also have "\<dots> = take ?z (drop ?o kern)" by (rule image_kernel [OF junk s(2)])
  finally have "load_bytes ?m' (of_nat (p_paddr kern i)) ?z = take ?z (drop ?o kern)" .
  moreover have "load_bytes ?m' x n = load_bytes m x n"
    if "n \<le> 2 ^ 64" "apart (of_nat (p_paddr kern i)) (p_bytes kern i) x n" for x n
    using that by (intro load_store_bytes_disj) (simp_all only: lb)
  ultimately show ?thesis using d' unfolding cc f(2) by blast
qed

lemma boot_segments_load:
  assumes ata: "ata io a" and junk: "length junk = 512" and b: "bootable kern" and
    "i + n = e_phnum kern" and "on_disk a (writebootsect boot kern junk disk) d"
    and "load_bytes m 0x80000 512 = sector_of (writebootsect boot kern junk disk) 1"
  shows "\<exists>m' d'. boot_segments io (0x80000 + of_nat (phdr kern i)) n m d = Inr (m', d') \<and> sectors a d' = sectors a d
    \<and> (\<forall>j. i \<le> j \<longrightarrow> loads kern j \<longrightarrow>
          load_bytes m' (of_nat (p_paddr kern j)) (p_filesz kern j) = take (p_filesz kern j) (drop (p_offset kern j) kern))
    \<and> (\<forall>x k. k \<le> 2 ^ 64 \<longrightarrow> (\<forall>j. i \<le> j \<longrightarrow> loads kern j \<longrightarrow> apart (of_nat (p_paddr kern j)) (p_bytes kern j) x k) \<longrightarrow>
          load_bytes m' x k = load_bytes m x k)"
  using assms(4-)
proof (induction n arbitrary: i m d)
  case 0
  then show ?case by (auto simp: loads_def)
next
  case (Suc n)
  let ?img = "writebootsect boot kern junk disk" and ?ph = "0x80000 + of_nat (phdr kern i) :: u64"
  have i: "i < e_phnum kern" "Suc i + n = e_phnum kern" using Suc.prems(1) by simp_all
  have "phdr kern (Suc i) \<le> phdr kern (e_phnum kern)" using i(1) by (simp add: phdr_def)
  then have small: "phdr kern (Suc i) \<le> 512" using b by (simp add: bootable_def)
  then have "unat (of_nat (0x80000 + phdr kern (Suc i)) :: u64) = 0x80000 + phdr kern (Suc i)" by (intro unat_of_nat_small) simp
  then have "ptr32 (of_nat (0x80000 + phdr kern (Suc i))) = of_nat (0x80000 + phdr kern (Suc i))" using small by (intro ptr32_small) simp
  moreover have "?ph + 56 = of_nat (0x80000 + phdr kern (Suc i))" by (simp add: phdr_def)
  moreover have "of_nat (0x80000 + phdr kern (Suc i)) = (0x80000 + of_nat (phdr kern (Suc i)) :: u64)" by simp
  ultimately have nx: "ptr32 (?ph + 56) = 0x80000 + of_nat (phdr kern (Suc i))" by (simp only:)
  show ?case
  proof (cases "loads kern i")
    case False
    have "(field 4 (phdr kern i) kern :: u32) \<noteq> 1" using False i(1) by (simp add: loads_def)
    then have "load32 m ?ph \<noteq> 1" using phdr_fields(1) [OF Suc.prems(3) junk b i(1)] by simp
    then have r: "boot_segments io ?ph (Suc n) m d = boot_segments io (0x80000 + of_nat (phdr kern (Suc i))) n m d"
      by (simp only: boot_segments.simps nx bindE_Inr prod.case if_True if_False simp_thms)
    have "i \<le> j \<and> loads kern j \<longleftrightarrow> Suc i \<le> j \<and> loads kern j" for j using False by (metis Suc_leD Suc_leI le_neq_implies_less)
    then show ?thesis using Suc.IH [OF i(2) Suc.prems(2,3)] unfolding r by metis
  next
    case True
    obtain m1 d1 where s1: "diskcpy io (seg_dest m ?ph) (seg_sector m ?ph + 1) (seg_count m ?ph) m d = Inr (m1, d1)"
      "sectors a d1 = sectors a d"
      "load_bytes m1 (of_nat (p_paddr kern i)) (p_filesz kern i) = take (p_filesz kern i) (drop (p_offset kern i) kern)"
      "\<And>x k. k \<le> 2 ^ 64 \<Longrightarrow> apart (of_nat (p_paddr kern i)) (p_bytes kern i) x k \<Longrightarrow> load_bytes m1 x k = load_bytes m x k"
      using load_segment [OF ata junk b True Suc.prems(2,3)] by blast
    have "load_bytes m1 0x80000 512 = sector_of ?img 1"
      using s1(4) [OF _ segment_apart(1) [OF b True]] Suc.prems(3) by simp
    moreover have "on_disk a ?img d1" using Suc.prems(2) s1(2) by (simp add: on_disk_def)
    ultimately obtain m' d' where s': "boot_segments io (0x80000 + of_nat (phdr kern (Suc i))) n m1 d1 = Inr (m', d')"
      "sectors a d' = sectors a d1"
      "\<And>j. Suc i \<le> j \<Longrightarrow> loads kern j \<Longrightarrow>
          load_bytes m' (of_nat (p_paddr kern j)) (p_filesz kern j) = take (p_filesz kern j) (drop (p_offset kern j) kern)"
      "\<And>x k. k \<le> 2 ^ 64 \<Longrightarrow> (\<forall>j. Suc i \<le> j \<longrightarrow> loads kern j \<longrightarrow> apart (of_nat (p_paddr kern j)) (p_bytes kern j) x k) \<Longrightarrow>
          load_bytes m' x k = load_bytes m1 x k"
      using Suc.IH [OF i(2)] by blast
    have "load32 m ?ph = 1" by (rule seg_fields(1) [OF Suc.prems(3) junk b True])
    then have r: "boot_segments io ?ph (Suc n) m d = Inr (m', d')" using s1(1) s'(1) by (simp only: boot_segments.simps nx bindE_Inr prod.case if_True if_False simp_thms)
    have keep: "load_bytes m' (of_nat (p_paddr kern i)) (p_filesz kern i) = take (p_filesz kern i) (drop (p_offset kern i) kern)"
    proof -
      have "p_filesz kern i \<le> 2 ^ 64" using bootable_segment(3,5) [OF b True] by simp
      moreover have "apart (of_nat (p_paddr kern j)) (p_bytes kern j) (of_nat (p_paddr kern i)) (p_filesz kern i)"
        if "Suc i \<le> j" "loads kern j" for j using segment_apart(2) [OF b that(2) True] that(1) by simp
      ultimately show ?thesis using s'(4) s1(3) by simp
    qed
    have "load_bytes m' (of_nat (p_paddr kern j)) (p_filesz kern j) = take (p_filesz kern j) (drop (p_offset kern j) kern)"
      if "i \<le> j" "loads kern j" for j
      using that keep s'(3) by (cases "j = i") simp_all
    moreover have "load_bytes m' x k = load_bytes m x k"
      if "k \<le> 2 ^ 64" "\<forall>j. i \<le> j \<longrightarrow> loads kern j \<longrightarrow> apart (of_nat (p_paddr kern j)) (p_bytes kern j) x k" for x k
      using that True s1(4) s'(4) by simp
    ultimately show ?thesis using r s1(2) s'(2) by (intro exI [of _ m'] exI [of _ d']) simp
  qed
qed

text \<open>
  C10.  The boot disk and the boot loader fit together: from a disk that holds the image
  \<open>writebootsect\<close> makes of a kernel file with its headers in the first sector and segments that start at
  a sector, are at most 255 sectors long and touch neither each other nor the headers at 0x80000, the
  boot loader finishes reading, has every byte of every PT_LOAD segment of the file at its physical
  address, leaves the disk as it is and jumps to the entry point of the file.  The drive is a parameter,
  with the documented behaviour \<open>ata\<close>.
\<close>

theorem boot_loads_kernel:
  assumes ata: "ata io a" and junk: "length junk = 512" and b: "bootable kern"
    and disk: "on_disk a (writebootsect boot kern junk disk) d"
  shows "\<exists>m' d'. boot_main io m d = Inr (Some (ptr32 (field 8 24 kern)), m', d') \<and> sectors a d' = sectors a d
    \<and> (\<forall>i. loads kern i \<longrightarrow>
          load_bytes m' (of_nat (p_paddr kern i)) (p_filesz kern i) = take (p_filesz kern i) (drop (p_offset kern i) kern))"
proof -
  let ?img = "writebootsect boot kern junk disk"
  have b': "64 \<le> length kern" "take 4 kern = [0x7F, 0x45, 0x4C, 0x46]" "phdr kern (e_phnum kern) \<le> 512"
    using b by (simp_all add: bootable_def)
  have l1: "512 * (1 + 1) \<le> length ?img"
    using image_length [OF junk, of kern boot disk] b'(1) div_le_mono [of 512 "length kern + 511" 512] by simp
  obtain d1 where d1: "diskcpy io 0x80000 1 1 m d = Inr (store_bytes m 0x80000 (sector_of ?img 1), d1)" "sectors a d1 = sectors a d"
    using diskcpy_sectors [OF ata, of 1 1 "0x80000" m d] disk l1 by (auto simp: on_disk_def upt_rec)
  define m1 where "m1 = store_bytes m 0x80000 (sector_of ?img 1)"
  have len: "length (sector_of ?img 1) = 512" using l1 by (simp add: sector_of_def)
  have m1: "load_bytes m1 0x80000 512 = sector_of ?img 1"
    using load_store_bytes_same [of "sector_of ?img 1" m "0x80000"] len by (simp add: m1_def)
  note hb = header_bytes [OF _ _ _ junk]
  have mag: "load_bytes m1 0x80000 4 = [0x7F, 0x45, 0x4C, 0x46]" using hb [OF m1, of 0 4] b' by simp
  have flds: "load64 m1 (0x80000 + 32) = field 8 32 kern" "load16 m1 (0x80000 + 56) = field 2 56 kern"
    using hb [OF m1, of 32 8] hb [OF m1, of 56 2] b'(1) by (simp_all add: load64_def load16_def field_def)
  have "e_phoff kern \<le> 512" using b'(3) by (simp add: phdr_def)
  then have "unat (0x80000 + field 8 32 kern :: u64) < 2 ^ 32" by (simp add: e_phoff_def unat_word_ariths)
  then have ph: "ptr32 (0x80000 + field 8 32 kern) = 0x80000 + of_nat (phdr kern 0)"
    using ptr32_small by (simp add: phdr_def e_phoff_def)
  have n: "0 + e_phnum kern = e_phnum kern" and od: "on_disk a ?img d1" using disk d1(2) by (simp_all add: on_disk_def)
  from boot_segments_load [OF ata junk b n od m1] obtain m2 d2 where
    s2: "boot_segments io (0x80000 + of_nat (phdr kern 0)) (e_phnum kern) m1 d1 = Inr (m2, d2)" "sectors a d2 = sectors a d1"
      "\<And>j. loads kern j \<Longrightarrow>
          load_bytes m2 (of_nat (p_paddr kern j)) (p_filesz kern j) = take (p_filesz kern j) (drop (p_offset kern j) kern)"
      "\<And>x k. k \<le> 2 ^ 64 \<Longrightarrow> (\<forall>j. loads kern j \<longrightarrow> apart (of_nat (p_paddr kern j)) (p_bytes kern j) x k) \<Longrightarrow>
          load_bytes m2 x k = load_bytes m1 x k"
    by auto
  have h2: "load_bytes m2 0x80000 512 = sector_of ?img 1"
    using s2(4) [of 512 "0x80000"] segment_apart(1) [OF b] m1 by simp
  then have "load64 m2 (0x80000 + 24) = field 8 24 kern"
    using hb [OF h2, of 24 8] b'(1) by (simp add: load64_def field_def)
  then have "boot_main io m d = Inr (Some (ptr32 (field 8 24 kern)), m2, d2)"
    using d1(1) [folded m1_def] s2(1) mag flds ph
    by (simp add: boot_main_def e_phnum_def load_bytes_def upt_rec)
  then show ?thesis using s2(2,3) d1(2) by auto
qed

section \<open>Witness\<close>

text \<open>A kernel of one segment of three bytes, loaded at 1 MB.\<close>

definition tiny_kernel :: "u8 list" where
  "tiny_kernel = [0x7F, 0x45, 0x4C, 0x46] @ replicate 20 0 @ [0, 0, 0x10, 0, 0, 0, 0, 0] @ [64, 0, 0, 0, 0, 0, 0, 0]
     @ replicate 16 0 @ [1, 0] @ replicate 6 0
     @ [1, 0, 0, 0] @ replicate 4 0 @ [0, 2, 0, 0, 0, 0, 0, 0] @ replicate 8 0 @ [0, 0, 0x10, 0, 0, 0, 0, 0]
     @ [3, 0, 0, 0, 0, 0, 0, 0] @ replicate 16 0 @ replicate 392 0 @ [1, 2, 3]"

lemma tiny_fields:
  "length tiny_kernel = 515" "take 4 tiny_kernel = [0x7F, 0x45, 0x4C, 0x46]" "e_phoff tiny_kernel = 64" "e_phnum tiny_kernel = 1"
  "(field 8 24 tiny_kernel :: u64) = 0x100000" "(field 4 64 tiny_kernel :: u32) = 1" "(field 8 72 tiny_kernel :: u64) = 512"
  "(field 8 88 tiny_kernel :: u64) = 0x100000" "(field 8 96 tiny_kernel :: u64) = 3" "drop 512 tiny_kernel = [1, 2, 3]"
  by (simp_all add: tiny_kernel_def e_phoff_def e_phnum_def field_def push_bit_eq_mult)

lemma tiny_segment:
  "phdr tiny_kernel i = 64 + 56 * i" "loads tiny_kernel i \<longleftrightarrow> i = 0"
  "p_offset tiny_kernel 0 = 512" "p_paddr tiny_kernel 0 = 0x100000" "p_filesz tiny_kernel 0 = 3" "p_bytes tiny_kernel 0 = 512"
  by (auto simp: phdr_def loads_def tiny_fields p_offset_def p_paddr_def p_filesz_def p_bytes_def)

lemma tiny_bootable: "bootable tiny_kernel"
  by (simp add: bootable_def tiny_fields tiny_segment)

definition tiny_disk :: ready_drive where
  "tiny_disk = \<lparr>rregs = (\<lambda>p. 0), rxfer = None,
     rsectors = (\<lambda>l. store_bytes (\<lambda>a. 0) 0 (sector_of (writebootsect [] tiny_kernel (replicate 512 0) []) l))\<rparr>"

theorem boot_loads_kernel_witness:
  "\<exists>m' d'. boot_main ready_ports (\<lambda>a. 0) tiny_disk = Inr (Some 0x100000, m', d') \<and> load_bytes m' 0x100000 3 = [1, 2, 3]"
proof -
  let ?img = "writebootsect [] tiny_kernel (replicate 512 0) []"
  have "sectors ready tiny_disk l = sector_of ?img l" if "512 * l + 512 \<le> length ?img" for l
  proof -
    have "length (sector_of ?img l) = 512" using that by (simp add: sector_of_def)
    then show ?thesis using load_store_bytes_same [of "sector_of ?img l" "\<lambda>a. 0" 0] by (simp add: ready_def tiny_disk_def)
  qed
  then have "on_disk ready ?img tiny_disk" by (simp add: on_disk_def)
  from boot_loads_kernel [OF ata_ready _ tiny_bootable this, of "\<lambda>a. 0"] obtain m' d' where
    b: "boot_main ready_ports (\<lambda>a. 0) tiny_disk = Inr (Some (ptr32 (field 8 24 tiny_kernel)), m', d')"
      "load_bytes m' (of_nat (p_paddr tiny_kernel 0)) (p_filesz tiny_kernel 0)
         = take (p_filesz tiny_kernel 0) (drop (p_offset tiny_kernel 0) tiny_kernel)"
    by (auto simp: tiny_segment)
  moreover have "ptr32 0x100000 = 0x100000" by (simp add: ptr32_small)
  ultimately show ?thesis by (simp add: tiny_fields tiny_segment)
qed

end
