(* ===== verification/Mkfs.thy ===== *)
theory Mkfs
  imports Fs
begin

text \<open>
  The program that makes the file-system image, \<^verbatim>\<open>scripts/mkxxx.c\<close>.  The image is mapped at \<open>img\<close>
  in the memory of that program; block \<open>b\<close> of the file system is at \<open>img + 4096 * b\<close>: the
  superblock in block 1, the bitmaps of free blocks and inodes in 2 and 3, the inode table from 4
  on.  The program has its own copies of the bitmap functions and of \<open>walk_block\<close> of the kernel.
  The file put into the image is the list of its bytes, and each \<open>read\<close> gives the next 4096 of
  them, as for a regular file.  A failed assertion is the fault \<open>Panic\<close>.
\<close>

section \<open>Blocks and bitmaps\<close>

definition blk_addr :: "u64 \<Rightarrow> nat \<Rightarrow> u64" where
  "blk_addr img b = img + 4096 * of_nat b"

definition mk_is_blkempty :: "mem \<Rightarrow> u64 \<Rightarrow> u32 \<Rightarrow> u32" where
  "mk_is_blkempty m bitmap no = load32 m (bitmap + 4 * ucast (no div 32)) AND push_bit (unat (no mod 32)) 1"

definition mk_get_free_no :: "mem \<Rightarrow> u64 \<Rightarrow> int" where
  "mk_get_free_no m bitmap =
     (case find (\<lambda>blkno. mk_is_blkempty m bitmap (of_nat blkno) \<noteq> 0) [0..<4096 * 8] of
        Some blkno \<Rightarrow> int blkno
      | None \<Rightarrow> - 1)"

definition mk_set_bitmap :: "u64 \<Rightarrow> u32 \<Rightarrow> mem \<Rightarrow> mem" where
  "mk_set_bitmap bitmap no m =
     (let a = bitmap + 4 * ucast (no div 32)
      in store32 m a (load32 m a AND NOT (push_bit (unat (no mod 32)) 1)))"

definition mk_walk_block :: "u64 \<Rightarrow> u64 \<Rightarrow> u32 \<Rightarrow> u64 option \<Rightarrow> int \<Rightarrow> mem \<Rightarrow> int \<times> u64 option \<times> mem" where
  "mk_walk_block img p fileno old alloc m =
     (if fileno < 10 then (0, Some (p + 10 + 2 * ucast fileno), m)
      else if fileno < 1024 * 2 + 10 then
        (let level = (fileno - 10) div 2048 + 10;
             a = p + 10 + 2 * ucast level;
             found = (\<lambda>m1. let blk = blk_addr img (unat (load16 m1 a)); level1 = (fileno - 10) mod 2048
                           in (0, Some (blk + 2 * ucast level1), m1))
         in if load16 m a = 0 then
              (if alloc = 1 then
                 (let bno = mk_get_free_no m (blk_addr img 2)
                  in if bno < 0 then (- 1, old, m)
                     else found (mk_set_bitmap (blk_addr img 2) (word_of_int bno) (store16 m a (word_of_int bno))))
               else (- 1, Some 0, m))
            else found m)
      else (0, old, m))"

section \<open>Directory entries\<close>

text \<open>\<open>strcmp\<close> of the C library against the bytes of a name without its NUL.\<close>

definition name_is :: "mem \<Rightarrow> u64 \<Rightarrow> u8 list \<Rightarrow> bool" where
  "name_is m a name \<longleftrightarrow> load_bytes m a (length name + 1) = name @ [0]"

text \<open>The entries of a directory block from \<open>j\<close> on, as in \<open>dir_search\<close>: the entry, or \<open>j\<close> at the end.\<close>

function mk_dir_search :: "(mem \<Rightarrow> u64 \<Rightarrow> bool) \<Rightarrow> mem \<Rightarrow> u64 \<Rightarrow> nat \<Rightarrow> u64 option \<times> nat" where
  "mk_dir_search hit m pdir j =
     (if j < 4096 div 16 then (if hit m pdir then (Some pdir, j) else mk_dir_search hit m (pdir + 16) (j + 1))
      else (None, j))"
  by pat_completeness auto
termination
  by (relation "measure (\<lambda>(hit, m, pdir, j). 256 - j)") auto

declare mk_dir_search.simps [simp del]

function mk_walk_path_loop :: "u64 \<Rightarrow> u8 list \<Rightarrow> nat \<Rightarrow> nat \<Rightarrow> nat \<Rightarrow> u64 option \<Rightarrow> mem \<Rightarrow> int outcome" where
  "mk_walk_path_loop img fname fileno i j diskno m =
     (if i < fileno then
        (case mk_walk_block img (blk_addr img 4) (of_nat i) diskno 0 m of (r, diskno', m1) \<Rightarrow>
           if r < 0 then Inr (- 2)
           else case diskno' of None \<Rightarrow> Inl NullPointer
           | Some a \<Rightarrow>
               if load16 m1 a \<noteq> 0 then
                 (case mk_dir_search (\<lambda>m pdir. name_is m (pdir + 2) fname) m1 (blk_addr img (unat (load16 m1 a))) j of
                    (Some e, j') \<Rightarrow> Inr 0
                  | (None, j') \<Rightarrow> mk_walk_path_loop img fname fileno (i + 1) j' diskno' m1)
               else mk_walk_path_loop img fname fileno (i + 1) j diskno' m1)
      else Inr (- 1))"
  by pat_completeness auto
termination
  by (relation "measure (\<lambda>(img, fname, fileno, i, j, diskno, m). fileno - i)") auto

declare mk_walk_path_loop.simps [simp del]

definition mk_walk_path :: "u64 \<Rightarrow> u8 list \<Rightarrow> mem \<Rightarrow> int outcome" where
  "mk_walk_path img fname m =
     mk_walk_path_loop img fname (unat (load32 m (blk_addr img 4) div 4096)) 0 0 None m"

text \<open>The search for an unused entry: the entry if one was found, else the code to return or to go on with.\<close>

function alloc_file_loop :: "u64 \<Rightarrow> nat \<Rightarrow> nat \<Rightarrow> nat \<Rightarrow> u64 option \<Rightarrow> mem \<Rightarrow> (int \<times> u64 option \<times> u64 option \<times> mem) outcome" where
  "alloc_file_loop img fileno i j diskno m =
     (if i < fileno then
        (case mk_walk_block img (blk_addr img 4) (of_nat i) diskno 1 m of (r, diskno', m1) \<Rightarrow>
           if r < 0 then Inr (- 2, None, diskno', m1)
           else case diskno' of None \<Rightarrow> Inl NullPointer
           | Some a \<Rightarrow>
               if load16 m1 a \<noteq> 0 then
                 (case mk_dir_search (\<lambda>m pdir. m (pdir + 2) = 0) m1 (blk_addr img (unat (load16 m1 a))) j of
                    (Some e, j') \<Rightarrow> Inr (0, Some e, diskno', m1)
                  | (None, j') \<Rightarrow> alloc_file_loop img fileno (i + 1) j' diskno' m1)
               else alloc_file_loop img fileno (i + 1) j diskno' m1)
      else Inr (0, None, diskno, m))"
  by pat_completeness auto
termination
  by (relation "measure (\<lambda>(img, fileno, i, j, diskno, m). fileno - i)") auto

declare alloc_file_loop.simps [simp del]

definition alloc_file :: "u64 \<Rightarrow> mem \<Rightarrow> (int \<times> u64 option \<times> mem) outcome" where
  "alloc_file img m =
     (let p = blk_addr img 4; size = load32 m p; fileno = size div 4096
      in if size mod 4096 \<noteq> 0 then Inl Panic
         else bindE (alloc_file_loop img (unat fileno) 0 0 None m) (\<lambda>(r, e, diskno, m1).
           if r < 0 then Inr (r, None, m1)
           else case e of
             Some pdir \<Rightarrow> Inr (0, Some pdir, m1)
           | None \<Rightarrow>
               (case mk_walk_block img p fileno diskno 1 m1 of (r2, diskno', m2) \<Rightarrow>
                  if r2 < 0 then Inr (- 2, None, m2)
                  else let bno = mk_get_free_no m2 (blk_addr img 2)
                       in if bno < 0 then Inr (- 1, None, m2)
                          else case diskno' of None \<Rightarrow> Inl NullPointer
                          | Some a \<Rightarrow>
                              let m3 = store32 m2 p (load32 m2 p + 4096);
                                  m4 = store16 m3 a (word_of_int bno)
                              in Inr (0, Some (blk_addr img (nat bno)), mk_set_bitmap (blk_addr img 2) (word_of_int bno) m4))))"

section \<open>Writing a file\<close>

text \<open>
  The inner loop of \<open>write_file\<close> over the bytes \<open>bs\<close> of one \<open>read\<close>, of which \<open>k\<close> have been
  written; \<open>i\<close> runs from \<open>offset\<close> to \<open>count + offset\<close>.  A round that would not advance, or would
  copy a negative number of bytes, is the fault \<open>BadIndex\<close>.
\<close>

function write_chunk :: "u64 \<Rightarrow> u64 \<Rightarrow> u8 list \<Rightarrow> int \<Rightarrow> int \<Rightarrow> nat \<Rightarrow> u64 option \<Rightarrow> mem \<Rightarrow> (int \<times> u64 option \<times> mem) outcome" where
  "write_chunk img pino bs offset i k diskno m =
     (if i < int (length bs) + offset then
        (let bn = (if 4096 - i < int (length bs) - i then 4096 - i else int (length bs) - i);
             fileno = load32 m pino div 4096
         in case mk_walk_block img pino fileno diskno 1 m of (r, diskno', m1) \<Rightarrow>
              if r < 0 then Inr (- 1, diskno', m1)
              else case diskno' of None \<Rightarrow> Inl NullPointer
              | Some a \<Rightarrow>
                  let fresh = load16 m1 a = 0; bno = (if fresh then mk_get_free_no m1 (blk_addr img 2) else uint (load16 m1 a))
                  in if bno < 0 then Inr (- 1, diskno', m1)
                     else let m2 = (if fresh then mk_set_bitmap (blk_addr img 2) (word_of_int bno) (store16 m1 a (word_of_int bno)) else m1)
                          in if bn \<le> 0 then Inl BadIndex
                             else let m3 = store_bytes m2 (blk_addr img (nat bno) + word_of_int (i mod 4096)) (take (nat bn) (drop k bs));
                                      m4 = store32 m3 pino (load32 m3 pino + word_of_int bn)
                                  in write_chunk img pino bs offset (i + bn) (k + nat bn) diskno' m4)
      else Inr (0, diskno, m))"
  by pat_completeness auto
termination
  by (relation "measure (\<lambda>(img, pino, bs, offset, i, k, diskno, m). nat (int (length bs) + offset - i))") (auto split: if_splits)

declare write_chunk.simps [simp del]

text \<open>The outer loop: one \<open>read\<close> of up to 4096 bytes after the other.\<close>

function write_file_loop :: "u64 \<Rightarrow> u64 \<Rightarrow> u8 list \<Rightarrow> u64 option \<Rightarrow> mem \<Rightarrow> (int \<times> mem) outcome" where
  "write_file_loop img pino bytes diskno m =
     (if bytes = [] then Inr (0, m)
      else let offset = uint (load32 m pino mod 4096)
           in bindE (write_chunk img pino (take 4096 bytes) offset offset 0 diskno m) (\<lambda>(r, diskno', m1).
              if r < 0 then Inr (- 1, m1) else write_file_loop img pino (drop 4096 bytes) diskno' m1))"
  by pat_completeness auto
termination
  by (relation "measure (\<lambda>(img, pino, bytes, diskno, m). length bytes)") auto

declare write_file_loop.simps [simp del]

definition write_file :: "u64 \<Rightarrow> u8 list option \<Rightarrow> u64 \<Rightarrow> mem \<Rightarrow> (int \<times> mem) outcome" where
  "write_file img content pino m =
     (case content of None \<Rightarrow> Inr (- 1, m) | Some bytes \<Rightarrow> write_file_loop img pino bytes None m)"

text \<open>\<open>strncpy(dst, name, 14)\<close>.\<close>

definition name_field :: "u8 list \<Rightarrow> u8 list" where
  "name_field name = take 14 name @ replicate (14 - length name) 0"

definition create_file_image :: "u64 \<Rightarrow> u8 list \<Rightarrow> u8 list option \<Rightarrow> mem \<Rightarrow> (int \<times> mem) outcome" where
  "create_file_image img name content m =
     bindE (mk_walk_path img name m) (\<lambda>r.
       if r \<noteq> - 1 then Inr (- 1, m)
       else bindE (alloc_file img m) (\<lambda>(r2, pdir, m1).
         if r2 < 0 then Inr (- 1, m1)
         else let ino = mk_get_free_no m1 (blk_addr img 3)
              in if ino < 0 then Inr (- 1, m1)
                 else case pdir of None \<Rightarrow> Inl NullPointer
                 | Some e \<Rightarrow>
                     let m2 = mk_set_bitmap (blk_addr img 3) (word_of_int ino) m1;
                         pinode = blk_addr img 4 + 32 * word_of_int ino;
                         m3 = store32 m2 pinode 0;
                         m4 = store16 m3 (pinode + 6) 0;
                         m5 = store16 m4 e (word_of_int ino);
                         m6 = store_bytes m5 (e + 2) (name_field name)
                     in bindE (write_file img content pinode m6) (\<lambda>(r3, m7). Inr (0, m7))))"

section \<open>The whole image\<close>

text \<open>\<open>IMGSIZE\<close> as it is written, with 4906 for 4096.\<close>

definition IMGSIZE :: nat where
  "IMGSIZE = 8 * 4096 * 4906"

definition INOSIZE :: nat where
  "INOSIZE = 10 * 4096"

definition super_bytes :: "u8 list" where
  "super_bytes =
     bytes_of_word 4 (of_nat (INOSIZE div 32) :: u32) @ bytes_of_word 4 (of_nat (IMGSIZE div 4096) :: u32)
     @ bytes_of_word 4 (of_nat (INOSIZE div 32) :: u32) @ bytes_of_word 4 (of_nat (IMGSIZE div 4096) :: u32)
     @ bytes_of_word 4 (4096 :: u32) @ bytes_of_word 2 (0 :: u16) @ [0x58, 0x59] @ bytes_of_word 4 (1 :: u32)
     @ replicate (4 * (1024 - 7)) 0"

definition mk_main :: "u64 \<Rightarrow> u8 list \<Rightarrow> u8 list option \<Rightarrow> mem \<Rightarrow> mem outcome" where
  "mk_main img name content m =
     (let m1 = store_bytes m (blk_addr img 1) super_bytes;
          m2 = store_bytes m1 (blk_addr img 2) (replicate 4096 0xFF);
          m3 = store_bytes m2 (blk_addr img 3) (replicate 4096 0xFF);
          m4 = fold (\<lambda>i. mk_set_bitmap (blk_addr img 2) (of_nat i)) [0..<14] m3;
          m5 = store_bytes m4 (blk_addr img 4) (replicate 32 0);
          m6 = store32 m5 (blk_addr img 4) 0;
          m7 = store16 m6 (blk_addr img 4 + 6) 1;
          m8 = mk_set_bitmap (blk_addr img 3) 0 m7
      in bindE (create_file_image img name content m8) (\<lambda>(r, m9). Inr m9))"

end
