(* ===== verification/Init.thy ===== *)
theory Init
  imports Reading Irq User Isolation I386 Loader Boot Mkfs
begin

text \<open>
  The start of the kernel, \<^verbatim>\<open>kernel/init.c\<close>, in the configuration the makefile selects (the guest
  configuration, without SMP and VMX), and \<open>spawn_proc\<close> of \<^verbatim>\<open>kernel/proc.c\<close>.
\<close>

text \<open>The image of the first program: its address and its size.\<close>

definition spawn_proc :: "u64 \<Rightarrow> u32 \<Rightarrow> ('d, 'a) kproc_scheme \<Rightarrow> (int, ('d, 'a) kproc_scheme) kres" where
  "spawn_proc start len s = create_proc start len s"

text \<open>
  \<open>kernmain\<close>: as the first process is entered from \<open>spawn_proc\<close> and never returns there, the loop
  behind it is not reached.  The descriptor tables are a state of their own, set up by \<open>init_trap\<close>
  between \<open>init_proc\<close> and \<open>init_pic\<close>.  The process table is the zeroed area of 1024 entries \<open>init_mem\<close> leaves.
\<close>

definition kernmain :: "'d ports \<Rightarrow> boot_env \<Rightarrow> u64 \<Rightarrow> (u8 \<Rightarrow> u64) \<Rightarrow> u64 \<Rightarrow> u32 \<Rightarrow> cpu_tables \<Rightarrow> ('d, 'a) kproc_scheme
    \<Rightarrow> cpu_tables \<times> (int, ('d, 'a) kproc_scheme) kres" where
  "kernmain io b tss handler start len t s =
     (init_trap tss handler t,
      case
        (case init_console io (dev s) (kcon s) of
           Inl e \<Rightarrow> Inl e
         | Inr (k, d) \<Rightarrow>
             bindE (print (''start my os'' @ [CHR 0x0A]) [] k) (\<lambda>(n, k1).
             bindE (init_mem b (s\<lparr>kcon := k1, dev := d\<rparr>)) (\<lambda>s1.
               let s2 = init_proc (s1\<lparr>procs := replicate 1024 zero_proc\<rparr>);
                   s3 = s2\<lparr>dev := init_pit io (init_pic io (dev s2))\<rparr>
               in bindE (init_fs io s3) (\<lambda>s4. Inr (init_files s4))))) of
        Inl e \<Rightarrow> Crash e
      | Inr s5 \<Rightarrow> spawn_proc start len s5)"

end
