(* ===== verification/Spec2Isabelle.thy ===== *)
theory Spec2Isabelle
  imports Init
begin

text \<open>
  A verification library for the x86-64 kernel under \<^verbatim>\<open>src/\<close>: its boot loader, the kernel as the makefile
  configures it (\<^verbatim>\<open>ARCH=amd64\<close>, the guest configuration; the code of the VMX configuration and the 32-bit variants of the page tables and descriptors are modelled as
  well), the user side of its system calls, and the programs that make its disk.


  \<^bold>\<open>The program.\<close>  The boot loader (\<^verbatim>\<open>boot/main.c\<close>) reads the kernel from the disk \<^verbatim>\<open>scripts/writebootsect.c\<close>
  wrote.  \<open>kernmain\<close> (\<^verbatim>\<open>kernel/init.c\<close>) sets up the screen, the pages of memory, the page cache, the process table, the
  descriptor tables, the interrupt controllers, the disk and the file system \<^verbatim>\<open>scripts/mkxxx.c\<close> made, and enters
  the first process.  From then on the kernel runs in traps: system calls, page faults, the timer, the
  keyboard.  Everything rests on the page allocator, the page tables and the byte copies between kernel and user
  addresses.


  \<^bold>\<open>The state\<close> is one record per component, each extending the one below: memory, pool and page descriptors
  (\<open>kmm\<close>), the drive and the file system's pointers (\<open>kfs\<close>), the page cache (\<open>kcache\<close>), processes, the
  current process, open files and the console (\<open>kproc\<close>), the virtual machine (\<open>kvmx\<close>), the cores (\<open>ksmp\<close>).  An
  operation takes the state and returns it changed.  A pointer to a page descriptor, process or open file is an
  index, a null pointer is \<open>None\<close> or 0; other pointers are 64-bit words into the byte memory.


  \<^bold>\<open>The theories\<close>, in the order of the imports.

  \<^item> \<open>Prelude\<close>: the C integers as words; \<open>outcome\<close>, a value or the fault that stops the code; memory, its loads and
    stores; \<open>ensures\<close>, postconditions carried through a handler; the port instructions as a parameter.
  \<^item> \<open>CLib\<close>: \<open>memset\<close>, \<open>memcpy\<close>, \<open>strcmp\<close> of \<^verbatim>\<open>lib/lib.c\<close>, with closed forms of their loops.
  \<^item> \<open>Mm\<close>: \<^verbatim>\<open>kernel/mm.c\<close> without the page tables: allocation, reference counts, the boot-time layout.  The free list is
    abstracted to a set of frames; the locale \<open>page_pool\<close> is the allocator's contract, interpreted on the code.
  \<^item> \<open>Paging\<close>: the four-level page tables.  A table is a tree of pages below a root (\<open>pt_inv\<close>, \<open>tables\<close>), its abstraction
    the entry of each user address (\<open>pte_of\<close>); insertion and removal are updates of that map, and do not touch another tree.
  \<^item> \<open>Mmu\<close>: copies by user addresses, byte by byte through the page tables.
  \<^item> \<open>Console\<close>: \<^verbatim>\<open>kernel/console.c\<close>: screen, \<open>print\<close>, keyboard; a display and a queue (\<open>bounded_fifo\<close>) as abstractions.
  \<^item> \<open>Ide\<close>: \<^verbatim>\<open>kernel/ide.c\<close>; \<open>ata\<close> is the documented behaviour of a drive, the hypothesis of all statements on disk contents.
  \<^item> \<open>Fs\<close>, \<open>Cache\<close>: \<^verbatim>\<open>kernel/fs.c\<close> (bitmaps under the locale \<open>number_map\<close>, block map, root directory) and \<^verbatim>\<open>kernel/cache.c\<close>.
  \<^item> \<open>Proc\<close>, \<open>Window\<close>, \<open>Fork\<close>, \<open>Destroy\<close>: \<^verbatim>\<open>kernel/proc.c\<close>: table, address spaces, scheduler, fork, wait, exit; the part of a
    space user programs have (\<open>confined\<close>) and what page-table operations leave alone (\<open>keeps\<close>); what fork makes of the two spaces, and
    that \<open>destroy_vm\<close> gives everything back.
  \<^item> \<open>File\<close>, \<open>Descriptors\<close>, \<open>Reading\<close>: \<^verbatim>\<open>kernel/file.c\<close>; the descriptors under sequences of calls; \<open>sys_read\<close> from the
    call to the drive and back into the user's page.
  \<^item> \<open>Exec\<close>: \<^verbatim>\<open>kernel/exec.c\<close>.
  \<^item> \<open>Vmx\<close>: \<^verbatim>\<open>kernel/amd64/vmx.c\<close>: set-up of a virtual CPU, guest memory, exits, and the loop of the monitor around a guest that is a
    parameter; after a VM exit \<open>vmexit\<close> runs on a stack that is not its own, and does not return (\<open>WildReturn\<close>).  \<open>Guest\<close>: \<open>sys_mmap_mem\<close>, from the caller's page into the guest's.
  \<^item> \<open>Trap\<close>, \<open>Fault\<close>: \<^verbatim>\<open>kernel/syscall.c\<close>, \<^verbatim>\<open>kernel/amd64/trap.c\<close>: dispatcher, descriptor tables, trap handler; what a
    page fault does to the address space.
  \<^item> \<open>Sharing\<close>, \<open>Spaces\<close>, \<open>System\<close>, \<open>Isolation\<close>: all processes together.  Who maps which frame (\<open>sharing_ok\<close>), the address spaces of
    all processes (\<open>spaces_ok\<close>), the process table with them (\<open>system_ok\<close>), and a step relation (\<open>uninterrupted_step\<close>: certain traps,
    each from its beginning to its end, and stores of user programs) that refines processes with private memories (\<open>private_step\<close>), by the locale
    \<open>private_view\<close>; and what an interrupt inside the handler of a page fault does.
  \<^item> \<open>I386\<close>: what the 32-bit build has of its own: the page tables of \<^verbatim>\<open>x86/entry.S\<close> and the copies \<open>alloc_vm\<close> makes of them, two-level page tables as map updates, \<open>destroy_vm\<close>, which frees a table once per
    address, the gates and the task-state segment (with \<open>Trap\<close> under the locale \<open>gate_format\<close>), page faults.
  \<^item> \<open>Irq\<close>: \<^verbatim>\<open>kernel/pic.c\<close>, \<^verbatim>\<open>kernel/pit.c\<close>, \<^verbatim>\<open>kernel/lapic.c\<close>.
  \<^item> \<open>User\<close>, \<open>Vmexec\<close>, \<open>Loader\<close>: \<^verbatim>\<open>lib/syscall.c\<close> and \<open>getline\<close> of \<^verbatim>\<open>user/init.c\<close>; the user programs, with \<^verbatim>\<open>user/vmexec.c\<close>, the loader of
    a guest, as the system calls they make; the calls of the loader run through the trap handler (\<open>run_calls\<close>), \<open>sys_lseek\<close>, \<open>sys_read\<close> and
    \<open>sys_mmap_mem\<close>.
  \<^item> \<open>Boot\<close>, \<open>Mkfs\<close>, \<open>Init\<close>: \<^verbatim>\<open>boot/main.c\<close>, \<^verbatim>\<open>scripts/writebootsect.c\<close>, \<^verbatim>\<open>scripts/mkxxx.c\<close>, \<^verbatim>\<open>kernel/init.c\<close>.


  \<^bold>\<open>What the properties show.\<close>  Memory management: the boot-time pool, allocation and release as a pool of
  frames with reference counts, page-table updates as map updates that leave other address spaces alone.  On top of it:
  fork shares every page copy-on-write with the counts to match, a write fault makes a private copy, an access to an absent page
  a zeroed one, \<open>destroy_vm\<close> returns every table and one reference per mapping.  Put together: under any sequence of stores of
  user programs, timer and keyboard interrupts, page faults in the window with pages to spare, and the calls \<open>fork\<close>, \<open>exit\<close>, \<open>yield\<close>, \<open>waitpid\<close>,
  \<open>lseek\<close>, \<open>tprintf\<close> and \<open>opencons\<close>, each of them run to its end, the system stays in order, each process behaves as if it had a memory of
  its own, and no other process changes it.  Two ways around this are properties too: the kernel's own stores, as it leaves CR0.WP clear, and an
  interrupt inside the handler of a page fault, whose gate leaves interrupts enabled.  The calls that store to user memory, \<open>execve\<close> and those of the
  virtual machine are outside this part.  Guests: their memory is distinct zeroed frames,
  \<open>sys_mmap_mem\<close> copies the bytes of the caller into it, and the loader \<open>vmexec\<close> brings every page-aligned segment of the first ten blocks of a file there.  Control: the user's stubs reach their handlers, the
  processor finds every handler's address in the gates, the scheduler is round robin, the monitor handles each exit of a guest, field by field.  Storage: what the boot disk holds is loaded byte for byte; the driver moves the sectors asked for, files are found and read, and where
  the code does not do what it means to, the property states what it does (reads across a block boundary, descriptors other than
  0, the eleventh process, the ninth processor).  Console: numerals, the display and the keyboard.


  \<^bold>\<open>Bounds and loops.\<close>  Frame numbers are below \<open>2 ^ 18\<close>, so that the direct map does not wrap.  A
  loop with a counter is structural recursion or \<open>function\<close> with a measure; a loop that may not end (polling, the
  scheduler, the monitor, reads and writes whose step is computed) is \<open>partial_function (option)\<close>, \<open>None\<close> being a loop that does
  not end, and that it ends is part of the property.  No fuel is used.


  \<^bold>\<open>Conventions.\<close>  \<open>hlt\<close> ends a kernel activation as \<open>Idle\<close>.  Diagnostic output of components other than the console is left out.  A field of a
  VMCS is read back as it was written; its high half, where the code writes it, is a field of its own.  The
  changes of RFLAGS around \<open>sti\<close> in \<open>handle_intr\<close> are left out.  An access outside an
  array is a fault (\<open>BadIndex\<close>) although the C code would go on.


  \<^bold>\<open>Not modelled\<close>: the assembly (entry stubs, start of the cores, the page tables of \<^verbatim>\<open>head.S\<close>), linker scripts and build
  files; of the i386 branches, which the makefile does not compile, what is around the page fault in \<open>do_trap\<close>, \<open>run_proc\<close> and the scattered conditional lines; \<^verbatim>\<open>scripts/binto.c\<close>; the prompt loop of
  \<^verbatim>\<open>user/init.c\<close> around its system calls; the TLB.  The gates of
  the interrupts and of the system calls keep interrupts disabled in their handlers; those of the exceptions do not, and of the interrupts that can come there
  only the timer inside the handler of a page fault is looked at (\<open>fault_handler_preempted\<close>).  A user program's own stores between its system calls
  are left out where its calls are run.
\<close>

end
